(* ===== verification/Prelude.thy ===== *)
theory Prelude
  imports Main "HOL-Library.Word"
begin

text \<open>
  Shared vocabulary of the development: the machine integer types of the code, the C++
  integer conversions it uses, and the lemmas on words and lists that several components need.

  \<^item> \<open>uint8\<close> .. \<open>uint64\<close> are words of their width, so \<open>+\<close>, \<open>-\<close> and \<open>*\<close> wrap as in C++;
  \<^item> a C++ \<open>int\<close> is a HOL \<open>int\<close>; where the code converts an unsigned value to \<open>int\<close> or where
    a signed product can leave the 32 bit range, the conversion \<open>to_int32\<close> is written out;
  \<^item> the sentinel \<open>-1\<close> of an unsigned parameter ("up to the end", "no limit") is the word \<open>- 1\<close>.
\<close>

unbundle bit_operations_syntax

type_synonym uint8 = "8 word"
type_synonym uint16 = "16 word"
type_synonym uint32 = "32 word"
type_synonym uint64 = "64 word"
type_synonym bytes = "uint8 list"

text \<open>
  Collections of rewrite rules. \<open>qmap_rules\<close>: the ordered map; \<open>range_rules\<close>: range maps;
  \<open>buffer_rules\<close>: the byte buffer; \<open>tree_rules\<close>: hash trees.
\<close>

named_theorems qmap_rules "facts about the ordered map model"
named_theorems range_rules "facts about range maps"
named_theorems buffer_rules "facts about the byte buffer"
named_theorems tree_rules "facts about hash trees"

section \<open>C++ integers\<close>

definition to_int32 :: "int \<Rightarrow> int" where
  "to_int32 i = (i + 2147483648) mod 4294967296 - 2147483648"

lemma to_int32_id: "- 2147483648 \<le> i \<Longrightarrow> i < 2147483648 \<Longrightarrow> to_int32 i = i"
  by (simp add: to_int32_def)

lemma to_int32_lower: "- 2147483648 \<le> to_int32 i"
  by (simp add: to_int32_def)

lemma to_int32_upper: "to_int32 i < 2147483648"
  by (simp add: to_int32_def)

definition int_max :: int where
  "int_max = 2147483647"

text \<open>Integer division of C++ rounds towards zero.\<close>

definition cdiv :: "int \<Rightarrow> int \<Rightarrow> int" where
  "cdiv a b = sgn a * sgn b * (\<bar>a\<bar> div \<bar>b\<bar>)"

lemma cdiv_nonneg: "0 \<le> a \<Longrightarrow> 0 < b \<Longrightarrow> cdiv a b = a div b"
  by (cases "a = 0") (simp_all add: cdiv_def)

section \<open>Words\<close>

lemma word_succ_le: "(p :: 'a::len word) < k \<Longrightarrow> p + 1 \<le> k"
  by (rule inc_le)

lemma word_succ_le_iff: "p \<noteq> - 1 \<Longrightarrow> (p + 1 \<le> k) = ((p :: 'a::len word) < k)"
  by (simp add: inc_less_eq_iff)

lemma word_less_succ_iff: "p \<noteq> - 1 \<Longrightarrow> (k < p + 1) = ((k :: 'a::len word) \<le> p)"
  by (simp add: inc_less_eq_iff flip: not_le)

lemma unat_lt2p: "unat (w :: 'a::len word) < 2 ^ LENGTH('a)"
  by (rule unsigned_less)

lemma unat_of_nat_eq: "n < 2 ^ LENGTH('a) \<Longrightarrow> unat (of_nat n :: 'a::len word) = n"
  by (simp add: unat_of_nat)

lemma word_less_max: "(p :: 'a::len word) < k \<Longrightarrow> p \<noteq> - 1"
  using word_order.extremum_strict by auto

lemma word_ne_max_less: "(p :: 'a::len word) \<noteq> - 1 \<Longrightarrow> p < - 1"
  by (simp add: word_order.not_eq_extremum)

end
