(* ===== verification/QMap.thy ===== *)
theory QMap
  imports Prelude
begin

text \<open>
  The ordered map of the container library (\<open>QMap\<close>, \<open>std::map\<close>) as the code uses it: a list of
  key/value nodes in ascending key order. An iterator is the key of the node it stands on
  (\<open>None\<close> is \<open>end()\<close>), because these iterators stay on their node when other nodes are inserted
  or erased. \<open>qm_lower\<close> is \<open>lowerBound\<close>, \<open>qm_next\<close> is \<open>++\<close>, \<open>qm_prev\<close> is \<open>--\<close>.
  The lemmas characterise each operation by the set of keys and by \<open>map_of\<close>.
\<close>

type_synonym ('k, 'v) qmap = "('k \<times> 'v) list"

definition qkeys :: "('k, 'v) qmap \<Rightarrow> 'k set" where
  "qkeys m = set (map fst m)"

definition qwf :: "('k::linorder, 'v) qmap \<Rightarrow> bool" where
  "qwf m = sorted_wrt (<) (map fst m)"

definition head_key :: "('k, 'v) qmap \<Rightarrow> 'k option" where
  "head_key m = (case m of [] \<Rightarrow> None | e # _ \<Rightarrow> Some (fst e))"

definition qm_lower :: "('k::linorder, 'v) qmap \<Rightarrow> 'k \<Rightarrow> 'k option" where
  "qm_lower m k = head_key (dropWhile (\<lambda>e. fst e < k) m)"

definition qm_next :: "('k::linorder, 'v) qmap \<Rightarrow> 'k \<Rightarrow> 'k option" where
  "qm_next m k = head_key (dropWhile (\<lambda>e. fst e \<le> k) m)"

definition qm_prev :: "('k::linorder, 'v) qmap \<Rightarrow> 'k \<Rightarrow> 'k option" where
  "qm_prev m k = head_key (rev (takeWhile (\<lambda>e. fst e < k) m))"

definition qm_first :: "('k, 'v) qmap \<Rightarrow> 'k option" where
  "qm_first m = head_key m"

definition qm_last :: "('k, 'v) qmap \<Rightarrow> 'k option" where
  "qm_last m = head_key (rev m)"

fun qm_insert :: "'k::linorder \<Rightarrow> 'v \<Rightarrow> ('k, 'v) qmap \<Rightarrow> ('k, 'v) qmap" where
  "qm_insert k v [] = [(k, v)]"
| "qm_insert k v ((a, x) # m) =
     (if k < a then (k, v) # (a, x) # m
      else if k = a then (k, v) # m
      else (a, x) # qm_insert k v m)"

definition qm_erase :: "'k \<Rightarrow> ('k, 'v) qmap \<Rightarrow> ('k, 'v) qmap" where
  "qm_erase k m = filter (\<lambda>e. fst e \<noteq> k) m"

text \<open>Writing through an iterator: the node keeps its key.\<close>

definition qm_update :: "'k \<Rightarrow> ('v \<Rightarrow> 'v) \<Rightarrow> ('k, 'v) qmap \<Rightarrow> ('k, 'v) qmap" where
  "qm_update k f m = map (\<lambda>e. if fst e = k then (fst e, f (snd e)) else e) m"

definition qm_value :: "('k, 'v) qmap \<Rightarrow> 'v \<Rightarrow> 'k \<Rightarrow> 'v" where
  "qm_value m d k = (case map_of m k of None \<Rightarrow> d | Some v \<Rightarrow> v)"

section \<open>Well-formedness\<close>

lemma qkeys_Nil [simp]: "qkeys [] = {}"
  by (simp add: qkeys_def)

lemma qkeys_Cons [simp]: "qkeys (e # m) = insert (fst e) (qkeys m)"
  by (simp add: qkeys_def)

lemma qkeys_empty_iff [simp]: "(qkeys m = {}) = (m = [])"
  by (simp add: qkeys_def)

lemma finite_qkeys [simp]: "finite (qkeys m)"
  by (simp add: qkeys_def)

lemma qwf_Nil [simp]: "qwf []"
  by (simp add: qwf_def)

lemma qwf_Cons [simp]: "qwf (e # m) = ((\<forall>x \<in> qkeys m. fst e < x) \<and> qwf m)"
  by (auto simp add: qwf_def qkeys_def)

lemma qwf_distinct: "qwf m \<Longrightarrow> distinct (map fst m)"
  by (simp add: qwf_def strict_sorted_iff)

lemma map_of_dom [simp]: "(map_of m k = None) = (k \<notin> qkeys m)"
  by (simp add: map_of_eq_None_iff qkeys_def)

lemma qkeys_Some: "k \<in> qkeys m \<Longrightarrow> \<exists>v. map_of m k = Some v"
  by (meson map_of_dom not_None_eq)

lemma Some_qkeys: "map_of m k = Some v \<Longrightarrow> k \<in> qkeys m"
  using map_of_dom [of m k] by force

lemma qkeys_insert [simp]: "qkeys (qm_insert k v m) = insert k (qkeys m)"
  by (induction k v m rule: qm_insert.induct) auto

lemma qwf_insert: "qwf m \<Longrightarrow> qwf (qm_insert k v m)"
proof (induction k v m rule: qm_insert.induct)
  case (2 k v a x m)
  then show ?case
    using qkeys_insert [of k v m] by (auto simp del: qkeys_insert)
qed simp

lemma map_of_insert: "map_of (qm_insert k v m) = (map_of m)(k \<mapsto> v)"
  by (induction k v m rule: qm_insert.induct) (auto simp: fun_eq_iff)

lemma qkeys_erase [simp]: "qkeys (qm_erase k m) = qkeys m - {k}"
  by (auto simp: qm_erase_def qkeys_def)

lemma qwf_erase: "qwf m \<Longrightarrow> qwf (qm_erase k m)"
proof (induction m)
  case (Cons e m)
  then show ?case
    using qkeys_erase [of k m] by (auto simp: qm_erase_def simp del: qkeys_erase)
qed (simp add: qm_erase_def)

lemma map_of_erase: "map_of (qm_erase k m) = (map_of m)(k := None)"
  by (induction m) (auto simp: qm_erase_def fun_eq_iff)

lemma map_fst_update [simp]: "map fst (qm_update k f m) = map fst m"
  by (induction m) (auto simp: qm_update_def)

lemma qkeys_update [simp]: "qkeys (qm_update k f m) = qkeys m"
  by (simp only: qkeys_def map_fst_update)

lemma qwf_update [simp]: "qwf (qm_update k f m) = qwf m"
  by (simp add: qwf_def)

lemma map_of_update: "map_of (qm_update k f m) x =
    (if x = k then map_option f (map_of m x) else map_of m x)"
  by (induction m) (auto simp: qm_update_def)

section \<open>Iterator steps by keys\<close>

text \<open>\<open>is_least P a S\<close>: \<open>a\<close> is the least element of \<open>S\<close> that satisfies \<open>P\<close>.\<close>

lemma head_key_dropWhile_Some:
  assumes "qwf m" and "\<And>a b. a \<le> b \<Longrightarrow> P b \<Longrightarrow> P a"
  shows "head_key (dropWhile (\<lambda>e. P (fst e)) m) = Some a \<longleftrightarrow>
    a \<in> qkeys m \<and> \<not> P a \<and> (\<forall>b \<in> qkeys m. \<not> P b \<longrightarrow> a \<le> b)"
  using assms(1)
proof (induction m)
  case Nil
  then show ?case by (simp add: head_key_def)
next
  case (Cons e m)
  show ?case
  proof (cases "P (fst e)")
    case True
    then show ?thesis using Cons by auto
  next
    case False
    then show ?thesis
      using Cons.prems by (auto simp: head_key_def intro: less_imp_le antisym)
  qed
qed

lemma head_key_dropWhile_None:
  "head_key (dropWhile (\<lambda>e. P (fst e)) m) = None \<longleftrightarrow> (\<forall>b \<in> qkeys m. P b)"
  by (induction m) (auto simp: head_key_def)

lemma qm_lower_Some: "qwf m \<Longrightarrow> qm_lower m k = Some a \<longleftrightarrow>
    a \<in> qkeys m \<and> k \<le> a \<and> (\<forall>b \<in> qkeys m. k \<le> b \<longrightarrow> a \<le> b)"
  unfolding qm_lower_def
  using head_key_dropWhile_Some [of m "\<lambda>x. x < k" a] by (auto simp: not_less)

lemma qm_lower_None: "qm_lower m k = None \<longleftrightarrow> (\<forall>b \<in> qkeys m. b < k)"
  unfolding qm_lower_def using head_key_dropWhile_None [of "\<lambda>x. x < k" m] by simp

lemma qm_next_Some: "qwf m \<Longrightarrow> qm_next m k = Some a \<longleftrightarrow>
    a \<in> qkeys m \<and> k < a \<and> (\<forall>b \<in> qkeys m. k < b \<longrightarrow> a \<le> b)"
  unfolding qm_next_def
  using head_key_dropWhile_Some [of m "\<lambda>x. x \<le> k" a] by (auto simp: not_le)

lemma qm_next_None: "qm_next m k = None \<longleftrightarrow> (\<forall>b \<in> qkeys m. b \<le> k)"
  unfolding qm_next_def using head_key_dropWhile_None [of "\<lambda>x. x \<le> k" m] by simp

lemma qm_first_Some: "qwf m \<Longrightarrow> qm_first m = Some a \<longleftrightarrow>
    a \<in> qkeys m \<and> (\<forall>b \<in> qkeys m. a \<le> b)"
  unfolding qm_first_def
  using head_key_dropWhile_Some [of m "\<lambda>x. False" a] by (simp add: dropWhile_eq_self_iff [THEN iffD2])

lemma last_key_sorted:
  assumes "qwf m"
  shows "head_key (rev m) = Some a \<longleftrightarrow> a \<in> qkeys m \<and> (\<forall>b \<in> qkeys m. b \<le> a)"
proof (cases m rule: rev_cases)
  case Nil
  then show ?thesis by (simp add: head_key_def)
next
  case (snoc ys e)
  with assms have "\<forall>b \<in> qkeys ys. b < fst e"
    by (auto simp: qwf_def sorted_wrt_append qkeys_def)
  moreover from snoc have "qkeys m = insert (fst e) (qkeys ys)"
    by (auto simp: qkeys_def)
  ultimately show ?thesis using snoc
    by (auto simp: head_key_def intro: less_imp_le dest: leD)
qed

lemma qm_last_Some: "qwf m \<Longrightarrow> qm_last m = Some a \<longleftrightarrow>
    a \<in> qkeys m \<and> (\<forall>b \<in> qkeys m. b \<le> a)"
  unfolding qm_last_def by (rule last_key_sorted)

lemma takeWhile_keys: "qwf m \<Longrightarrow> qkeys (takeWhile (\<lambda>e. fst e < k) m) = {x \<in> qkeys m. x < k}"
  by (induction m) auto

lemma qwf_takeWhile: "qwf m \<Longrightarrow> qwf (takeWhile P m)"
proof (induction m)
  case (Cons e m)
  have "qkeys (takeWhile P m) \<subseteq> qkeys m"
    by (auto simp: qkeys_def dest: set_takeWhileD)
  with Cons show ?case by auto
qed simp

lemma qm_prev_Some: "qwf m \<Longrightarrow> qm_prev m k = Some a \<longleftrightarrow>
    a \<in> qkeys m \<and> a < k \<and> (\<forall>b \<in> qkeys m. b < k \<longrightarrow> b \<le> a)"
  unfolding qm_prev_def
  using last_key_sorted [OF qwf_takeWhile, of m "\<lambda>e. fst e < k" a] takeWhile_keys [of m k]
  by auto

lemma qm_prev_None: "qwf m \<Longrightarrow> qm_prev m k = None \<longleftrightarrow> (\<forall>b \<in> qkeys m. k \<le> b)"
proof -
  assume wf: "qwf m"
  have "head_key (rev xs) = None \<longleftrightarrow> xs = []" for xs :: "('a \<times> 'b) list"
    by (cases xs rule: rev_cases) (simp_all add: head_key_def)
  then have "qm_prev m k = None \<longleftrightarrow> qkeys (takeWhile (\<lambda>e. fst e < k) m) = {}"
    unfolding qm_prev_def by simp
  then show ?thesis using takeWhile_keys [OF wf, of k] by (auto simp: not_less)
qed

lemma qm_last_exists: "qwf m \<Longrightarrow> m \<noteq> [] \<Longrightarrow> \<exists>a. qm_last m = Some a"
  by (cases m rule: rev_cases) (auto simp: qm_last_def head_key_def)

lemma qm_next_gt:
  assumes "qm_next m k = Some a"
  shows "k < a" and "a \<in> qkeys m"
proof -
  from assms obtain e r where d: "dropWhile (\<lambda>e. fst e \<le> k) m = e # r" and a: "a = fst e"
    by (auto simp: qm_next_def head_key_def split: list.splits)
  from d have "\<not> fst e \<le> k" by (auto simp: dropWhile_eq_Cons_conv)
  with a show "k < a" by simp
  from d have "e \<in> set m" by (metis list.set_intros(1) set_dropWhileD)
  with a show "a \<in> qkeys m" by (simp add: qkeys_def)
qed

lemma qm_prev_less:
  assumes "qm_prev m k = Some a"
  shows "a < k" and "a \<in> qkeys m"
proof -
  from assms obtain e r where r: "rev (takeWhile (\<lambda>e. fst e < k) m) = e # r" and a: "a = fst e"
    by (auto simp: qm_prev_def head_key_def split: list.splits)
  from r have "e \<in> set (takeWhile (\<lambda>e. fst e < k) m)"
    by (metis list.set_intros(1) set_rev)
  with a show "a < k" and "a \<in> qkeys m"
    by (auto dest: set_takeWhileD simp: qkeys_def)
qed

text \<open>The two facts that make loops over iterators terminate.\<close>

lemma card_keys_next:
  assumes "qm_next m k = Some a"
  shows "card {x \<in> qkeys m. a < x} < card {x \<in> qkeys m. k < x}"
proof (rule psubset_card_mono)
  show "{x \<in> qkeys m. a < x} \<subset> {x \<in> qkeys m. k < x}"
    using qm_next_gt [OF assms] by force
qed simp

lemma card_keys_prev:
  assumes "qm_prev m k = Some a"
  shows "card {x \<in> qkeys m. x < a} < card {x \<in> qkeys m. x < k}"
proof (rule psubset_card_mono)
  show "{x \<in> qkeys m. x < a} \<subset> {x \<in> qkeys m. x < k}"
    using qm_prev_less [OF assms] by force
qed simp

lemma card_keys_erase: "card {x \<in> qkeys (qm_erase e m). k < x} \<le> card {x \<in> qkeys m. k < x}"
  by (rule card_mono) auto

lemma qm_next_unique: "qwf m \<Longrightarrow> a \<in> qkeys m \<Longrightarrow> k < a \<Longrightarrow>
    (\<And>b. b \<in> qkeys m \<Longrightarrow> k < b \<Longrightarrow> a \<le> b) \<Longrightarrow> qm_next m k = Some a"
  by (simp add: qm_next_Some)

lemma qm_lower_key: "qwf m \<Longrightarrow> k \<in> qkeys m \<Longrightarrow> qm_lower m k = Some k"
  by (simp add: qm_lower_Some)

section \<open>Iterator steps after an insertion, an erasure and an update\<close>

lemma qm_nextI:
  assumes "qwf m"
    and "case r of None \<Rightarrow> (\<forall>b \<in> qkeys m. b \<le> k)
         | Some a \<Rightarrow> a \<in> qkeys m \<and> k < a \<and> (\<forall>b \<in> qkeys m. k < b \<longrightarrow> a \<le> b)"
  shows "qm_next m k = r"
  using assms by (cases r) (simp_all add: qm_next_None qm_next_Some)

lemma qm_next_insert:
  assumes "qwf m"
  shows "qm_next (qm_insert k v m) p =
    (if p < k then Some (case qm_next m p of None \<Rightarrow> k | Some a \<Rightarrow> min a k) else qm_next m p)"
proof (rule qm_nextI [OF qwf_insert [OF assms]])
  show "case if p < k then Some (case qm_next m p of None \<Rightarrow> k | Some a \<Rightarrow> min a k) else qm_next m p of
      None \<Rightarrow> \<forall>b\<in>qkeys (qm_insert k v m). b \<le> p
    | Some a \<Rightarrow> a \<in> qkeys (qm_insert k v m) \<and> p < a \<and>
        (\<forall>b\<in>qkeys (qm_insert k v m). p < b \<longrightarrow> a \<le> b)"
  proof (cases "qm_next m p")
    case None
    then have "\<forall>b \<in> qkeys m. b \<le> p" by (simp add: qm_next_None)
    with None show ?thesis by (auto dest: leD)
  next
    case (Some a)
    then have "a \<in> qkeys m \<and> p < a \<and> (\<forall>b \<in> qkeys m. p < b \<longrightarrow> a \<le> b)"
      using assms by (simp add: qm_next_Some)
    with Some show ?thesis by (auto simp: min_def)
  qed
qed

lemma qm_next_erase:
  assumes "qwf m"
  shows "qm_next (qm_erase k m) p = (if qm_next m p = Some k then qm_next m k else qm_next m p)"
proof (rule qm_nextI [OF qwf_erase [OF assms]])
  show "case if qm_next m p = Some k then qm_next m k else qm_next m p of
      None \<Rightarrow> \<forall>b\<in>qkeys (qm_erase k m). b \<le> p
    | Some a \<Rightarrow> a \<in> qkeys (qm_erase k m) \<and> p < a \<and>
        (\<forall>b\<in>qkeys (qm_erase k m). p < b \<longrightarrow> a \<le> b)"
  proof (cases "qm_next m p = Some k")
    case True
    then have p: "p < k" "\<forall>b \<in> qkeys m. p < b \<longrightarrow> k \<le> b" using assms by (auto simp: qm_next_Some)
    show ?thesis
    proof (cases "qm_next m k")
      case None
      then have n: "\<forall>b \<in> qkeys m. b \<le> k" by (simp add: qm_next_None)
      have "b \<le> p" if "b \<in> qkeys m" "b \<noteq> k" for b using p n that by force
      with None True show ?thesis by simp
    next
      case (Some a)
      then have n: "a \<in> qkeys m" "k < a" "\<forall>b \<in> qkeys m. k < b \<longrightarrow> a \<le> b"
        using assms by (auto simp: qm_next_Some)
      have "a \<le> b" if "b \<in> qkeys m" "b \<noteq> k" "p < b" for b using p n that by force
      with Some True n p show ?thesis by auto
    qed
  next
    case False
    show ?thesis
    proof (cases "qm_next m p")
      case None
      with False show ?thesis using qm_next_None [of m p] by simp
    next
      case (Some a)
      then have "a \<in> qkeys m" "p < a" "\<forall>b \<in> qkeys m. p < b \<longrightarrow> a \<le> b"
        using assms by (auto simp: qm_next_Some)
      with Some False show ?thesis by auto
    qed
  qed
qed

lemma qm_next_update [simp]: "qm_next (qm_update k f m) p = qm_next m p"
proof -
  have "qm_next (m :: ('a::linorder \<times> 'b) list) p = (case dropWhile (\<lambda>k. k \<le> p) (map fst m) of [] \<Rightarrow> None | a # _ \<Rightarrow> Some a)" for m p
    by (induction m) (auto simp: qm_next_def head_key_def)
  then show ?thesis by simp
qed

lemma qm_prev_keys: "qwf m \<Longrightarrow> qwf m' \<Longrightarrow> qkeys m = qkeys m' \<Longrightarrow> qm_prev m k = qm_prev m' k"
  by (metis (no_types, lifting) qm_prev_None qm_prev_Some option.exhaust)

lemma qm_next_keys: "qwf m \<Longrightarrow> qwf m' \<Longrightarrow> qkeys m = qkeys m' \<Longrightarrow> qm_next m k = qm_next m' k"
  by (metis (no_types, lifting) qm_next_None qm_next_Some option.exhaust)

lemma qm_value_eq: "map_of m k = Some v \<Longrightarrow> qm_value m d k = v"
  by (simp add: qm_value_def)

lemma map_of_qm_value: "k \<in> qkeys m \<Longrightarrow> map_of m k = Some (qm_value m d k)"
  using qkeys_Some [of k m] by (auto simp: qm_value_def)

end
