(* ===== verification/RangeMap.thy ===== *)
theory RangeMap
  imports QMap
begin

text \<open>
  The range map \<open>CRangeMap\<close> of NeoLoader/Common/ValueMap.h: the state of every byte of a file,
  stored as an ordered map from the (exclusive) end of each run to the state of the run. The last
  key is the file size. The virtual functions of the class are the fields of \<open>state_ops\<close>; what
  they must satisfy is the locale \<open>range_state\<close>, and the lemmas about the map operations are
  proved once in it.
\<close>

datatype set_mode = eSet | eAdd | eClr

datatype merge_mode = eUnion | eInter

text \<open>The virtual functions, and \<open>V()\<close>.\<close>

record 'v state_ops =
  StateSet :: "'v \<Rightarrow> bool"
  MatchState :: "'v \<Rightarrow> 'v \<Rightarrow> bool"
  MakeState :: "'v \<Rightarrow> 'v \<Rightarrow> set_mode \<Rightarrow> 'v"
  MergeState :: "'v \<Rightarrow> 'v \<Rightarrow> merge_mode \<Rightarrow> 'v"
  V0 :: 'v

record 'v range_map =
  m_PartMap :: "(uint64, 'v) qmap"
  m_Revision :: uint64

text \<open>\<open>SIterHint\<close>: a position remembered together with the revision of the map it is valid for.\<close>

record iter_hint =
  hRevision :: uint64
  hIter :: "uint64 option"

definition fresh_hint :: iter_hint where
  "fresh_hint = \<lparr>hRevision = 0, hIter = None\<rparr>"

record 'v siterator =
  uFrom :: uint64
  uTo :: uint64
  uBegin :: uint64
  uEnd :: uint64
  uState :: 'v
  pHint :: "iter_hint option"

definition new_iterator :: "'v state_ops \<Rightarrow> uint64 \<Rightarrow> uint64 \<Rightarrow> bool \<Rightarrow> 'v siterator" where
  "new_iterator ops from to bHint =
     \<lparr>uFrom = from, uTo = to, uBegin = from, uEnd = 0, uState = V0 ops,
      pHint = (if bHint then Some fresh_hint else None)\<rparr>"

definition new_range_map :: "'v state_ops \<Rightarrow> uint64 \<Rightarrow> 'v range_map" where
  "new_range_map ops sz = \<lparr>m_PartMap = qm_insert sz (V0 ops) [], m_Revision = 1\<rparr>"

definition last_key :: "(uint64, 'v) qmap \<Rightarrow> uint64" where
  "last_key m = (case qm_last m of None \<Rightarrow> 0 | Some k \<Rightarrow> k)"

definition IncrRevision :: "'v range_map \<Rightarrow> 'v range_map" where
  "IncrRevision rm = rm\<lparr>m_Revision := m_Revision rm + 1\<rparr>"

definition Reset :: "'v state_ops \<Rightarrow> 'v range_map \<Rightarrow> uint64 \<Rightarrow> 'v range_map" where
  "Reset ops rm sz =
     (let rm = IncrRevision rm;
          sz = (if sz = - 1 then last_key (m_PartMap rm) else sz)
      in rm\<lparr>m_PartMap := qm_insert sz (V0 ops) []\<rparr>)"

definition GetSize :: "'v range_map \<Rightarrow> uint64" where
  "GetSize rm = last_key (m_PartMap rm)"

section \<open>SetRange\<close>

text \<open>
  The loop that writes the new state: from \<open>End\<close> downwards until \<open>Begin\<close>, which is not written.
\<close>

function set_parts :: "'v state_ops \<Rightarrow> 'v \<Rightarrow> set_mode \<Rightarrow> uint64 \<Rightarrow> uint64 \<Rightarrow>
    (uint64, 'v) qmap \<Rightarrow> (uint64, 'v) qmap" where
  "set_parts ops st mode part begin m =
     (if part = begin then m
      else
        let m' = qm_update part (\<lambda>v. MakeState ops v st mode) m
        in case qm_prev m' part of
             None \<Rightarrow> m'
           | Some p \<Rightarrow> set_parts ops st mode p begin m')"
  by pat_completeness auto
termination
  by (relation "measure (\<lambda>(ops, st, mode, part, begin, m). card {k \<in> qkeys m. k < part})")
    (auto dest: card_keys_prev)

text \<open>
  The loop that erases a node whose successor has the same state, and the node with key 0;
  \<open>drop_dup\<close> is the body for the neighbours \<open>prev\<close> and \<open>p\<close>.
\<close>

definition drop_dup :: "'v state_ops \<Rightarrow> uint64 \<Rightarrow> uint64 \<Rightarrow> (uint64, 'v) qmap \<Rightarrow> (uint64, 'v) qmap" where
  "drop_dup ops prev p m =
     (if MatchState ops (qm_value m (V0 ops) prev) (qm_value m (V0 ops) p) \<or> prev = 0
      then qm_erase prev m else m)"

lemma drop_dup_measure:
  assumes "qm_next (drop_dup ops prev p m) p = Some a"
  shows "card {x \<in> qkeys (drop_dup ops prev p m). a < x} < card {x \<in> qkeys m. p < x}"
proof -
  have "card {x \<in> qkeys (drop_dup ops prev p m). p < x} \<le> card {x \<in> qkeys m. p < x}"
    by (rule card_mono) (auto simp: drop_dup_def)
  with card_keys_next [OF assms] show ?thesis by linarith
qed

function clear_dups :: "'v state_ops \<Rightarrow> uint64 \<Rightarrow> uint64 option \<Rightarrow> uint64 option \<Rightarrow>
    (uint64, 'v) qmap \<Rightarrow> (uint64, 'v) qmap" where
  "clear_dups ops prev part part_end m =
     (if part = part_end then m
      else case part of
        None \<Rightarrow> m
      | Some p \<Rightarrow>
          let m' = drop_dup ops prev p m in clear_dups ops p (qm_next m' p) part_end m')"
  by pat_completeness auto
termination
  apply (relation "measure (\<lambda>(ops, prev, part, part_end, m).
      case part of None \<Rightarrow> 0 | Some p \<Rightarrow> Suc (card {k \<in> qkeys m. p < k}))")
   apply simp
  apply (auto split: option.splits simp: drop_dup_measure)
  done

declare set_parts.simps [simp del] clear_dups.simps [simp del]

text \<open>
  Finding the node of a boundary, cutting the run it lies in when there is no such node:
  \<open>Part = m_PartMap.lowerBound(k); if(Part == end()) ..; if(Part.key() != k) Part = insert(k, Part.value())\<close>.
\<close>

definition cut_at :: "'v state_ops \<Rightarrow> (uint64, 'v) qmap \<Rightarrow> uint64 \<Rightarrow> (uint64, 'v) qmap option" where
  "cut_at ops m k =
     (case qm_lower m k of
        None \<Rightarrow> None
      | Some a \<Rightarrow> Some (if a \<noteq> k then qm_insert k (qm_value m (V0 ops) a) m else m))"

text \<open>The block \<open>clear duplicates\<close>.\<close>

definition clear_duplicates :: "'v state_ops \<Rightarrow> uint64 \<Rightarrow> uint64 \<Rightarrow> (uint64, 'v) qmap \<Rightarrow>
    (uint64, 'v) qmap" where
  "clear_duplicates ops begin end m =
     (let part = (if qm_first m = Some begin then Some begin else qm_prev m begin);
          part_end = (case qm_next m end of None \<Rightarrow> None | Some e1 \<Rightarrow> qm_next m e1)
      in case part of
           None \<Rightarrow> m
         | Some p \<Rightarrow> clear_dups ops p (qm_next m p) part_end m)"

definition SetRange :: "'v state_ops \<Rightarrow> 'v range_map \<Rightarrow> uint64 \<Rightarrow> uint64 \<Rightarrow> 'v \<Rightarrow> set_mode \<Rightarrow>
    'v range_map" where
  "SetRange ops rm begin end st mode =
     (let rm = IncrRevision rm;
          end = (if end = - 1 then last_key (m_PartMap rm) else end)
      in case cut_at ops (m_PartMap rm) end of
           None \<Rightarrow> rm
         | Some m \<Rightarrow>
             (case cut_at ops m begin of
                None \<Rightarrow> rm\<lparr>m_PartMap := m\<rparr>
              | Some m \<Rightarrow>
                  rm\<lparr>m_PartMap :=
                    clear_duplicates ops begin end (set_parts ops st mode end begin m)\<rparr>))"

section \<open>GetRange\<close>

definition mask_state :: "'v state_ops \<Rightarrow> 'v \<Rightarrow> 'v \<Rightarrow> 'v" where
  "mask_state ops v msk = (if StateSet ops msk then MergeState ops v msk eInter else v)"

function get_range_loop :: "'v state_ops \<Rightarrow> (uint64, 'v) qmap \<Rightarrow> merge_mode \<Rightarrow> 'v \<Rightarrow> uint64 \<Rightarrow>
    uint64 \<Rightarrow> bool \<Rightarrow> 'v \<Rightarrow> 'v" where
  "get_range_loop ops m mode msk begin part bFirst st =
     (if part \<le> begin then st
      else
        let cur = mask_state ops (qm_value m (V0 ops) part) msk;
            st' = (if bFirst then cur else MergeState ops cur st mode)
        in case qm_prev m part of
             None \<Rightarrow> st'
           | Some p \<Rightarrow> get_range_loop ops m mode msk begin p False st')"
  by pat_completeness auto
termination
  by (relation "measure (\<lambda>(ops, m, mode, msk, begin, part, bFirst, st). card {k \<in> qkeys m. k < part})")
    (auto dest: card_keys_prev)

declare get_range_loop.simps [simp del]

definition GetRange :: "'v state_ops \<Rightarrow> 'v range_map \<Rightarrow> uint64 \<Rightarrow> uint64 \<Rightarrow> merge_mode \<Rightarrow> 'v \<Rightarrow> 'v" where
  "GetRange ops rm begin end mode msk =
     (let m = m_PartMap rm;
          end = (if end = - 1 then last_key m else end)
      in case qm_lower m end of
           None \<Rightarrow> V0 ops
         | Some part \<Rightarrow> get_range_loop ops m mode msk begin part True (V0 ops))"

section \<open>GetNextRange and the loops over all ranges\<close>

text \<open>The \<open>do .. while\<close> loop that joins runs with the same masked state.\<close>

function extend_range :: "'v state_ops \<Rightarrow> (uint64, 'v) qmap \<Rightarrow> 'v \<Rightarrow> 'v \<Rightarrow> uint64 \<Rightarrow> uint64" where
  "extend_range ops m msk st k =
     (case qm_next m k of
        None \<Rightarrow> k
      | Some k' \<Rightarrow>
          if MatchState ops st (MergeState ops (qm_value m (V0 ops) k') msk eInter)
          then extend_range ops m msk st k' else k)"
  by pat_completeness auto
termination
  by (relation "measure (\<lambda>(ops, m, msk, st, k). card {x \<in> qkeys m. k < x})")
    (auto dest: card_keys_next)

declare extend_range.simps [simp del]

text \<open>
  The in/out parameters are arguments and results: the result is
  (found, \<open>uBegin\<close>, \<open>uEnd\<close>, \<open>uState\<close>, hint). A hint argument \<open>None\<close> is the null \<open>pHint\<close>.
\<close>

definition hint_applies :: "'v range_map \<Rightarrow> iter_hint option \<Rightarrow> uint64 \<Rightarrow> bool" where
  "hint_applies rm hint end =
     (case hint of
        None \<Rightarrow> False
      | Some h \<Rightarrow> hRevision h = m_Revision rm \<and>
          (case hIter h of None \<Rightarrow> last_key (m_PartMap rm) | Some k \<Rightarrow> k) + 1 = end)"

definition hint_next :: "(uint64, 'v) qmap \<Rightarrow> iter_hint option \<Rightarrow> uint64 option" where
  "hint_next m hint =
     (case hint of None \<Rightarrow> None
      | Some h \<Rightarrow> (case hIter h of None \<Rightarrow> None | Some k \<Rightarrow> qm_next m k))"

definition GetNextRange :: "'v state_ops \<Rightarrow> 'v range_map \<Rightarrow> uint64 \<Rightarrow> uint64 \<Rightarrow> 'v \<Rightarrow> 'v \<Rightarrow>
    iter_hint option \<Rightarrow> bool \<times> uint64 \<times> uint64 \<times> 'v \<times> iter_hint option" where
  "GetNextRange ops rm begin end st msk hint =
     (let m = m_PartMap rm;
          end = (if begin > end then begin else end) + 1;
          part = (if hint_applies rm hint end then hint_next m hint else qm_lower m end)
      in case part of
           None \<Rightarrow> (False, begin, end, st, hint)
         | Some p \<Rightarrow>
             let begin' = (case qm_prev m p of None \<Rightarrow> 0 | Some q \<Rightarrow> q);
                 v = qm_value m (V0 ops) p;
                 st' = mask_state ops v msk;
                 end' = (if StateSet ops msk then extend_range ops m msk st' p else p)
             in (True, begin', end', st',
                 map_option (\<lambda>h. \<lparr>hRevision = m_Revision rm, hIter = Some end'\<rparr>) hint))"

definition GetPrevRange :: "'v state_ops \<Rightarrow> 'v range_map \<Rightarrow> uint64 \<Rightarrow> uint64 \<Rightarrow> 'v \<Rightarrow> 'v \<Rightarrow>
    bool \<times> uint64 \<times> uint64 \<times> 'v \<times> iter_hint option" where
  "GetPrevRange ops rm begin end st msk =
     (let begin = begin - 1 in GetNextRange ops rm begin begin st msk None)"

definition IterateRanges :: "'v state_ops \<Rightarrow> 'v range_map \<Rightarrow> 'v siterator \<Rightarrow> 'v \<Rightarrow>
    bool \<times> 'v siterator" where
  "IterateRanges ops rm it msk =
     (if uEnd it = uTo it then (False, it)
      else
        let from = max (uEnd it) (uFrom it)
        in case GetNextRange ops rm (uBegin it) (uEnd it) (uState it) msk (pHint it) of
             (found, b, e, st, h) \<Rightarrow>
               let it' = it\<lparr>uBegin := b, uEnd := e, uState := st, pHint := h\<rparr>
               in if \<not> found then (False, it')
                  else if b < from
                  then (True, it'\<lparr>uBegin := from, uEnd := (if uTo it < e then uTo it else e)\<rparr>)
                  else if b \<ge> uTo it then (False, it')
                  else (True, it'\<lparr>uEnd := (if uTo it < e then uTo it else e)\<rparr>))"

text \<open>
  \<open>while(GetNextRange(..)) ..\<close> visits the ranges of a map that the body does not change; the
  ranges it visits are this list. \<open>fuel\<close> bounds the number of calls.
\<close>

fun ranges_loop :: "'v state_ops \<Rightarrow> 'v range_map \<Rightarrow> 'v \<Rightarrow> nat \<Rightarrow> uint64 \<Rightarrow> uint64 \<Rightarrow> 'v \<Rightarrow>
    iter_hint option \<Rightarrow> (uint64 \<times> uint64 \<times> 'v) list option" where
  "ranges_loop ops rm msk 0 b e st h = None"
| "ranges_loop ops rm msk (Suc fuel) b e st h =
     (case GetNextRange ops rm b e st msk h of
        (found, b', e', st', h') \<Rightarrow>
          if found then map_option (\<lambda>rs. (b', e', st') # rs) (ranges_loop ops rm msk fuel b' e' st' h')
          else Some [])"

definition visit_ranges :: "'v state_ops \<Rightarrow> 'v range_map \<Rightarrow> 'v \<Rightarrow> iter_hint option \<Rightarrow>
    (uint64 \<times> uint64 \<times> 'v) list option" where
  "visit_ranges ops rm msk h =
     ranges_loop ops rm msk (Suc (length (m_PartMap rm))) 0 0 (V0 ops) h"

fun iterate_loop :: "'v state_ops \<Rightarrow> 'v range_map \<Rightarrow> 'v \<Rightarrow> nat \<Rightarrow> 'v siterator \<Rightarrow>
    (uint64 \<times> uint64 \<times> 'v) list option" where
  "iterate_loop ops rm msk 0 it = None"
| "iterate_loop ops rm msk (Suc fuel) it =
     (case IterateRanges ops rm it msk of
        (found, it') \<Rightarrow>
          if found
          then map_option (\<lambda>rs. (uBegin it', uEnd it', uState it') # rs)
                 (iterate_loop ops rm msk fuel it')
          else Some [])"

definition Assign :: "'v range_map \<Rightarrow> 'v range_map \<Rightarrow> 'v range_map" where
  "Assign rm src = rm\<lparr>m_PartMap := m_PartMap src, m_Revision := m_Revision rm + 1\<rparr>"

definition Merge :: "'v state_ops \<Rightarrow> 'v range_map \<Rightarrow> 'v range_map \<Rightarrow> 'v \<Rightarrow> set_mode \<Rightarrow>
    'v range_map option" where
  "Merge ops rm src filt mode =
     map_option
       (\<lambda>rs. fold (\<lambda>(b, e, st) rm. SetRange ops rm b e (mask_state ops st filt) mode) rs rm)
       (visit_ranges ops src (V0 ops) (Some fresh_hint))"

definition CountLength :: "'v state_ops \<Rightarrow> 'v range_map \<Rightarrow> 'v \<Rightarrow> bool \<Rightarrow> uint64 option" where
  "CountLength ops rm test bInverse =
     map_option
       (\<lambda>rs. fold (\<lambda>(b, e, st) len.
          if StateSet ops (MergeState ops st test eInter) \<noteq> bInverse then len + (e - b) else len) rs 0)
       (visit_ranges ops rm (V0 ops) (Some fresh_hint))"

end
