(* ===== verification/RangeSpec.thy ===== *)
theory RangeSpec
  imports RangeMap
begin

text \<open>
  What the range map of \<open>RangeMap\<close> promises. The abstract value of a map is the function
  \<open>val_at m p\<close>, the state of byte \<open>p\<close>; the representation invariant is \<open>rm_wf\<close> (ascending keys, at
  least one run, no run that ends at 0), and \<open>canonical\<close> says that two neighbouring runs never
  have matching states. The locale \<open>range_state\<close> is the contract of the virtual functions; the
  lemmas in it are about any class that derives from \<open>CRangeMap\<close>.
\<close>

section \<open>The abstract value and the invariant\<close>

definition val_at :: "(uint64, 'v) qmap \<Rightarrow> uint64 \<Rightarrow> 'v option" where
  "val_at m p = (case qm_next m p of None \<Rightarrow> None | Some k \<Rightarrow> map_of m k)"

definition rm_wf :: "(uint64, 'v) qmap \<Rightarrow> bool" where
  "rm_wf m = (qwf m \<and> m \<noteq> [] \<and> 0 \<notin> qkeys m)"

lemma last_key_wf: "qwf m \<Longrightarrow> m \<noteq> [] \<Longrightarrow> last_key m \<in> qkeys m \<and> (\<forall>b \<in> qkeys m. b \<le> last_key m)"
  using qm_last_exists [of m] qm_last_Some [of m "last_key m"] by (auto simp: last_key_def)

lemma last_key_unique: "qwf m \<Longrightarrow> a \<in> qkeys m \<Longrightarrow> (\<And>b. b \<in> qkeys m \<Longrightarrow> b \<le> a) \<Longrightarrow> last_key m = a"
  using qm_last_Some [of m a] by (auto simp: last_key_def)

lemma qm_next_last: "qwf m \<Longrightarrow> m \<noteq> [] \<Longrightarrow> (qm_next m p = None) = (last_key m \<le> p)"
  using last_key_wf [of m] by (auto simp: qm_next_None)

lemma val_at_None: "qwf m \<Longrightarrow> m \<noteq> [] \<Longrightarrow> (val_at m p = None) = (last_key m \<le> p)"
  using qm_next_last [of m p] qm_next_gt [of m p]
  by (auto simp: val_at_def split: option.splits)

lemma val_at_split:
  assumes "qwf m" and "qm_lower m k = Some a"
  shows "val_at (qm_insert k (qm_value m d a) m) p = val_at m p"
proof -
  from assms have a: "a \<in> qkeys m" "k \<le> a" and least: "\<And>b. b \<in> qkeys m \<Longrightarrow> k \<le> b \<Longrightarrow> a \<le> b"
    by (auto simp: qm_lower_Some)
  then have v: "map_of m a = Some (qm_value m d a)" by (simp add: map_of_qm_value)
  show ?thesis
  proof (cases "p < k")
    case True
    with a obtain x where x: "qm_next m p = Some x"
      by (cases "qm_next m p") (auto simp: qm_next_None)
    then have x': "x \<in> qkeys m" "p < x" "x \<le> a" using assms(1) True a by (auto simp: qm_next_Some)
    then have "k \<le> x \<Longrightarrow> x = a" using least by force
    with x True x' v a show ?thesis
      by (auto simp: val_at_def qm_next_insert [OF assms(1)] map_of_insert min_def)
  next
    case False
    then have "qm_next m p \<noteq> Some k" by (auto dest: qm_next_gt)
    with False show ?thesis
      by (auto simp: val_at_def qm_next_insert [OF assms(1)] map_of_insert split: option.splits)
  qed
qed

lemma set_parts_spec:
  assumes "qwf m" and "b \<in> qkeys m" and "part \<in> qkeys m" and "b \<le> part"
  shows "qkeys (set_parts ops st mode part b m) = qkeys m \<and>
    qwf (set_parts ops st mode part b m) \<and>
    (\<forall>x. map_of (set_parts ops st mode part b m) x =
      (if b < x \<and> x \<le> part then map_option (\<lambda>v. MakeState ops v st mode) (map_of m x)
       else map_of m x))"
  using assms
proof (induction ops st mode part b m rule: set_parts.induct)
  case (1 ops st mode part b m)
  show ?case
  proof (cases "part = b")
    case True
    then show ?thesis using "1.prems" by (auto simp: set_parts.simps)
  next
    case False
    let ?m = "qm_update part (\<lambda>v. MakeState ops v st mode) m"
    from False "1.prems" have lt: "b < part" by simp
    have wf: "qwf ?m" using "1.prems" by simp
    obtain p where p: "qm_prev ?m part = Some p"
      using qm_prev_None [OF wf, of part] "1.prems"(2) lt by (cases "qm_prev ?m part") auto
    have pm: "p \<in> qkeys m" "p < part" and great: "\<forall>x \<in> qkeys m. x < part \<longrightarrow> x \<le> p"
      using p qm_prev_Some [OF wf] by auto
    have bp: "b \<le> p" using great "1.prems"(2) lt by simp
    have step: "set_parts ops st mode part b m = set_parts ops st mode p b ?m"
      using False p by (subst set_parts.simps) simp
    have "b \<in> qkeys ?m" "p \<in> qkeys ?m" using "1.prems" pm by simp_all
    note IH = "1.IH" [OF False refl p wf this bp]
    have "(if b < x \<and> x \<le> part then map_option (\<lambda>v. MakeState ops v st mode) (map_of m x)
       else map_of m x) = (if b < x \<and> x \<le> p then map_option (\<lambda>v. MakeState ops v st mode) (map_of ?m x)
       else map_of ?m x)" for x
    proof (cases "x \<in> qkeys m")
      case True
      with great lt pm have "(b < x \<and> x \<le> part) = (x = part \<or> (b < x \<and> x \<le> p))" by force
      with pm show ?thesis by (auto simp: map_of_update)
    next
      case False
      then have n: "map_of m x = None" "map_of ?m x = None" by simp_all
      show ?thesis by (simp only: n option.map if_cancel)
    qed
    with IH show ?thesis unfolding step by (simp only: qkeys_update simp_thms)
  qed
qed

definition val_rel :: "'v state_ops \<Rightarrow> 'v option \<Rightarrow> 'v option \<Rightarrow> bool" where
  "val_rel ops = rel_option (MatchState ops)"

locale range_state =
  fixes ops :: "'v state_ops"
  assumes match_refl: "MatchState ops a a"
    and match_sym: "MatchState ops a b \<Longrightarrow> MatchState ops b a"
    and match_trans: "MatchState ops a b \<Longrightarrow> MatchState ops b c \<Longrightarrow> MatchState ops a c"
begin

lemma val_rel_refl [simp]: "val_rel ops x x"
  unfolding val_rel_def by (rule option.rel_refl) (rule match_refl)

lemma val_rel_sym: "val_rel ops x y \<Longrightarrow> val_rel ops y x"
  unfolding val_rel_def by (auto simp: option.rel_sel intro: match_sym)

lemma val_rel_trans: "val_rel ops x y \<Longrightarrow> val_rel ops y z \<Longrightarrow> val_rel ops x z"
  unfolding val_rel_def by (auto simp: option.rel_sel intro: match_trans)

lemma erase_dup_val_at:
  assumes "qwf m" and "prev \<in> qkeys m" and "qm_next m prev = Some p"
    and "MatchState ops (qm_value m (V0 ops) prev) (qm_value m (V0 ops) p) \<or> prev = 0"
  shows "val_rel ops (val_at (qm_erase prev m) x) (val_at m x)"
proof (cases "qm_next m x = Some prev")
  case True
  then have "x < prev" by (rule qm_next_gt)
  then have "prev \<noteq> 0" by auto
  with assms(4) have "MatchState ops (qm_value m (V0 ops) p) (qm_value m (V0 ops) prev)"
    by (blast intro: match_sym)
  moreover have "p \<in> qkeys m" and "p \<noteq> prev"
    using qm_next_gt [OF assms(3)] by auto
  ultimately show ?thesis
    using True assms(2) map_of_qm_value [of p m "V0 ops"] map_of_qm_value [of prev m "V0 ops"]
    by (simp add: val_at_def qm_next_erase [OF assms(1)] assms(3) map_of_erase val_rel_def)
next
  case False
  then have "val_at (qm_erase prev m) x = val_at m x"
    by (auto simp: val_at_def qm_next_erase [OF assms(1)] map_of_erase split: option.splits)
  then show ?thesis by simp
qed

lemma drop_dup_val_at:
  assumes "qwf m" and "prev \<in> qkeys m" and "qm_next m prev = Some p"
  shows "val_rel ops (val_at (drop_dup ops prev p m) x) (val_at m x)"
  using erase_dup_val_at [OF assms] by (simp add: drop_dup_def)


end

definition pair_ok :: "'v state_ops \<Rightarrow> (uint64, 'v) qmap \<Rightarrow> uint64 \<Rightarrow> bool" where
  "pair_ok ops m k = (case qm_next m k of None \<Rightarrow> True
     | Some a \<Rightarrow> \<not> MatchState ops (qm_value m (V0 ops) k) (qm_value m (V0 ops) a))"

definition canonical :: "'v state_ops \<Rightarrow> (uint64, 'v) qmap \<Rightarrow> bool" where
  "canonical ops m = (\<forall>k \<in> qkeys m. pair_ok ops m k)"

lemma clear_dups_step:
  assumes "Some p \<noteq> part_end"
  shows "clear_dups ops prev (Some p) part_end m =
    clear_dups ops p (qm_next (drop_dup ops prev p m) p) part_end (drop_dup ops prev p m)"
  using assms by (subst clear_dups.simps) (simp add: Let_def)

lemma clear_dups_stop: "clear_dups ops prev part_end part_end m = m"
  by (subst clear_dups.simps) simp

lemma clear_dups_None: "clear_dups ops prev None part_end m = m"
  by (subst clear_dups.simps) simp

lemma drop_dup_keys:
  "qkeys (drop_dup ops prev p m) \<subseteq> qkeys m" "p \<noteq> prev \<Longrightarrow> p \<in> qkeys m \<Longrightarrow> p \<in> qkeys (drop_dup ops prev p m)"
  "qwf m \<Longrightarrow> qwf (drop_dup ops prev p m)"
  by (auto simp: drop_dup_def qwf_erase)

lemma drop_dup_last:
  assumes "qwf m" and "prev \<in> qkeys m" and "p \<in> qkeys m" and "prev < p"
  shows "last_key (drop_dup ops prev p m) = last_key m"
proof (rule last_key_unique)
  have "m \<noteq> []" using assms by auto
  with assms have l: "last_key m \<in> qkeys m" "\<forall>b \<in> qkeys m. b \<le> last_key m"
    using last_key_wf by blast+
  then have "prev < last_key m" using assms by force
  with l show "last_key m \<in> qkeys (drop_dup ops prev p m)" by (auto simp: drop_dup_def)
  show "b \<le> last_key m" if "b \<in> qkeys (drop_dup ops prev p m)" for b
    using that l drop_dup_keys(1) by blast
qed (simp add: assms drop_dup_keys)

context range_state
begin

lemma clear_dups_inv:
  assumes "qwf m" and "prev \<in> qkeys m" and "part = qm_next m prev"
    and "0 \<in> qkeys m \<Longrightarrow> prev = 0 \<and> part \<noteq> pend \<and> part \<noteq> None"
  shows "qwf (clear_dups ops prev part pend m) \<and> clear_dups ops prev part pend m \<noteq> []
    \<and> last_key (clear_dups ops prev part pend m) = last_key m
    \<and> 0 \<notin> qkeys (clear_dups ops prev part pend m)
    \<and> (\<forall>x. val_rel ops (val_at (clear_dups ops prev part pend m) x) (val_at m x))"
  using assms
proof (induction o'\<equiv>ops prev part pend m rule: clear_dups.induct)
  case (1 prev part pend m)
  show ?case
  proof (cases "part = pend \<or> part = None")
    case True
    then show ?thesis using "1.prems" by (auto simp: clear_dups_stop clear_dups_None)
  next
    case False
    then obtain p where p: "part = Some p" and ne: "part \<noteq> pend" by auto
    let ?m = "drop_dup ops prev p m"
    have next_p: "qm_next m prev = Some p" using "1.prems" p by simp
    then have lt: "prev < p" and pk: "p \<in> qkeys m" by (auto dest: qm_next_gt)
    have pm: "p \<in> qkeys ?m" by (rule drop_dup_keys(2)) (use lt pk in auto)
    have "0 \<notin> qkeys ?m"
    proof
      assume z: "0 \<in> qkeys ?m"
      then have "0 \<in> qkeys m" using drop_dup_keys(1) by blast
      then have "prev = 0" using "1.prems" by blast
      with z show False by (simp add: drop_dup_def)
    qed
    then have IH: "qwf (clear_dups ops p (qm_next ?m p) pend ?m)
      \<and> clear_dups ops p (qm_next ?m p) pend ?m \<noteq> []
      \<and> last_key (clear_dups ops p (qm_next ?m p) pend ?m) = last_key ?m
      \<and> 0 \<notin> qkeys (clear_dups ops p (qm_next ?m p) pend ?m)
      \<and> (\<forall>x. val_rel ops (val_at (clear_dups ops p (qm_next ?m p) pend ?m) x) (val_at ?m x))"
      using "1.hyps" [OF ne p refl] "1.prems"(1) pm drop_dup_keys(3) by blast
    have "val_rel ops (val_at ?m x) (val_at m x)" for x
      by (rule drop_dup_val_at [OF "1.prems"(1,2) next_p])
    with IH show ?thesis
      unfolding p clear_dups_step [OF ne [unfolded p]]
      using drop_dup_last [OF "1.prems"(1,2) pk lt] val_rel_trans by metis
  qed
qed

lemma pair_ok_erase:
  assumes "qwf m" and "prev \<in> qkeys m" and "qm_next m prev = Some p"
    and "MatchState ops (qm_value m (V0 ops) prev) (qm_value m (V0 ops) p) \<or> (\<forall>x \<in> qkeys m. prev \<le> x)"
    and "k \<in> qkeys m" and "k \<noteq> prev" and "pair_ok ops m k"
  shows "pair_ok ops (qm_erase prev m) k"
proof -
  have v: "x \<noteq> prev \<Longrightarrow> qm_value (qm_erase prev m) d x = qm_value m d x" for x d
    by (simp add: qm_value_def map_of_erase)
  have pp: "p \<noteq> prev" using qm_next_gt [OF assms(3)] by auto
  show ?thesis
  proof (cases "qm_next m k = Some prev")
    case True
    then have "k < prev" by (rule qm_next_gt)
    with assms(4,5) have "MatchState ops (qm_value m (V0 ops) prev) (qm_value m (V0 ops) p)" by force
    with True assms(7) have "\<not> MatchState ops (qm_value m (V0 ops) k) (qm_value m (V0 ops) p)"
      unfolding pair_ok_def by (auto intro: match_trans match_sym)
    with True pp show ?thesis
      by (simp add: pair_ok_def qm_next_erase [OF assms(1)] assms(3,6) v)
  next
    case False
    then show ?thesis using assms(6,7)
      by (auto simp: pair_ok_def qm_next_erase [OF assms(1)] v split: option.splits)
  qed
qed

lemma clear_dups_canonical:
  assumes "qwf m" and "prev \<in> qkeys m" and "part = qm_next m prev"
    and "0 \<in> qkeys m \<Longrightarrow> prev = 0"
    and "\<And>k. k \<in> qkeys m \<Longrightarrow> k < prev \<Longrightarrow> pair_ok ops m k"
    and "\<And>k a e. k \<in> qkeys m \<Longrightarrow> prev \<le> k \<Longrightarrow> qm_next m k = Some a \<Longrightarrow> pend = Some e \<Longrightarrow> e \<le> a
      \<Longrightarrow> pair_ok ops m k"
  shows "\<forall>k \<in> qkeys (clear_dups ops prev part pend m). pair_ok ops (clear_dups ops prev part pend m) k"
  using assms
proof (induction o'\<equiv>ops prev part pend m rule: clear_dups.induct)
  case (1 prev part pend m)
  have next_None: "qm_next m k = None \<Longrightarrow> pair_ok ops m k" for k
    by (simp add: pair_ok_def)
  show ?case
  proof (cases "part = pend \<or> part = None")
    case True
    have "pair_ok ops m k" if k: "k \<in> qkeys m" for k
    proof (cases "k < prev \<or> qm_next m k = None")
      case True
      then show ?thesis using "1.prems"(5) [OF k] next_None by blast
    next
      case False
      then obtain a where a: "qm_next m k = Some a" by auto
      with False k have "prev < a" by (auto dest: qm_next_gt)
      then obtain e where e: "qm_next m prev = Some e"
        using qm_next_None [of m prev] qm_next_gt [OF a] by (cases "qm_next m prev") auto
      with True "1.prems"(3) have "pend = Some e" by auto
      moreover have "e \<le> a"
        using e qm_next_Some [OF "1.prems"(1)] \<open>prev < a\<close> qm_next_gt [OF a] by auto
      ultimately show ?thesis using "1.prems"(6) [OF k _ a] False by auto
    qed
    with True show ?thesis by (auto simp: clear_dups_stop clear_dups_None)
  next
    case False
    then obtain p where p: "part = Some p" and ne: "part \<noteq> pend" by auto
    let ?m = "drop_dup ops prev p m"
    have next_p: "qm_next m prev = Some p" using "1.prems" p by simp
    then have lt: "prev < p" and pk: "p \<in> qkeys m" by (auto dest: qm_next_gt)
    have least: "\<forall>x \<in> qkeys m. prev < x \<longrightarrow> p \<le> x"
      using next_p qm_next_Some [OF "1.prems"(1)] by auto
    have keep: "pair_ok ops ?m k" if "k \<in> qkeys ?m" "pair_ok ops m k" "k \<noteq> prev" for k
    proof -
      have "k \<in> qkeys m" using that drop_dup_keys(1) by blast
      moreover have "prev = 0 \<Longrightarrow> \<forall>x \<in> qkeys m. prev \<le> x" by simp
      ultimately show ?thesis
        using pair_ok_erase [OF "1.prems"(1,2) next_p _ _ that(3,2)] that(2)
        by (auto simp: drop_dup_def)
    qed
    have same: "prev \<in> qkeys ?m \<Longrightarrow> ?m = m \<and> pair_ok ops m prev"
      by (auto simp: drop_dup_def pair_ok_def next_p split: if_splits)
    have pre: "pair_ok ops ?m k" if "k \<in> qkeys ?m" "k < p" for k
    proof (cases "k = prev")
      case True
      with same that show ?thesis by auto
    next
      case False
      moreover have km: "k \<in> qkeys m" using that drop_dup_keys(1) by blast
      ultimately have "k < prev" using least that by force
      then show ?thesis using "1.prems"(5) [OF km] keep [OF that(1)] by auto
    qed
    have post: "pair_ok ops ?m k"
      if k: "k \<in> qkeys ?m" "p \<le> k" "qm_next ?m k = Some a" "pend = Some e" "e \<le> a" for k a e
    proof -
      have km: "k \<in> qkeys m" using k drop_dup_keys(1) by blast
      have "qm_next m k \<noteq> Some prev" using k(2) lt by (auto dest: qm_next_gt)
      then have "qm_next m k = Some a"
        using k(3) by (auto simp: drop_dup_def qm_next_erase [OF "1.prems"(1)] split: if_splits)
      then have "pair_ok ops m k" using "1.prems"(6) [OF km _ _ k(4,5)] k(2) lt by auto
      then show ?thesis using keep [OF k(1)] k(2) lt by auto
    qed
    have z: "0 \<in> qkeys ?m \<Longrightarrow> p = 0"
      using "1.prems"(4) drop_dup_keys(1) [of ops prev p m] by (auto simp: drop_dup_def split: if_splits)
    have pm: "p \<in> qkeys ?m" by (rule drop_dup_keys(2)) (use lt pk in auto)
    show ?thesis
      unfolding p clear_dups_step [OF ne [unfolded p]]
      by (rule "1.hyps" [OF ne p refl drop_dup_keys(3) [OF "1.prems"(1)] pm refl z pre post])
  qed
qed

end

lemma cut_at_spec:
  assumes "qwf m" and "cut_at ops m k = Some m'"
  shows "qkeys m' = insert k (qkeys m)" and "qwf m'" and "val_at m' p = val_at m p"
    and "x \<in> qkeys m \<Longrightarrow> map_of m' x = map_of m x"
proof -
  from assms(2) obtain a where low: "qm_lower m k = Some a"
    and m': "m' = (if a \<noteq> k then qm_insert k (qm_value m (V0 ops) a) m else m)"
    by (auto simp: cut_at_def split: option.splits)
  have a: "a \<in> qkeys m" "k \<le> a" and least: "\<forall>b \<in> qkeys m. k \<le> b \<longrightarrow> a \<le> b"
    using assms(1) low by (auto simp: qm_lower_Some)
  then show "qkeys m' = insert k (qkeys m)" "qwf m'" "val_at m' p = val_at m p"
    using assms low m' by (auto simp: qwf_insert val_at_split)
  have "a \<noteq> k \<Longrightarrow> k \<notin> qkeys m" using a least by force
  then show "x \<in> qkeys m \<Longrightarrow> map_of m' x = map_of m x"
    using m' by (auto simp: map_of_insert)
qed

lemma cut_at_exists: "qwf m \<Longrightarrow> m \<noteq> [] \<Longrightarrow> k \<le> last_key m \<Longrightarrow> \<exists>m'. cut_at ops m k = Some m'"
  using last_key_wf [of m] qm_lower_None [of m k]
  by (auto simp: cut_at_def split: option.splits dest: leD)

lemma cut_at_last: "qwf m \<Longrightarrow> m \<noteq> [] \<Longrightarrow> k \<le> last_key m \<Longrightarrow> cut_at ops m k = Some m' \<Longrightarrow> last_key m' = last_key m"
  using last_key_wf [of m] by (intro last_key_unique) (auto simp: cut_at_spec)

definition eff_end :: "(uint64, 'v) qmap \<Rightarrow> uint64 \<Rightarrow> uint64" where
  "eff_end m e = (if e = - 1 then last_key m else e)"

text \<open>The map between the second cut and the duplicate removal: the states are already right.\<close>

lemma set_parts_val_at:
  assumes "qwf m" and "b \<in> qkeys m" and "e \<in> qkeys m" and "b < e"
  shows "val_at (set_parts ops st mode e b m) x =
    (if b \<le> x \<and> x < e then map_option (\<lambda>v. MakeState ops v st mode) (val_at m x) else val_at m x)"
proof -
  let ?m = "set_parts ops st mode e b m"
  have sp: "qkeys ?m = qkeys m" "qwf ?m"
    "\<And>y. map_of ?m y = (if b < y \<and> y \<le> e then map_option (\<lambda>v. MakeState ops v st mode) (map_of m y) else map_of m y)"
    using set_parts_spec [OF assms(1,2,3)] assms(4) by (auto simp: less_imp_le)
  have nx: "qm_next ?m x = qm_next m x" by (rule qm_next_keys [OF sp(2) assms(1) sp(1)])
  show ?thesis
  proof (cases "qm_next m x")
    case None
    then show ?thesis by (simp add: val_at_def nx)
  next
    case (Some y)
    then have "x < y" "\<forall>k \<in> qkeys m. x < k \<longrightarrow> y \<le> k"
      using qm_next_Some [OF assms(1)] by auto
    then have "(b < y \<and> y \<le> e) = (b \<le> x \<and> x < e)" using assms(2,3) by force
    then show ?thesis by (simp add: val_at_def nx Some sp(3))
  qed
qed

lemma SetRange_steps:
  assumes wf: "rm_wf (m_PartMap rm)" and be: "b < eff_end (m_PartMap rm) e"
    and es: "eff_end (m_PartMap rm) e \<le> last_key (m_PartMap rm)"
  obtains m2 p pend where "qwf m2" and "m2 \<noteq> []"
    and "qkeys m2 = insert b (insert (eff_end (m_PartMap rm) e) (qkeys (m_PartMap rm)))"
    and "last_key m2 = last_key (m_PartMap rm)"
    and "\<And>x. val_at m2 x = val_at (m_PartMap rm) x"
    and "\<And>x. x \<in> qkeys (m_PartMap rm) \<Longrightarrow> map_of m2 x = map_of (m_PartMap rm) x"
    and "p = (case qm_prev m2 b of None \<Rightarrow> b | Some q \<Rightarrow> q)"
    and "pend = (case qm_next m2 (eff_end (m_PartMap rm) e) of None \<Rightarrow> None | Some e1 \<Rightarrow> qm_next m2 e1)"
    and "SetRange ops rm b e st mode = rm\<lparr>m_Revision := m_Revision rm + 1,
      m_PartMap := clear_dups ops p (qm_next m2 p) pend
        (set_parts ops st mode (eff_end (m_PartMap rm) e) b m2)\<rparr>"
proof -
  let ?m = "m_PartMap rm" and ?e = "eff_end (m_PartMap rm) e"
  have qwf: "qwf ?m" and ne: "?m \<noteq> []" using wf by (auto simp: rm_wf_def)
  obtain m1 where m1: "cut_at ops ?m ?e = Some m1" using cut_at_exists [OF qwf ne es] by blast
  note s1 = cut_at_spec [OF qwf m1]
  have l1: "last_key m1 = last_key ?m" by (rule cut_at_last [OF qwf ne es m1])
  have ne1: "m1 \<noteq> []" using s1(1) by (metis insert_not_empty qkeys_empty_iff)
  have bl: "b \<le> last_key m1" using l1 be es by simp
  obtain m2 where m2: "cut_at ops m1 b = Some m2"
    using cut_at_exists [OF s1(2) ne1 bl] by blast
  note s2 = cut_at_spec [OF s1(2) m2]
  define m3 where m3: "m3 = set_parts ops st mode ?e b m2"
  have s3: "qkeys m3 = qkeys m2" "qwf m3"
    using set_parts_spec [OF s2(2), of b ?e ops st mode] s1(1) s2(1) be by (auto simp: m3)
  have prev: "qm_prev m3 b = qm_prev m2 b" by (rule qm_prev_keys [OF s3(2) s2(2) s3(1)])
  have nx: "qm_next m3 k = qm_next m2 k" for k by (rule qm_next_keys [OF s3(2) s2(2) s3(1)])
  have "(qm_first m3 = Some b) = (qm_prev m2 b = None)"
    using s3 s2(1) prev qm_prev_None [OF s3(2), of b] by (simp add: qm_first_Some)
  then have dup: "clear_duplicates ops b ?e m3 =
      clear_dups ops (case qm_prev m2 b of None \<Rightarrow> b | Some q \<Rightarrow> q)
        (qm_next m2 (case qm_prev m2 b of None \<Rightarrow> b | Some q \<Rightarrow> q))
        (case qm_next m2 ?e of None \<Rightarrow> None | Some e1 \<Rightarrow> qm_next m2 e1) m3"
    by (auto simp: clear_duplicates_def prev nx split: option.split)
  show thesis
  proof (rule that [OF s2(2) _ _ _ _ _ refl refl])
    show "m2 \<noteq> []" using s2(1) by (metis insert_not_empty qkeys_empty_iff)
    show "qkeys m2 = insert b (insert ?e (qkeys ?m))" using s1(1) s2(1) by simp
    show "last_key m2 = last_key ?m" using cut_at_last [OF s1(2) ne1 bl m2] l1 by simp
    show "val_at m2 x = val_at ?m x" for x using s1(3) s2(3) by simp
    show "x \<in> qkeys ?m \<Longrightarrow> map_of m2 x = map_of ?m x" for x using s1(1,4) s2(4) by simp
    show "SetRange ops rm b e st mode = rm\<lparr>m_Revision := m_Revision rm + 1,
      m_PartMap := clear_dups ops (case qm_prev m2 b of None \<Rightarrow> b | Some q \<Rightarrow> q)
        (qm_next m2 (case qm_prev m2 b of None \<Rightarrow> b | Some q \<Rightarrow> q))
        (case qm_next m2 ?e of None \<Rightarrow> None | Some e1 \<Rightarrow> qm_next m2 e1)
        (set_parts ops st mode ?e b m2)\<rparr>"
      using m1 m2 dup
      by (simp add: SetRange_def IncrRevision_def eff_end_def [symmetric] m3 [symmetric])
  qed
qed

context range_state
begin

lemma SetRange_inv:
  assumes wf: "rm_wf (m_PartMap rm)" and be: "b < eff_end (m_PartMap rm) e"
    and es: "eff_end (m_PartMap rm) e \<le> last_key (m_PartMap rm)"
  shows "rm_wf (m_PartMap (SetRange ops rm b e st mode))"
    and "last_key (m_PartMap (SetRange ops rm b e st mode)) = last_key (m_PartMap rm)"
    and "val_rel ops (val_at (m_PartMap (SetRange ops rm b e st mode)) x)
      (if b \<le> x \<and> x < eff_end (m_PartMap rm) e
       then map_option (\<lambda>v. MakeState ops v st mode) (val_at (m_PartMap rm) x)
       else val_at (m_PartMap rm) x)"
proof -
  let ?m = "m_PartMap rm" and ?e = "eff_end (m_PartMap rm) e"
  obtain m2 p pend where m2: "qwf m2" "m2 \<noteq> []" "qkeys m2 = insert b (insert ?e (qkeys ?m))"
    and l2: "last_key m2 = last_key ?m" and v2: "\<And>x. val_at m2 x = val_at ?m x"
    and p: "p = (case qm_prev m2 b of None \<Rightarrow> b | Some q \<Rightarrow> q)"
    and pend: "pend = (case qm_next m2 ?e of None \<Rightarrow> None | Some e1 \<Rightarrow> qm_next m2 e1)"
    and eq: "SetRange ops rm b e st mode = rm\<lparr>m_Revision := m_Revision rm + 1,
      m_PartMap := clear_dups ops p (qm_next m2 p) pend (set_parts ops st mode ?e b m2)\<rparr>"
    by (rule SetRange_steps [OF wf be es, where ops = ops and st = st and mode = mode]) blast
  define m3 where m3: "m3 = set_parts ops st mode ?e b m2"
  have keys: "b \<in> qkeys m2" "?e \<in> qkeys m2" using m2(3) by auto
  have s3: "qkeys m3 = qkeys m2" "qwf m3"
    using set_parts_spec [OF m2(1) keys] be by (auto simp: m3)
  have ne3: "m3 \<noteq> []" using s3(1) m2(2) by (metis qkeys_empty_iff)
  have nx: "qm_next m3 k = qm_next m2 k" for k by (rule qm_next_keys [OF s3(2) m2(1) s3(1)])
  have l3: "last_key m3 = last_key ?m"
    using last_key_wf [OF m2(1,2)] s3 l2 by (intro last_key_unique) auto
  have pk: "p \<in> qkeys m3" and pb: "p \<le> b"
    using keys s3(1) by (auto simp: p split: option.splits dest: qm_prev_less intro: less_imp_le)
  have "0 \<in> qkeys m3 \<Longrightarrow> b = 0" using wf be m2(3) s3(1) by (auto simp: rm_wf_def)
  moreover have "qm_next m3 p \<noteq> None"
    using order_le_less_trans [OF pb be] keys(2) s3(1) by (auto simp: qm_next_None not_le)
  moreover have "qm_next m3 p \<noteq> pend"
  proof
    assume eqp: "qm_next m3 p = pend"
    with calculation(2) obtain x where x: "qm_next m3 p = Some x" by auto
    then have "x \<le> ?e" using s3 keys pb be qm_next_Some [OF s3(2)] by auto
    moreover from eqp x obtain e1 where "qm_next m2 ?e = Some e1" "qm_next m2 e1 = Some x"
      by (auto simp: pend split: option.splits)
    then have "?e < x" by (blast dest: qm_next_gt order.strict_trans)
    ultimately show False by simp
  qed
  ultimately have z: "0 \<in> qkeys m3 \<Longrightarrow> p = 0 \<and> qm_next m3 p \<noteq> pend \<and> qm_next m3 p \<noteq> None"
    using pb by auto
  note inv = clear_dups_inv [OF s3(2) pk refl z]
  have e: "m_PartMap (SetRange ops rm b e st mode) = clear_dups ops p (qm_next m3 p) pend m3"
    by (simp add: eq m3 nx [unfolded m3])
  show "rm_wf (m_PartMap (SetRange ops rm b e st mode))"
    and "last_key (m_PartMap (SetRange ops rm b e st mode)) = last_key ?m"
    unfolding e using inv l3 by (simp_all add: rm_wf_def)
  have v3: "val_at m3 x = (if b \<le> x \<and> x < ?e then map_option (\<lambda>v. MakeState ops v st mode) (val_at ?m x)
       else val_at ?m x)"
    unfolding m3 by (simp only: set_parts_val_at [OF m2(1) keys be] v2)
  have "val_rel ops (val_at (clear_dups ops p (qm_next m3 p) pend m3) x) (val_at m3 x)"
    using inv by blast
  then show "val_rel ops (val_at (m_PartMap (SetRange ops rm b e st mode)) x)
      (if b \<le> x \<and> x < ?e then map_option (\<lambda>v. MakeState ops v st mode) (val_at ?m x)
       else val_at ?m x)"
    unfolding e v3 .
qed

lemma pair_ok_transfer:
  assumes "qwf m" and "qwf m'" and "qkeys m \<subseteq> qkeys m'" and "k \<in> qkeys m"
    and "\<And>a. qm_next m' k = Some a \<Longrightarrow> a \<in> qkeys m \<and> map_of m' a = map_of m a"
    and "map_of m' k = map_of m k" and "pair_ok ops m k"
  shows "pair_ok ops m' k"
proof (cases "qm_next m' k")
  case (Some a)
  then have "qm_next m k = Some a"
    using assms(3,5) by (auto simp: qm_next_Some [OF assms(1)] qm_next_Some [OF assms(2)])
  with assms(5,6,7) Some show ?thesis by (simp add: pair_ok_def qm_value_def)
qed (simp add: pair_ok_def)

lemma SetRange_canonical:
  assumes wf: "rm_wf (m_PartMap rm)" and be: "b < eff_end (m_PartMap rm) e"
    and es: "eff_end (m_PartMap rm) e \<le> last_key (m_PartMap rm)"
    and can: "canonical ops (m_PartMap rm)"
  shows "canonical ops (m_PartMap (SetRange ops rm b e st mode))"
proof -
  let ?m = "m_PartMap rm" and ?e = "eff_end (m_PartMap rm) e"
  obtain m2 p pend where m2: "qwf m2" "qkeys m2 = insert b (insert ?e (qkeys ?m))"
    and v2: "\<And>x. x \<in> qkeys ?m \<Longrightarrow> map_of m2 x = map_of ?m x"
    and p: "p = (case qm_prev m2 b of None \<Rightarrow> b | Some q \<Rightarrow> q)"
    and pend: "pend = (case qm_next m2 ?e of None \<Rightarrow> None | Some e1 \<Rightarrow> qm_next m2 e1)"
    and eq: "SetRange ops rm b e st mode = rm\<lparr>m_Revision := m_Revision rm + 1,
      m_PartMap := clear_dups ops p (qm_next m2 p) pend (set_parts ops st mode ?e b m2)\<rparr>"
    by (rule SetRange_steps [OF wf be es, where ops = ops and st = st and mode = mode]) blast
  define m3 where m3: "m3 = set_parts ops st mode ?e b m2"
  have keys: "b \<in> qkeys m2" "?e \<in> qkeys m2" using m2(2) by auto
  have s3: "qkeys m3 = qkeys m2" "qwf m3" "\<And>x. x \<le> b \<or> ?e < x \<Longrightarrow> map_of m3 x = map_of m2 x"
    using set_parts_spec [OF m2(1) keys] be by (auto simp: m3)
  have nx: "qm_next m3 k = qm_next m2 k" for k by (rule qm_next_keys [OF s3(2) m2(1) s3(1)])
  have pk: "p \<in> qkeys m3" and pb: "p \<le> b"
    using keys s3(1) by (auto simp: p split: option.splits dest: qm_prev_less intro: less_imp_le)
  have sub: "qkeys ?m \<subseteq> qkeys m3" and qwf: "qwf ?m" using wf s3(1) m2(2) by (auto simp: rm_wf_def)
  have ok: "k \<in> qkeys ?m \<Longrightarrow> pair_ok ops ?m k" for k using can by (simp add: canonical_def)
  have pre: "pair_ok ops m3 k" if k: "k \<in> qkeys m3" "k < p" for k
  proof -
    have "qm_prev m2 b \<noteq> None"
      using k s3(1) pb p qm_prev_None [OF m2(1), of b] by (auto dest: leD)
    with p have "p < b" by (auto dest: qm_prev_less)
    then have km: "k \<in> qkeys ?m" using k s3(1) m2(2) be by auto
    show ?thesis
    proof (rule pair_ok_transfer [OF qwf s3(2) sub km _ _ ok [OF km]])
      show "map_of m3 k = map_of ?m k" using s3(3) [of k] v2 [OF km] order_less_le_trans [OF k(2) pb] by (simp add: less_imp_le)
      show "a \<in> qkeys ?m \<and> map_of m3 a = map_of ?m a" if a: "qm_next m3 k = Some a" for a
      proof -
        have "a \<le> p" using a pk k(2) qm_next_Some [OF s3(2)] by auto
        with \<open>p < b\<close> have ab: "a < b" by (rule order_le_less_trans [rotated])
        then have am: "a \<in> qkeys ?m" using s3(1) m2(2) be qm_next_gt(2) [OF a] by auto
        with ab show ?thesis using s3(3) [of a] v2 [of a] by (simp add: less_imp_le)
      qed
    qed
  qed
  have post: "pair_ok ops m3 k"
    if k: "k \<in> qkeys m3" "qm_next m3 k = Some a" "pend = Some x" "x \<le> a" for k a x
  proof -
    from k(3) obtain e1 where e1: "qm_next m2 ?e = Some e1" "qm_next m2 e1 = Some x"
      by (auto simp: pend split: option.splits)
    then have gt: "?e < e1" "e1 < x" "e1 \<in> qkeys m2" by (auto dest: qm_next_gt)
    have "e1 \<le> k" using k(2,4) gt s3(1) qm_next_Some [OF s3(2), of k a] by force
    then have km: "k \<in> qkeys ?m" and ek: "?e < k" using k(1) s3(1) m2(2) gt be by auto
    show ?thesis
    proof (rule pair_ok_transfer [OF qwf s3(2) sub km _ _ ok [OF km]])
      show "map_of m3 k = map_of ?m k" using s3(3) [of k] v2 [OF km] ek by simp
      show "a \<in> qkeys ?m \<and> map_of m3 a = map_of ?m a" if a: "qm_next m3 k = Some a" for a
      proof -
        have ea: "?e < a" using ek qm_next_gt(1) [OF a] by (rule order.strict_trans)
        then have "a \<in> qkeys ?m" using s3(1) m2(2) be qm_next_gt(2) [OF a] by auto
        with ea show ?thesis using s3(3) [of a] v2 [of a] by simp
      qed
    qed
  qed
  have z: "0 \<in> qkeys m3 \<Longrightarrow> p = 0" using wf be m2(2) s3(1) pb by (auto simp: rm_wf_def)
  show ?thesis
    unfolding canonical_def eq using clear_dups_canonical [OF s3(2) pk refl z pre post]
    by (simp add: m3 nx [unfolded m3])
qed

end

section \<open>SetRange outside the file\<close>

lemma cut_at_outside: "qwf m \<Longrightarrow> m \<noteq> [] \<Longrightarrow> last_key m < k \<Longrightarrow> cut_at ops m k = None"
  using last_key_wf [of m] qm_lower_None [of m k] by (auto simp: cut_at_def)

lemma SetRange_outside_aux:
  assumes "rm_wf (m_PartMap rm)" and "last_key (m_PartMap rm) < e" and "e \<noteq> - 1"
  shows "SetRange ops rm b e st mode = IncrRevision rm"
  using assms cut_at_outside [of "m_PartMap rm" e ops]
  by (simp add: SetRange_def IncrRevision_def rm_wf_def)

section \<open>GetRange\<close>

lemma val_at_run:
  assumes "qwf m" and "k \<in> qkeys m" and "x < k" and "\<And>a. a \<in> qkeys m \<Longrightarrow> a < k \<Longrightarrow> a \<le> x"
  shows "val_at m x = Some (qm_value m d k)"
proof -
  have "qm_next m x = Some k"
    by (rule qm_next_unique [OF assms(1,2,3)]) (use assms(4) in \<open>force simp: not_le\<close>)
  then show ?thesis using map_of_qm_value [OF assms(2)] by (simp add: val_at_def)
qed

lemma val_at_prev:
  assumes "qwf m" and "k \<in> qkeys m" and "x < k" and "\<And>a. qm_prev m k = Some a \<Longrightarrow> a \<le> x"
  shows "val_at m x = Some (qm_value m d k)"
proof (rule val_at_run [OF assms(1,2,3)])
  fix a assume a: "a \<in> qkeys m" "a < k"
  then obtain p where p: "qm_prev m k = Some p"
    using qm_prev_None [OF assms(1), of k] by (cases "qm_prev m k") auto
  with a assms(1) have "a \<le> p" by (simp add: qm_prev_Some)
  with assms(4) [OF p] show "a \<le> x" by simp
qed

definition sees :: "'v state_ops \<Rightarrow> ('v \<Rightarrow> bool) \<Rightarrow> (uint64, 'v) qmap \<Rightarrow> 'v \<Rightarrow> uint64 \<Rightarrow> bool" where
  "sees ops obs m msk x = (case val_at m x of None \<Rightarrow> False | Some v \<Rightarrow> obs (mask_state ops v msk))"


lemma sees_run:
  assumes "qwf m" and "part \<in> qkeys m" and "b < part" and "b \<le> x" and "x < part"
    and "\<And>p. qm_prev m part = Some p \<Longrightarrow> p \<le> x"
  shows "sees ops obs m msk x = obs (mask_state ops (qm_value m (V0 ops) part) msk)"
  using val_at_prev [OF assms(1,2,5,6), of "V0 ops"] by (simp add: sees_def)

lemma all_run_split:
  assumes "qwf m" and "part \<in> qkeys m" and "b < part"
  shows "(\<forall>x. b \<le> x \<and> x < part \<longrightarrow> sees ops obs m msk x) =
    (obs (mask_state ops (qm_value m (V0 ops) part) msk) \<and>
      (case qm_prev m part of None \<Rightarrow> True
       | Some p \<Rightarrow> (\<forall>x. b \<le> x \<and> x < p \<longrightarrow> sees ops obs m msk x)))"
    (is "?L = (?c \<and> ?R)")
proof (cases "qm_prev m part")
  case None
  then show ?thesis
    using sees_run [OF assms, of _ ops obs msk] assms(3) by auto
next
  case (Some p)
  have pp: "p < part" using Some by (rule qm_prev_less)
  have run: "sees ops obs m msk x = ?c" if "b \<le> x" "p \<le> x" "x < part" for x
    by (rule sees_run [OF assms that(1,3)]) (use Some that(2) in simp)
  have "sees ops obs m msk (max b p) = ?c" by (rule run) (use pp assms(3) in auto)
  moreover have "b \<le> max b p \<and> max b p < part" using pp assms(3) by auto
  ultimately have "?L \<Longrightarrow> ?c" by blast
  moreover have "?R \<Longrightarrow> ?c \<Longrightarrow> ?L"
    using run unfolding Some option.case by (meson not_le)
  moreover have "?L \<Longrightarrow> ?R"
    using order.strict_trans [OF _ pp] by (auto simp: Some)
  ultimately show ?thesis by blast
qed

lemma ex_run_split:
  assumes "qwf m" and "part \<in> qkeys m" and "b < part"
  shows "(\<exists>x. b \<le> x \<and> x < part \<and> sees ops obs m msk x) =
    (obs (mask_state ops (qm_value m (V0 ops) part) msk) \<or>
      (case qm_prev m part of None \<Rightarrow> False
       | Some p \<Rightarrow> (\<exists>x. b \<le> x \<and> x < p \<and> sees ops obs m msk x)))"
    (is "?L = (?c \<or> ?R)")
proof (cases "qm_prev m part")
  case None
  then show ?thesis
    using sees_run [OF assms, of _ ops obs msk] assms(3) by auto
next
  case (Some p)
  have pp: "p < part" using Some by (rule qm_prev_less)
  have run: "sees ops obs m msk x = ?c" if "b \<le> x" "p \<le> x" "x < part" for x
    by (rule sees_run [OF assms that(1,3)]) (use Some that(2) in simp)
  have "sees ops obs m msk (max b p) = ?c" by (rule run) (use pp assms(3) in auto)
  moreover have "b \<le> max b p \<and> max b p < part" using pp assms(3) by auto
  ultimately have "?c \<Longrightarrow> ?L" by blast
  moreover have "?L \<Longrightarrow> ?c \<or> ?R"
    using run unfolding Some option.case by (meson not_le)
  moreover have "?R \<Longrightarrow> ?L"
    using order.strict_trans [OF _ pp] by (auto simp: Some)
  ultimately show ?thesis by blast
qed

lemma sees_lower:
  assumes "qwf m" and "qm_lower m e = Some part" and "b < e"
  obtains y where "b \<le> y" and "y < e"
    and "\<And>x. e \<le> x \<Longrightarrow> x < part \<Longrightarrow> sees ops obs m msk x = sees ops obs m msk y"
proof -
  have p: "part \<in> qkeys m" "e \<le> part" "\<forall>a \<in> qkeys m. e \<le> a \<longrightarrow> part \<le> a"
    using assms(1,2) by (auto simp: qm_lower_Some)
  define y where "y = (case qm_prev m part of None \<Rightarrow> b | Some q \<Rightarrow> max b q)"
  have prev: "q < e" if "qm_prev m part = Some q" for q
    using qm_prev_less [OF that] p(3) by (auto simp: not_le [symmetric])
  have ye: "b \<le> y" "y < e" using assms(3) prev by (auto simp: y_def split: option.splits)
  have part: "b < part" using assms(3) p(2) by (rule order_less_le_trans)
  have run: "sees ops obs m msk x = obs (mask_state ops (qm_value m (V0 ops) part) msk)"
    if "y \<le> x" "x < part" for x
    by (rule sees_run [OF assms(1) p(1) part _ that(2)])
      (use that ye in \<open>auto simp: y_def split: option.splits\<close>)
  show thesis
  proof (rule that [OF ye])
    fix x assume x: "e \<le> x" "x < part"
    have "y < part" using ye(2) p(2) by (rule order_less_le_trans)
    moreover have "y \<le> x" using ye(2) x(1) by (meson less_imp_le order_less_le_trans)
    ultimately show "sees ops obs m msk x = sees ops obs m msk y" using x run by simp
  qed
qed

locale range_observer =
  fixes ops :: "'v state_ops" and obs :: "'v \<Rightarrow> bool"
  assumes obs_inter: "obs (MergeState ops a b eInter) = (obs a \<and> obs b)"
    and obs_union: "obs (MergeState ops a b eUnion) = (obs a \<or> obs b)"
begin

lemma get_range_loop_inter:
  assumes "qwf m" and "part \<in> qkeys m" and "b < part"
  shows "obs (get_range_loop ops m eInter msk b part first st) =
    ((first \<or> obs st) \<and> (\<forall>x. b \<le> x \<and> x < part \<longrightarrow> sees ops obs m msk x))"
  using assms
proof (induction o'\<equiv>ops m mode\<equiv>eInter msk b part first st rule: get_range_loop.induct)
  case (1 m msk b part first st)
  let ?cur = "mask_state ops (qm_value m (V0 ops) part) msk"
  let ?st = "if first then ?cur else MergeState ops ?cur st eInter"
  have st: "obs ?st = (obs ?cur \<and> (first \<or> obs st))" by (auto simp: obs_inter)
  have step: "get_range_loop ops m eInter msk b part first st =
      (case qm_prev m part of None \<Rightarrow> ?st | Some p \<Rightarrow> get_range_loop ops m eInter msk b p False ?st)"
    by (subst get_range_loop.simps) (simp only: Let_def not_le [THEN iffD2, OF "1.prems"(3)] if_False)
  show ?case
  proof (cases "qm_prev m part")
    case None
    then show ?thesis
      unfolding step all_run_split [OF "1.prems"] by (auto simp: st)
  next
    case (Some p)
    show ?thesis
    proof (cases "b < p")
      case True
      have "obs (get_range_loop ops m eInter msk b p False ?st) =
        ((False \<or> obs ?st) \<and> (\<forall>x. b \<le> x \<and> x < p \<longrightarrow> sees ops obs m msk x))"
        by (rule "1.hyps" [OF _ refl refl Some "1.prems"(1) qm_prev_less(2) [OF Some] True])
          (use "1.prems" in \<open>simp add: not_le\<close>)
      with Some show ?thesis
        unfolding step all_run_split [OF "1.prems"] by (auto simp: st)
    next
      case False
      then have "get_range_loop ops m eInter msk b p False ?st = ?st"
        by (subst get_range_loop.simps) (simp add: not_less)
      with Some False show ?thesis
        unfolding step all_run_split [OF "1.prems"] by (auto simp: st)
    qed
  qed
qed

lemma get_range_loop_union:
  assumes "qwf m" and "part \<in> qkeys m" and "b < part"
  shows "obs (get_range_loop ops m eUnion msk b part first st) =
    ((\<not> first \<and> obs st) \<or> (\<exists>x. b \<le> x \<and> x < part \<and> sees ops obs m msk x))"
  using assms
proof (induction o'\<equiv>ops m mode\<equiv>eUnion msk b part first st rule: get_range_loop.induct)
  case (1 m msk b part first st)
  let ?cur = "mask_state ops (qm_value m (V0 ops) part) msk"
  let ?st = "if first then ?cur else MergeState ops ?cur st eUnion"
  have st: "obs ?st = (obs ?cur \<or> (\<not> first \<and> obs st))" by (auto simp: obs_union)
  have step: "get_range_loop ops m eUnion msk b part first st =
      (case qm_prev m part of None \<Rightarrow> ?st | Some p \<Rightarrow> get_range_loop ops m eUnion msk b p False ?st)"
    by (subst get_range_loop.simps) (simp only: Let_def not_le [THEN iffD2, OF "1.prems"(3)] if_False)
  show ?case
  proof (cases "qm_prev m part")
    case None
    then show ?thesis
      unfolding step ex_run_split [OF "1.prems"] by (auto simp: st)
  next
    case (Some p)
    show ?thesis
    proof (cases "b < p")
      case True
      have "obs (get_range_loop ops m eUnion msk b p False ?st) =
        ((\<not> False \<and> obs ?st) \<or> (\<exists>x. b \<le> x \<and> x < p \<and> sees ops obs m msk x))"
        by (rule "1.hyps" [OF _ refl refl Some "1.prems"(1) qm_prev_less(2) [OF Some] True])
          (use "1.prems" in \<open>simp add: not_le\<close>)
      with Some show ?thesis
        unfolding step ex_run_split [OF "1.prems"] by (auto simp: st)
    next
      case False
      then have "get_range_loop ops m eUnion msk b p False ?st = ?st"
        by (subst get_range_loop.simps) (simp add: not_less)
      with Some False show ?thesis
        unfolding step ex_run_split [OF "1.prems"] by (auto simp: st)
    qed
  qed
qed


lemma GetRange_lower:
  assumes "rm_wf (m_PartMap rm)" and "b < eff_end (m_PartMap rm) e"
    and "eff_end (m_PartMap rm) e \<le> last_key (m_PartMap rm)"
  obtains part where "qm_lower (m_PartMap rm) (eff_end (m_PartMap rm) e) = Some part"
    and "part \<in> qkeys (m_PartMap rm)" and "b < part" and "eff_end (m_PartMap rm) e \<le> part"
    and "GetRange ops rm b e mode msk = get_range_loop ops (m_PartMap rm) mode msk b part True (V0 ops)"
proof -
  let ?m = "m_PartMap rm"
  have wf: "qwf ?m" "?m \<noteq> []" using assms(1) by (auto simp: rm_wf_def)
  then obtain part where part: "qm_lower ?m (eff_end ?m e) = Some part"
    using last_key_wf [OF wf] qm_lower_None [of ?m "eff_end ?m e"] assms(3)
    by (cases "qm_lower ?m (eff_end ?m e)") (auto dest: leD)
  then have p: "part \<in> qkeys ?m" "eff_end ?m e \<le> part" using wf by (auto simp: qm_lower_Some)
  show thesis
    by (rule that [OF part p(1) order_less_le_trans [OF assms(2) p(2)] p(2)])
      (simp add: GetRange_def eff_end_def [symmetric] part)
qed

lemma GetRange_inter_obs:
  assumes "rm_wf (m_PartMap rm)" and "b < eff_end (m_PartMap rm) e"
    and "eff_end (m_PartMap rm) e \<le> last_key (m_PartMap rm)"
  shows "obs (GetRange ops rm b e eInter msk) =
    (\<forall>x. b \<le> x \<and> x < eff_end (m_PartMap rm) e \<longrightarrow> sees ops obs (m_PartMap rm) msk x)"
proof -
  let ?m = "m_PartMap rm" and ?e = "eff_end (m_PartMap rm) e"
  have wf: "qwf ?m" using assms(1) by (simp add: rm_wf_def)
  obtain part where p: "qm_lower ?m ?e = Some part" "part \<in> qkeys ?m" "b < part" "?e \<le> part"
      "GetRange ops rm b e eInter msk = get_range_loop ops ?m eInter msk b part True (V0 ops)"
    by (rule GetRange_lower [OF assms])
  obtain y where y: "b \<le> y" "y < ?e"
      "\<And>x. ?e \<le> x \<Longrightarrow> x < part \<Longrightarrow> sees ops obs ?m msk x = sees ops obs ?m msk y"
    by (rule sees_lower [OF wf p(1) assms(2)]) blast
  show ?thesis
    unfolding p(5) get_range_loop_inter [OF wf p(2,3)]
    using y p(4) by (meson not_le order_less_le_trans)
qed

lemma GetRange_union_obs:
  assumes "rm_wf (m_PartMap rm)" and "b < eff_end (m_PartMap rm) e"
    and "eff_end (m_PartMap rm) e \<le> last_key (m_PartMap rm)"
  shows "obs (GetRange ops rm b e eUnion msk) =
    (\<exists>x. b \<le> x \<and> x < eff_end (m_PartMap rm) e \<and> sees ops obs (m_PartMap rm) msk x)"
proof -
  let ?m = "m_PartMap rm" and ?e = "eff_end (m_PartMap rm) e"
  have wf: "qwf ?m" using assms(1) by (simp add: rm_wf_def)
  obtain part where p: "qm_lower ?m ?e = Some part" "part \<in> qkeys ?m" "b < part" "?e \<le> part"
      "GetRange ops rm b e eUnion msk = get_range_loop ops ?m eUnion msk b part True (V0 ops)"
    by (rule GetRange_lower [OF assms])
  obtain y where y: "b \<le> y" "y < ?e"
      "\<And>x. ?e \<le> x \<Longrightarrow> x < part \<Longrightarrow> sees ops obs ?m msk x = sees ops obs ?m msk y"
    by (rule sees_lower [OF wf p(1) assms(2)]) blast
  show ?thesis
    unfolding p(5) get_range_loop_union [OF wf p(2,3)]
    using y p(4) by (meson not_le order_less_le_trans)
qed

end

section \<open>GetNextRange\<close>

definition prev_key :: "(uint64, 'v) qmap \<Rightarrow> uint64 \<Rightarrow> uint64" where
  "prev_key m k = (case qm_prev m k of None \<Rightarrow> 0 | Some p \<Rightarrow> p)"

definition hint_valid :: "'v range_map \<Rightarrow> iter_hint option \<Rightarrow> bool" where
  "hint_valid rm h = (case h of None \<Rightarrow> True
     | Some h \<Rightarrow> hRevision h = m_Revision rm \<longrightarrow>
         (case hIter h of None \<Rightarrow> True | Some k \<Rightarrow> k \<in> qkeys (m_PartMap rm)))"

lemma qm_lower_succ: "(k :: uint64) \<noteq> - 1 \<Longrightarrow> qwf m \<Longrightarrow> qm_lower m (k + 1) = qm_next m k"
proof -
  assume k: "(k :: uint64) \<noteq> - 1" and wf: "qwf m"
  show ?thesis
  proof (cases "qm_next m k")
    case None
    then have "\<forall>b \<in> qkeys m. b \<le> k" by (simp only: qm_next_None)
    then have "qm_lower m (k + 1) = None"
      unfolding qm_lower_None using word_less_succ_iff [OF k] by blast
    with None show ?thesis by simp
  next
    case (Some a)
    then have "a \<in> qkeys m \<and> k < a \<and> (\<forall>b \<in> qkeys m. k < b \<longrightarrow> a \<le> b)"
      using qm_next_Some [OF wf] by blast
    moreover have "(k + 1 \<le> x) = (k < x)" for x by (rule word_succ_le_iff [OF k])
    ultimately have "qm_lower m (k + 1) = Some a"
      unfolding qm_lower_Some [OF wf] by presburger
    with Some show ?thesis by simp
  qed
qed

lemma hint_part:
  assumes wf: "qwf m" "m \<noteq> []" and m: "m = m_PartMap rm" and h: "hint_valid rm h" and p: "p \<noteq> - 1"
  shows "(if hint_applies rm h (p + 1) then hint_next m h else qm_lower m (p + 1)) = qm_next m p"
proof (cases "hint_applies rm h (p + 1)")
  case True
  then obtain hh where h': "h = Some hh" "hRevision hh = m_Revision rm" 
      "(case hIter hh of None \<Rightarrow> last_key m | Some k \<Rightarrow> k) = p"
    by (auto simp: hint_applies_def m split: option.splits)
  show ?thesis
  proof (cases "hIter hh")
    case None
    then have "last_key m = p" using h' by simp
    then have "qm_next m p = None" using qm_next_last [OF wf, of p] by simp
    then show ?thesis using h' True None by (simp add: hint_next_def)
  next
    case (Some k)
    then show ?thesis using h' True by (simp add: hint_next_def)
  qed
next
  case False
  then show ?thesis using p wf by (simp add: qm_lower_succ)
qed

lemma GetNextRange_eq:
  assumes wf: "rm_wf (m_PartMap rm)" and h: "hint_valid rm h" and p: "max b e \<noteq> - 1"
  shows "GetNextRange ops rm b e st msk h =
    (case qm_next (m_PartMap rm) (max b e) of
       None \<Rightarrow> (False, b, max b e + 1, st, h)
     | Some k \<Rightarrow>
         let m = m_PartMap rm;
             st' = mask_state ops (qm_value m (V0 ops) k) msk;
             e' = (if StateSet ops msk then extend_range ops m msk st' k else k)
         in (True, prev_key m k, e', st', map_option (\<lambda>h. \<lparr>hRevision = m_Revision rm, hIter = Some e'\<rparr>) h))"
proof -
  have mx: "(if b > e then b else e) = max b e" by (auto simp: max_def)
  show ?thesis
    using wf hint_part [OF _ _ refl h p]
    unfolding GetNextRange_def mx Let_def rm_wf_def
    by (simp add: prev_key_def split: option.split)
qed

lemma extend_range_step: "extend_range ops m msk st k =
     (case qm_next m k of
        None \<Rightarrow> k
      | Some k' \<Rightarrow>
          if MatchState ops st (MergeState ops (qm_value m (V0 ops) k') msk eInter)
          then extend_range ops m msk st k' else k)"
  by (rule extend_range.simps)

lemma extend_range_spec:
  assumes "qwf m" and "k \<in> qkeys m"
  shows "extend_range ops m msk st k \<in> qkeys m \<and> k \<le> extend_range ops m msk st k \<and>
    (\<forall>x v. k \<le> x \<and> x < extend_range ops m msk st k \<and> val_at m x = Some v \<longrightarrow>
      MatchState ops st (MergeState ops v msk eInter)) \<and>
    (\<forall>v. val_at m (extend_range ops m msk st k) = Some v \<longrightarrow>
      \<not> MatchState ops st (MergeState ops v msk eInter))"
  using assms
proof (induction ops m msk st k rule: extend_range.induct)
  case (1 ops m msk st k)
  show ?case
  proof (cases "qm_next m k")
    case None
    then have "val_at m k = None" by (simp add: val_at_def)
    with None "1.prems" show ?thesis by (subst (1 2 3 4) extend_range_step) (auto simp flip: not_less)
  next
    case (Some k')
    then have k': "k < k'" "k' \<in> qkeys m" by (auto dest: qm_next_gt)
    have run: "val_at m x = Some (qm_value m (V0 ops) k')" if "k \<le> x" "x < k'" for x
      by (rule val_at_run [OF "1.prems"(1) k'(2) that(2)])
        (use that Some "1.prems"(1) in \<open>force simp: qm_next_Some not_le\<close>)
    show ?thesis
    proof (cases "MatchState ops st (MergeState ops (qm_value m (V0 ops) k') msk eInter)")
      case True
      then have e: "extend_range ops m msk st k = extend_range ops m msk st k'"
        by (subst extend_range_step) (simp add: Some)
      note IH = "1.IH" [OF Some True "1.prems"(1) k'(2)]
      have "MatchState ops st (MergeState ops v msk eInter)"
        if that: "k \<le> x" "x < extend_range ops m msk st k'" "val_at m x = Some v" for x v
      proof (cases "x < k'")
        case True': True
        with that(1,3) run [of x] True show ?thesis by simp
      next
        case False
        with that IH show ?thesis by (auto simp: not_less)
      qed
      then show ?thesis unfolding e using IH k'(1) by (meson less_imp_le order_trans)
    next
      case False
      then have e: "extend_range ops m msk st k = k"
        by (subst extend_range_step) (simp add: Some)
      show ?thesis unfolding e using False "1.prems"(2) run [of k] k'(1) by (auto dest: leD)
    qed
  qed
qed

section \<open>The loops over all ranges\<close>

text \<open>The runs of a map as (begin, end, state), the first one beginning at the given position.\<close>

fun runs :: "uint64 \<Rightarrow> (uint64, 'v) qmap \<Rightarrow> (uint64 \<times> uint64 \<times> 'v) list" where
  "runs b [] = []"
| "runs b ((k, v) # m) = (b, k, v) # runs k m"

lemma qm_next_append: "qwf (xs @ (k, v) # ys) \<Longrightarrow> (\<forall>x \<in> qkeys xs. x \<le> b) \<Longrightarrow> b < k \<Longrightarrow>
    qm_next (xs @ (k, v) # ys) b = Some k"
  by (rule qm_next_unique) (auto simp: qwf_def sorted_wrt_append qkeys_def less_imp_le)

lemma qm_prev_append: "qwf (xs @ (k, v) # ys) \<Longrightarrow>
    qm_prev (xs @ (k, v) # ys) k = qm_last xs"
proof -
  assume wf: "qwf (xs @ (k, v) # ys)"
  then have less: "\<forall>e \<in> set xs. fst e < k" by (auto simp: qwf_def sorted_wrt_append)
  then have "takeWhile (\<lambda>e. fst e < k) (xs @ (k, v) # ys) = xs"
    by (simp add: takeWhile_append)
  then show ?thesis by (simp add: qm_prev_def qm_last_def)
qed

lemma qm_value_append: "qwf (xs @ (k, v) # ys) \<Longrightarrow> qm_value (xs @ (k, v) # ys) d k = v"
proof (rule qm_value_eq)
  assume "qwf (xs @ (k, v) # ys)"
  then have "\<forall>e \<in> set xs. fst e < k" by (auto simp: qwf_def sorted_wrt_append)
  then have "map_of xs k = None" by (force simp: qkeys_def)
  then show "map_of (xs @ (k, v) # ys) k = Some v" by (simp add: map_add_def del: map_of_dom)
qed

lemma last_key_snoc: "last_key (xs @ [e]) = fst e"
  by (simp add: last_key_def qm_last_def head_key_def)

lemma last_key_Nil [simp]: "last_key [] = 0"
  by (simp add: last_key_def qm_last_def head_key_def)

lemma prev_key_append: "qwf (xs @ (k, v) # ys) \<Longrightarrow> prev_key (xs @ (k, v) # ys) k = last_key xs"
  by (simp add: prev_key_def qm_prev_append last_key_def)

lemma qm_next_end: "\<forall>x \<in> qkeys m. x \<le> b \<Longrightarrow> qm_next m b = None"
  by (simp add: qm_next_None)

lemma GetNextRange_run_max:
  assumes wf: "rm_wf (xs @ (k, v) # ys)" and m: "m_PartMap rm = xs @ (k, v) # ys"
    and h: "hint_valid rm h" and e: "last_key xs \<le> max b e" and ek: "max b e < k"
    and msk: "\<not> StateSet ops msk"
  shows "GetNextRange ops rm b e st msk h =
    (True, last_key xs, k, v, map_option (\<lambda>h. \<lparr>hRevision = m_Revision rm, hIter = Some k\<rparr>) h)"
proof -
  have q: "qwf (xs @ (k, v) # ys)" using wf by (simp add: rm_wf_def)
  then have qx: "qwf xs" by (simp add: qwf_def sorted_wrt_append)
  have "\<forall>x \<in> qkeys xs. x \<le> max b e"
    using last_key_wf [OF qx] e by (cases "xs = []") (auto intro: order_trans simp del: max.bounded_iff)
  then have next_k: "qm_next (m_PartMap rm) (max b e) = Some k"
    unfolding m using ek by (rule qm_next_append [OF q])
  have "max b e \<noteq> - 1" using word_less_max [OF ek] by simp
  from GetNextRange_eq [OF _ h this, of ops st msk] show ?thesis
    using wf msk q by (simp add: m next_k [unfolded m] prev_key_append qm_value_append mask_state_def)
qed

lemma GetNextRange_run:
  assumes wf: "rm_wf (xs @ (k, v) # ys)" and m: "m_PartMap rm = xs @ (k, v) # ys"
    and h: "hint_valid rm h" and be: "b \<le> e" and e: "last_key xs \<le> e" and ek: "e < k"
    and msk: "\<not> StateSet ops msk"
  shows "GetNextRange ops rm b e st msk h =
    (True, last_key xs, k, v, map_option (\<lambda>h. \<lparr>hRevision = m_Revision rm, hIter = Some k\<rparr>) h)"
  by (rule GetNextRange_run_max [OF wf m h _ _ msk]) (use be e ek in \<open>simp_all add: max_absorb2\<close>)

lemma GetNextRange_end:
  assumes wf: "rm_wf (m_PartMap rm)" and h: "hint_valid rm h" and be: "b \<le> e"
    and l: "last_key (m_PartMap rm) \<le> e" and e: "e \<noteq> - 1"
  shows "GetNextRange ops rm b e st msk h = (False, b, e + 1, st, h)"
proof -
  have "max b e = e" using be by simp
  with GetNextRange_eq [OF wf h, of b e ops st msk] show ?thesis
    using wf l e qm_next_last [of "m_PartMap rm" e] by (simp add: rm_wf_def)
qed

lemma ranges_loop_runs:
  assumes "rm_wf (m_PartMap rm)" and "m_PartMap rm = xs @ ys" and "hint_valid rm h"
    and "b \<le> last_key xs" and "\<not> StateSet ops msk" and "last_key (m_PartMap rm) \<noteq> - 1"
    and "length ys < n"
  shows "ranges_loop ops rm msk n b (last_key xs) st h = Some (runs (last_key xs) ys)"
  using assms(2-4,7)
proof (induction ys arbitrary: xs n b st h)
  case Nil
  then obtain n' where n: "n = Suc n'" by (cases n) auto
  have "last_key (m_PartMap rm) \<le> last_key xs" using Nil.prems(1) by simp
  from GetNextRange_end [OF assms(1) Nil.prems(2,3) this] assms(6) Nil.prems(1)
  show ?case by (simp add: n)
next
  case (Cons kv ys)
  obtain k v where kv: "kv = (k, v)" by (cases kv)
  obtain n' where n: "n = Suc n'" "length ys < n'" using Cons.prems(4) by (cases n) auto
  have m: "m_PartMap rm = xs @ (k, v) # ys" using Cons.prems(1) kv by simp
  have wf: "rm_wf (xs @ (k, v) # ys)" using assms(1) m by simp
  have lk: "last_key xs < k"
  proof (cases xs rule: rev_cases)
    case Nil
    with wf have "k \<noteq> 0" by (auto simp: rm_wf_def)
    with Nil show ?thesis by (simp add: word_gt_0)
  next
    case (snoc zs e)
    with wf show ?thesis by (auto simp: last_key_snoc rm_wf_def qwf_def sorted_wrt_append)
  qed
  have step: "GetNextRange ops rm b (last_key xs) st msk h =
      (True, last_key xs, k, v, map_option (\<lambda>h. \<lparr>hRevision = m_Revision rm, hIter = Some k\<rparr>) h)"
    by (rule GetNextRange_run [OF wf m Cons.prems(2,3) order_refl lk assms(5)])
  have "hint_valid rm (map_option (\<lambda>h. \<lparr>hRevision = m_Revision rm, hIter = Some k\<rparr>) h)"
    by (simp add: hint_valid_def m qkeys_def split: option.split)
  from Cons.IH [OF _ this _ n(2), of "xs @ [(k, v)]" "last_key xs" v]
  have "ranges_loop ops rm msk n' (last_key xs) k v
      (map_option (\<lambda>h. \<lparr>hRevision = m_Revision rm, hIter = Some k\<rparr>) h) = Some (runs k ys)"
    using m lk by (simp add: last_key_snoc)
  then show ?case by (simp add: n(1) step kv)
qed


section \<open>CountLength\<close>

text \<open>The bytes that runs from \<open>b\<close> on give a state that satisfies \<open>P\<close>.\<close>

definition bytes_with :: "(uint64, 'v) qmap \<Rightarrow> uint64 \<Rightarrow> ('v \<Rightarrow> bool) \<Rightarrow> uint64 set" where
  "bytes_with m b P = {x. b \<le> x \<and> (\<exists>v. val_at m x = Some v \<and> P v)}"

lemma card_word_atLeastLessThan: "b \<le> (k :: uint64) \<Longrightarrow> card {x. b \<le> x \<and> x < k} = unat (k - b)"
proof -
  assume bk: "b \<le> k"
  have "bij_betw unat {x. b \<le> x \<and> x < k} {unat b ..< unat k}"
  proof (rule bij_betw_imageI)
    show "inj_on unat {x. b \<le> x \<and> x < k}" by (simp add: inj_on_def word_unat_eq_iff)
    show "unat ` {x. b \<le> x \<and> x < k} = {unat b ..< unat k}"
    proof
      show "unat ` {x. b \<le> x \<and> x < k} \<subseteq> {unat b ..< unat k}"
        by (auto simp: word_le_nat_alt word_less_nat_alt)
      show "{unat b ..< unat k} \<subseteq> unat ` {x. b \<le> x \<and> x < k}"
      proof
        fix n assume n: "n \<in> {unat b ..< unat k}"
        then have "n < 2 ^ 64" using unat_lt2p [of k] by simp
        then have u: "unat (of_nat n :: uint64) = n" by (simp add: unat_of_nat_eq)
        with n have "b \<le> of_nat n \<and> of_nat n < k"
          by (simp add: word_le_nat_alt word_less_nat_alt)
        with u show "n \<in> unat ` {x. b \<le> x \<and> x < k}" by (metis (mono_tags) mem_Collect_eq imageI)
      qed
    qed
  qed
  then have "card {x. b \<le> x \<and> x < k} = unat k - unat b" by (simp add: bij_betw_same_card)
  also have "\<dots> = unat (k - b)" using bk by (simp add: unat_sub)
  finally show ?thesis .
qed

lemma val_at_Cons:
  "qwf ((k, v) # m) \<Longrightarrow> val_at ((k, v) # m) x = (if x < k then Some v else val_at m x)"
proof -
  assume wf: "qwf ((k, v) # m)"
  have "qm_next ((k, v) # m) x = (if x < k then Some k else qm_next m x)"
    by (auto simp: qm_next_def head_key_def)
  moreover have "qm_next m x \<noteq> Some k" using wf by (auto dest: qm_next_gt)
  ultimately show ?thesis by (auto simp: val_at_def split: option.splits)
qed

lemma val_at_Nil [simp]: "val_at [] x = None"
  by (simp add: val_at_def qm_next_def head_key_def)

lemma bytes_with_Cons:
  assumes "qwf ((k, v) # m)" and "b < k"
  shows "bytes_with ((k, v) # m) b P = (if P v then {x. b \<le> x \<and> x < k} else {}) \<union> bytes_with m k P"
proof -
  have "x < k \<Longrightarrow> val_at m x = val_at m k" if "m \<noteq> []" for x
    using that assms(1) by (cases m) (auto simp: val_at_Cons)
  have "k \<le> x \<Longrightarrow> b \<le> x" for x using assms(2) by (meson less_imp_le order_trans)
  then show ?thesis using val_at_Cons [OF assms(1)]
    by (auto simp: bytes_with_def not_less split: if_splits)
qed

lemma fold_count:
  assumes "qwf m" and "\<And>k. k \<in> qkeys m \<Longrightarrow> b < k"
  shows "fold (\<lambda>(b, e, st) len. if P st then len + (e - b) else len) (runs b m) (acc :: uint64) =
    acc + of_nat (card (bytes_with m b P))"
  using assms
proof (induction m arbitrary: b acc)
  case Nil
  then show ?case by (simp add: bytes_with_def)
next
  case (Cons kv m)
  obtain k v where kv: "kv = (k, v)" by (cases kv)
  have bk: "b < k" and wf: "qwf ((k, v) # m)" using Cons.prems kv by auto
  have "{x. b \<le> x \<and> x < k} \<inter> bytes_with m k P = {}"
    by (auto simp: bytes_with_def not_less [symmetric])
  then have "card (bytes_with ((k, v) # m) b P) =
      (if P v then unat (k - b) else 0) + card (bytes_with m k P)"
    unfolding bytes_with_Cons [OF wf bk]
    using card_word_atLeastLessThan [of b k] bk by (simp add: card_Un_disjoint)
  moreover have "fold (\<lambda>(b, e, st) len. if P st then len + (e - b) else len) (runs k m) acc' =
      acc' + of_nat (card (bytes_with m k P))" for acc'
    using wf by (intro Cons.IH) auto
  ultimately show ?case by (simp add: kv)
qed

lemma hint_valid_None [simp]: "hint_valid rm None"
  by (simp add: hint_valid_def)

lemma hint_valid_fresh [simp]: "hint_valid rm (Some fresh_hint)"
  by (simp add: hint_valid_def fresh_hint_def)

lemma visit_ranges_runs:
  assumes "rm_wf (m_PartMap rm)" and "hint_valid rm h"
    and "\<not> StateSet ops msk" and "last_key (m_PartMap rm) \<noteq> - 1"
  shows "visit_ranges ops rm msk h = Some (runs 0 (m_PartMap rm))"
  using ranges_loop_runs [OF assms(1) _ assms(2) _ assms(3,4), of "[]" "m_PartMap rm" 0]
  by (simp add: visit_ranges_def del: ranges_loop.simps)

lemma bytes_with_bound:
  assumes "qwf m" shows "bytes_with m b P \<subseteq> {x. 0 \<le> x \<and> x < last_key m}"
proof (cases "m = []")
  case True
  then show ?thesis by (simp add: bytes_with_def)
next
  case False
  then show ?thesis using val_at_None [OF assms False] by (force simp: bytes_with_def not_le [symmetric])
qed

lemma CountLength_card:
  assumes "rm_wf (m_PartMap rm)" and "last_key (m_PartMap rm) \<noteq> - 1" and "\<not> StateSet ops (V0 ops)"
  shows "\<exists>n. CountLength ops rm test bInverse = Some n \<and>
    unat n = card (bytes_with (m_PartMap rm) 0 (\<lambda>v. StateSet ops (MergeState ops v test eInter) \<noteq> bInverse))"
proof -
  let ?m = "m_PartMap rm" and ?P = "\<lambda>v. StateSet ops (MergeState ops v test eInter) \<noteq> bInverse"
  have wf: "qwf ?m" "\<And>k. k \<in> qkeys ?m \<Longrightarrow> 0 < k"
    using assms(1) by (auto simp: rm_wf_def word_gt_0)
  have "card (bytes_with ?m 0 ?P) \<le> card {x :: uint64. 0 \<le> x \<and> x < last_key ?m}"
    by (rule card_mono) (use bytes_with_bound [OF wf(1)] in auto)
  also have "\<dots> = unat (last_key ?m)" using card_word_atLeastLessThan [of 0 "last_key ?m"] by simp
  finally have "card (bytes_with ?m 0 ?P) < 2 ^ 64"
    using unat_lt2p [of "last_key ?m"] by simp
  then have "unat (of_nat (card (bytes_with ?m 0 ?P)) :: uint64) = card (bytes_with ?m 0 ?P)"
    by (simp add: unat_of_nat_eq)
  with fold_count [OF wf, of ?P 0] show ?thesis
    using visit_ranges_runs [OF assms(1) hint_valid_fresh assms(3,2)]
    by (simp add: CountLength_def)
qed

section \<open>Merge\<close>

text \<open>What \<open>Merge\<close> does to the state \<open>v\<close> of byte \<open>x\<close>.\<close>

definition merged :: "'v state_ops \<Rightarrow> (uint64, 'v) qmap \<Rightarrow> 'v \<Rightarrow> set_mode \<Rightarrow> uint64 \<Rightarrow> 'v option \<Rightarrow> 'v option" where
  "merged ops src filt md x v = (case val_at src x of None \<Rightarrow> v
     | Some s \<Rightarrow> map_option (\<lambda>v. MakeState ops v (mask_state ops s filt) md) v)"

text \<open>\<open>MakeState\<close> must not tell matching states apart, for the pointwise description of \<open>Merge\<close>.\<close>

locale range_make = range_state +
  assumes make_cong: "MatchState ops a b \<Longrightarrow> MatchState ops (MakeState ops a u md) (MakeState ops b u md)"
begin

lemma make_val_rel: "val_rel ops x y \<Longrightarrow>
    val_rel ops (map_option (\<lambda>v. MakeState ops v u md) x) (map_option (\<lambda>v. MakeState ops v u md) y)"
  by (auto simp: val_rel_def option.rel_sel intro: make_cong)

lemma merge_runs:
  assumes "qwf src" and "\<And>k. k \<in> qkeys src \<Longrightarrow> b < k" and "- 1 \<notin> qkeys src"
    and "rm_wf (m_PartMap rm)" and "\<And>k. k \<in> qkeys src \<Longrightarrow> k \<le> last_key (m_PartMap rm)"
  shows "let rm' = fold (\<lambda>(b, e, st) rm. SetRange ops rm b e (mask_state ops st filt) md) (runs b src) rm
    in rm_wf (m_PartMap rm') \<and> last_key (m_PartMap rm') = last_key (m_PartMap rm) \<and>
      (\<forall>x. val_rel ops (val_at (m_PartMap rm') x)
        (if b \<le> x then merged ops src filt md x (val_at (m_PartMap rm) x) else val_at (m_PartMap rm) x))"
  using assms
proof (induction src arbitrary: b rm)
  case Nil
  then show ?case by (simp add: merged_def)
next
  case (Cons kv src)
  obtain k v where kv: "kv = (k, v)" by (cases kv)
  have bk: "b < k" and wf: "qwf ((k, v) # src)" and kmax: "k \<noteq> - 1"
    and kl: "k \<le> last_key (m_PartMap rm)" using Cons.prems kv by auto
  define rm1 where "rm1 = SetRange ops rm b k (mask_state ops v filt) md"
  have ee: "eff_end (m_PartMap rm) k = k" using kmax by (simp add: eff_end_def)
  note set = SetRange_inv [OF Cons.prems(4), of b k "mask_state ops v filt" md, unfolded ee, OF bk kl,
    folded rm1_def]
  define rm' where "rm' = fold (\<lambda>(b, e, st) rm. SetRange ops rm b e (mask_state ops st filt) md) (runs k src) rm1"
  have IH: "rm_wf (m_PartMap rm') \<and> last_key (m_PartMap rm') = last_key (m_PartMap rm1) \<and>
      (\<forall>x. val_rel ops (val_at (m_PartMap rm') x)
        (if k \<le> x then merged ops src filt md x (val_at (m_PartMap rm1) x) else val_at (m_PartMap rm1) x))"
    unfolding rm'_def
    by (rule Cons.IH [unfolded Let_def]) (use Cons.prems wf kv set in auto)
  have "val_rel ops (val_at (m_PartMap rm') x)
      (if b \<le> x then merged ops ((k, v) # src) filt md x (val_at (m_PartMap rm) x) else val_at (m_PartMap rm) x)" for x
  proof (cases "k \<le> x")
    case True
    then have bx: "b \<le> x" using bk by (meson less_imp_le order_trans)
    have "val_rel ops (val_at (m_PartMap rm1) x) (val_at (m_PartMap rm) x)"
      using set(3) [of x] True by (simp flip: not_le)
    then have "val_rel ops (merged ops src filt md x (val_at (m_PartMap rm1) x)) (merged ops src filt md x (val_at (m_PartMap rm) x))"
      by (auto simp: merged_def make_val_rel split: option.split)
    moreover have "val_rel ops (val_at (m_PartMap rm') x) (merged ops src filt md x (val_at (m_PartMap rm1) x))"
      using IH True by presburger
    moreover have "merged ops ((k, v) # src) filt md x (val_at (m_PartMap rm) x) = merged ops src filt md x (val_at (m_PartMap rm) x)"
      using True by (simp add: merged_def val_at_Cons [OF wf] flip: not_le)
    ultimately show ?thesis using bx val_rel_trans by presburger
  next
    case False
    then have "val_rel ops (val_at (m_PartMap rm') x) (val_at (m_PartMap rm1) x)"
      using IH by presburger
    moreover have "merged ops ((k, v) # src) filt md x (val_at (m_PartMap rm) x) =
        map_option (\<lambda>w. MakeState ops w (mask_state ops v filt) md) (val_at (m_PartMap rm) x)"
      using False by (simp add: merged_def val_at_Cons [OF wf] not_le)
    moreover have "val_rel ops (val_at (m_PartMap rm1) x)
        (if b \<le> x then map_option (\<lambda>w. MakeState ops w (mask_state ops v filt) md) (val_at (m_PartMap rm) x)
         else val_at (m_PartMap rm) x)"
      using set(3) [of x] False by (simp add: not_le)
    ultimately show ?thesis by (metis (full_types) val_rel_trans)
  qed
  moreover have "fold (\<lambda>(b, e, st) rm. SetRange ops rm b e (mask_state ops st filt) md) (runs b (kv # src)) rm = rm'"
    by (simp add: kv rm'_def rm1_def)
  ultimately show ?case unfolding kv Let_def using IH set(2) kv by simp
qed

lemma Merge_spec:
  assumes "rm_wf (m_PartMap rm)" and "rm_wf (m_PartMap src)"
    and "last_key (m_PartMap src) \<noteq> - 1" and "last_key (m_PartMap src) \<le> last_key (m_PartMap rm)"
    and "\<not> StateSet ops (V0 ops)"
  obtains rm' where "Merge ops rm src filt md = Some rm'" and "rm_wf (m_PartMap rm')"
    and "last_key (m_PartMap rm') = last_key (m_PartMap rm)"
    and "\<And>x. val_rel ops (val_at (m_PartMap rm') x) (merged ops (m_PartMap src) filt md x (val_at (m_PartMap rm) x))"
proof -
  have wf: "qwf (m_PartMap src)" and le: "\<And>k. k \<in> qkeys (m_PartMap src) \<Longrightarrow> 0 < k \<and> k \<le> last_key (m_PartMap src)"
    using assms(2) last_key_wf [of "m_PartMap src"] by (auto simp: rm_wf_def word_gt_0)
  have nm: "- 1 \<notin> qkeys (m_PartMap src)" using le assms(3) by (metis word_order.extremum_unique)
  note r = merge_runs [OF wf _ nm assms(1), of 0 filt md, unfolded Let_def]
  have "k \<le> last_key (m_PartMap rm)" if "k \<in> qkeys (m_PartMap src)" for k
    using le [OF that] assms(4) by (meson order_trans)
  note r = r [OF _ this, simplified]
  have "Merge ops rm src filt md = Some
      (fold (\<lambda>(b, e, st) rm. SetRange ops rm b e (mask_state ops st filt) md) (runs 0 (m_PartMap src)) rm)"
    by (simp add: Merge_def visit_ranges_runs [OF assms(2) hint_valid_fresh assms(5,3)])
  then show thesis by (rule that) (use r le in blast)+
qed

end

section \<open>IterateRanges\<close>

lemma runs_starts: "qwf m \<Longrightarrow> (\<And>k. k \<in> qkeys m \<Longrightarrow> b \<le> k) \<Longrightarrow> (b', e, v) \<in> set (runs b m) \<Longrightarrow> b \<le> b'"
proof (induction b m rule: runs.induct)
  case (2 b k v m)
  then show ?case by (auto intro: order_trans [of b k] less_imp_le)
qed simp

text \<open>Consecutive nonempty ranges that cover exactly the bytes from \<open>a\<close> up to \<open>b\<close>.\<close>

fun tiles :: "uint64 \<Rightarrow> uint64 \<Rightarrow> (uint64 \<times> uint64 \<times> 'v) list \<Rightarrow> bool" where
  "tiles a b [] = (a = b)"
| "tiles a b ((s, e, v) # rs) = (s = a \<and> s < e \<and> tiles e b rs)"

lemma runs_val_at:
  assumes "qwf m" and "(b, e, v) \<in> set (runs a m)" and "b \<le> x" and "x < e"
    and "\<And>k. k \<in> qkeys m \<Longrightarrow> a \<le> k"
  shows "val_at m x = Some v"
  using assms
proof (induction m arbitrary: a)
  case (Cons kv m)
  obtain k w where kv: "kv = (k, w)" by (cases kv)
  have wf: "qwf ((k, w) # m)" using Cons.prems(1) kv by simp
  show ?case
  proof (cases "(b, e, v) = (a, k, w)")
    case True
    then show ?thesis using Cons.prems(4) val_at_Cons [OF wf] kv by simp
  next
    case False
    then have r: "(b, e, v) \<in> set (runs k m)" using Cons.prems(2) kv by auto
    have ge: "\<And>x. x \<in> qkeys m \<Longrightarrow> k \<le> x" using wf by (simp add: less_imp_le)
    have "k \<le> x" using runs_starts [OF _ ge r] wf Cons.prems(3) by (auto intro: order_trans)
    moreover have "val_at m x = Some v"
      by (rule Cons.IH [OF _ r Cons.prems(3,4) ge]) (use wf in simp_all)
    ultimately show ?thesis using val_at_Cons [OF wf, of x] kv by (simp flip: not_le)
  qed
qed simp

section \<open>Properties of all states of a map\<close>

definition all_states :: "('v \<Rightarrow> bool) \<Rightarrow> (uint64, 'v) qmap \<Rightarrow> bool" where
  "all_states P m = (\<forall>v \<in> snd ` set m. P v)"

lemma all_states_insert: "all_states P m \<Longrightarrow> P v \<Longrightarrow> all_states P (qm_insert k v m)"
  by (induction k v m rule: qm_insert.induct) (auto simp: all_states_def)

lemma all_states_erase: "all_states P m \<Longrightarrow> all_states P (qm_erase k m)"
  by (auto simp: all_states_def qm_erase_def)

lemma all_states_update: "all_states P m \<Longrightarrow> (\<And>v. P v \<Longrightarrow> P (f v)) \<Longrightarrow> all_states P (qm_update k f m)"
  by (auto simp: all_states_def qm_update_def)

lemma all_states_value: "all_states P m \<Longrightarrow> P d \<Longrightarrow> P (qm_value m d k)"
  by (auto simp: all_states_def qm_value_def split: option.split dest!: map_of_SomeD)

lemma all_states_set_parts:
  assumes "\<And>v. P v \<Longrightarrow> P (MakeState ops v st mode)"
  shows "all_states P m \<Longrightarrow> all_states P (set_parts ops st mode part b m)"
  using assms
proof (induction ops st mode part b m rule: set_parts.induct)
  case (1 ops st mode part b m)
  let ?m = "qm_update part (\<lambda>v. MakeState ops v st mode) m"
  have "all_states P ?m" using "1.prems" by (rule all_states_update)
  with "1.IH" [OF _ refl] "1.prems" show ?case
    by (subst set_parts.simps) (simp add: Let_def split: option.split)
qed

lemma all_states_clear_dups: "all_states P m \<Longrightarrow> all_states P (clear_dups ops prev part pend m)"
proof (induction ops prev part pend m rule: clear_dups.induct)
  case (1 ops prev part pend m)
  then show ?case
    by (subst clear_dups.simps) (auto simp: Let_def drop_dup_def all_states_erase split: option.split)
qed

lemma all_states_cut:
  "all_states P m \<Longrightarrow> P (V0 ops) \<Longrightarrow> cut_at ops m k = Some m' \<Longrightarrow> all_states P m'"
  by (auto simp: cut_at_def all_states_insert all_states_value split: option.splits if_splits)

lemma all_states_clear_duplicates: "all_states P m \<Longrightarrow> all_states P (clear_duplicates ops b e m)"
  by (simp add: clear_duplicates_def Let_def all_states_clear_dups split: option.split)

lemma SetRange_all_states:
  assumes "\<And>v. P v \<Longrightarrow> P (MakeState ops v st mode)" and "P (V0 ops)" and "all_states P (m_PartMap rm)"
  shows "all_states P (m_PartMap (SetRange ops rm b e st mode))"
proof -
  let ?e = "eff_end (m_PartMap rm) e"
  have eq: "SetRange ops rm b e st mode = (case cut_at ops (m_PartMap rm) ?e of
      None \<Rightarrow> IncrRevision rm
    | Some m \<Rightarrow> (case cut_at ops m b of
          None \<Rightarrow> (IncrRevision rm)\<lparr>m_PartMap := m\<rparr>
        | Some m \<Rightarrow> (IncrRevision rm)\<lparr>m_PartMap :=
              clear_duplicates ops b ?e (set_parts ops st mode ?e b m)\<rparr>))"
    by (simp add: SetRange_def Let_def IncrRevision_def eff_end_def cong: option.case_cong)
  show ?thesis
  proof (cases "cut_at ops (m_PartMap rm) ?e")
    case None
    then show ?thesis using assms(3) by (simp add: eq IncrRevision_def)
  next
    case (Some m)
    have m: "all_states P m" by (rule all_states_cut [OF assms(3,2) Some])
    show ?thesis
    proof (cases "cut_at ops m b")
      case None
      then show ?thesis using Some m by (simp add: eq)
    next
      case (Some m')
      have "all_states P (set_parts ops st mode ?e b m')"
        by (rule all_states_set_parts [OF assms(1) all_states_cut [OF m assms(2) Some]])
      then show ?thesis using \<open>cut_at ops (m_PartMap rm) ?e = Some m\<close> Some
        by (simp add: eq all_states_clear_duplicates)
    qed
  qed
qed

lemma Reset_all_states: "P (V0 ops) \<Longrightarrow> all_states P (m_PartMap (Reset ops rm sz))"
  by (simp add: Reset_def Let_def all_states_def)

context range_state
begin

text \<open>What a successful call of \<open>GetNextRange\<close> at position \<open>p\<close> returns.\<close>

lemma GetNextRange_found:
  assumes wf: "rm_wf (m_PartMap rm)" and h: "hint_valid rm h" and p: "max b e < last_key (m_PartMap rm)"
  obtains b' e' st' h' where "GetNextRange ops rm b e st msk h = (True, b', e', st', h')"
    and "b' \<le> max b e" and "max b e < e'" and "e' \<in> qkeys (m_PartMap rm)" and "hint_valid rm h'"
    and "\<And>x. b' \<le> x \<Longrightarrow> x < e' \<Longrightarrow> \<exists>v. val_at (m_PartMap rm) x = Some v \<and> MatchState ops st' (mask_state ops v msk)"
proof -
  let ?m = "m_PartMap rm" and ?p = "max b e"
  have qwf: "qwf ?m" and ne: "?m \<noteq> []" using wf by (auto simp: rm_wf_def)
  obtain k where k: "qm_next ?m ?p = Some k"
    using qm_next_last [OF qwf ne, of ?p] p by (cases "qm_next ?m ?p") (auto simp: not_le [symmetric] simp del: max.bounded_iff max_less_iff_conj)
  then have k': "?p < k" "k \<in> qkeys ?m" and least: "\<forall>a \<in> qkeys ?m. ?p < a \<longrightarrow> k \<le> a"
    using qm_next_Some [OF qwf] by blast+
  define st' where "st' = mask_state ops (qm_value ?m (V0 ops) k) msk"
  define e' where "e' = (if StateSet ops msk then extend_range ops ?m msk st' k else k)"
  have ext: "e' \<in> qkeys ?m" "k \<le> e'"
    using extend_range_spec [OF qwf k'(2), of ops msk st'] k'(2) by (auto simp: e'_def)
  have nmax: "?p \<noteq> - 1" using k'(1) by (rule word_less_max)
  have eq: "GetNextRange ops rm b e st msk h = (True, prev_key ?m k, e', st',
      map_option (\<lambda>h. \<lparr>hRevision = m_Revision rm, hIter = Some e'\<rparr>) h)"
    unfolding GetNextRange_eq [OF wf h nmax] k by (simp add: Let_def st'_def e'_def)
  have pk: "prev_key ?m k \<le> ?p"
    using qm_prev_less least by (fastforce simp: prev_key_def split: option.split simp flip: not_le)
  show thesis
  proof (rule that [OF eq pk order_less_le_trans [OF k'(1) ext(2)] ext(1)])
    show "hint_valid rm (map_option (\<lambda>h. \<lparr>hRevision = m_Revision rm, hIter = Some e'\<rparr>) h)"
      using ext(1) by (simp add: hint_valid_def split: option.split)
    fix x assume x: "prev_key ?m k \<le> x" "x < e'"
    show "\<exists>v. val_at ?m x = Some v \<and> MatchState ops st' (mask_state ops v msk)"
    proof (cases "x < k")
      case True
      have "val_at ?m x = Some (qm_value ?m (V0 ops) k)"
        by (rule val_at_prev [OF qwf k'(2) True]) (use x(1) in \<open>simp add: prev_key_def\<close>)
      then show ?thesis by (simp add: st'_def match_refl)
    next
      case False
      then have set: "StateSet ops msk" using x(2) by (auto simp: e'_def split: if_splits)
      have "x < last_key ?m" using x(2) ext(1) last_key_wf [OF qwf ne] by (meson order_less_le_trans)
      then obtain v where v: "val_at ?m x = Some v"
        using val_at_None [OF qwf ne, of x] by (cases "val_at ?m x") auto
      have "k \<le> x" "x < extend_range ops ?m msk st' k" using False x(2) set by (auto simp: e'_def)
      then have "MatchState ops st' (MergeState ops v msk eInter)"
        using extend_range_spec [OF qwf k'(2), of ops msk st'] v by blast
      then show ?thesis using v set by (simp add: mask_state_def)
    qed
  qed
qed

lemma GetNextRange_none:
  assumes wf: "rm_wf (m_PartMap rm)" and h: "hint_valid rm h" and p: "last_key (m_PartMap rm) \<le> max b e"
    and "max b e \<noteq> - 1"
  shows "GetNextRange ops rm b e st msk h = (False, b, max b e + 1, st, h)"
  using qm_next_last [of "m_PartMap rm" "max b e"] p wf GetNextRange_eq [OF wf h assms(4), of ops st msk]
  by (simp add: rm_wf_def)

text \<open>
  The loop over \<open>IterateRanges\<close>, from any state of the iterator that the loop can reach:
  \<open>p\<close> is the position up to which the ranges have been visited.
\<close>

lemma iterate_loop_tiles:
  assumes wf: "rm_wf (m_PartMap rm)" and l: "last_key (m_PartMap rm) \<noteq> - 1"
  shows "max (uBegin it) (uEnd it) = p \<Longrightarrow> max (uEnd it) (uFrom it) = p \<Longrightarrow>
    p \<le> uTo it \<Longrightarrow> p \<le> last_key (m_PartMap rm) \<Longrightarrow> (uEnd it \<noteq> uTo it \<Longrightarrow> p < uTo it) \<Longrightarrow> (p = uTo it \<Longrightarrow> uEnd it = uTo it) \<Longrightarrow>
    hint_valid rm (pHint it) \<Longrightarrow> card {k \<in> qkeys (m_PartMap rm). p < k} < n \<or> uEnd it = uTo it \<and> 0 < n \<Longrightarrow>
    \<exists>rs. iterate_loop ops rm msk n it = Some rs \<and> tiles p (min (uTo it) (last_key (m_PartMap rm))) rs \<and>
      (\<forall>(b, e, v) \<in> set rs. \<forall>x. b \<le> x \<and> x < e \<longrightarrow>
        (\<exists>w. val_at (m_PartMap rm) x = Some w \<and> MatchState ops v (mask_state ops w msk)))"
proof (induction n arbitrary: it p)
  case 0
  then show ?case by simp
next
  case (Suc n)
  let ?m = "m_PartMap rm"
  have qwf: "qwf ?m" and ne: "?m \<noteq> []" using wf by (auto simp: rm_wf_def)
  consider (stop) "uEnd it = uTo it" | (last) "uEnd it \<noteq> uTo it" "p = last_key ?m"
    | (step) "uEnd it \<noteq> uTo it" "p < last_key ?m"
    using Suc.prems(4) by fastforce
  then show ?case
  proof cases
    case stop
    then have "p = uTo it" using Suc.prems(2,3) by (metis max.cobounded1 order_antisym)
    with stop Suc.prems(4) show ?thesis by (simp add: IterateRanges_def min_def)
  next
    case last
    then have "p < uTo it" using Suc.prems(5) by simp
    have "max (uBegin it) (uEnd it) \<noteq> - 1" using last(2) l Suc.prems(1) by simp
    from GetNextRange_none [OF wf Suc.prems(7) _ this, of "uState it" msk] last Suc.prems(1)
    have "IterateRanges ops rm it msk = (False, it\<lparr>uEnd := p + 1\<rparr>)"
      by (simp add: IterateRanges_def Let_def)
    with last \<open>p < uTo it\<close> show ?thesis by (auto simp: min_def)
  next
    case step
    have pt: "p < uTo it" using Suc.prems(5) step by simp
    obtain b' e' st' h' where g: "GetNextRange ops rm (uBegin it) (uEnd it) (uState it) msk (pHint it) =
        (True, b', e', st', h')"
      and r: "b' \<le> p" "p < e'" "e' \<in> qkeys ?m" "hint_valid rm h'"
      and v: "\<And>x. b' \<le> x \<Longrightarrow> x < e' \<Longrightarrow> \<exists>v. val_at ?m x = Some v \<and> MatchState ops st' (mask_state ops v msk)"
      by (rule GetNextRange_found [OF wf Suc.prems(7), of "uBegin it" "uEnd it" "uState it" msk,
            unfolded Suc.prems(1), OF step(2)]) blast
    let ?e = "if uTo it < e' then uTo it else e'"
    let ?it = "it\<lparr>uBegin := p, uEnd := ?e, uState := st', pHint := h'\<rparr>"
    have "\<not> uTo it \<le> b'" using order_le_less_trans [OF r(1) pt] by simp
    moreover have "b' < p \<or> b' = p" using r(1) by auto
    ultimately have it: "IterateRanges ops rm it msk = (True, ?it)"
      using step(1) Suc.prems(2) unfolding IterateRanges_def g by (auto simp: Let_def)
    have pe: "p < ?e" using pt r(2) by simp
    have el: "e' \<le> last_key ?m" using r(3) last_key_wf [OF qwf ne] by blast
    have fe: "uFrom it \<le> p" using Suc.prems(2) by auto
    have mx: "max p ?e = ?e" "max ?e (uFrom it) = ?e"
      using pe fe by (simp_all only: max_absorb2 max_absorb1 less_imp_le order_trans [OF fe less_imp_le [OF pe]])
    have "card {k \<in> qkeys ?m. p < k} < Suc n" using Suc.prems(8) step(1) by simp
    moreover have "card {k \<in> qkeys ?m. e' < k} < card {k \<in> qkeys ?m. p < k}"
      using r(2,3) by (intro psubset_card_mono) (auto intro: order.strict_trans)
    ultimately have card: "card {k \<in> qkeys ?m. ?e < k} < n \<or> uEnd ?it = uTo ?it \<and> 0 < n" by auto
    have "\<exists>rs. iterate_loop ops rm msk n ?it = Some rs \<and> tiles ?e (min (uTo ?it) (last_key ?m)) rs \<and>
      (\<forall>(b, e, v) \<in> set rs. \<forall>x. b \<le> x \<and> x < e \<longrightarrow>
        (\<exists>w. val_at ?m x = Some w \<and> MatchState ops v (mask_state ops w msk)))"
    proof (rule Suc.IH [OF _ _ _ _ _ _ _ card])
      show "max (uBegin ?it) (uEnd ?it) = ?e" using mx(1) by simp
      show "max (uEnd ?it) (uFrom ?it) = ?e" using mx(2) by simp
      show "?e \<le> uTo ?it" by auto
      show "?e \<le> last_key ?m" using el by auto
      show "uEnd ?it \<noteq> uTo ?it \<Longrightarrow> ?e < uTo ?it" by auto
      show "?e = uTo ?it \<Longrightarrow> uEnd ?it = uTo ?it" by simp
      show "hint_valid rm (pHint ?it)" using r(4) by simp
    qed
    then obtain rs where rs: "iterate_loop ops rm msk n ?it = Some rs"
        "tiles ?e (min (uTo it) (last_key ?m)) rs"
        "\<forall>(b, e, v) \<in> set rs. \<forall>x. b \<le> x \<and> x < e \<longrightarrow>
        (\<exists>w. val_at ?m x = Some w \<and> MatchState ops v (mask_state ops w msk))" by auto
    have "iterate_loop ops rm msk (Suc n) it = Some ((p, ?e, st') # rs)"
      by (simp add: it rs(1))
    moreover have "\<exists>w. val_at ?m x = Some w \<and> MatchState ops st' (mask_state ops w msk)"
      if "p \<le> x" "x < ?e" for x
      using v [of x] that r(1) by (auto split: if_splits)
    ultimately show ?thesis using rs(2,3) pe by auto
  qed
qed

lemma iterate_tiles:
  assumes wf: "rm_wf (m_PartMap rm)" and l: "last_key (m_PartMap rm) \<noteq> - 1"
    and f: "f < to" "f < last_key (m_PartMap rm)"
  shows "\<exists>rs. iterate_loop ops rm msk (Suc (length (m_PartMap rm))) (new_iterator ops f to bHint) = Some rs \<and>
      tiles f (min to (last_key (m_PartMap rm))) rs \<and>
      (\<forall>(b, e, v) \<in> set rs. \<forall>x. b \<le> x \<and> x < e \<longrightarrow>
        (\<exists>w. val_at (m_PartMap rm) x = Some w \<and> MatchState ops v (mask_state ops w msk)))"
proof -
  let ?it = "new_iterator ops f to bHint" and ?m = "m_PartMap rm"
  have "card {k \<in> qkeys ?m. f < k} \<le> card (qkeys ?m)" by (rule card_mono) auto
  also have "card (qkeys ?m) \<le> length ?m" by (metis card_length length_map qkeys_def)
  finally have c: "card {k \<in> qkeys ?m. f < k} < Suc (length ?m)" by simp
  have it: "uBegin ?it = f" "uEnd ?it = 0" "uFrom ?it = f" "uTo ?it = to" "hint_valid rm (pHint ?it)"
    by (simp_all add: new_iterator_def)
  have "\<exists>rs. iterate_loop ops rm msk (Suc (length ?m)) ?it = Some rs \<and>
      tiles f (min (uTo ?it) (last_key ?m)) rs \<and>
      (\<forall>(b, e, v) \<in> set rs. \<forall>x. b \<le> x \<and> x < e \<longrightarrow>
        (\<exists>w. val_at ?m x = Some w \<and> MatchState ops v (mask_state ops w msk)))"
    by (rule iterate_loop_tiles [OF wf l]) (use f c it in auto)
  then show ?thesis by (simp only: it)
qed

end

end
