(* ===== verification/StateMaps.thy ===== *)
theory StateMaps
  imports RangeSpec "HOL-Library.List_Lexorder" "HOL-Library.Char_ord"
begin

text \<open>
  The classes that derive from \<open>CRangeMap\<close>: for each one its state type and its virtual functions
  as a \<open>state_ops\<close> record. \<open>CValueMap\<close> (Common/ValueMap.h), \<open>CAvailMap\<close>, \<open>CCacheMap\<close> and
  \<open>CHosterMap\<close> (FileList/StatusMap.h), \<open>CPartMap\<close> (FileList/PartMap.h). Each one is shown to
  satisfy the contract of the range map by an \<open>interpretation\<close>, so that the lemmas of
  \<open>RangeSpec\<close> hold for it.
\<close>

section \<open>CValueMap\<close>

fun value_make :: "'a::len word \<Rightarrow> 'a word \<Rightarrow> set_mode \<Rightarrow> 'a word" where
  "value_make cur st eAdd = cur OR st"
| "value_make cur st eClr = cur AND NOT st"
| "value_make cur st eSet = st"

fun value_merge :: "'a::len word \<Rightarrow> 'a word \<Rightarrow> merge_mode \<Rightarrow> 'a word" where
  "value_merge cur st eUnion = cur OR st"
| "value_merge cur st eInter = cur AND st"

definition value_ops :: "('a::len word) state_ops" where
  "value_ops = \<lparr>StateSet = (\<lambda>cur. cur \<noteq> 0), MatchState = (=), MakeState = value_make,
     MergeState = value_merge, V0 = 0\<rparr>"

section \<open>The counter macros\<close>

definition NUM_ADD :: "'a::plus \<Rightarrow> 'a \<Rightarrow> 'a" where
  "NUM_ADD a b = a + b"

definition NUM_CLR :: "'a::{minus,zero,ord} \<Rightarrow> 'a \<Rightarrow> 'a" where
  "NUM_CLR a b = (if b < a then a - b else 0)"

definition NUM_OR :: "'a::ord \<Rightarrow> 'a \<Rightarrow> 'a" where
  "NUM_OR a b = (if a < b then b else a)"

definition NUM_AND :: "'a::ord \<Rightarrow> 'a \<Rightarrow> 'a" where
  "NUM_AND a b = (if b < a then b else a)"

section \<open>CAvailMap\<close>

fun avail_make :: "uint32 \<Rightarrow> uint32 \<Rightarrow> set_mode \<Rightarrow> uint32" where
  "avail_make cur st eSet = st"
| "avail_make cur st eAdd = NUM_ADD cur st"
| "avail_make cur st eClr = NUM_CLR cur st"

fun avail_merge :: "uint32 \<Rightarrow> uint32 \<Rightarrow> merge_mode \<Rightarrow> uint32" where
  "avail_merge cur st eUnion = NUM_OR cur st"
| "avail_merge cur st eInter = NUM_AND cur st"

definition avail_ops :: "uint32 state_ops" where
  "avail_ops = value_ops\<lparr>MakeState := avail_make, MergeState := avail_merge\<rparr>"

section \<open>CCacheMap\<close>

record cache_range =
  uAvail :: uint32
  uNeed :: uint32

definition SCacheRange :: "uint32 \<Rightarrow> uint32 \<Rightarrow> cache_range" where
  "SCacheRange a n = \<lparr>uAvail = a, uNeed = n\<rparr>"

fun cache_make :: "cache_range \<Rightarrow> cache_range \<Rightarrow> set_mode \<Rightarrow> cache_range" where
  "cache_make cur st eSet = st"
| "cache_make cur st eAdd =
     cur\<lparr>uAvail := NUM_ADD (uAvail cur) (uAvail st), uNeed := NUM_ADD (uNeed cur) (uNeed st)\<rparr>"
| "cache_make cur st eClr =
     cur\<lparr>uAvail := NUM_CLR (uAvail cur) (uAvail st), uNeed := NUM_CLR (uNeed cur) (uNeed st)\<rparr>"

fun cache_merge :: "cache_range \<Rightarrow> cache_range \<Rightarrow> merge_mode \<Rightarrow> cache_range" where
  "cache_merge cur st eUnion =
     cur\<lparr>uAvail := NUM_OR (uAvail cur) (uAvail st), uNeed := NUM_OR (uNeed cur) (uNeed st)\<rparr>"
| "cache_merge cur st eInter =
     cur\<lparr>uAvail := NUM_AND (uAvail cur) (uAvail st), uNeed := NUM_AND (uNeed cur) (uNeed st)\<rparr>"

definition cache_ops :: "cache_range state_ops" where
  "cache_ops = \<lparr>StateSet = (\<lambda>cur. uAvail cur \<noteq> 0 \<or> uNeed cur \<noteq> 0),
     MatchState = (\<lambda>cur st. uAvail cur = uAvail st \<and> uNeed cur = uNeed st),
     MakeState = cache_make, MergeState = cache_merge, V0 = SCacheRange 0 0\<rparr>"

section \<open>CHosterMap\<close>

text \<open>The state of a range is a map from hoster to its counters.\<close>

type_synonym counts = "(string, int) qmap"

record hoster_range =
  PubCount :: int
  MyCounts :: counts

type_synonym hosters = "(string, hoster_range) qmap"

definition SHosterRange :: "int \<Rightarrow> hoster_range" where
  "SHosterRange Count = \<lparr>PubCount = Count, MyCounts = []\<rparr>"

definition SHosterRange_account :: "int \<Rightarrow> string \<Rightarrow> hoster_range" where
  "SHosterRange_account Count Account = \<lparr>PubCount = 0, MyCounts = [(Account, Count)]\<rparr>"

definition Total :: "hoster_range \<Rightarrow> int" where
  "Total r = fold (\<lambda>(k, n) c. to_int32 (c + n)) (MyCounts r) (PubCount r)"

definition MkValue :: "string \<Rightarrow> string \<Rightarrow> int \<Rightarrow> hosters" where
  "MkValue Hoster Account Count =
     (if Account = [] then qm_insert Hoster (SHosterRange Count) []
      else qm_insert Hoster (SHosterRange_account Count Account) [])"

text \<open>\<open>MyCounts[key]\<close> inserts a 0 when there is no such key; \<open>at_upd\<close> then updates the entry.\<close>

definition touch :: "string \<Rightarrow> counts \<Rightarrow> counts" where
  "touch k m = (if map_of m k = None then qm_insert k 0 m else m)"

definition at_upd :: "string \<Rightarrow> (int \<Rightarrow> int) \<Rightarrow> counts \<Rightarrow> counts" where
  "at_upd k f m = qm_update k f (touch k m)"

definition hoster_add :: "hosters \<Rightarrow> hosters \<Rightarrow> hosters" where
  "hoster_add cur st = fold (\<lambda>(h, i) cur.
     case map_of cur h of
       None \<Rightarrow> qm_insert h i cur
     | Some j \<Rightarrow> qm_update h (\<lambda>j.
         j\<lparr>PubCount := to_int32 (PubCount j + PubCount i),
           MyCounts := fold (\<lambda>(k, n) m. at_upd k (\<lambda>x. to_int32 (x + n)) m) (MyCounts i) (MyCounts j)\<rparr>)
         cur) st cur"

definition counts_clr :: "counts \<Rightarrow> counts \<Rightarrow> counts" where
  "counts_clr i j = fold (\<lambda>(k, n) m.
     let m = touch k m in
     if qm_value m 0 k > n then qm_update k (\<lambda>x. to_int32 (x - n)) m else qm_erase k m) i j"

definition hoster_clr :: "hosters \<Rightarrow> hosters \<Rightarrow> hosters" where
  "hoster_clr cur st = fold (\<lambda>(h, i) cur.
     case map_of cur h of
       None \<Rightarrow> cur
     | Some j \<Rightarrow>
         let p = (if PubCount j > PubCount i then to_int32 (PubCount j - PubCount i) else PubCount j);
             j' = j\<lparr>PubCount := p, MyCounts := counts_clr (MyCounts i) (MyCounts j)\<rparr>
         in if Total j' = 0 then qm_erase h cur else qm_update h (\<lambda>_. j') cur) st cur"

fun hoster_make :: "hosters \<Rightarrow> hosters \<Rightarrow> set_mode \<Rightarrow> hosters" where
  "hoster_make cur st eSet = st"
| "hoster_make cur st eAdd = hoster_add cur st"
| "hoster_make cur st eClr = hoster_clr cur st"

definition hoster_union :: "hosters \<Rightarrow> hosters \<Rightarrow> hosters" where
  "hoster_union cur st = fold (\<lambda>(h, i) cur.
     case map_of cur h of
       None \<Rightarrow> qm_insert h i cur
     | Some j \<Rightarrow> qm_update h (\<lambda>j.
         j\<lparr>PubCount := (if PubCount i > PubCount j then PubCount i else PubCount j),
           MyCounts := fold (\<lambda>(k, n) m. at_upd k (\<lambda>x. if n > x then n else x) m)
             (MyCounts i) (MyCounts j)\<rparr>) cur) st cur"

definition hoster_inter :: "hosters \<Rightarrow> hosters \<Rightarrow> hosters" where
  "hoster_inter cur st = fold (\<lambda>(h, i) new.
     case map_of cur h of
       None \<Rightarrow> new
     | Some j \<Rightarrow>
         let val = (if PubCount i \<noteq> - 1
           then j\<lparr>PubCount := (if PubCount i < PubCount j then PubCount i else PubCount j),
                  MyCounts := fold (\<lambda>(k, n) m. at_upd k (\<lambda>x. if n < x then n else x) m)
                    (MyCounts i) (MyCounts j)\<rparr>
           else j)
         in qm_insert h val new) st []"

fun hoster_merge :: "hosters \<Rightarrow> hosters \<Rightarrow> merge_mode \<Rightarrow> hosters" where
  "hoster_merge cur st eUnion = hoster_union cur st"
| "hoster_merge cur st eInter = hoster_inter cur st"

definition hoster_ops :: "hosters state_ops" where
  "hoster_ops = \<lparr>StateSet = (\<lambda>cur. cur \<noteq> []), MatchState = (=), MakeState = hoster_make,
     MergeState = hoster_merge, V0 = []\<rparr>"

section \<open>CPartMap\<close>

abbreviation (input) "Part_Available \<equiv> (0x0001 :: uint32)"
abbreviation (input) "Part_Verified \<equiv> (0x0002 :: uint32)"
abbreviation (input) "Part_Scheduled \<equiv> (0x0010 :: uint32)"
abbreviation (input) "Part_Requested \<equiv> (0x0020 :: uint32)"
abbreviation (input) "Part_Disabled \<equiv> (0x0080 :: uint32)"
abbreviation (input) "Part_Marked \<equiv> (0x0400 :: uint32)"

record part_range =
  bStates :: bool
  bPriority :: bool
  uStates :: uint32
  uScheduled :: uint16
  uRequested :: uint16
  uMarked :: uint16
  iPriority :: int

definition SPartRange :: "uint32 \<Rightarrow> part_range" where
  "SPartRange s = \<lparr>bStates = True, bPriority = True, uStates = s,
     uScheduled = (if s AND Part_Scheduled \<noteq> 0 then 1 else 0),
     uRequested = (if s AND Part_Requested \<noteq> 0 then 1 else 0),
     uMarked = (if s AND Part_Marked \<noteq> 0 then 1 else 0),
     iPriority = 0\<rparr>"

text \<open>\<open>SPartRange::Priority\<close>: a state that carries a priority only.\<close>

definition SPartRange_Priority :: "int \<Rightarrow> part_range" where
  "SPartRange_Priority p = (SPartRange 0)\<lparr>bStates := False, bPriority := True, iPriority := p\<rparr>"

text \<open>\<open>STAT_UPD\<close>: the three status bits that mirror a counter.\<close>

definition mirror_bit :: "bool \<Rightarrow> uint32 \<Rightarrow> uint32 \<Rightarrow> uint32" where
  "mirror_bit b flag s = (if b then s OR flag else s AND NOT flag)"

definition STAT_UPD :: "part_range \<Rightarrow> part_range" where
  "STAT_UPD a =
     a\<lparr>uStates := mirror_bit (uMarked a \<noteq> 0) Part_Marked
        (mirror_bit (uRequested a \<noteq> 0) Part_Requested
          (mirror_bit (uScheduled a \<noteq> 0) Part_Scheduled (uStates a)))\<rparr>"

fun part_make :: "part_range \<Rightarrow> part_range \<Rightarrow> set_mode \<Rightarrow> part_range" where
  "part_make cur st eSet =
     (let cur = (if bStates st
            then cur\<lparr>uStates := uStates st, uScheduled := uScheduled st,
                   uRequested := uRequested st, uMarked := uMarked st\<rparr>
            else cur)
      in if bPriority st then cur\<lparr>iPriority := iPriority st\<rparr> else cur)"
| "part_make cur st eAdd =
     (let cur = (if bStates st
            then STAT_UPD (cur\<lparr>uStates := uStates cur OR uStates st,
                   uScheduled := NUM_ADD (uScheduled cur) (uScheduled st),
                   uRequested := NUM_ADD (uRequested cur) (uRequested st),
                   uMarked := NUM_ADD (uMarked cur) (uMarked st)\<rparr>)
            else cur)
      in if bPriority st then cur\<lparr>iPriority := to_int32 (NUM_ADD (iPriority cur) (iPriority st))\<rparr>
         else cur)"
| "part_make cur st eClr =
     (let cur = (if bStates st
            then STAT_UPD (cur\<lparr>uStates := uStates cur AND NOT (uStates st),
                   uScheduled := NUM_CLR (uScheduled cur) (uScheduled st),
                   uRequested := NUM_CLR (uRequested cur) (uRequested st),
                   uMarked := NUM_CLR (uMarked cur) (uMarked st)\<rparr>)
            else cur)
      in if bPriority st then cur\<lparr>iPriority := to_int32 (NUM_CLR (iPriority cur) (iPriority st))\<rparr>
         else cur)"

fun part_merge :: "part_range \<Rightarrow> part_range \<Rightarrow> merge_mode \<Rightarrow> part_range" where
  "part_merge cur st eUnion =
     (let cur = STAT_UPD (cur\<lparr>uStates := uStates cur OR uStates st,
             uScheduled := NUM_OR (uScheduled cur) (uScheduled st),
             uRequested := NUM_OR (uRequested cur) (uRequested st),
             uMarked := NUM_OR (uMarked cur) (uMarked st)\<rparr>)
      in cur\<lparr>iPriority := NUM_OR (iPriority cur) (iPriority st)\<rparr>)"
| "part_merge cur st eInter =
     (let cur = STAT_UPD (cur\<lparr>uStates := uStates cur AND uStates st,
             uScheduled := NUM_AND (uScheduled cur) (uScheduled st),
             uRequested := NUM_AND (uRequested cur) (uRequested st),
             uMarked := NUM_AND (uMarked cur) (uMarked st)\<rparr>)
      in cur\<lparr>iPriority := NUM_AND (iPriority cur) (iPriority st)\<rparr>)"

definition part_StateSet :: "part_range \<Rightarrow> bool" where
  "part_StateSet cur \<longleftrightarrow> uStates cur \<noteq> 0 \<or> uScheduled cur \<noteq> 0 \<or> uRequested cur \<noteq> 0 \<or>
     uMarked cur \<noteq> 0 \<or> iPriority cur \<noteq> 0"

definition part_MatchState :: "part_range \<Rightarrow> part_range \<Rightarrow> bool" where
  "part_MatchState cur st \<longleftrightarrow> uStates cur = uStates st \<and> uScheduled cur = uScheduled st \<and>
     uRequested cur = uRequested st \<and> uMarked cur = uMarked st \<and> iPriority cur = iPriority st"

definition part_ops :: "part_range state_ops" where
  "part_ops = \<lparr>StateSet = part_StateSet, MatchState = part_MatchState, MakeState = part_make,
     MergeState = part_merge, V0 = SPartRange 0\<rparr>"

section \<open>The contracts\<close>

interpretation value_map: range_make value_ops
  by unfold_locales (auto simp: value_ops_def)

interpretation avail_map: range_make avail_ops
  by unfold_locales (auto simp: avail_ops_def value_ops_def)

lemma cache_eqI: "uAvail a = uAvail b \<Longrightarrow> uNeed a = uNeed b \<Longrightarrow> a = (b :: cache_range)"
  by (cases a; cases b) simp

interpretation cache_map: range_make cache_ops
  by unfold_locales (auto simp: cache_ops_def dest: cache_eqI)

interpretation hoster_map: range_make hoster_ops
  by unfold_locales (auto simp: hoster_ops_def)

lemma part_make_cong:
  assumes "part_MatchState a b"
  shows "part_MatchState (part_make a u md) (part_make b u md)"
  using assms by (cases md) (auto simp: part_MatchState_def STAT_UPD_def Let_def)

interpretation part_map: range_make part_ops
  by unfold_locales (auto simp: part_ops_def part_make_cong, auto simp: part_MatchState_def)

lemma StateSet_V0 [simp]:
  "\<not> StateSet value_ops (V0 value_ops)" "\<not> StateSet avail_ops (V0 avail_ops)"
  "\<not> StateSet cache_ops (V0 cache_ops)" "\<not> StateSet hoster_ops (V0 hoster_ops)"
  "\<not> StateSet part_ops (V0 part_ops)"
  by (simp_all add: value_ops_def avail_ops_def cache_ops_def hoster_ops_def part_ops_def
      SCacheRange_def part_StateSet_def SPartRange_def)

lemma val_rel_value [simp]: "val_rel value_ops = (=)"
  by (simp add: val_rel_def value_ops_def option.rel_eq fun_eq_iff)

lemma val_rel_avail [simp]: "val_rel avail_ops = (=)"
  by (simp add: val_rel_def avail_ops_def value_ops_def option.rel_eq fun_eq_iff)

lemma val_rel_hoster [simp]: "val_rel hoster_ops = (=)"
  by (simp add: val_rel_def hoster_ops_def option.rel_eq fun_eq_iff)

text \<open>What can be seen of a merged state: single bits, and counters against a threshold.\<close>

interpretation value_bit: range_observer value_ops "\<lambda>v. bit v n" for n
  by unfold_locales (simp_all add: value_ops_def bit_and_iff bit_or_iff)

interpretation avail_least: range_observer avail_ops "\<lambda>v. n \<le> v" for n
  by unfold_locales (auto simp: avail_ops_def NUM_AND_def NUM_OR_def)

interpretation need_least: range_observer cache_ops "\<lambda>v. n \<le> uNeed v" for n
  by unfold_locales (auto simp: cache_ops_def NUM_AND_def NUM_OR_def)

lemma flag_bits:
  "(s AND (16 :: uint32) = 0) = (\<not> bit s 4)" "(s AND (32 :: uint32) = 0) = (\<not> bit s 5)"
  "(s AND (1024 :: uint32) = 0) = (\<not> bit s 10)"
  using and_exp_eq_0_iff_not_bit [of s 4] and_exp_eq_0_iff_not_bit [of s 5]
    and_exp_eq_0_iff_not_bit [of s 10] by simp_all

lemma bit_flags:
  "bit (16 :: uint32) n = (n = 4)" "bit (32 :: uint32) n = (n = 5)" "bit (1024 :: uint32) n = (n = 10)"
proof -
  have "bit (2 ^ k :: uint32) n = (n = k)" if "k < 32" for k
    using that by (auto simp: bit_exp_iff)
  from this [of 4] this [of 5] this [of 10]
  show "bit (16 :: uint32) n = (n = 4)" "bit (32 :: uint32) n = (n = 5)"
    "bit (1024 :: uint32) n = (n = 10)" by simp_all
qed

lemma bit_mirror: "n < 32 \<Longrightarrow> bit (mirror_bit b flag s) n = (if bit flag n then b else bit s n)"
  by (simp add: mirror_bit_def bit_and_iff bit_or_iff bit_not_iff)

text \<open>The counters and the bits that mirror them agree.\<close>

definition stat_ok :: "part_range \<Rightarrow> bool" where
  "stat_ok a \<longleftrightarrow> (uStates a AND Part_Scheduled \<noteq> 0) = (uScheduled a \<noteq> 0) \<and>
     (uStates a AND Part_Requested \<noteq> 0) = (uRequested a \<noteq> 0) \<and>
     (uStates a AND Part_Marked \<noteq> 0) = (uMarked a \<noteq> 0)"

lemma stat_ok_STAT_UPD: "stat_ok (STAT_UPD a)"
  by (simp add: stat_ok_def STAT_UPD_def flag_bits bit_mirror bit_flags)

lemma stat_ok_iPriority [simp]: "stat_ok (a\<lparr>iPriority := p\<rparr>) = stat_ok a"
  by (simp add: stat_ok_def)

lemma stat_ok_SPartRange: "stat_ok (SPartRange s)"
  by (simp add: stat_ok_def SPartRange_def)

lemma stat_ok_make:
  assumes "stat_ok a" and "stat_ok u"
  shows "stat_ok (part_make a u md)"
  using assms by (cases md) (simp_all add: Let_def stat_ok_STAT_UPD, simp add: stat_ok_def)

lemma stat_ok_merge: "stat_ok (part_merge a u md)"
  by (cases md) (simp_all add: Let_def stat_ok_STAT_UPD)

text \<open>
  The status bits that no counter mirrors, and the counters, are merged like plain bits and
  plain counters.
\<close>

definition plain_bit :: "nat \<Rightarrow> bool" where
  "plain_bit n \<longleftrightarrow> n < 32 \<and> n \<noteq> 4 \<and> n \<noteq> 5 \<and> n \<noteq> 10"

lemma bit_part_merge: "plain_bit n \<Longrightarrow>
    bit (uStates (part_merge a b eInter)) n = (bit (uStates a) n \<and> bit (uStates b) n)"
  "plain_bit n \<Longrightarrow>
    bit (uStates (part_merge a b eUnion)) n = (bit (uStates a) n \<or> bit (uStates b) n)"
proof -
  assume n: "plain_bit n"
  then have b: "n < 32" "\<not> bit (16 :: uint32) n" "\<not> bit (32 :: uint32) n" "\<not> bit (1024 :: uint32) n"
    using bit_flags [of n] by (auto simp only: plain_bit_def)
  then show "bit (uStates (part_merge a b eInter)) n = (bit (uStates a) n \<and> bit (uStates b) n)"
    and "bit (uStates (part_merge a b eUnion)) n = (bit (uStates a) n \<or> bit (uStates b) n)"
    by (simp_all add: Let_def STAT_UPD_def bit_mirror bit_and_iff bit_or_iff)
qed

interpretation part_available: range_observer part_ops "\<lambda>v. bit (uStates v) 0"
  by unfold_locales (use bit_part_merge [of 0] in \<open>simp_all add: part_ops_def plain_bit_def\<close>)

interpretation part_verified: range_observer part_ops "\<lambda>v. bit (uStates v) 1"
  by unfold_locales (use bit_part_merge [of 1] in \<open>simp_all add: part_ops_def plain_bit_def\<close>)

interpretation part_scheduled: range_observer part_ops "\<lambda>v. n \<le> uScheduled v" for n
  by unfold_locales (auto simp: part_ops_def NUM_AND_def NUM_OR_def Let_def STAT_UPD_def)

interpretation part_requested: range_observer part_ops "\<lambda>v. n \<le> uRequested v" for n
  by unfold_locales (auto simp: part_ops_def NUM_AND_def NUM_OR_def Let_def STAT_UPD_def)

section \<open>Properties of the maps\<close>

lemma ops_select [simp]:
  "MakeState part_ops = part_make" "MergeState part_ops = part_merge" "MatchState part_ops = part_MatchState"
  "StateSet part_ops = part_StateSet" "V0 part_ops = SPartRange 0"
  "MakeState value_ops = value_make" "MergeState value_ops = value_merge" "MatchState value_ops = (=)"
  "V0 value_ops = 0" "StateSet value_ops v = (v \<noteq> 0)"
  by (simp_all add: part_ops_def value_ops_def)

text \<open>A map of 100 bytes for the witnesses.\<close>

lemma new_map_wf: "sz \<noteq> 0 \<Longrightarrow> rm_wf (m_PartMap (new_range_map ops sz))"
  by (simp add: new_range_map_def rm_wf_def)

lemma new_map_last: "last_key (m_PartMap (new_range_map ops sz)) = sz"
  by (simp add: new_range_map_def last_key_def qm_last_def head_key_def)

lemma new_map_val_at: "x < sz \<Longrightarrow> val_at (m_PartMap (new_range_map ops sz)) x = Some (V0 ops)"
  by (simp add: new_range_map_def val_at_def qm_next_def head_key_def)

lemmas new_map = new_map_wf new_map_last new_map_val_at

text \<open>
  C1. \<open>SetRange\<close> on a part map changes the state of exactly the bytes from \<open>uBegin\<close> up to \<open>uEnd\<close>
  (the end of the file for -1), by \<open>MakeState\<close>; the file size and the shape of the map are kept.
  States are compared by the map's own \<open>MatchState\<close>, which ignores the two flags.
\<close>

theorem part_SetRange:
  assumes "rm_wf (m_PartMap rm)" and "b < eff_end (m_PartMap rm) e"
    and "eff_end (m_PartMap rm) e \<le> GetSize rm"
  shows "rm_wf (m_PartMap (SetRange part_ops rm b e st mode)) \<and>
    GetSize (SetRange part_ops rm b e st mode) = GetSize rm \<and>
    (\<forall>x. val_rel part_ops (val_at (m_PartMap (SetRange part_ops rm b e st mode)) x)
      (if b \<le> x \<and> x < eff_end (m_PartMap rm) e
       then map_option (\<lambda>v. part_make v st mode) (val_at (m_PartMap rm) x)
       else val_at (m_PartMap rm) x))"
  using part_map.SetRange_inv [OF assms(1,2), of st mode] assms(3)
  unfolding GetSize_def ops_select by blast

theorem part_SetRange_witness:
  "val_rel part_ops
    (val_at (m_PartMap (SetRange part_ops (new_range_map part_ops 100) 10 (- 1) (SPartRange 1) eAdd)) 50)
    (Some (part_make (SPartRange 0) (SPartRange 1) eAdd))"
  using part_SetRange [of "new_range_map part_ops 100" 10 "- 1" "SPartRange 1" eAdd,
      THEN conjunct2, THEN conjunct2, THEN spec, of 50]
  by (simp add: new_map eff_end_def GetSize_def del: part_make.simps)
text \<open>
  C2. \<open>SetRange\<close> leaves no two neighbouring runs with matching states when there were none before,
  so the map has the fewest nodes.
\<close>

theorem part_SetRange_canonical:
  assumes "rm_wf (m_PartMap rm)" and "b < eff_end (m_PartMap rm) e"
    and "eff_end (m_PartMap rm) e \<le> GetSize rm" and "canonical part_ops (m_PartMap rm)"
  shows "canonical part_ops (m_PartMap (SetRange part_ops rm b e st mode))"
  using part_map.SetRange_canonical assms by (simp add: GetSize_def)

theorem part_SetRange_canonical_witness:
  "canonical part_ops (m_PartMap (SetRange part_ops (new_range_map part_ops 100) 10 20 (SPartRange 1) eSet))"
  by (rule part_SetRange_canonical)
    (simp_all add: new_map eff_end_def GetSize_def,
     simp add: canonical_def pair_ok_def new_range_map_def qm_next_def head_key_def)

text \<open>
  \<open>SetRange\<close> with an end beyond the file only counts the revision: no state changes.
\<close>

theorem part_SetRange_outside:
  assumes "rm_wf (m_PartMap rm)" and "GetSize rm < e" and "e \<noteq> - 1"
  shows "SetRange part_ops rm b e st mode = rm\<lparr>m_Revision := m_Revision rm + 1\<rparr>"
  using SetRange_outside_aux [OF assms(1) _ assms(3)] assms(2)
  by (simp add: GetSize_def IncrRevision_def)

theorem part_SetRange_outside_witness:
  "SetRange part_ops (new_range_map part_ops 100) 10 101 (SPartRange 1) eSet =
     (new_range_map part_ops 100)\<lparr>m_Revision := m_Revision (new_range_map part_ops 100) + 1\<rparr>"
  by (rule part_SetRange_outside) (simp_all add: new_map GetSize_def)

text \<open>
  \<open>GetRange\<close> of a part map without a mask: with \<open>eInter\<close> the result has the status bit
  Available exactly when every byte of the range has it, with \<open>eUnion\<close> when some byte has it.
\<close>

definition available_at :: "part_range range_map \<Rightarrow> uint64 \<Rightarrow> bool" where
  "available_at rm x = (case val_at (m_PartMap rm) x of None \<Rightarrow> False
     | Some v \<Rightarrow> uStates v AND Part_Available \<noteq> 0)"

lemma available_bit: "(s AND (1 :: uint32) = 0) = (\<not> bit s 0)"
  using and_exp_eq_0_iff_not_bit [of s 0] by simp

lemma available_sees: "sees part_ops (\<lambda>v. bit (uStates v) 0) (m_PartMap rm) (SPartRange 0) x = available_at rm x"
  using StateSet_V0(5)
  by (auto simp: sees_def available_at_def available_bit mask_state_def part_ops_def split: option.split)

theorem part_GetRange_available:
  assumes "rm_wf (m_PartMap rm)" and "b < eff_end (m_PartMap rm) e"
    and "eff_end (m_PartMap rm) e \<le> GetSize rm"
  shows "(uStates (GetRange part_ops rm b e eInter (SPartRange 0)) AND Part_Available \<noteq> 0) =
      (\<forall>x. b \<le> x \<and> x < eff_end (m_PartMap rm) e \<longrightarrow> available_at rm x) \<and>
    (uStates (GetRange part_ops rm b e eUnion (SPartRange 0)) AND Part_Available \<noteq> 0) =
      (\<exists>x. b \<le> x \<and> x < eff_end (m_PartMap rm) e \<and> available_at rm x)"
  using part_available.GetRange_inter_obs [OF assms(1,2), of "SPartRange 0"]
    part_available.GetRange_union_obs [OF assms(1,2), of "SPartRange 0"] assms(3)
  unfolding GetSize_def available_bit available_sees by blast

theorem part_GetRange_available_witness:
  "uStates (GetRange part_ops (new_range_map part_ops 100) 10 20 eUnion (SPartRange 0)) AND Part_Available = 0"
proof -
  have "\<not> available_at (new_range_map part_ops 100) x" if "x < 20" for x
    using new_map_val_at [of x 100 part_ops] order.strict_trans [OF that, of 100]
    by (simp add: available_at_def SPartRange_def)
  then show ?thesis
    using part_GetRange_available [of "new_range_map part_ops 100" 10 20, THEN conjunct2]
    by (simp add: new_map eff_end_def GetSize_def cong: conj_cong)
qed

text \<open>
  C3. The counters and the mirrored status bits (Scheduled, Requested, Marked) of every run of a
  part map agree: \<open>SetRange\<close> and \<open>Reset\<close> keep it in every mode, given a state for which they agree.
\<close>

theorem part_map_stat_ok:
  assumes "all_states stat_ok (m_PartMap rm)" and "stat_ok st"
  shows "all_states stat_ok (m_PartMap (SetRange part_ops rm b e st mode)) \<and>
    all_states stat_ok (m_PartMap (Reset part_ops rm sz))"
proof -
  have make: "stat_ok (MakeState part_ops v st mode)" if "stat_ok v" for v
    using stat_ok_make [OF that assms(2)] by simp
  have V0: "stat_ok (V0 part_ops)" by (simp add: stat_ok_SPartRange)
  show ?thesis
    using SetRange_all_states [of stat_ok part_ops, OF make V0 assms(1)]
      Reset_all_states [of stat_ok part_ops, OF V0] by blast
qed

theorem part_map_stat_ok_witness:
  "all_states stat_ok (m_PartMap (SetRange part_ops (new_range_map part_ops 100) 10 20 (SPartRange 0x30) eAdd))"
  using part_map_stat_ok [of "new_range_map part_ops 100" "SPartRange 0x30" 10 20 eAdd]
  by (simp add: all_states_def new_range_map_def stat_ok_SPartRange)

text \<open>
  C4. Any \<open>IterateRanges\<close> loop over a share map returns after finitely many calls, and visits ranges
  that follow one another without gap or overlap from \<open>uFrom\<close> to \<open>uTo\<close> (or the end of the file),
  each with the masked state that every byte in it has.
\<close>

theorem share_IterateRanges:
  fixes rm :: "uint16 range_map"
  assumes "rm_wf (m_PartMap rm)" and "GetSize rm \<noteq> - 1" and "f < to" and "f < GetSize rm"
  shows "\<exists>rs. iterate_loop value_ops rm msk (Suc (length (m_PartMap rm))) (new_iterator value_ops f to bHint) = Some rs \<and>
    tiles f (min to (GetSize rm)) rs \<and>
    (\<forall>(b, e, v) \<in> set rs. \<forall>x. b \<le> x \<and> x < e \<longrightarrow>
      (\<exists>w. val_at (m_PartMap rm) x = Some w \<and> v = mask_state value_ops w msk))"
  using value_map.iterate_tiles [OF assms(1), of f to msk bHint] assms(2-4)
  unfolding GetSize_def ops_select by blast

theorem share_IterateRanges_witness:
  "\<exists>rs. iterate_loop value_ops (new_range_map value_ops 100 :: uint16 range_map) 1
      (Suc (length (m_PartMap (new_range_map value_ops 100 :: uint16 range_map))))
      (new_iterator value_ops 10 20 True) = Some rs \<and> tiles 10 20 rs"
  using share_IterateRanges [of "new_range_map value_ops 100 :: uint16 range_map" 10 20 1 True]
  by (auto simp: new_map GetSize_def min_def)

text \<open>
  C5. The position hint is an optimisation: with a hint whose iterator is in the map (or whose
  revision is not the map's), \<open>GetNextRange\<close> gives the result of the search without a hint, and the
  hint it stores is valid again.
\<close>

theorem GetNextRange_hint:
  fixes rm :: "'v range_map"
  assumes "rm_wf (m_PartMap rm)" and "hint_valid rm (Some h)" and "max b e \<noteq> - 1"
  shows "\<exists>found b' e' st' h'. GetNextRange ops rm b e st msk (Some h) = (found, b', e', st', h') \<and>
    GetNextRange ops rm b e st msk None = (found, b', e', st', None) \<and> hint_valid rm h'"
proof (cases "qm_next (m_PartMap rm) (max b e)")
  case None
  then show ?thesis using assms
    by (auto simp: GetNextRange_eq [OF assms(1) _ assms(3)] hint_valid_None)
next
  case (Some k)
  have "k \<in> qkeys (m_PartMap rm)" "qwf (m_PartMap rm)"
    using Some assms(1) by (auto simp: rm_wf_def dest: qm_next_gt)
  then have "extend_range ops (m_PartMap rm) msk st' k \<in> qkeys (m_PartMap rm)" for st'
    by (simp add: extend_range_spec [THEN conjunct1])
  with Some \<open>k \<in> qkeys (m_PartMap rm)\<close> show ?thesis
    using GetNextRange_eq [OF assms(1,2,3), of ops st msk]
      GetNextRange_eq [OF assms(1) hint_valid_None assms(3), of ops st msk]
    by (auto simp: Let_def hint_valid_def)
qed

theorem GetNextRange_hint_witness:
  "\<exists>found b' e' st' h'. GetNextRange value_ops (new_range_map value_ops 100 :: uint16 range_map) 0 0 0 0
      (Some \<lparr>hRevision = 1, hIter = Some 100\<rparr>) = (found, b', e', st', h')"
  using GetNextRange_hint [of "new_range_map value_ops 100 :: uint16 range_map"
      "\<lparr>hRevision = 1, hIter = Some 100\<rparr>" 0 0 value_ops 0 0]
  by (auto simp: new_map hint_valid_def) (auto simp: new_range_map_def)

text \<open>
  \<open>CountLength\<close> returns, and its value is the number of bytes whose state has a bit of \<open>uTest\<close>
  (has none, for the inverse count).
\<close>

theorem share_CountLength:
  fixes rm :: "uint16 range_map"
  assumes "rm_wf (m_PartMap rm)" and "GetSize rm \<noteq> - 1"
  shows "\<exists>n. CountLength value_ops rm test bInverse = Some n \<and>
    unat n = card {x. \<exists>v. val_at (m_PartMap rm) x = Some v \<and> (v AND test \<noteq> 0) \<noteq> bInverse}"
proof -
  have "{x. \<exists>v. val_at (m_PartMap rm) x = Some v \<and> (v AND test \<noteq> 0) \<noteq> bInverse} =
      bytes_with (m_PartMap rm) 0 (\<lambda>v. (v AND test \<noteq> 0) \<noteq> bInverse)"
    by (simp add: bytes_with_def)
  then show ?thesis
    using CountLength_card [OF assms(1), of value_ops test bInverse] assms(2)
    by (simp add: GetSize_def)
qed

theorem share_CountLength_witness:
  "\<exists>n. CountLength value_ops (new_range_map value_ops 100 :: uint16 range_map) 1 True = Some n"
  using share_CountLength [of "new_range_map value_ops 100" 1 True] by (auto simp: new_map GetSize_def)

text \<open>
  C6. \<open>Merge\<close> of a share map into one that is at least as long: every byte the source covers gets
  its filtered state by the given mode, the other bytes and the size keep theirs.
\<close>

theorem share_Merge:
  fixes rm src :: "uint16 range_map"
  assumes "rm_wf (m_PartMap rm)" and "rm_wf (m_PartMap src)" and "GetSize src \<noteq> - 1"
    and "GetSize src \<le> GetSize rm"
  shows "\<exists>rm'. Merge value_ops rm src filt mode = Some rm' \<and> rm_wf (m_PartMap rm') \<and>
    GetSize rm' = GetSize rm \<and>
    (\<forall>x. val_at (m_PartMap rm') x = (case val_at (m_PartMap src) x of
        None \<Rightarrow> val_at (m_PartMap rm) x
      | Some s \<Rightarrow> map_option (\<lambda>v. value_make v (if filt = 0 then s else s AND filt) mode)
          (val_at (m_PartMap rm) x)))"
proof -
  obtain rm' where m: "Merge value_ops rm src filt mode = Some rm'" "rm_wf (m_PartMap rm')"
      "last_key (m_PartMap rm') = last_key (m_PartMap rm)"
    and v: "\<And>x. val_at (m_PartMap rm') x = merged value_ops (m_PartMap src) filt mode x (val_at (m_PartMap rm) x)"
    using value_map.Merge_spec [OF assms(1,2), of filt mode] assms(3,4)
    by (auto simp: GetSize_def simp del: value_make.simps)
  have "mask_state value_ops s filt = (if filt = 0 then s else s AND filt)" for s
    by (simp add: mask_state_def)
  with m v show ?thesis by (auto simp: GetSize_def merged_def split: option.splits)
qed

theorem share_Merge_witness:
  "\<exists>rm'. Merge value_ops (new_range_map value_ops 100 :: uint16 range_map)
      (SetRange value_ops (new_range_map value_ops 50) 0 10 3 eSet) 1 eAdd = Some rm' \<and> GetSize rm' = 100"
proof -
  let ?src = "SetRange value_ops (new_range_map value_ops 50 :: uint16 range_map) 0 10 3 eSet"
  have "rm_wf (m_PartMap ?src) \<and> last_key (m_PartMap ?src) = 50"
    using value_map.SetRange_inv [of "new_range_map value_ops 50" 0 10 3 eSet]
    by (simp add: new_map eff_end_def)
  then show ?thesis
    using share_Merge [of "new_range_map value_ops 100" ?src 1 eAdd] by (auto simp: new_map GetSize_def)
qed

text \<open>
  Clearing a hoster's public counter by its own value does not remove it: \<open>eClr\<close> subtracts
  only when the counter is larger, and leaves it as it is otherwise, so the hoster stays in the
  state and the count stays too. (\<open>NUM_CLR\<close>, which the other maps use, sets it to 0 there.)
\<close>

theorem hoster_clr_keeps:
  assumes "n \<noteq> 0" and "- 2147483648 \<le> n" and "n < 2147483648"
  shows "hoster_make [(h, SHosterRange n)] [(h, SHosterRange n)] eClr = [(h, SHosterRange n)]"
  using assms by (simp add: hoster_clr_def SHosterRange_def Total_def counts_clr_def qm_update_def)

theorem hoster_clr_keeps_witness:
  "hoster_make (MkValue ''h'' [] 1) (MkValue ''h'' [] 1) eClr = MkValue ''h'' [] 1"
  using hoster_clr_keeps [of 1 "''h''"] by (simp add: MkValue_def)

end
