(* ===== verification/PartMap.thy ===== *)
theory PartMap
  imports StateMaps
begin

text \<open>
  FileList/PartMap.cpp: the list of availability changes \<open>CAvailDiff\<close>, the conversions between a
  range map and the bit field of its parts (\<open>CPartMap::ToBitArray\<close>, \<open>CShareMap::FromBitArray\<close>),
  and between a bit field and bytes (\<open>Bits2Bytes\<close>, \<open>Bytes2Bits\<close>). A \<open>QBitArray\<close> is a list of
  booleans, its indices are \<open>int\<close> in the code. \<open>CShareMap\<close> is the range map over \<open>value_ops\<close> with
  16 bit states, \<open>CPartMap\<close> the one over \<open>part_ops\<close>.
\<close>

type_synonym share_map = "uint16 range_map"
type_synonym part_map = "part_range range_map"

section \<open>CAvailDiff\<close>

record avail_diff =
  dBegin :: uint64
  dEnd :: uint64
  dNew :: uint32
  dOld :: uint32

type_synonym diff_list = "avail_diff list"

definition AvailDiff_Add :: "diff_list \<Rightarrow> uint64 \<Rightarrow> uint64 \<Rightarrow> uint32 \<Rightarrow> uint32 \<Rightarrow> diff_list" where
  "AvailDiff_Add ds b e uNew uOld = ds @ [\<lparr>dBegin = b, dEnd = e, dNew = uNew, dOld = uOld\<rparr>]"

definition iterate_ranges :: "'v state_ops \<Rightarrow> 'v range_map \<Rightarrow> 'v siterator \<Rightarrow> 'v \<Rightarrow>
    (uint64 \<times> uint64 \<times> 'v) list option" where
  "iterate_ranges ops rm it msk = iterate_loop ops rm msk (Suc (length (m_PartMap rm))) it"

definition AvailDiff_Update :: "diff_list \<Rightarrow> uint64 \<Rightarrow> uint64 \<Rightarrow> uint32 \<Rightarrow> share_map \<Rightarrow> uint32 \<Rightarrow>
    diff_list option" where
  "AvailDiff_Update ds b e uNew pMap uMask =
     map_option
       (\<lambda>rs. fold (\<lambda>(b, e, st) ds.
          let bOld = (ucast st AND uMask :: uint32)
          in if bOld \<noteq> uNew then AvailDiff_Add ds b e uNew bOld else ds) rs ds)
       (iterate_ranges value_ops pMap (new_iterator value_ops b e True) (ucast uMask))"

section \<open>Bit fields of parts and blocks\<close>

definition DivUp :: "uint64 \<Rightarrow> uint64 \<Rightarrow> uint64" where
  "DivUp sz v = (sz + v - 1) div v"

definition BlockCount :: "uint64 \<Rightarrow> uint64 \<Rightarrow> uint16" where
  "BlockCount uPartSize uBlockSize =
     (if uBlockSize \<noteq> 0 then ucast (DivUp uPartSize uBlockSize) else 1)"

definition GetBitMapIndex :: "uint64 \<Rightarrow> uint64 \<Rightarrow> uint16 \<Rightarrow> uint64 \<Rightarrow> uint64" where
  "GetBitMapIndex uOffset uPartSize uBlockCount uBlockSize =
     (uOffset div uPartSize) * ucast uBlockCount +
     (if uBlockSize \<noteq> 0 then (uOffset mod uPartSize) div uBlockSize else 0)"

definition GetBitMapOffset :: "nat \<Rightarrow> uint64 \<Rightarrow> uint16 \<Rightarrow> uint64 \<Rightarrow> uint64" where
  "GetBitMapOffset BitIndex uPartSize uBlockCount uBlockSize =
     of_nat (BitIndex div unat uBlockCount) * uPartSize +
     of_nat (BitIndex mod unat uBlockCount) * uBlockSize"

text \<open>An unsigned value stored in an \<open>int\<close>.\<close>

definition to_int :: "uint64 \<Rightarrow> int" where
  "to_int w = to_int32 (uint w)"

text \<open>\<open>while(Index < Next) Array.setBit(Index++, v)\<close>.\<close>

function fill_bits :: "int \<Rightarrow> int \<Rightarrow> bool \<Rightarrow> bool list \<Rightarrow> bool list \<times> int" where
  "fill_bits Index Next v arr =
     (if Index < Next then fill_bits (Index + 1) Next v (arr[nat Index := v]) else (arr, Index))"
  by pat_completeness auto
termination
  by (relation "measure (\<lambda>(i, n, v, arr). nat (n - i))") auto

declare fill_bits.simps [simp del]

definition test_state :: "'v state_ops \<Rightarrow> 'v \<Rightarrow> 'v \<Rightarrow> bool" where
  "test_state ops st uTest = StateSet ops (MergeState ops st uTest eInter)"

definition to_bits_step :: "uint64 \<Rightarrow> uint64 \<Rightarrow> part_range \<Rightarrow> uint64 \<times> uint64 \<times> part_range \<Rightarrow>
    bool list \<times> int \<times> part_range \<Rightarrow> bool list \<times> int \<times> part_range" where
  "to_bits_step uPartSize uBlockSize uTest = (\<lambda>(uBegin, uEnd, uState) (arr, Index, uLast).
     let bc = BlockCount uPartSize uBlockSize;
         Prev = to_int (GetBitMapIndex uBegin uPartSize bc uBlockSize);
         (arr, Index) =
           (if Prev > Index
            then (arr[nat Index := test_state part_ops uLast uTest \<and> test_state part_ops uState uTest],
                  Index + 1)
            else (arr, Index));
         Next = to_int (GetBitMapIndex uEnd uPartSize bc uBlockSize);
         (arr, Index) = fill_bits Index Next (test_state part_ops uState uTest) arr
     in (arr, Index, uState))"

definition ToBitArray :: "part_map \<Rightarrow> uint64 \<Rightarrow> uint64 \<Rightarrow> part_range \<Rightarrow> bool list option" where
  "ToBitArray rm uPartSize uBlockSize uTest =
     (let sz = GetSize rm;
          bc = BlockCount uPartSize uBlockSize;
          n = to_int (if uBlockSize \<noteq> 0
                      then (sz div uPartSize) * ucast bc + DivUp (sz mod uPartSize) uBlockSize
                      else DivUp sz uPartSize)
      in map_option
           (\<lambda>rs. fst (fold (to_bits_step uPartSize uBlockSize uTest) rs
              (replicate (nat n) False, 0, SPartRange 0)))
           (visit_ranges part_ops rm (SPartRange 0) None))"

record from_bits_state =
  fbAvail :: uint64
  fbBegin :: uint64
  fbEnd :: uint64
  fbCur :: bool
  fbMap :: share_map
  fbDiff :: diff_list

text \<open>One run of equal bits: \<open>AvailDiff.Update(..); SetRange(..)\<close>.\<close>

definition from_bits_run :: "uint16 \<Rightarrow> uint64 \<Rightarrow> from_bits_state \<Rightarrow> from_bits_state option" where
  "from_bits_run uSt setEnd s =
     (let avail = (if fbCur s then fbAvail s + (fbEnd s - fbBegin s) else fbAvail s)
      in case AvailDiff_Update (fbDiff s) (fbBegin s) (fbEnd s) (if fbCur s then ucast uSt else 0)
            (fbMap s) (ucast uSt) of
           None \<Rightarrow> None
         | Some ds \<Rightarrow>
             Some (s\<lparr>fbAvail := avail, fbDiff := ds,
               fbMap := SetRange value_ops (fbMap s) (fbBegin s) setEnd uSt
                 (if fbCur s then eAdd else eClr)\<rparr>))"

fun from_bits_loop :: "uint64 \<Rightarrow> uint64 \<Rightarrow> uint16 \<Rightarrow> nat \<Rightarrow> bool list \<Rightarrow> from_bits_state \<Rightarrow>
    from_bits_state option" where
  "from_bits_loop uPartSize uBlockSize uSt i [] s = Some s"
| "from_bits_loop uPartSize uBlockSize uSt i (bVal # bits) s =
     (let bc = BlockCount uPartSize uBlockSize
      in case (if fbCur s \<noteq> bVal
               then map_option
                 (\<lambda>s. s\<lparr>fbCur := bVal, fbBegin := GetBitMapOffset i uPartSize bc uBlockSize\<rparr>)
                 (from_bits_run uSt (fbEnd s) s)
               else Some s) of
           None \<Rightarrow> None
         | Some s \<Rightarrow> from_bits_loop uPartSize uBlockSize uSt (Suc i) bits
             (s\<lparr>fbEnd := GetBitMapOffset (Suc i) uPartSize bc uBlockSize\<rparr>))"

text \<open>
  The result is the number of available bytes, the new map and the new list of changes. The code
  reads bit 0 of the array first, an empty array is outside the model (\<open>None\<close>).
\<close>

definition FromBitArray :: "share_map \<Rightarrow> bool list \<Rightarrow> uint64 \<Rightarrow> uint64 \<Rightarrow> uint16 \<Rightarrow> diff_list \<Rightarrow>
    (uint64 \<times> share_map \<times> diff_list) option" where
  "FromBitArray rm arr uPartSize uBlockSize uSt ds =
     (case arr of [] \<Rightarrow> None
      | b0 # bits \<Rightarrow>
          (let sz = GetSize rm;
               s0 = \<lparr>fbAvail = 0, fbBegin = 0, fbEnd = uPartSize, fbCur = b0, fbMap = rm,
                     fbDiff = ds\<rparr>
           in case from_bits_loop uPartSize uBlockSize uSt 1 bits s0 of
                None \<Rightarrow> None
              | Some s \<Rightarrow>
                  let s = (if fbEnd s > sz then s\<lparr>fbEnd := sz\<rparr> else s)
                  in map_option (\<lambda>s. (fbAvail s, fbMap s, fbDiff s)) (from_bits_run uSt sz s)))"

section \<open>Bit fields and bytes\<close>

definition bit_shift :: "bool \<Rightarrow> nat \<Rightarrow> nat" where
  "bit_shift bED2kStyle Bit = (if bED2kStyle then Bit else 7 - Bit)"

fun pack_bits :: "bool \<Rightarrow> nat \<Rightarrow> nat \<Rightarrow> bool list \<Rightarrow> nat \<Rightarrow> bytes \<Rightarrow> bytes" where
  "pack_bits ed2k Index Byte Bits 0 Bytes = Bytes"
| "pack_bits ed2k Index Byte Bits (Suc left) Bytes =
     (let Bit = 8 - Suc left; BitIndex = Index + Bit
      in if BitIndex \<ge> length Bits then Bytes
         else pack_bits ed2k Index Byte Bits left
           (if Bits ! BitIndex
            then Bytes[Byte := (Bytes ! Byte) OR push_bit (bit_shift ed2k Bit) 1] else Bytes))"

function bits_loop :: "bool \<Rightarrow> nat \<Rightarrow> nat \<Rightarrow> bool list \<Rightarrow> bytes \<Rightarrow> bytes" where
  "bits_loop ed2k Index Byte Bits Bytes =
     (if Index < length Bits
      then bits_loop ed2k (Index + 8) (Suc Byte) Bits (pack_bits ed2k Index Byte Bits 8 Bytes)
      else Bytes)"
  by pat_completeness auto
termination
  by (relation "measure (\<lambda>(ed2k, i, b, bits, bytes). length bits - i)") auto

declare bits_loop.simps [simp del]

definition Bits2Bytes :: "bool list \<Rightarrow> bool \<Rightarrow> bytes" where
  "Bits2Bytes Bits ed2k = bits_loop ed2k 0 0 Bits (replicate ((length Bits + 7) div 8) 0)"

fun unpack_bits :: "bool \<Rightarrow> nat \<Rightarrow> uint8 \<Rightarrow> nat \<Rightarrow> nat \<Rightarrow> bool list \<Rightarrow> bool list" where
  "unpack_bits ed2k Index v PartCount 0 Bits = Bits"
| "unpack_bits ed2k Index v PartCount (Suc left) Bits =
     (let Bit = 8 - Suc left; BitIndex = Index + Bit
      in if BitIndex \<ge> PartCount then Bits
         else unpack_bits ed2k Index v PartCount left
           (if v AND push_bit (bit_shift ed2k Bit) 1 \<noteq> 0 then Bits[BitIndex := True] else Bits))"

fun bytes_loop :: "bool \<Rightarrow> nat \<Rightarrow> bytes \<Rightarrow> nat \<Rightarrow> bool list \<Rightarrow> bool list" where
  "bytes_loop ed2k Index [] PartCount Bits = Bits"
| "bytes_loop ed2k Index (v # Bytes) PartCount Bits =
     bytes_loop ed2k (Index + 8) Bytes PartCount (unpack_bits ed2k Index v PartCount 8 Bits)"

definition Bytes2Bits :: "bytes \<Rightarrow> nat \<Rightarrow> bool \<Rightarrow> bool list" where
  "Bytes2Bits Bytes PartCount ed2k = bytes_loop ed2k 0 Bytes PartCount (replicate PartCount False)"

section \<open>Bit fields and bytes: lemmas\<close>

lemma bit_shift_inj: "a < 8 \<Longrightarrow> b < 8 \<Longrightarrow> (bit_shift e a = bit_shift e b) = (a = b)"
  by (auto simp: bit_shift_def)

lemma bit_shift_less: "a < 8 \<Longrightarrow> bit_shift e a < 8"
  by (auto simp: bit_shift_def)

lemma bit_push1: "k < 8 \<Longrightarrow> bit (push_bit k (1 :: uint8)) n = (n = k)"
proof -
  assume "k < 8"
  then have "bit (2 ^ k :: uint8) n = (n = k)" by (auto simp: bit_exp_iff)
  then show ?thesis by (simp only: push_bit_of_1)
qed

lemma and_push1: "k < 8 \<Longrightarrow> (v AND push_bit k (1 :: uint8) = 0) = (\<not> bit v k)"
  using and_exp_eq_0_iff_not_bit [of v k] by (simp add: push_bit_of_1)

lemma pack_bits_spec:
  assumes "n \<le> 8" and "Byte < length Bytes"
  shows "length (pack_bits e Index Byte Bits n Bytes) = length Bytes \<and>
    (\<forall>j < length Bytes. \<forall>k. bit (pack_bits e Index Byte Bits n Bytes ! j) k =
      (bit (Bytes ! j) k \<or> (j = Byte \<and> (\<exists>Bit. 8 - n \<le> Bit \<and> Bit < 8 \<and> Index + Bit < length Bits \<and>
        Bits ! (Index + Bit) \<and> k = bit_shift e Bit))))"
  using assms
proof (induction n arbitrary: Bytes)
  case 0
  then show ?case by auto
next
  case (Suc n)
  define Bit where "Bit = 7 - n"
  have b8: "Bit < 8" "8 - n = Suc Bit" "8 - Suc n = Bit" using Suc.prems(1) by (auto simp: Bit_def)
  show ?case
  proof (cases "length Bits \<le> Index + Bit")
    case True
    then have "\<not> (\<exists>b. Bit \<le> b \<and> b < 8 \<and> Index + b < length Bits \<and> Bits ! (Index + b) \<and> k = bit_shift e b)" for k
      by auto
    with True show ?thesis unfolding b8(3) by (auto simp: Bit_def [symmetric])
  next
    case False
    let ?B = "if Bits ! (Index + Bit)
        then Bytes[Byte := (Bytes ! Byte) OR push_bit (bit_shift e Bit) 1] else Bytes"
    have step: "pack_bits e Index Byte Bits (Suc n) Bytes = pack_bits e Index Byte Bits n ?B"
      using False by (simp add: Bit_def [symmetric] Let_def)
    have "bit (?B ! j) k = (bit (Bytes ! j) k \<or> (j = Byte \<and> Bits ! (Index + Bit) \<and> k = bit_shift e Bit))"
      if "j < length Bytes" for j k
      using that bit_push1 [OF bit_shift_less [OF b8(1)], of e k] Suc.prems(2)
      by (auto simp: nth_list_update bit_or_iff)
    moreover have "(\<exists>b. Bit \<le> b \<and> b < 8 \<and> Index + b < length Bits \<and> Bits ! (Index + b) \<and> k = bit_shift e b) =
      ((Bits ! (Index + Bit) \<and> k = bit_shift e Bit) \<or>
       (\<exists>b. Suc Bit \<le> b \<and> b < 8 \<and> Index + b < length Bits \<and> Bits ! (Index + b) \<and> k = bit_shift e b))" for k
      using False b8(1) by (metis (no_types, lifting) Suc_leD le_antisym not_less_eq_eq not_le)
    moreover have "length ?B = length Bytes" by simp
    ultimately show ?thesis
      using Suc.IH [of ?B] Suc.prems unfolding step b8(2,3) by auto
  qed
qed

lemma bits_loop_spec:
  assumes "Index = 8 * Byte" and "length Bytes = (length Bits + 7) div 8"
  shows "length (bits_loop e Index Byte Bits Bytes) = length Bytes \<and>
    (\<forall>j < length Bytes. \<forall>k. bit (bits_loop e Index Byte Bits Bytes ! j) k =
      (bit (Bytes ! j) k \<or> (Byte \<le> j \<and> (\<exists>Bit < 8. 8 * j + Bit < length Bits \<and>
        Bits ! (8 * j + Bit) \<and> k = bit_shift e Bit))))"
  using assms
proof (induction e Index Byte Bits Bytes rule: bits_loop.induct)
  case (1 e Index Byte Bits Bytes)
  show ?case
  proof (cases "Index < length Bits")
    case False
    then have "\<not> (Byte \<le> j \<and> 8 * j + Bit < length Bits)" for j Bit using "1.prems"(1) by auto
    then show ?thesis by (subst (1 2) bits_loop.simps) (auto simp: False)
  next
    case True
    let ?B = "pack_bits e Index Byte Bits 8 Bytes"
    have "Byte < length Bytes" using True "1.prems" by auto
    note p = pack_bits_spec [OF order_refl this, of e Index Bits]
    have "Index + 8 = 8 * Suc Byte" "length ?B = (length Bits + 7) div 8" using p "1.prems" by auto
    note IH = "1.IH" [OF True this]
    have step: "bits_loop e Index Byte Bits Bytes = bits_loop e (Index + 8) (Suc Byte) Bits ?B"
      using True by (subst bits_loop.simps) simp
    define Q where "Q j k \<longleftrightarrow> (\<exists>Bit < 8. 8 * j + Bit < length Bits \<and> Bits ! (8 * j + Bit) \<and>
      k = bit_shift e Bit)" for j k
    have sp: "(Byte \<le> j \<and> Q j k) = ((j = Byte \<and> Q Byte k) \<or> (Suc Byte \<le> j \<and> Q j k))" for j k
      by (cases "j = Byte") auto
    have p': "bit (?B ! j) k = (bit (Bytes ! j) k \<or> (j = Byte \<and> Q Byte k))" if "j < length Bytes" for j k
      using p that "1.prems"(1) by (simp add: Q_def)
    show ?thesis unfolding step Q_def [symmetric] sp
      using IH [folded Q_def] conjunct1 [OF p] p' by simp
  qed
qed

lemma unpack_bits_spec:
  assumes "n \<le> 8"
  shows "length (unpack_bits e Index v PartCount n Bits) = length Bits \<and>
    (length Bits = PartCount \<longrightarrow> (\<forall>q < PartCount. unpack_bits e Index v PartCount n Bits ! q =
      (Bits ! q \<or> (\<exists>Bit. 8 - n \<le> Bit \<and> Bit < 8 \<and> q = Index + Bit \<and> bit v (bit_shift e Bit)))))"
  using assms
proof (induction n arbitrary: Bits)
  case 0
  then show ?case by auto
next
  case (Suc n)
  define Bit where "Bit = 7 - n"
  have b8: "Bit < 8" "8 - n = Suc Bit" "8 - Suc n = Bit" using Suc.prems by (auto simp: Bit_def)
  show ?case
  proof (cases "PartCount \<le> Index + Bit")
    case True
    then show ?thesis unfolding b8(3) by (auto simp: Bit_def [symmetric])
  next
    case False
    let ?B = "if bit v (bit_shift e Bit) then Bits[Index + Bit := True] else Bits"
    have step: "unpack_bits e Index v PartCount (Suc n) Bits = unpack_bits e Index v PartCount n ?B"
      using False and_push1 [OF bit_shift_less [OF b8(1)], of v e]
      by (simp add: Bit_def [symmetric] Let_def)
    have "(\<exists>b. Bit \<le> b \<and> b < 8 \<and> q = Index + b \<and> bit v (bit_shift e b)) =
      ((q = Index + Bit \<and> bit v (bit_shift e Bit)) \<or>
       (\<exists>b. Suc Bit \<le> b \<and> b < 8 \<and> q = Index + b \<and> bit v (bit_shift e b)))" for q
      using b8(1) by (metis (no_types, lifting) Suc_leD le_antisym not_less_eq_eq)
    moreover have "?B ! q = (Bits ! q \<or> (q = Index + Bit \<and> bit v (bit_shift e Bit)))" if "q < length Bits" for q
      using that by (cases "q = Index + Bit") auto
    moreover have "length ?B = length Bits" by simp
    ultimately show ?thesis
      using Suc.IH [of ?B] Suc.prems unfolding step b8(2,3) by auto
  qed
qed

lemma bytes_loop_spec:
  assumes "length Bits = PartCount"
  shows "length (bytes_loop e Index Bytes PartCount Bits) = PartCount \<and>
    (\<forall>q < PartCount. bytes_loop e Index Bytes PartCount Bits ! q =
      (Bits ! q \<or> (\<exists>j < length Bytes. \<exists>Bit < 8. q = Index + 8 * j + Bit \<and>
        bit (Bytes ! j) (bit_shift e Bit))))"
  using assms
proof (induction e Index Bytes PartCount Bits rule: bytes_loop.induct)
  case (2 e Index v Bytes PartCount Bits)
  note u = unpack_bits_spec [OF order_refl, of e Index v PartCount Bits]
  have "(\<exists>j < length (v # Bytes). \<exists>Bit < 8. q = Index + 8 * j + Bit \<and> bit ((v # Bytes) ! j) (bit_shift e Bit)) =
    ((\<exists>Bit < 8. q = Index + Bit \<and> bit v (bit_shift e Bit)) \<or>
     (\<exists>j < length Bytes. \<exists>Bit < 8. q = Index + 8 + 8 * j + Bit \<and> bit (Bytes ! j) (bit_shift e Bit)))" for q
    by (simp add: Ex_less_Suc2 add.assoc)
  then show ?case using 2 u by auto
qed simp

lemma bits_bytes_roundtrip: "Bytes2Bits (Bits2Bytes Bits e) (length Bits) e = Bits"
proof (rule nth_equalityI)
  define Bytes where "Bytes = Bits2Bytes Bits e"
  have len: "length Bytes = (length Bits + 7) div 8"
    and bits: "\<And>j k. j < length Bytes \<Longrightarrow> bit (Bytes ! j) k =
      (\<exists>Bit < 8. 8 * j + Bit < length Bits \<and> Bits ! (8 * j + Bit) \<and> k = bit_shift e Bit)"
    using bits_loop_spec [of 0 0 "replicate ((length Bits + 7) div 8) 0" Bits e]
    by (auto simp: Bytes_def Bits2Bytes_def)
  note bl = bytes_loop_spec [of "replicate (length Bits) False" "length Bits" e 0 Bytes]
  show "length (Bytes2Bits (Bits2Bytes Bits e) (length Bits) e) = length Bits"
    using bl by (simp add: Bytes2Bits_def Bytes_def)
  fix q assume "q < length (Bytes2Bits (Bits2Bytes Bits e) (length Bits) e)"
  then have q: "q < length Bits" using bl by (simp add: Bytes2Bits_def Bytes_def)
  have j: "q div 8 < length Bytes" using q len by auto
  have "Bytes2Bits Bytes (length Bits) e ! q =
      (\<exists>j < length Bytes. \<exists>Bit < 8. q = 8 * j + Bit \<and> bit (Bytes ! j) (bit_shift e Bit))"
    using bl q by (simp add: Bytes2Bits_def)
  also have "\<dots> = bit (Bytes ! (q div 8)) (bit_shift e (q mod 8))"
  proof
    assume "bit (Bytes ! (q div 8)) (bit_shift e (q mod 8))"
    then show "\<exists>j < length Bytes. \<exists>Bit < 8. q = 8 * j + Bit \<and> bit (Bytes ! j) (bit_shift e Bit)"
      using j by (intro exI [of _ "q div 8"] conjI exI [of _ "q mod 8"]) auto
  qed auto
  also have "\<dots> = Bits ! q"
  proof -
    have "(\<exists>Bit < 8. 8 * (q div 8) + Bit < length Bits \<and> Bits ! (8 * (q div 8) + Bit) \<and>
        bit_shift e (q mod 8) = bit_shift e Bit) =
      (\<exists>Bit < 8. 8 * (q div 8) + Bit < length Bits \<and> Bits ! (8 * (q div 8) + Bit) \<and> Bit = q mod 8)"
      by (intro ex_cong1) (auto simp: bit_shift_inj)
    also have "\<dots> = Bits ! q" using q by auto
    finally show ?thesis unfolding bits [OF j] .
  qed
  finally show "Bytes2Bits (Bits2Bytes Bits e) (length Bits) e ! q = Bits ! q" by (simp add: Bytes_def)
qed

section \<open>CAvailDiff\<close>

lemma ucast_mask_state:
  "ucast (mask_state value_ops (w :: uint16) (ucast (msk :: uint32))) AND msk = (ucast w AND msk :: uint32)"
proof -
  have "(ucast (ucast msk :: uint16) :: uint32) AND msk = ucast (ucast msk :: uint16)"
    by (rule bit_word_eqI) (auto simp: bit_and_iff bit_ucast_iff)
  moreover have "ucast w AND msk = 0" if "(ucast msk :: uint16) = 0"
  proof (rule bit_word_eqI)
    fix n assume "n < LENGTH(32)"
    have "bit msk n \<Longrightarrow> n < 16 \<Longrightarrow> bit (ucast msk :: uint16) n" by (simp add: bit_ucast_iff)
    then show "bit (ucast w AND msk) n = bit (0 :: uint32) n"
      using that by (auto simp: bit_and_iff bit_ucast_iff dest: bit_imp_le_length)
  qed
  moreover have "(ucast (w AND ucast msk) AND msk :: uint32) = ucast w AND msk"
    by (rule bit_word_eqI) (auto simp: bit_and_iff bit_ucast_iff dest: bit_imp_le_length)
  ultimately show ?thesis by (auto simp: mask_state_def value_ops_def)
qed

text \<open>The old state of a byte as the list of changes shows it.\<close>

definition old_state :: "share_map \<Rightarrow> uint32 \<Rightarrow> uint64 \<Rightarrow> uint32" where
  "old_state rm msk x = (case val_at (m_PartMap rm) x of None \<Rightarrow> 0 | Some w \<Rightarrow> ucast w AND msk)"

lemma tiles_cover:
  assumes "tiles a b rs" and "a \<le> x" and "x < b"
  shows "\<exists>s e v. (s, e, v) \<in> set rs \<and> s \<le> x \<and> x < e"
  using assms by (induction a b rs rule: tiles.induct) (auto, metis not_le)

lemma tiles_bounds:
  assumes "tiles a b rs" and "(s, e, v) \<in> set rs"
  shows "a \<le> s \<and> s < e \<and> e \<le> b"
proof -
  have ab: "tiles a b rs \<Longrightarrow> a \<le> b" for a b and rs :: "(uint64 \<times> uint64 \<times> 'a) list"
    by (induction a b rs rule: tiles.induct) (auto intro: order_trans less_imp_le)
  show ?thesis using assms
    by (induction a b rs rule: tiles.induct) (auto dest: ab intro: order_trans less_imp_le)
qed

lemma fold_diffs:
  "fold (\<lambda>(b, e, st) ds. let bOld = (ucast st AND msk :: uint32)
      in if bOld \<noteq> uNew then AvailDiff_Add ds b e uNew bOld else ds) rs ds =
   ds @ [\<lparr>dBegin = b, dEnd = e, dNew = uNew, dOld = ucast st AND msk\<rparr>.
      (b, e, st) \<leftarrow> rs, ucast st AND msk \<noteq> uNew]"
  by (induction rs arbitrary: ds) (auto simp: AvailDiff_Add_def Let_def)

lemma AvailDiff_Update_spec:
  assumes wf: "rm_wf (m_PartMap rm)" and l: "last_key (m_PartMap rm) \<noteq> - 1"
    and b: "b < e" "b < last_key (m_PartMap rm)"
  obtains new where "AvailDiff_Update ds b e uNew rm msk = Some (ds @ new)"
    and "\<And>d x. d \<in> set new \<Longrightarrow> dBegin d \<le> x \<Longrightarrow> x < dEnd d \<Longrightarrow>
      dNew d = uNew \<and> dOld d = old_state rm msk x \<and> dOld d \<noteq> uNew \<and> b \<le> x \<and> x < min e (last_key (m_PartMap rm))"
    and "\<And>x. b \<le> x \<Longrightarrow> x < min e (last_key (m_PartMap rm)) \<Longrightarrow> old_state rm msk x \<noteq> uNew \<Longrightarrow>
      \<exists>d \<in> set new. dBegin d \<le> x \<and> x < dEnd d"
proof -
  let ?m = "m_PartMap rm"
  obtain rs where rs: "iterate_ranges value_ops rm (new_iterator value_ops b e True) (ucast msk) = Some rs"
    and t: "tiles b (min e (last_key ?m)) rs"
    and v: "\<And>s e v x. (s, e, v) \<in> set rs \<Longrightarrow> s \<le> x \<Longrightarrow> x < e \<Longrightarrow>
        \<exists>w. val_at ?m x = Some w \<and> v = mask_state value_ops w (ucast msk)"
    using value_map.iterate_tiles [OF wf l b, of "ucast msk" True]
    by (force simp: iterate_ranges_def value_ops_def)
  let ?new = "[\<lparr>dBegin = b, dEnd = e, dNew = uNew, dOld = ucast st AND msk\<rparr>.
      (b, e, st) \<leftarrow> rs, ucast st AND msk \<noteq> uNew]"
  have old: "ucast st AND msk = old_state rm msk x" if "(s, e, st) \<in> set rs" "s \<le> x" "x < e" for s e st x
    using v [OF that] by (auto simp: old_state_def ucast_mask_state)
  show thesis
  proof (rule that)
    show "AvailDiff_Update ds b e uNew rm msk = Some (ds @ ?new)"
      by (simp add: AvailDiff_Update_def rs fold_diffs)
    fix d x assume "d \<in> set ?new" and x: "dBegin d \<le> x" "x < dEnd d"
    then obtain s e' st where d: "(s, e', st) \<in> set rs" "ucast st AND msk \<noteq> uNew"
      "d = \<lparr>dBegin = s, dEnd = e', dNew = uNew, dOld = ucast st AND msk\<rparr>" by auto
    with x have "dOld d = old_state rm msk x" using old [OF d(1)] by simp
    moreover have "b \<le> x" "x < min e (last_key ?m)"
      using tiles_bounds [OF t d(1)] x d(3)
      by (auto intro: order_trans order_less_le_trans simp del: min_less_iff_conj min.bounded_iff)
    ultimately show "dNew d = uNew \<and> dOld d = old_state rm msk x \<and> dOld d \<noteq> uNew \<and> b \<le> x \<and> x < min e (last_key ?m)"
      using d by simp
  next
    fix x assume x: "b \<le> x" "x < min e (last_key ?m)" "old_state rm msk x \<noteq> uNew"
    then obtain s e' st where r: "(s, e', st) \<in> set rs" "s \<le> x" "x < e'"
      using tiles_cover [OF t] by blast
    then show "\<exists>d \<in> set ?new. dBegin d \<le> x \<and> x < dEnd d"
      using old [OF r] x(3) by (intro bexI [of _ "\<lparr>dBegin = s, dEnd = e', dNew = uNew, dOld = ucast st AND msk\<rparr>"]) force+
  qed
qed

section \<open>FromBitArray\<close>

text \<open>
  Whole parts (\<open>uBlockSize = 0\<close>): \<open>n\<close> parts of \<open>P\<close> bytes cover the file, the array has one bit for
  each of them. \<open>part_bit\<close> is the bit of the part byte \<open>x\<close> is in.
\<close>

definition part_bit :: "bool list \<Rightarrow> uint64 \<Rightarrow> uint64 \<Rightarrow> bool" where
  "part_bit arr P x = (arr ! (unat x div unat P))"

definition bit_upd :: "bool list \<Rightarrow> uint64 \<Rightarrow> uint16 \<Rightarrow> uint64 \<Rightarrow> uint16 \<Rightarrow> uint16" where
  "bit_upd arr P st x v = (if part_bit arr P x then v OR st else v AND NOT st)"

lemma GetBitMapOffset_parts: "GetBitMapOffset i P (BlockCount P 0) 0 = of_nat i * P"
  by (simp add: GetBitMapOffset_def BlockCount_def)

lemma part_offset:
  assumes "i \<le> n" and "n * unat (P :: uint64) < 2 ^ 64"
  shows "unat (of_nat i * P) = i * unat P"
proof -
  have "i * unat P \<le> n * unat P" using assms(1) by simp
  then have "i * unat P < 2 ^ 64" using assms(2) by (rule le_less_trans)
  then show ?thesis
    using unat_of_nat_eq [where 'a = 64, of "i * unat P"] by simp
qed

lemma part_offset_le:
  assumes "i \<le> n" and "n * unat (P :: uint64) < 2 ^ 64" and "0 < P"
  shows "(of_nat i * P \<le> x) = (i \<le> unat x div unat P)" and "(x < of_nat i * P) = (unat x div unat P < i)"
proof -
  have "0 < unat P" using assms(3) by (simp add: word_less_nat_alt)
  then show "(of_nat i * P \<le> x) = (i \<le> unat x div unat P)" "(x < of_nat i * P) = (unat x div unat P < i)"
    using part_offset [OF assms(1,2)]
    by (simp_all add: word_le_nat_alt word_less_nat_alt less_eq_div_iff_mult_less_eq div_less_iff_less_mult)
qed

lemma card_run:
  assumes "a \<le> (b :: uint64)" and "\<And>x. a \<le> x \<Longrightarrow> x < b \<Longrightarrow> Q x = q"
  shows "(of_nat (card {x. x < b \<and> Q x}) :: uint64) =
    of_nat (card {x. x < a \<and> Q x}) + (if q then b - a else 0)"
proof -
  have "{x. x < b \<and> Q x} = {x. x < a \<and> Q x} \<union> (if q then {x. a \<le> x \<and> x < b} else {})"
    using assms by (auto intro: order_less_le_trans simp: not_less) (metis not_le)+
  moreover have "{x. x < a \<and> Q x} \<inter> {x. a \<le> x \<and> x < b} = {}" by auto
  ultimately have "card {x. x < b \<and> Q x} = card {x. x < a \<and> Q x} + (if q then unat (b - a) else 0)"
    using card_word_atLeastLessThan [OF assms(1)] by (auto simp: card_Un_disjoint)
  then show ?thesis by simp
qed

text \<open>
  What holds when the bytes below \<open>B\<close> have been written: the counter and the map. The bits from
  part \<open>c\<close> on are equal and not yet written before bit \<open>i\<close>.
\<close>

definition fb_done :: "share_map \<Rightarrow> bool list \<Rightarrow> uint64 \<Rightarrow> uint16 \<Rightarrow> uint64 \<Rightarrow> from_bits_state \<Rightarrow> bool" where
  "fb_done rm arr P st B s \<longleftrightarrow>
     rm_wf (m_PartMap (fbMap s)) \<and> last_key (m_PartMap (fbMap s)) = last_key (m_PartMap rm) \<and>
     fbAvail s = of_nat (card {x. x < B \<and> part_bit arr P x}) \<and>
     (\<forall>x. val_at (m_PartMap (fbMap s)) x =
        (if x < B then map_option (bit_upd arr P st x) (val_at (m_PartMap rm) x)
         else val_at (m_PartMap rm) x))"

definition fb_inv :: "share_map \<Rightarrow> bool list \<Rightarrow> uint64 \<Rightarrow> uint16 \<Rightarrow> nat \<Rightarrow> from_bits_state \<Rightarrow> bool" where
  "fb_inv rm arr P st i s \<longleftrightarrow> (\<exists>c < i. fbBegin s = of_nat c * P \<and> fbEnd s = of_nat i * P \<and>
     (\<forall>j. c \<le> j \<and> j < i \<longrightarrow> arr ! j = fbCur s) \<and> fb_done rm arr P st (of_nat c * P) s)"

lemma from_bits_run_done:
  assumes d: "fb_done rm arr P st (fbBegin s) s" and be: "fbBegin s < fbEnd s"
    and sz: "fbEnd s \<le> last_key (m_PartMap rm)" "last_key (m_PartMap rm) \<noteq> - 1"
    and bits: "\<And>x. fbBegin s \<le> x \<Longrightarrow> x < fbEnd s \<Longrightarrow> part_bit arr P x = fbCur s"
  shows "\<exists>s'. from_bits_run st (fbEnd s) s = Some s' \<and> fb_done rm arr P st (fbEnd s) s' \<and>
    fbCur s' = fbCur s \<and> fbEnd s' = fbEnd s"
proof -
  let ?mode = "if fbCur s then eAdd else eClr"
  have wf: "rm_wf (m_PartMap (fbMap s))" and lk: "last_key (m_PartMap (fbMap s)) = last_key (m_PartMap rm)"
    using d by (auto simp: fb_done_def)
  have lk1: "last_key (m_PartMap (fbMap s)) \<noteq> - 1" using lk sz(2) by simp
  have bl: "fbBegin s < last_key (m_PartMap (fbMap s))" using be sz(1) lk by simp
  have ee: "eff_end (m_PartMap (fbMap s)) (fbEnd s) = fbEnd s"
    using sz by (auto simp: eff_end_def word_order.extremum_unique)
  obtain new where up: "AvailDiff_Update (fbDiff s) (fbBegin s) (fbEnd s)
      (if fbCur s then ucast st else 0) (fbMap s) (ucast st) = Some (fbDiff s @ new)"
    by (rule AvailDiff_Update_spec [OF wf lk1 be bl])
  note set = value_map.SetRange_inv [OF wf, of "fbBegin s" "fbEnd s" st ?mode, unfolded ee, OF be]
  have set1: "fbEnd s \<le> last_key (m_PartMap (fbMap s))" using sz(1) lk by simp
  let ?s' = "s\<lparr>fbAvail := (if fbCur s then fbAvail s + (fbEnd s - fbBegin s) else fbAvail s),
      fbDiff := fbDiff s @ new, fbMap := SetRange value_ops (fbMap s) (fbBegin s) (fbEnd s) st ?mode\<rparr>"
  have run: "from_bits_run st (fbEnd s) s = Some ?s'"
    by (simp add: from_bits_run_def up Let_def)
  have av: "(if fbCur s then fbAvail s + (fbEnd s - fbBegin s) else fbAvail s) =
      of_nat (card {x. x < fbEnd s \<and> part_bit arr P x})"
    using card_run [OF less_imp_le [OF be] bits] d by (simp add: fb_done_def)
  have "val_at (m_PartMap (fbMap ?s')) x =
      (if x < fbEnd s then map_option (bit_upd arr P st x) (val_at (m_PartMap rm) x)
       else val_at (m_PartMap rm) x)" for x
  proof -
    have old: "val_at (m_PartMap (fbMap s)) x =
        (if x < fbBegin s then map_option (bit_upd arr P st x) (val_at (m_PartMap rm) x)
         else val_at (m_PartMap rm) x)" using d by (simp add: fb_done_def)
    have new: "val_at (m_PartMap (fbMap ?s')) x =
        (if fbBegin s \<le> x \<and> x < fbEnd s
         then map_option (\<lambda>v. MakeState value_ops v st ?mode) (val_at (m_PartMap (fbMap s)) x)
         else val_at (m_PartMap (fbMap s)) x)"
      using set(3) [OF set1, of x] by simp
    have up: "(\<lambda>v. MakeState value_ops v st ?mode) = bit_upd arr P st x" if "fbBegin s \<le> x" "x < fbEnd s"
      using bits [OF that] by (auto simp: value_ops_def bit_upd_def fun_eq_iff)
    consider "x < fbBegin s" | "fbBegin s \<le> x" "x < fbEnd s" | "fbEnd s \<le> x" by fastforce
    then show ?thesis
    proof cases
      case 1
      then have "x < fbEnd s" using be by (rule order.strict_trans)
      moreover have "\<not> fbBegin s \<le> x" using 1 by simp
      ultimately show ?thesis unfolding new old using 1 by (simp only: if_True if_False simp_thms)
    next
      case 2
      with up show ?thesis unfolding new old by (simp flip: not_le)
    next
      case 3
      then have "fbBegin s \<le> x" using be by simp
      with 3 show ?thesis unfolding new old by (simp flip: not_le)
    qed
  qed
  then have "fb_done rm arr P st (fbEnd s) ?s'"
    using set(1,2) [OF set1] lk av by (simp add: fb_done_def)
  with run show ?thesis by simp
qed

lemma from_bits_loop_inv:
  assumes P: "0 < P" and n: "n = length arr" "n * unat P < 2 ^ 64"
    and sz: "of_nat (n - 1) * P < last_key (m_PartMap rm)" "last_key (m_PartMap rm) \<noteq> - 1"
  shows "bits = drop i arr \<Longrightarrow> 0 < i \<Longrightarrow> i \<le> n \<Longrightarrow> fb_inv rm arr P st i s \<Longrightarrow>
    \<exists>s'. from_bits_loop P 0 st i bits s = Some s' \<and> fb_inv rm arr P st n s'"
proof (induction bits arbitrary: i s)
  case Nil
  then have "i = n" using n(1) by simp
  with Nil show ?case by simp
next
  case (Cons b bits)
  have ib: "i < n" "arr ! i = b" "bits = drop (Suc i) arr"
  proof -
    show lt: "i < n" using Cons.prems(1) n(1) by (metis drop_eq_Nil list.discI not_le)
    then have "drop i arr = arr ! i # drop (Suc i) arr" using n(1) by (simp add: Cons_nth_drop_Suc)
    then show "arr ! i = b" "bits = drop (Suc i) arr" using Cons.prems(1) by simp_all
  qed
  obtain c where c: "c < i" "fbBegin s = of_nat c * P" "fbEnd s = of_nat i * P"
      "\<And>j. c \<le> j \<Longrightarrow> j < i \<Longrightarrow> arr ! j = fbCur s" "fb_done rm arr P st (of_nat c * P) s"
    using Cons.prems(4) by (auto simp: fb_inv_def)
  have in1: "i \<le> n - 1" using ib(1) by simp
  let ?next = "\<lambda>s. s\<lparr>fbEnd := of_nat (Suc i) * P\<rparr>"
  show ?case
  proof (cases "fbCur s = b")
    case True
    have "fb_inv rm arr P st (Suc i) (?next s)"
      unfolding fb_inv_def
      by (rule exI [of _ c]) (use c ib True in \<open>auto simp: fb_done_def less_Suc_eq\<close>)
    from Cons.IH [OF ib(3) _ _ this] ib(1) True show ?thesis
      by (simp add: GetBitMapOffset_parts)
  next
    case False
    have be: "fbBegin s < fbEnd s"
      unfolding c(2,3) part_offset_le(2) [OF less_imp_le [OF ib(1)] n(2) P]
      using part_offset [OF _ n(2), of c] c(1) ib(1) P by (simp add: word_less_nat_alt)
    have le: "fbEnd s \<le> last_key (m_PartMap rm)"
    proof -
      have "of_nat i * P \<le> of_nat (n - 1) * P"
        unfolding part_offset_le(1) [OF less_imp_le [OF ib(1)] n(2) P]
        using part_offset [OF _ n(2), of "n - 1"] in1 P by (simp add: word_less_nat_alt)
      then show ?thesis unfolding c(3) using sz(1) by simp
    qed
    have bits: "part_bit arr P x = fbCur s" if "fbBegin s \<le> x" "x < fbEnd s" for x
    proof -
      have "c \<le> unat x div unat P" using that(1) part_offset_le(1) [OF _ n(2) P, of c x] c(1,2) ib(1) by simp
      moreover have "unat x div unat P < i"
        using that(2) part_offset_le(2) [OF _ n(2) P, of i x] c(3) ib(1) by simp
      ultimately show ?thesis unfolding part_bit_def by (rule c(4))
    qed
    obtain s' where run: "from_bits_run st (fbEnd s) s = Some s'" "fb_done rm arr P st (fbEnd s) s'"
      using from_bits_run_done [OF _ be le sz(2) bits] c(2,5) by auto
    let ?s = "s'\<lparr>fbCur := b, fbBegin := of_nat i * P, fbEnd := of_nat (Suc i) * P\<rparr>"
    have "fb_inv rm arr P st (Suc i) ?s"
      unfolding fb_inv_def
      by (rule exI [of _ i]) (use run(2) ib c(3) in \<open>auto simp: fb_done_def less_Suc_eq\<close>)
    from Cons.IH [OF ib(3) _ _ this] ib(1) False run(1) show ?thesis
      by (simp add: GetBitMapOffset_parts)
  qed
qed

lemma FromBitArray_parts:
  assumes wf: "rm_wf (m_PartMap rm)" and P: "0 < P" and n: "arr \<noteq> []" "length arr * unat P < 2 ^ 64"
    and sz: "of_nat (length arr - 1) * P < last_key (m_PartMap rm)" 
      "last_key (m_PartMap rm) \<le> of_nat (length arr) * P" "last_key (m_PartMap rm) \<noteq> - 1"
  obtains rm' ds' where "FromBitArray rm arr P 0 st ds =
      Some (of_nat (card {x. x < last_key (m_PartMap rm) \<and> part_bit arr P x}), rm', ds')"
    and "rm_wf (m_PartMap rm')" and "last_key (m_PartMap rm') = last_key (m_PartMap rm)"
    and "\<And>x. val_at (m_PartMap rm') x = map_option (bit_upd arr P st x) (val_at (m_PartMap rm) x)"
proof -
  let ?l = "last_key (m_PartMap rm)" and ?n = "length arr"
  obtain b bits where arr: "arr = b # bits" using n(1) by (cases arr) auto
  let ?s0 = "\<lparr>fbAvail = 0, fbBegin = 0, fbEnd = P, fbCur = b, fbMap = rm, fbDiff = ds\<rparr>"
  have "fb_inv rm arr P st 1 ?s0"
    by (auto simp: fb_inv_def fb_done_def wf arr)
  from from_bits_loop_inv [OF P refl n(2) sz(1,3) _ _ _ this, of bits]
  obtain s where s: "from_bits_loop P 0 st 1 bits ?s0 = Some s" "fb_inv rm arr P st ?n s"
    using n(1) arr by auto
  obtain c where c: "c < ?n" "fbBegin s = of_nat c * P" "fbEnd s = of_nat ?n * P"
      "\<And>j. c \<le> j \<Longrightarrow> j < ?n \<Longrightarrow> arr ! j = fbCur s" "fb_done rm arr P st (of_nat c * P) s"
    using s(2) by (auto simp: fb_inv_def)
  define s1 where "s1 = (if fbEnd s > GetSize rm then s\<lparr>fbEnd := GetSize rm\<rparr> else s)"
  have s1: "fbEnd s1 = ?l" "fbBegin s1 = of_nat c * P" "fbCur s1 = fbCur s"
      "fb_done rm arr P st (fbBegin s1) s1"
    using c sz(2) by (auto simp: s1_def GetSize_def fb_done_def not_less)
  have "of_nat c * P \<le> of_nat (?n - 1) * P"
    unfolding part_offset_le(1) [OF less_imp_le [OF c(1)] n(2) P]
    using part_offset [OF _ n(2), of "?n - 1"] c(1) P by (simp add: word_less_nat_alt)
  then have be: "fbBegin s1 < fbEnd s1" unfolding s1(1,2) using sz(1) by (rule order_le_less_trans)
  have bits: "part_bit arr P x = fbCur s1" if "fbBegin s1 \<le> x" "x < fbEnd s1" for x
  proof -
    have "c \<le> unat x div unat P"
      using that(1) part_offset_le(1) [OF _ n(2) P, of c x] c(1) s1(2) by simp
    moreover have "x < of_nat ?n * P" using that(2) sz(2) s1(1) by simp
    then have "unat x div unat P < ?n" using part_offset_le(2) [OF _ n(2) P, of ?n x] by simp
    ultimately show ?thesis unfolding part_bit_def s1(3) by (rule c(4))
  qed
  obtain s' where run: "from_bits_run st ?l s1 = Some s'" "fb_done rm arr P st ?l s'"
    using from_bits_run_done [OF s1(4) be _ sz(3) bits] s1(1) by auto
  have eq: "FromBitArray rm arr P 0 st ds = Some (fbAvail s', fbMap s', fbDiff s')"
    using run(1) s(1) unfolding s1_def by (auto simp: FromBitArray_def arr GetSize_def Let_def split: if_splits)
  have v: "val_at (m_PartMap (fbMap s')) x = map_option (bit_upd arr P st x) (val_at (m_PartMap rm) x)" for x
    using run(2) val_at_None [of "m_PartMap rm" x] wf by (auto simp: fb_done_def rm_wf_def not_less)
  have r: "rm_wf (m_PartMap (fbMap s'))" "last_key (m_PartMap (fbMap s')) = last_key (m_PartMap rm)"
    "fbAvail s' = of_nat (card {x. x < ?l \<and> part_bit arr P x})"
    using run(2) by (auto simp: fb_done_def)
  show thesis by (rule that [OF eq [unfolded r(3)] r(1,2) v])
qed

section \<open>ToBitArray\<close>

lemma fill_bits_spec:
  assumes "0 \<le> Index" and "Next \<le> int (length arr)"
  shows "snd (fill_bits Index Next v arr) = max Index Next \<and>
    length (fst (fill_bits Index Next v arr)) = length arr \<and>
    (\<forall>i < length arr. fst (fill_bits Index Next v arr) ! i =
      (if Index \<le> int i \<and> int i < Next then v else arr ! i))"
  using assms
proof (induction Index Next v arr rule: fill_bits.induct)
  case (1 Index Next v arr)
  show ?case
  proof (cases "Index < Next")
    case False
    then show ?thesis by (subst (1 2 3) fill_bits.simps) auto
  next
    case True
    then have step: "fill_bits Index Next v arr = fill_bits (Index + 1) Next v (arr[nat Index := v])"
      by (subst fill_bits.simps) simp
    have "(if Index + 1 \<le> int i \<and> int i < Next then v else arr[nat Index := v] ! i) =
      (if Index \<le> int i \<and> int i < Next then v else arr ! i)" if "i < length arr" for i
      using that True "1.prems" by (cases "int i = Index") (auto simp: nth_list_update)
    with "1.IH" [OF True] "1.prems" True show ?thesis unfolding step by auto
  qed
qed

text \<open>The byte that decides the bit of part \<open>i\<close>: the last one of the part.\<close>

definition part_last :: "uint64 \<Rightarrow> nat \<Rightarrow> uint64" where
  "part_last P i = of_nat (Suc i * unat P - 1)"

definition tested :: "part_map \<Rightarrow> part_range \<Rightarrow> uint64 \<Rightarrow> bool" where
  "tested rm uTest x = (case val_at (m_PartMap rm) x of None \<Rightarrow> False | Some v \<Rightarrow> test_state part_ops v uTest)"

lemma part_last_less:
  assumes "0 < P" and "Suc i * unat P \<le> unat (e :: uint64)"
  shows "unat (part_last P i) = Suc i * unat P - 1" and "part_last P i < e"
proof -
  define n where "n = Suc i * unat P"
  have "0 < unat P" using assms(1) by (simp add: word_less_nat_alt)
  then have n: "0 < n" by (simp add: n_def)
  have le: "n \<le> unat e" using assms(2) by (simp only: n_def)
  then have "n - 1 < 2 ^ 64" using unat_lt2p [of e] by simp
  then have u: "unat (part_last P i) = n - 1"
    unfolding part_last_def n_def [symmetric] by (simp add: unat_of_nat_eq)
  then show "unat (part_last P i) = Suc i * unat P - 1" by (simp only: n_def)
  show "part_last P i < e" unfolding word_less_nat_alt u using n le by simp
qed

lemma to_int_small:
  assumes "unat w < 2147483648"
  shows "to_int w = int (unat w)"
proof -
  have "uint w = int (unat w)" by simp
  moreover have "int (unat w) < 2147483648" using assms by linarith
  ultimately show ?thesis unfolding to_int_def by (simp only: to_int32_id)
qed

lemma index_parts: "GetBitMapIndex x P (BlockCount P 0) 0 = x div P"
  by (simp add: GetBitMapIndex_def BlockCount_def)

lemma to_bits_fold:
  assumes P: "0 < P" and small: "\<And>k. k \<in> qkeys m \<Longrightarrow> unat k div unat P < 2147483648"
    and "qwf m" and "\<And>k. k \<in> qkeys m \<Longrightarrow> b < k" and "unat b div unat P < 2147483648"
    and "\<And>k. k \<in> qkeys m \<Longrightarrow> unat k div unat P \<le> length arr"
    and "\<And>i. unat b div unat P \<le> i \<Longrightarrow> i < length arr \<Longrightarrow> \<not> arr ! i"
  shows "let arr' = fst (fold (to_bits_step P 0 uTest) (runs b m) (arr, int (unat b div unat P), lst))
    in length arr' = length arr \<and> (\<forall>i < length arr. arr' ! i =
      (if i < unat b div unat P then arr ! i
       else m \<noteq> [] \<and> Suc i * unat P \<le> unat (last_key m) \<and>
         (case val_at m (part_last P i) of None \<Rightarrow> False | Some v \<Rightarrow> test_state part_ops v uTest)))"
  using assms(2-)
proof (induction m arbitrary: b arr lst)
  case Nil
  then show ?case by (auto simp: not_less)
next
  case (Cons kv m)
  obtain k v where kv: "kv = (k, v)" by (cases kv)
  have wf: "qwf ((k, v) # m)" and bk: "b < k" and gt: "\<And>x. x \<in> qkeys m \<Longrightarrow> k < x"
    using Cons.prems kv by auto
  have p: "0 < unat P" using P by (simp add: word_less_nat_alt)
  let ?B = "unat b div unat P" and ?K = "unat k div unat P" and ?t = "test_state part_ops v uTest"
  have BK: "?B \<le> ?K" using bk by (intro div_le_mono) (simp add: word_less_nat_alt)
  have ks: "?K < 2147483648" "?K \<le> length arr" using Cons.prems(1,5) kv by auto
  define arr1 where "arr1 = fst (fill_bits (int ?B) (int ?K) ?t arr)"
  note f = fill_bits_spec [of "int ?B" "int ?K" arr ?t]
  have ti: "to_int (x div P) = int (unat x div unat P)" if "unat x div unat P < 2147483648" for x
    using to_int_small [of "x div P"] that by (simp add: unat_div_distrib)
  have step: "to_bits_step P 0 uTest (b, k, v) (arr, int ?B, lst) = (arr1, int ?K, v)"
  proof -
    have "fill_bits (int ?B) (int ?K) ?t arr = (arr1, int ?K)"
      using f ks BK by (intro prod_eqI) (simp_all add: arr1_def)
    then show ?thesis
      using ti [OF Cons.prems(4)] ti [OF ks(1)] by (simp add: to_bits_step_def index_parts)
  qed
  have arr1: "length arr1 = length arr" "\<And>i. i < length arr \<Longrightarrow> arr1 ! i = (if ?B \<le> i \<and> i < ?K then ?t else arr ! i)"
    using f ks by (auto simp: arr1_def)
  define arr' where "arr' = fst (fold (to_bits_step P 0 uTest) (runs k m) (arr1, int ?K, v))"
  have IH: "length arr' = length arr1 \<and> (\<forall>i < length arr1. arr' ! i =
      (if i < ?K then arr1 ! i
       else m \<noteq> [] \<and> Suc i * unat P \<le> unat (last_key m) \<and>
         (case val_at m (part_last P i) of None \<Rightarrow> False | Some v \<Rightarrow> test_state part_ops v uTest)))"
    unfolding arr'_def
    by (rule Cons.IH [unfolded Let_def])
      (use Cons.prems wf gt kv ks arr1 BK in auto)
  have last: "last_key (kv # m) = (if m = [] then k else last_key m)"
    by (cases m rule: rev_cases) (simp_all add: kv last_key_def qm_last_def head_key_def)
  have kl: "unat k \<le> unat (last_key (kv # m))"
    using last_key_wf [OF Cons.prems(2)] kv by (simp add: word_le_nat_alt)
  have "arr' ! i = (if i < ?B then arr ! i
       else kv # m \<noteq> [] \<and> Suc i * unat P \<le> unat (last_key (kv # m)) \<and>
         (case val_at (kv # m) (part_last P i) of None \<Rightarrow> False | Some v \<Rightarrow> test_state part_ops v uTest))"
    if i: "i < length arr" for i
  proof (cases "i < ?K")
    case True
    then have le: "Suc i * unat P \<le> unat k"
      using p by (metis Suc_leI div_times_less_eq_dividend le_trans mult_le_mono1)
    note pl = part_last_less [OF P le]
    have "val_at (kv # m) (part_last P i) = Some v"
      using pl(2) val_at_Cons [OF wf] kv by simp
    then show ?thesis using IH i True arr1 le kl by auto
  next
    case False
    then have K: "?K \<le> i" "\<not> i < ?B" using BK by auto
    show ?thesis
    proof (cases "m \<noteq> [] \<and> Suc i * unat P \<le> unat (last_key m)")
      case True
      note pl = part_last_less [OF P conjunct2 [OF True]]
      have "unat k < Suc i * unat P" using K(1) p by (metis dividend_less_times_div le_imp_less_Suc less_le_trans mult.commute div_less_iff_less_mult)
      then have "\<not> part_last P i < k" unfolding word_less_nat_alt pl(1) by simp
      then have "val_at (kv # m) (part_last P i) = val_at m (part_last P i)"
        using val_at_Cons [OF wf] kv by simp
      then show ?thesis using IH i False True arr1 last K by simp
    next
      case F2: False
      have "\<not> (m = [] \<and> Suc i * unat P \<le> unat k)"
        using K(1) p by (metis Suc_n_not_le_n div_le_mono le_trans nonzero_mult_div_cancel_right not_less_eq_eq less_numeral_extra(3))
      then show ?thesis using IH i False F2 arr1 last K by auto
    qed
  qed
  moreover have "fold (to_bits_step P 0 uTest) (runs b (kv # m)) (arr, int ?B, lst) =
      fold (to_bits_step P 0 uTest) (runs k m) (arr1, int ?K, v)"
    by (simp add: kv step)
  ultimately show ?case using IH arr1(1) by (simp add: arr'_def Let_def)
qed

lemma ToBitArray_parts:
  assumes wf: "rm_wf (m_PartMap rm)" and P: "0 < P" and l: "last_key (m_PartMap rm) \<noteq> - 1"
    and s: "unat (last_key (m_PartMap rm)) + unat P < 2 ^ 64"
    and n: "(unat (last_key (m_PartMap rm)) + unat P - 1) div unat P < 2147483648"
  obtains arr where "ToBitArray rm P 0 uTest = Some arr"
    and "length arr = (unat (last_key (m_PartMap rm)) + unat P - 1) div unat P"
    and "\<And>i. i < length arr \<Longrightarrow> arr ! i =
      (Suc i * unat P \<le> unat (last_key (m_PartMap rm)) \<and> tested rm uTest (part_last P i))"
proof -
  let ?m = "m_PartMap rm" and ?N = "(unat (last_key (m_PartMap rm)) + unat P - 1) div unat P"
  have qwf: "qwf ?m" and ne: "?m \<noteq> []" using wf by (auto simp: rm_wf_def)
  have p: "0 < unat P" using P by (simp add: word_less_nat_alt)
  have "unat (last_key ?m + P) = unat (last_key ?m) + unat P" using s by (simp add: unat_word_ariths)
  moreover have "1 \<le> last_key ?m + P"
    unfolding word_le_nat_alt calculation using p by simp
  ultimately have "unat (last_key ?m + P - 1) = unat (last_key ?m) + unat P - 1"
    by (simp add: unat_sub)
  then have "unat (DivUp (last_key ?m) P) = ?N" by (simp add: DivUp_def unat_div_distrib)
  then have N: "to_int (DivUp (last_key ?m) P) = int ?N"
    using n to_int_small [of "DivUp (last_key ?m) P"] by (simp only:)
  have kN: "unat k div unat P \<le> ?N" if "k \<in> qkeys ?m" for k
  proof (rule div_le_mono)
    have "unat k \<le> unat (last_key ?m)" using last_key_wf [OF qwf ne] that by (simp add: word_le_nat_alt)
    then show "unat k \<le> unat (last_key ?m) + unat P - 1" using p by simp
  qed
  define arr where "arr = fst (fold (to_bits_step P 0 uTest) (runs 0 ?m) (replicate ?N False, 0, SPartRange 0))"
  have f: "length arr = ?N \<and> (\<forall>i < ?N. arr ! i =
       (?m \<noteq> [] \<and> Suc i * unat P \<le> unat (last_key ?m) \<and>
         (case val_at ?m (part_last P i) of None \<Rightarrow> False | Some v \<Rightarrow> test_state part_ops v uTest)))"
    using to_bits_fold [OF P _ qwf, of 0 "replicate ?N False" uTest "SPartRange 0"] kN n wf
    by (fastforce simp: Let_def arr_def rm_wf_def word_gt_0)
  have V0: "V0 part_ops = SPartRange 0" by (simp add: part_ops_def)
  have "\<not> StateSet part_ops (SPartRange 0)" using StateSet_V0(5) V0 by simp
  from visit_ranges_runs [OF wf hint_valid_None this l]
  have "ToBitArray rm P 0 uTest = Some arr"
    by (simp add: ToBitArray_def GetSize_def N arr_def)
  then show thesis by (rule that) (use f ne in \<open>simp_all add: tested_def\<close>)
qed

section \<open>Properties of the part map conversions\<close>

text \<open>
  \<open>CAvailDiff::Update\<close> appends, for a change of \<open>[uBegin, uEnd)\<close> to \<open>uNew\<close>, exactly the ranges
  whose masked state is different now: a byte is in a new entry iff its old masked state is not
  \<open>uNew\<close>, and the entry holds that old state.
\<close>

theorem AvailDiff_Update_changes:
  assumes "rm_wf (m_PartMap rm)" and "GetSize rm \<noteq> - 1" and "b < e" and "e \<le> GetSize rm"
  shows "\<exists>new. AvailDiff_Update ds b e uNew rm msk = Some (ds @ new) \<and>
    (\<forall>x. (\<exists>d \<in> set new. dBegin d \<le> x \<and> x < dEnd d) =
      (b \<le> x \<and> x < e \<and> old_state rm msk x \<noteq> uNew)) \<and>
    (\<forall>d \<in> set new. \<forall>x. dBegin d \<le> x \<and> x < dEnd d \<longrightarrow> dNew d = uNew \<and> dOld d = old_state rm msk x)"
proof -
  have l: "last_key (m_PartMap rm) \<noteq> - 1" "b < last_key (m_PartMap rm)" "min e (last_key (m_PartMap rm)) = e"
    using assms(2-4) by (auto simp: GetSize_def min_def)
  obtain new where new: "AvailDiff_Update ds b e uNew rm msk = Some (ds @ new)"
    and sub: "\<And>d x. d \<in> set new \<Longrightarrow> dBegin d \<le> x \<Longrightarrow> x < dEnd d \<Longrightarrow>
      dNew d = uNew \<and> dOld d = old_state rm msk x \<and> dOld d \<noteq> uNew \<and> b \<le> x \<and> x < e"
    and sup: "\<And>x. b \<le> x \<Longrightarrow> x < e \<Longrightarrow> old_state rm msk x \<noteq> uNew \<Longrightarrow> \<exists>d \<in> set new. dBegin d \<le> x \<and> x < dEnd d"
    by (rule AvailDiff_Update_spec [OF assms(1) l(1) assms(3) l(2), of ds uNew msk, unfolded l(3)]) blast
  show ?thesis
    by (rule exI [of _ new]) (use new sub sup in fastforce)
qed

theorem AvailDiff_Update_changes_witness:
  "\<exists>new. AvailDiff_Update [] 10 20 1 (new_range_map value_ops 100) 1 = Some ([] @ new)"
  using AvailDiff_Update_changes [of "new_range_map value_ops 100" 10 20 "[]" 1 1]
  by (auto simp: new_map GetSize_def)

text \<open>
  \<open>FromBitArray\<close> with whole parts: given one bit for each part of the file, it returns, sets
  the state on every byte of an available part and clears it on every other byte, keeps the other
  bits and the size, and its result is the number of bytes in available parts.
\<close>

theorem FromBitArray_whole_parts:
  assumes "rm_wf (m_PartMap rm)" and "0 < P" and "arr \<noteq> []" and "length arr * unat P < 2 ^ 64"
    and "of_nat (length arr - 1) * P < GetSize rm" and "GetSize rm \<le> of_nat (length arr) * P"
    and "GetSize rm \<noteq> - 1"
  shows "\<exists>rm' ds'. FromBitArray rm arr P 0 st ds =
      Some (of_nat (card {x. x < GetSize rm \<and> arr ! (unat x div unat P)}), rm', ds') \<and>
    rm_wf (m_PartMap rm') \<and> GetSize rm' = GetSize rm \<and>
    (\<forall>x. val_at (m_PartMap rm') x =
      map_option (\<lambda>v. if arr ! (unat x div unat P) then v OR st else v AND NOT st) (val_at (m_PartMap rm) x))"
proof -
  have upd: "bit_upd arr P st x = (\<lambda>v. if arr ! (unat x div unat P) then v OR st else v AND NOT st)" for x
    by (simp add: fun_eq_iff bit_upd_def part_bit_def)
  obtain rm' ds' where r: "FromBitArray rm arr P 0 st ds =
      Some (of_nat (card {x. x < last_key (m_PartMap rm) \<and> part_bit arr P x}), rm', ds')"
    "rm_wf (m_PartMap rm')" "last_key (m_PartMap rm') = last_key (m_PartMap rm)"
    "\<And>x. val_at (m_PartMap rm') x = map_option (bit_upd arr P st x) (val_at (m_PartMap rm) x)"
    by (rule FromBitArray_parts [OF assms(1-4) assms(5-7) [unfolded GetSize_def], of st ds]) blast
  show ?thesis
    by (rule exI [of _ rm'], rule exI [of _ ds'])
      (simp only: GetSize_def r [unfolded upd part_bit_def] simp_thms)
qed

theorem FromBitArray_whole_parts_witness:
  "\<exists>n rm' ds'. FromBitArray (new_range_map value_ops 100) [True, False, True] 40 0 1 [] = Some (n, rm', ds') \<and>
    GetSize rm' = 100"
  using FromBitArray_whole_parts [of "new_range_map value_ops 100" 40 "[True, False, True]" 1 "[]"]
  by (auto simp: new_map GetSize_def)

text \<open>
  \<open>ToBitArray\<close> with whole parts returns one bit for each part, and bit \<open>i\<close> says that part \<open>i\<close>
  is complete (it does not extend beyond the file) and that its \<^emph>\<open>last byte\<close> passes the test. The
  other bytes of the part are not looked at, and the bit of an incomplete last part is never set.
\<close>

theorem ToBitArray_whole_parts:
  assumes "rm_wf (m_PartMap rm)" and "0 < P" and "GetSize rm \<noteq> - 1"
    and "unat (GetSize rm) + unat P < 2 ^ 64"
    and "(unat (GetSize rm) + unat P - 1) div unat P < 2147483648"
  shows "\<exists>arr. ToBitArray rm P 0 uTest = Some arr \<and>
    length arr = (unat (GetSize rm) + unat P - 1) div unat P \<and>
    (\<forall>i < length arr. arr ! i =
      (Suc i * unat P \<le> unat (GetSize rm) \<and> tested rm uTest (of_nat (Suc i * unat P - 1))))"
proof -
  obtain arr where "ToBitArray rm P 0 uTest = Some arr"
    and "length arr = (unat (last_key (m_PartMap rm)) + unat P - 1) div unat P"
    and "\<And>i. i < length arr \<Longrightarrow> arr ! i =
      (Suc i * unat P \<le> unat (last_key (m_PartMap rm)) \<and> tested rm uTest (part_last P i))"
    using ToBitArray_parts [OF assms(1,2) assms(3-5) [unfolded GetSize_def], of uTest] by blast
  then show ?thesis unfolding GetSize_def part_last_def by blast
qed

theorem ToBitArray_whole_parts_witness:
  "\<exists>arr. ToBitArray (new_range_map part_ops 100) 40 0 (SPartRange 1) = Some arr \<and> length arr = 3 \<and> \<not> arr ! 2"
  using ToBitArray_whole_parts [of "new_range_map part_ops 100" 40 "SPartRange 1"]
  by (auto simp: new_map GetSize_def)

text \<open>
  Packing a bit field into bytes and unpacking it with the same bit order and length gives
  the bit field back, in the ed2k order as well as in the BitTorrent order.
\<close>

theorem Bits2Bytes_roundtrip:
  "Bytes2Bits (Bits2Bytes Bits ed2k) (length Bits) ed2k = Bits"
  by (rule bits_bytes_roundtrip)

end
