(* ===== verification/HashBase.thy ===== *)
theory HashBase
  imports PartMap
begin

text \<open>
  FileList/Hashing/FileHash.h and FileHash.cpp: hash types and their sizes, the text form of a hash,
  the class \<open>CFileHash\<close> (a type, a size and the hash itself) and \<open>CFileHashEx\<close>, which adds the file
  size, the bit map of the verified blocks and the list of corrupt ranges. The virtual functions
  \<open>GetBlockSize\<close> and \<open>GetPartSize\<close> of the derived classes are the arguments \<open>bs\<close> and \<open>ps\<close>.

  A \<open>QByteArray\<close> that holds text is a \<open>string\<close>, one that holds a hash a list of bytes. Qt's hex and
  base 64 conversions are not part of the repository: they are the fields of \<open>codec\<close>. The hash
  functions of crypto++ are a function from an algorithm and the bytes added to it to the digest.
\<close>

section \<open>Hash types\<close>

datatype hash_type = HashNone | HashNeo | HashXNeo | HashTorrent | HashEd2k | HashArchive
  | HashMule | HashEdPr | HashTigerTree | HashMD5 | HashSHA1 | HashSHA2 | HashSingle | HashMulti
  | HashUnknown

datatype hashing_mode = eVerifyParts | eVerifyFile | eRecoverParts

datatype hash_alg = algNone | eSHA256 | eMD5 | eMD4 | eSHA1 | eTiger

type_synonym hash_function = "hash_alg \<Rightarrow> bytes \<Rightarrow> bytes"

definition HashTypeSize :: "hash_type \<Rightarrow> nat" where
  "HashTypeSize t = (case t of
      HashSHA2 \<Rightarrow> 32 | HashArchive \<Rightarrow> 32 | HashNeo \<Rightarrow> 32 | HashXNeo \<Rightarrow> 32
    | HashMD5 \<Rightarrow> 16 | HashEd2k \<Rightarrow> 16
    | HashMule \<Rightarrow> 20 | HashTorrent \<Rightarrow> 20 | HashSHA1 \<Rightarrow> 20
    | HashTigerTree \<Rightarrow> 24
    | _ \<Rightarrow> 8)"

definition GetAlgorithm :: "hash_type \<Rightarrow> hash_alg" where
  "GetAlgorithm t = (case t of
      HashSHA2 \<Rightarrow> eSHA256 | HashArchive \<Rightarrow> eSHA256 | HashNeo \<Rightarrow> eSHA256 | HashXNeo \<Rightarrow> eSHA256
    | HashMD5 \<Rightarrow> eMD5
    | HashEd2k \<Rightarrow> eMD4
    | HashMule \<Rightarrow> eSHA1 | HashTorrent \<Rightarrow> eSHA1 | HashSHA1 \<Rightarrow> eSHA1
    | HashTigerTree \<Rightarrow> eTiger
    | _ \<Rightarrow> algNone)"

definition GetBase :: "hash_type \<Rightarrow> nat" where
  "GetBase t = (case t of
      HashArchive \<Rightarrow> 64 | HashNeo \<Rightarrow> 64 | HashXNeo \<Rightarrow> 64
    | HashMD5 \<Rightarrow> 16 | HashEd2k \<Rightarrow> 16 | HashTorrent \<Rightarrow> 16
    | HashSHA1 \<Rightarrow> 32 | HashSHA2 \<Rightarrow> 32 | HashMule \<Rightarrow> 32 | HashTigerTree \<Rightarrow> 32
    | _ \<Rightarrow> 0)"

definition GetTypeClass :: "hash_type \<Rightarrow> hash_type" where
  "GetTypeClass t = (case t of
      HashNeo \<Rightarrow> HashSingle | HashMD5 \<Rightarrow> HashSingle | HashEd2k \<Rightarrow> HashSingle
    | HashSHA1 \<Rightarrow> HashSingle | HashSHA2 \<Rightarrow> HashSingle | HashMule \<Rightarrow> HashSingle
    | HashTigerTree \<Rightarrow> HashSingle
    | HashXNeo \<Rightarrow> HashMulti
    | _ \<Rightarrow> HashUnknown)"

text \<open>\<open>compare(.., Qt::CaseInsensitive) == 0\<close> against a text of ASCII characters.\<close>

definition lower :: "char \<Rightarrow> char" where
  "lower c = (if CHR ''A'' \<le> c \<and> c \<le> CHR ''Z'' then char_of (of_char c + 32 :: nat) else c)"

definition same_nocase :: "string \<Rightarrow> string \<Rightarrow> bool" where
  "same_nocase a b = (map lower a = map lower b)"

definition Str2HashType :: "string \<Rightarrow> hash_type" where
  "Str2HashType s =
     (if same_nocase s ''neo'' \<or> same_nocase s ''tree:sha2/256k'' then HashNeo
      else if same_nocase s ''neox'' \<or> same_nocase s ''x-tree:sha2/256k'' then HashXNeo
      else if same_nocase s ''arch'' then HashArchive
      else if same_nocase s ''md5'' then HashMD5
      else if same_nocase s ''ed2k'' \<or> same_nocase s ''ed2khash'' then HashEd2k
      else if same_nocase s ''sha1'' then HashSHA1
      else if same_nocase s ''sha2'' then HashSHA2
      else if same_nocase s ''btih'' then HashTorrent
      else if same_nocase s ''aich'' then HashMule
      else if same_nocase s ''tigertree'' \<or> same_nocase s ''tree:tiger/1024'' then HashTigerTree
      else if same_nocase s ''Unknown'' then HashUnknown
      else HashNone)"

definition HashType2Str :: "hash_type \<Rightarrow> bool \<Rightarrow> string" where
  "HashType2Str t bExt = (case t of
      HashNeo \<Rightarrow> if bExt then ''tree:sha2/256k'' else ''neo''
    | HashXNeo \<Rightarrow> if bExt then ''x-tree:sha2/256k'' else ''neox''
    | HashArchive \<Rightarrow> ''arch''
    | HashMD5 \<Rightarrow> ''md5''
    | HashEd2k \<Rightarrow> ''ed2k''
    | HashSHA1 \<Rightarrow> ''sha1''
    | HashSHA2 \<Rightarrow> ''sha2''
    | HashTorrent \<Rightarrow> ''btih''
    | HashMule \<Rightarrow> ''aich''
    | HashTigerTree \<Rightarrow> if bExt then ''tree:tiger/1024'' else ''tigertree''
    | _ \<Rightarrow> ''Unknown'')"

section \<open>Text form of a hash\<close>

record codec =
  toHex :: "bytes \<Rightarrow> string"
  fromHex :: "string \<Rightarrow> bytes"
  toBase64 :: "bytes \<Rightarrow> string"
  fromBase64 :: "string \<Rightarrow> bytes"

definition base32Chars :: string where
  "base32Chars = ''ABCDEFGHIJKLMNOPQRSTUVWXYZ234567''"

text \<open>The encoding loop: \<open>i\<close> is the current byte, \<open>index\<close> the bit in it where the next word begins.\<close>

function encode32 :: "bytes \<Rightarrow> nat \<Rightarrow> nat \<Rightarrow> string" where
  "encode32 h i index =
     (if i < length h then
        if index > 3 then
          let w = (h ! i) AND drop_bit index 0xFF;
              index' = (index + 5) mod 8;
              w = push_bit index' w;
              w = (if i < length h - 1 then w OR drop_bit (8 - index') (h ! (i + 1)) else w)
          in (base32Chars ! unat w) # encode32 h (i + 1) index'
        else
          let w = drop_bit (8 - (index + 5)) (h ! i) AND 0x1F;
              index' = (index + 5) mod 8
          in (base32Chars ! unat w) # encode32 h (if index' = 0 then i + 1 else i) index'
      else [])"
  by pat_completeness auto
termination
proof (relation "measures [\<lambda>(h, i, index). length h - i, \<lambda>(h, i, index). 8 - index]", goal_cases)
  case (3 h i index w index')
  moreover have "index = 0 \<or> index = 1 \<or> index = 2 \<or> index = 3" using 3(2) by linarith
  ultimately show ?case by auto
qed auto

declare encode32.simps [simp del]

text \<open>The value of a base 32 character, \<open>None\<close> where the loop breaks.\<close>

definition base32_value :: "char \<Rightarrow> uint32 option" where
  "base32_value c =
     (if CHR ''A'' \<le> c \<and> c \<le> CHR ''Z'' then Some (of_nat (of_char c - of_char CHR ''A''))
      else if CHR ''a'' \<le> c \<and> c \<le> CHR ''z'' then Some (of_nat (of_char c - of_char CHR ''a''))
      else if CHR ''2'' \<le> c \<and> c \<le> CHR ''7'' then Some (of_nat (of_char c - of_char CHR ''2'' + 26))
      else None)"

fun decode32 :: "string \<Rightarrow> uint32 \<Rightarrow> nat \<Rightarrow> bytes" where
  "decode32 [] nBits nCount = []"
| "decode32 (c # cs) nBits nCount =
     (case base32_value c of
        None \<Rightarrow> []
      | Some v \<Rightarrow>
          let nBits = nBits OR v;
              nCount = nCount + 5
          in if nCount \<ge> 8
             then ucast (drop_bit (nCount - 8) nBits) # decode32 cs (push_bit 5 nBits) (nCount - 8)
             else decode32 cs (push_bit 5 nBits) nCount)"

definition EncodeHash :: "codec \<Rightarrow> hash_type \<Rightarrow> bytes \<Rightarrow> nat \<Rightarrow> string" where
  "EncodeHash q t h b =
     (let b = (if b = 0 then GetBase t else b)
      in if b = 16 then toHex q h
         else if b = 32 then encode32 h 0 0
         else if b = 64 then
           filter (\<lambda>c. c \<noteq> CHR ''='')
             (map (\<lambda>c. if c = CHR ''+'' then CHR ''-'' else if c = CHR ''/'' then CHR ''_'' else c)
               (toBase64 q h))
         else [])"

definition DecodeHash :: "codec \<Rightarrow> hash_type \<Rightarrow> string \<Rightarrow> bytes" where
  "DecodeHash q t s =
     (let uSize = HashTypeSize t;
          uLength = length s;
          b = (if uLength div 2 = uSize then 16
               else if uLength * 5 div 8 = uSize then 32
               else if uLength * 3 div 4 = uSize then 64
               else GetBase t);
          h = (if b = 16 then fromHex q s
               else if b = 32 then decode32 s 0 0
               else if b = 64 then
                 fromBase64 q
                   (map (\<lambda>c. if c = CHR ''-'' then CHR ''+'' else if c = CHR ''_'' then CHR ''/'' else c) s)
               else [])
      in if uLength = 0 then [] else if length h \<noteq> uSize then [] else h)"

section \<open>CFileHash\<close>

record file_hash =
  m_eHashType :: hash_type
  m_uHashSize :: nat
  m_Hash :: bytes

text \<open>\<open>SetHash(const byte*)\<close>, with \<open>None\<close> for the null pointer.\<close>

definition SetHash_ptr :: "'z file_hash_scheme \<Rightarrow> bytes option \<Rightarrow> 'z file_hash_scheme" where
  "SetHash_ptr fh p = fh\<lparr>m_Hash := (case p of None \<Rightarrow> replicate (m_uHashSize fh) 0
     | Some d \<Rightarrow> take (m_uHashSize fh) d)\<rparr>"

definition SetHash :: "'z file_hash_scheme \<Rightarrow> bytes \<Rightarrow> bool \<times> 'z file_hash_scheme" where
  "SetHash fh d = (if length d \<noteq> m_uHashSize fh then (False, fh) else (True, SetHash_ptr fh (Some d)))"

definition new_file_hash :: "hash_type \<Rightarrow> file_hash" where
  "new_file_hash t =
     (let sz = (if t = HashUnknown then 8 else HashTypeSize t)
      in SetHash_ptr \<lparr>m_eHashType = t, m_uHashSize = sz, m_Hash = replicate sz 0\<rparr> None)"

text \<open>The hash is read in groups of four bytes.\<close>

definition IsValid_hash :: "bytes \<Rightarrow> nat \<Rightarrow> bool" where
  "IsValid_hash h n = list_ex (\<lambda>k. take 4 (drop (4 * k) h) \<noteq> [0, 0, 0, 0]) [0..<(n + 3) div 4]"

definition IsValid :: "'z file_hash_scheme \<Rightarrow> bool" where
  "IsValid fh = IsValid_hash (m_Hash fh) (m_uHashSize fh)"

definition IsComplete :: "'z file_hash_scheme \<Rightarrow> bool" where
  "IsComplete fh = (m_eHashType fh \<in> {HashMD5, HashSHA1, HashSHA2, HashArchive})"

definition Compare_ptr :: "'z file_hash_scheme \<Rightarrow> bytes \<Rightarrow> bool" where
  "Compare_ptr fh d = (take (m_uHashSize fh) (m_Hash fh) = take (m_uHashSize fh) d)"

definition Compare_hash :: "'z file_hash_scheme \<Rightarrow> 'y file_hash_scheme option \<Rightarrow> bool" where
  "Compare_hash fh o2 = (case o2 of None \<Rightarrow> False
     | Some fh2 \<Rightarrow> if m_eHashType fh \<noteq> m_eHashType fh2 then False else Compare_ptr fh (m_Hash fh2))"

definition ToString :: "codec \<Rightarrow> 'z file_hash_scheme \<Rightarrow> nat \<Rightarrow> string" where
  "ToString q fh b = EncodeHash q (m_eHashType fh) (m_Hash fh) b"

text \<open>
  The class \<open>New\<close> instantiates. \<open>Undefined\<close> stands for the paths that return an uninitialised pointer or
  take an element of an empty list.
\<close>

datatype hash_class = CFileHash | CFileHashTree | CFileHashTreeEx | CFileHashSet

datatype 'a created = Undefined | Failed | Created 'a

definition NewHash :: "hash_type \<Rightarrow> uint64 \<Rightarrow> (hash_class \<times> file_hash) created" where
  "NewHash t uFileSize =
     (if uFileSize = 0 \<or> t \<in> {HashMD5, HashSHA1, HashSHA2, HashArchive} then Created (CFileHash, new_file_hash t)
      else if t \<in> {HashNeo, HashXNeo, HashMule, HashTigerTree}
      then Created (if t = HashXNeo then CFileHashTreeEx else CFileHashTree, new_file_hash t)
      else if t = HashEd2k then Created (CFileHashSet, new_file_hash t)
      else if t = HashTorrent then Created (CFileHash, new_file_hash t)
      else Undefined)"

definition FromArray :: "bytes \<Rightarrow> hash_type \<Rightarrow> uint64 \<Rightarrow> (hash_class \<times> file_hash) created" where
  "FromArray h t uFileSize =
     (case NewHash t uFileSize of
        Created (c, fh) \<Rightarrow> (case SetHash fh h of (True, fh') \<Rightarrow> Created (c, fh') | (False, _) \<Rightarrow> Failed)
      | r \<Rightarrow> r)"

fun split_on :: "char \<Rightarrow> string \<Rightarrow> string list" where
  "split_on d [] = [[]]"
| "split_on d (c # cs) = (if c = d then [] # split_on d cs
     else (case split_on d cs of [] \<Rightarrow> [[c]] | s # ss \<Rightarrow> (c # s) # ss))"

definition FromString :: "codec \<Rightarrow> string \<Rightarrow> hash_type \<Rightarrow> uint64 \<Rightarrow> (hash_class \<times> file_hash) created" where
  "FromString q str t uFileSize =
     (if t = HashNone then
        let parts = split_on CHR '':'' str;
            parts = (if same_nocase (hd parts) ''urn'' then tl parts else parts)
        in case parts of
             [] \<Rightarrow> Undefined
           | Type # rest \<Rightarrow>
               let (Type, rest) = (if same_nocase Type ''tree'' \<and> length rest \<ge> 2
                                   then (Type @ '':'' @ hd rest, tl rest) else (Type, rest));
                   t = Str2HashType Type
               in if t = HashNone \<or> rest = [] then Failed
                  else FromArray (DecodeHash q t (hd rest)) t uFileSize
      else FromArray (DecodeHash q t str) t uFileSize)"

section \<open>Reading the file\<close>

text \<open>
  A random access \<open>QIODevice\<close>: its size, and what reading at most so many bytes at a position
  delivers; nothing stands for an error or the end of the file.
\<close>

record device =
  dev_size :: nat
  dev_read :: "nat \<Rightarrow> nat \<Rightarrow> bytes"

definition file_device :: "bytes \<Rightarrow> device" where
  "file_device d = \<lparr>dev_size = length d, dev_read = (\<lambda>p n. take n (drop p d))\<rparr>"

text \<open>Read \<open>n\<close> bytes from \<open>pos\<close> in pieces of at most 16 KB.\<close>

function read_loop :: "device \<Rightarrow> nat \<Rightarrow> nat \<Rightarrow> bytes option" where
  "read_loop f pos n =
     (if n = 0 then Some []
      else let d = take (min 16384 n) (dev_read f pos (min 16384 n))
           in if d = [] then None
              else map_option (\<lambda>r. d @ r) (read_loop f (pos + length d) (n - length d)))"
  by pat_completeness auto
termination
  by (relation "measure (\<lambda>(f, pos, n). n)") auto

declare read_loop.simps [simp del]

text \<open>\<open>CFileHash::Calculate\<close> reads whole buffers until the file size is reached.\<close>

function read_all :: "device \<Rightarrow> nat \<Rightarrow> bytes option" where
  "read_all f pos =
     (if dev_size f \<le> pos then Some []
      else let d = take 16384 (dev_read f pos 16384)
           in if d = [] then None else map_option (\<lambda>r. d @ r) (read_all f (pos + length d)))"
  by pat_completeness auto
termination
  by (relation "measure (\<lambda>(f, pos). dev_size f - pos)")
    (auto simp: min_def not_le simp flip: length_greater_0_conv intro!: diff_less_mono2)

declare read_all.simps [simp del]

definition Calculate_plain :: "hash_function \<Rightarrow> 'z file_hash_scheme \<Rightarrow> device \<Rightarrow> bool \<times> 'z file_hash_scheme" where
  "Calculate_plain H fh f =
     (if m_eHashType fh \<in> {HashMD5, HashSHA1, HashSHA2} then
        (case read_all f 0 of
           None \<Rightarrow> (False, fh)
         | Some d \<Rightarrow> (True, SetHash_ptr fh (Some (H (GetAlgorithm (m_eHashType fh)) d))))
      else (False, fh))"

section \<open>CFileHashEx\<close>

record file_hash_ex = file_hash +
  m_TotalSize :: uint64
  m_StatusMap :: "bool list"
  m_CorruptionSet :: "(uint64 \<times> uint64) list"

definition part_blocks :: "uint64 \<Rightarrow> uint64 \<Rightarrow> uint16" where
  "part_blocks bs ps = ucast (DivUp ps bs)"

definition GetStatusCount :: "uint64 \<Rightarrow> uint64 \<Rightarrow> uint64 \<Rightarrow> uint32" where
  "GetStatusCount bs ps uTotalSize =
     ucast (if ps \<noteq> 0 \<and> bs \<noteq> 0
            then (uTotalSize div ps) * ucast (part_blocks bs ps) + DivUp (uTotalSize mod ps) bs
            else DivUp uTotalSize (if ps \<noteq> 0 then ps else bs))"

definition IndexRange :: "uint64 \<Rightarrow> uint64 \<Rightarrow> uint64 \<Rightarrow> uint64 \<Rightarrow> uint64 \<Rightarrow> bool \<Rightarrow> uint32 \<times> uint32" where
  "IndexRange bs ps uTotalSize b e bEnvelope =
     (let bc = (if bs \<noteq> 0 \<and> ps \<noteq> 0 then part_blocks bs ps else 0);
          ps = (if \<not> (bs \<noteq> 0 \<and> ps \<noteq> 0) \<and> ps = 0 then bs else ps);
          (i, j) =
            (if bc \<noteq> 0 then
               (if bEnvelope then ucast ((b div ps) * ucast bc + (b mod ps) div bs)
                else ucast ((b div ps) * ucast bc + DivUp (b mod ps) bs),
                if bEnvelope \<or> e \<ge> uTotalSize then ucast ((e div ps) * ucast bc + DivUp (e mod ps) bs)
                else ucast ((e div ps) * ucast bc + (e mod ps) div bs))
             else
               (if bEnvelope then ucast (b div ps) else ucast (DivUp b ps),
                if bEnvelope \<or> e \<ge> uTotalSize then ucast (DivUp e ps) else ucast (e div ps)))
      in if i \<ge> j then (j, j) else (i, j))"

definition IndexOffset :: "uint64 \<Rightarrow> uint64 \<Rightarrow> uint64 \<Rightarrow> uint32 \<Rightarrow> uint64" where
  "IndexOffset bs ps uTotalSize Index =
     (let bc = (if bs \<noteq> 0 \<and> ps \<noteq> 0 then part_blocks bs ps else 0);
          ps = (if \<not> (bs \<noteq> 0 \<and> ps \<noteq> 0) \<and> ps = 0 then bs else ps);
          Offset = (if bc \<noteq> 0
                    then ucast (Index div ucast bc) * ps + ucast (Index mod ucast bc) * bs
                    else ps * ucast Index)
      in if Offset > uTotalSize then uTotalSize else Offset)"

text \<open>Bits of a \<open>QBitArray\<close>; an index outside it is \<open>None\<close>.\<close>

definition set_bits :: "uint32 \<times> uint32 \<Rightarrow> bool \<Rightarrow> bool list \<Rightarrow> bool list option" where
  "set_bits r v bits =
     (let i = unat (fst r); j = unat (snd r)
      in if i < j \<and> length bits < j then None else Some (fold (\<lambda>k bits. bits[k := v]) [i..<j] bits))"

definition testBits :: "bool list \<Rightarrow> uint32 \<times> uint32 \<Rightarrow> bool option" where
  "testBits bits r =
     (let i = unat (fst r); j = unat (snd r)
      in if bits = [] then Some False
         else if i < j \<and> length bits < j then None
         else Some (list_all (\<lambda>k. bits ! k) [i..<j]))"

definition testRange :: "(uint64 \<times> uint64) list \<Rightarrow> uint64 \<times> uint64 \<Rightarrow> bool" where
  "testRange s v = list_ex (\<lambda>c. fst c < snd v \<and> snd c > fst v) s"

definition ResetStatus :: "'z file_hash_ex_scheme \<Rightarrow> bool \<Rightarrow> 'z file_hash_ex_scheme" where
  "ResetStatus fh bFull = (if bFull then fh\<lparr>m_StatusMap := []\<rparr> else fh)\<lparr>m_CorruptionSet := []\<rparr>"

definition SetStatus :: "'z file_hash_ex_scheme \<Rightarrow> bool list \<Rightarrow> (uint64 \<times> uint64) list \<Rightarrow> 'z file_hash_ex_scheme" where
  "SetStatus fh bits s = fh\<lparr>m_StatusMap := bits, m_CorruptionSet := s\<rparr>"

definition status_map :: "uint64 \<Rightarrow> uint64 \<Rightarrow> 'z file_hash_ex_scheme \<Rightarrow> bool list" where
  "status_map bs ps fh =
     (if m_StatusMap fh = [] then replicate (unat (GetStatusCount bs ps (m_TotalSize fh))) False
      else m_StatusMap fh)"

definition GetStatusMap :: "uint64 \<Rightarrow> uint64 \<Rightarrow> 'z file_hash_ex_scheme \<Rightarrow> bool list \<times> 'z file_hash_ex_scheme" where
  "GetStatusMap bs ps fh = (status_map bs ps fh, fh\<lparr>m_StatusMap := status_map bs ps fh\<rparr>)"

definition SetResult :: "uint64 \<Rightarrow> uint64 \<Rightarrow> 'z file_hash_ex_scheme \<Rightarrow> bool \<Rightarrow> uint64 \<Rightarrow> uint64 \<Rightarrow>
    'z file_hash_ex_scheme option" where
  "SetResult bs ps fh bResult b e =
     map_option
       (\<lambda>bits. fh\<lparr>m_StatusMap := bits,
          m_CorruptionSet := (if bResult then m_CorruptionSet fh else m_CorruptionSet fh @ [(b, e)])\<rparr>)
       (set_bits (IndexRange bs ps (m_TotalSize fh) b e True) bResult (status_map bs ps fh))"

definition ClearResult :: "uint64 \<Rightarrow> uint64 \<Rightarrow> 'z file_hash_ex_scheme \<Rightarrow> uint64 \<Rightarrow> uint64 \<Rightarrow>
    'z file_hash_ex_scheme option" where
  "ClearResult bs ps fh b e =
     map_option
       (\<lambda>bits. fh\<lparr>m_StatusMap := bits,
          m_CorruptionSet := filter (\<lambda>c. \<not> (fst c < e \<and> snd c > b)) (m_CorruptionSet fh)\<rparr>)
       (set_bits (IndexRange bs ps (m_TotalSize fh) b e True) False (status_map bs ps fh))"

definition GetResult :: "uint64 \<Rightarrow> uint64 \<Rightarrow> 'z file_hash_ex_scheme \<Rightarrow> uint64 \<Rightarrow> uint64 \<Rightarrow> bool option" where
  "GetResult bs ps fh b e = testBits (m_StatusMap fh) (IndexRange bs ps (m_TotalSize fh) b e True)"

section \<open>Blocks and their indices\<close>

text \<open>
  The index arithmetic over natural numbers: a file is a sequence of parts of \<open>ps\<close> bytes, each of
  \<open>ceil ps bs\<close> blocks of \<open>bs\<close> bytes (the last block of a part may be smaller). A file without parts
  has parts of one block. \<open>index_lo\<close> is the block an offset lies in, \<open>index_hi\<close> the first block that
  begins at or after it.
\<close>

definition ceil_div :: "nat \<Rightarrow> nat \<Rightarrow> nat" where
  "ceil_div a b = (a + b - 1) div b"

definition index_lo :: "nat \<Rightarrow> nat \<Rightarrow> nat \<Rightarrow> nat" where
  "index_lo ps bs x = (x div ps) * ceil_div ps bs + (x mod ps) div bs"

definition index_hi :: "nat \<Rightarrow> nat \<Rightarrow> nat \<Rightarrow> nat" where
  "index_hi ps bs x = (x div ps) * ceil_div ps bs + ceil_div (x mod ps) bs"

lemma ceil_div_mono: "a \<le> b \<Longrightarrow> ceil_div a n \<le> ceil_div b n"
  by (simp add: ceil_div_def div_le_mono)

lemma ceil_div_le_iff: "0 < n \<Longrightarrow> (ceil_div a n \<le> k) = (a \<le> k * n)"
proof -
  assume n: "0 < n"
  have "(ceil_div a n \<le> k) = (a + n - 1 < Suc k * n)"
    unfolding ceil_div_def less_Suc_eq_le [symmetric] using n by (simp add: div_less_iff_less_mult)
  also have "\<dots> = (a \<le> k * n)" using n by simp linarith
  finally show ?thesis .
qed
lemma div_less_ceil_div: "0 < n \<Longrightarrow> a < b \<Longrightarrow> a div n < ceil_div b n"
proof (rule ccontr)
  assume "0 < n" "a < b" "\<not> a div n < ceil_div b n"
  then have "b \<le> a div n * n" using ceil_div_le_iff [of n b "a div n"] by simp
  then have "b \<le> a" by (meson div_times_less_eq_dividend order_trans)
  with \<open>a < b\<close> show False by simp
qed

lemma index_lo_bound: "0 < ps \<Longrightarrow> 0 < bs \<Longrightarrow> index_lo ps bs x < (x div ps + 1) * ceil_div ps bs"
  using div_less_ceil_div [of bs "x mod ps" ps] by (simp add: index_lo_def)

lemma index_hi_bound: "0 < ps \<Longrightarrow> index_hi ps bs x \<le> (x div ps + 1) * ceil_div ps bs"
  using ceil_div_mono [of "x mod ps" ps bs] by (simp add: index_hi_def less_imp_le)

lemma index_lo_less_hi:
  assumes "0 < ps" and "0 < bs" and "x < y"
  shows "index_lo ps bs x < index_hi ps bs y"
proof (cases "x div ps = y div ps")
  case True
  have "x mod ps < y mod ps" using True assms(3)
    by (metis div_mult_mod_eq nat_add_left_cancel_less)
  then show ?thesis using True div_less_ceil_div [OF assms(2)] by (simp add: index_lo_def index_hi_def)
next
  case False
  then have "x div ps + 1 \<le> y div ps" using assms(3) div_le_mono [of x y ps] by simp
  then have "(x div ps + 1) * ceil_div ps bs \<le> (y div ps) * ceil_div ps bs" by (rule mult_le_mono1)
  also have "\<dots> \<le> index_hi ps bs y" by (simp add: index_hi_def)
  finally show ?thesis using index_lo_bound [OF assms(1,2), of x] by simp
qed

lemma index_lo_mono:
  assumes "0 < ps" and "0 < bs" and "x \<le> y"
  shows "index_lo ps bs x \<le> index_lo ps bs y"
proof (cases "x div ps = y div ps")
  case True
  have "x mod ps \<le> y mod ps" using True assms(3)
    by (metis div_mult_mod_eq nat_add_left_cancel_le)
  then show ?thesis using True by (simp add: index_lo_def div_le_mono)
next
  case False
  then have "x div ps + 1 \<le> y div ps" using assms(3) div_le_mono [of x y ps] by simp
  then have "(x div ps + 1) * ceil_div ps bs \<le> (y div ps) * ceil_div ps bs" by (rule mult_le_mono1)
  also have "\<dots> \<le> index_lo ps bs y" by (simp add: index_lo_def)
  finally show ?thesis using index_lo_bound [OF assms(1,2), of x] by simp
qed

lemma index_hi_mono:
  assumes "0 < ps" and "0 < bs" and "x \<le> y"
  shows "index_hi ps bs x \<le> index_hi ps bs y"
proof (cases "x div ps = y div ps")
  case True
  have "x mod ps \<le> y mod ps" using True assms(3)
    by (metis div_mult_mod_eq nat_add_left_cancel_le)
  then show ?thesis using True ceil_div_mono by (simp add: index_hi_def)
next
  case False
  then have "x div ps + 1 \<le> y div ps" using assms(3) div_le_mono [of x y ps] by simp
  then have "(x div ps + 1) * ceil_div ps bs \<le> (y div ps) * ceil_div ps bs" by (rule mult_le_mono1)
  also have "\<dots> \<le> index_hi ps bs y" by (simp add: index_hi_def)
  finally show ?thesis using index_hi_bound [OF assms(1), of bs x] by simp
qed

text \<open>The sizes the code works with: no wrap-around and no truncation of an index.\<close>

definition block_unit :: "uint64 \<Rightarrow> uint64 \<Rightarrow> nat \<times> nat" where
  "block_unit bs ps = (if bs \<noteq> 0 \<and> ps \<noteq> 0 then (unat ps, unat bs)
     else if ps \<noteq> 0 then (unat ps, unat ps) else (unat bs, unat bs))"

definition status_ok :: "uint64 \<Rightarrow> uint64 \<Rightarrow> uint64 \<Rightarrow> bool" where
  "status_ok bs ps T = (case block_unit bs ps of (p, b) \<Rightarrow>
     0 < p \<and> 0 < b \<and> unat T + p + b < 2 ^ 64 \<and> ceil_div p b < 2 ^ 16 \<and> index_hi p b (unat T) < 2 ^ 32)"

lemma DivUp_nat: "unat a + unat b < 2 ^ 64 \<Longrightarrow> 0 < b \<Longrightarrow> unat (DivUp a b) = ceil_div (unat a) (unat b)"
proof -
  assume a: "unat a + unat b < 2 ^ 64" "0 < b"
  have s: "unat (a + b) = unat a + unat b" using a(1) by (simp add: unat_word_ariths)
  have "1 \<le> a + b" using a(2) s by (simp add: word_le_nat_alt word_less_nat_alt)
  then have "unat (a + b - 1) = unat a + unat b - 1" using s by (simp add: unat_sub)
  then show ?thesis by (simp add: DivUp_def ceil_div_def unat_div)
qed

lemma ceil_div_one: "0 < n \<Longrightarrow> ceil_div n n = 1"
  using div_add_self1 [of n "n - 1"] by (simp add: ceil_div_def)

lemma index_one: "0 < n \<Longrightarrow> index_lo n n x = x div n" "0 < n \<Longrightarrow> index_hi n n x = ceil_div x n"
proof -
  assume n: "0 < n"
  show "index_lo n n x = x div n" using n by (simp add: index_lo_def ceil_div_one)
  have "ceil_div x n = (x mod n + n - 1 + x div n * n) div n"
    using n unfolding ceil_div_def by (metis (no_types, lifting) Nat.add_diff_assoc2 Suc_leI One_nat_def
        ab_semigroup_add_class.add_ac(1) add.commute div_mult_mod_eq trans_le_add2)
  also have "\<dots> = x div n + ceil_div (x mod n) n" using n unfolding ceil_div_def by (subst div_mult_self1) simp_all
  finally show "index_hi n n x = ceil_div x n" using n by (simp add: index_hi_def ceil_div_one)
qed

lemma block_unit_cases:
  assumes "status_ok bs ps T"
  obtains (both) p b where "block_unit bs ps = (p, b)" "bs \<noteq> 0" "ps \<noteq> 0" "p = unat ps" "b = unat bs"
  | (one) u where "block_unit bs ps = (unat u, unat u)" "\<not> (bs \<noteq> 0 \<and> ps \<noteq> 0)" "u \<noteq> 0"
      "u = (if ps \<noteq> 0 then ps else bs)"
  using assms by (auto simp: block_unit_def status_ok_def unat_gt_0 split: if_splits)

lemma ucast32: "n < 2 ^ 32 \<Longrightarrow> unat w = n \<Longrightarrow> unat (ucast (w :: uint64) :: uint32) = n"
  by (simp add: unsigned_ucast_eq take_bit_nat_eq_self)

lemma index_lo_le_hi: "0 < ps \<Longrightarrow> 0 < bs \<Longrightarrow> index_lo ps bs x \<le> index_hi ps bs x"
proof -
  assume "0 < ps" "0 < bs"
  have "x mod ps div bs \<le> ceil_div (x mod ps) bs"
    using \<open>0 < bs\<close> by (simp add: ceil_div_def div_le_mono)
  then show ?thesis by (simp add: index_lo_def index_hi_def)
qed

lemma unat_mult_add:
  assumes "unat q * unat c + unat r < 2 ^ 64"
  shows "unat (q * c + r :: uint64) = unat q * unat c + unat r"
proof -
  have "unat (q * c) = unat q * unat c" using assms by (simp add: unat_word_ariths)
  then show ?thesis using assms by (simp add: unat_word_ariths)
qed

lemma two_level_words:
  assumes "bs \<noteq> 0" "ps \<noteq> 0" and "unat T + unat ps + unat bs < 2 ^ 64"
    and "ceil_div (unat ps) (unat bs) < 2 ^ 16" and "index_hi (unat ps) (unat bs) (unat T) < 2 ^ 32" and "x \<le> T"
  shows "unat (part_blocks bs ps) = ceil_div (unat ps) (unat bs)"
    and "unat (ucast ((x div ps) * ucast (part_blocks bs ps) + (x mod ps) div bs) :: uint32)
      = index_lo (unat ps) (unat bs) (unat x)"
    and "unat (ucast ((x div ps) * ucast (part_blocks bs ps) + DivUp (x mod ps) bs) :: uint32)
      = index_hi (unat ps) (unat bs) (unat x)"
proof -
  let ?p = "unat ps" and ?b = "unat bs" and ?x = "unat x"
  have pos: "0 < ?p" "0 < ?b" using assms(1,2) by (simp_all add: unat_gt_0)
  show pb: "unat (part_blocks bs ps) = ceil_div ?p ?b"
    using DivUp_nat [of ps bs] assms(1,3,4) by (simp add: part_blocks_def unsigned_ucast_eq take_bit_nat_eq_self word_neq_0_conv)
  have "ceil_div ?p ?b < 2 ^ 64" using assms(4) by simp
  with pb have pb': "unat (ucast (part_blocks bs ps) :: uint64) = ceil_div ?p ?b"
    by (simp add: unsigned_ucast_eq take_bit_nat_eq_self)
  have xT: "?x \<le> unat T" using assms(6) by (simp add: word_le_nat_alt)
  have hi: "index_hi ?p ?b ?x < 2 ^ 32" using index_hi_mono [OF pos xT] assms(5) by simp
  have lo: "index_lo ?p ?b ?x < 2 ^ 32" using index_lo_le_hi [OF pos, of ?x] hi by simp
  have "unat (DivUp (x mod ps) bs) = ceil_div (?x mod ?p) ?b"
  proof -
    have "unat (x mod ps) = ?x mod ?p" by (simp add: unat_mod)
    moreover have "?x mod ?p < ?p" using pos by simp
    ultimately show ?thesis using DivUp_nat [of "x mod ps" bs] assms(1,3) by (simp add: word_neq_0_conv)
  qed
  then show "unat (ucast ((x div ps) * ucast (part_blocks bs ps) + DivUp (x mod ps) bs) :: uint32) = index_hi ?p ?b ?x"
    using hi by (intro ucast32) (simp_all add: unat_mult_add pb' unat_div index_hi_def)
  show "unat (ucast ((x div ps) * ucast (part_blocks bs ps) + (x mod ps) div bs) :: uint32) = index_lo ?p ?b ?x"
    using lo by (intro ucast32) (simp_all add: unat_mult_add pb' unat_div unat_mod index_lo_def)
qed

lemma IndexRange_index:
  assumes "status_ok bs ps T" and "b < e" and "e \<le> T" and "block_unit bs ps = (p, u)"
  shows "unat (fst (IndexRange bs ps T b e True)) = index_lo p u (unat b)"
    and "unat (snd (IndexRange bs ps T b e True)) = index_hi p u (unat e)"
    and "unat (GetStatusCount bs ps T) = index_hi p u (unat T)"
proof -
  have bT: "b \<le> T" using assms(2,3) by simp
  have pos: "0 < p" "0 < u" and sz: "unat T + p + u < 2 ^ 64" "ceil_div p u < 2 ^ 16" "index_hi p u (unat T) < 2 ^ 32"
    using assms(1,4) by (simp_all add: status_ok_def)
  have less: "index_lo p u (unat b) < index_hi p u (unat e)"
    using index_lo_less_hi [OF pos] assms(2) by (simp add: word_less_nat_alt)
  have "unat (fst (IndexRange bs ps T b e True)) = index_lo p u (unat b) \<and>
    unat (snd (IndexRange bs ps T b e True)) = index_hi p u (unat e) \<and>
    unat (GetStatusCount bs ps T) = index_hi p u (unat T)"
    using assms(1)
  proof (cases rule: block_unit_cases)
    case (both p' b')
    then have pu: "p = unat ps" "u = unat bs" using assms(4) by simp_all
    note w = two_level_words [OF both(2,3), of T, folded pu, OF sz]
    have "part_blocks bs ps \<noteq> 0"
      using w(1) [of T] div_less_ceil_div [OF pos(2) pos(1)] by auto
    moreover have "ucast ((b div ps) * ucast (part_blocks bs ps) + (b mod ps) div bs)
        < (ucast ((e div ps) * ucast (part_blocks bs ps) + DivUp (e mod ps) bs) :: uint32)"
      using less by (simp add: word_less_nat_alt w(2) [OF bT] w(3) [OF assms(3)])
    ultimately show ?thesis
      using both(2,3) w(2) [OF bT] w(3) [OF assms(3)] w(3) [of T]
      by (simp add: IndexRange_def GetStatusCount_def Let_def not_le [symmetric] not_less)
  next
    case (one v)
    then have pu: "p = unat v" "u = unat v" using assms(4) by simp_all
    have v: "0 < unat v" "0 < v" using one(3) by (simp_all add: unat_gt_0 word_neq_0_conv)
    have D: "unat (ucast (DivUp x v) :: uint32) = index_hi p u (unat x)" if "x \<le> T" for x
    proof (rule ucast32)
      have "unat x \<le> unat T" using that by (simp add: word_le_nat_alt)
      then show "index_hi p u (unat x) < 2 ^ 32" "unat (DivUp x v) = index_hi p u (unat x)"
        using index_hi_mono [OF pos, of "unat x" "unat T"] sz DivUp_nat [of x v] v
        by (simp_all add: pu index_one)
    qed
    have L: "unat (ucast (b div v) :: uint32) = index_lo p u (unat b)"
    proof (rule ucast32)
      show "index_lo p u (unat b) < 2 ^ 32"
        using less index_hi_mono [OF pos, of "unat e" "unat T"] sz(3) assms(3) by (simp add: word_le_nat_alt)
      show "unat (b div v) = index_lo p u (unat b)" using v by (simp add: pu index_one unat_div)
    qed
    have "ucast (b div v) < (ucast (DivUp e v) :: uint32)"
      using less by (simp add: word_less_nat_alt L D [OF assms(3)])
    then show ?thesis
      using one(2,3,4) L D [OF assms(3)] D [of T]
      by (simp add: IndexRange_def GetStatusCount_def Let_def not_le [symmetric] not_less split: if_splits)
  qed
  then show "unat (fst (IndexRange bs ps T b e True)) = index_lo p u (unat b)"
    "unat (snd (IndexRange bs ps T b e True)) = index_hi p u (unat e)"
    "unat (GetStatusCount bs ps T) = index_hi p u (unat T)" by blast+
qed


lemma fold_set: "fold (\<lambda>k bits. bits[k := v]) ks xs = map (\<lambda>n. if n \<in> set ks then v else xs ! n) [0..<length xs]"
proof (induction ks arbitrary: xs)
  case Nil
  then show ?case by (simp add: map_nth)
next
  case (Cons k ks)
  show ?case by (rule nth_equalityI) (auto simp: Cons.IH nth_list_update)
qed

lemma set_bits_Some:
  assumes "unat j \<le> length bits"
  shows "set_bits (i, j) v bits =
    Some (map (\<lambda>n. if unat i \<le> n \<and> n < unat j then v else bits ! n) [0..<length bits])"
  using assms by (simp add: set_bits_def fold_set)

definition bits_ok :: "uint64 \<Rightarrow> uint64 \<Rightarrow> 'z file_hash_ex_scheme \<Rightarrow> bool" where
  "bits_ok bs ps fh = (m_StatusMap fh = [] \<or>
     length (m_StatusMap fh) = unat (GetStatusCount bs ps (m_TotalSize fh)))"

lemma length_status_map: "bits_ok bs ps fh \<Longrightarrow> length (status_map bs ps fh) = unat (GetStatusCount bs ps (m_TotalSize fh))"
  by (auto simp: bits_ok_def status_map_def)

lemma IndexRange_in_map:
  assumes "status_ok bs ps T" and "b < e" and "e \<le> T"
  shows "unat (snd (IndexRange bs ps T b e True)) \<le> unat (GetStatusCount bs ps T)"
proof -
  obtain p u where pu: "block_unit bs ps = (p, u)" by (cases "block_unit bs ps")
  then have "0 < p" "0 < u" using assms(1) by (simp_all add: status_ok_def)
  then show ?thesis using IndexRange_index [OF assms pu] index_hi_mono assms(3) by (simp add: word_le_nat_alt)
qed

lemma SetResult_status:
  assumes "status_ok bs ps (m_TotalSize fh)" and "bits_ok bs ps fh" and "b < e" and "e \<le> m_TotalSize fh"
  shows "SetResult bs ps fh v b e = Some (fh\<lparr>
      m_StatusMap := map (\<lambda>n. if unat (fst (IndexRange bs ps (m_TotalSize fh) b e True)) \<le> n \<and>
          n < unat (snd (IndexRange bs ps (m_TotalSize fh) b e True)) then v else status_map bs ps fh ! n)
        [0..<unat (GetStatusCount bs ps (m_TotalSize fh))],
      m_CorruptionSet := (if v then m_CorruptionSet fh else m_CorruptionSet fh @ [(b, e)])\<rparr>)"
  unfolding SetResult_def using IndexRange_in_map [OF assms(1,3,4)] length_status_map [OF assms(2)]
  by (cases "IndexRange bs ps (m_TotalSize fh) b e True") (simp add: set_bits_Some)

lemma ClearResult_status:
  assumes "status_ok bs ps (m_TotalSize fh)" and "bits_ok bs ps fh" and "b < e" and "e \<le> m_TotalSize fh"
  shows "ClearResult bs ps fh b e = Some (fh\<lparr>
      m_StatusMap := map (\<lambda>n. if unat (fst (IndexRange bs ps (m_TotalSize fh) b e True)) \<le> n \<and>
          n < unat (snd (IndexRange bs ps (m_TotalSize fh) b e True)) then False else status_map bs ps fh ! n)
        [0..<unat (GetStatusCount bs ps (m_TotalSize fh))],
      m_CorruptionSet := filter (\<lambda>c. \<not> (fst c < e \<and> snd c > b)) (m_CorruptionSet fh)\<rparr>)"
  unfolding ClearResult_def using IndexRange_in_map [OF assms(1,3,4)] length_status_map [OF assms(2)]
  by (cases "IndexRange bs ps (m_TotalSize fh) b e True") (simp add: set_bits_Some)

lemma GetResult_status:
  assumes "status_ok bs ps (m_TotalSize fh)" and "bits_ok bs ps fh" and "b < e" and "e \<le> m_TotalSize fh"
  shows "GetResult bs ps fh b e = Some (m_StatusMap fh \<noteq> [] \<and>
    (\<forall>n. unat (fst (IndexRange bs ps (m_TotalSize fh) b e True)) \<le> n \<and>
      n < unat (snd (IndexRange bs ps (m_TotalSize fh) b e True)) \<longrightarrow> m_StatusMap fh ! n))"
  using assms(2) IndexRange_in_map [OF assms(1,3,4)]
  by (auto simp: GetResult_def testBits_def Let_def bits_ok_def list_all_iff)

lemma IndexRange_nonempty:
  assumes "status_ok bs ps T" and "b < e" and "e \<le> T"
  shows "unat (fst (IndexRange bs ps T b e True)) < unat (snd (IndexRange bs ps T b e True))"
proof -
  obtain p u where pu: "block_unit bs ps = (p, u)" by (cases "block_unit bs ps")
  then have "0 < p" "0 < u" using assms(1) by (simp_all add: status_ok_def)
  then show ?thesis using IndexRange_index [OF assms pu] index_lo_less_hi assms(2) by (simp add: word_less_nat_alt)
qed

lemma IndexRange_mono:
  assumes "status_ok bs ps T" and "b < e" and "e \<le> T" and "b \<le> b'" and "b' < e'" and "e' \<le> e"
  shows "unat (fst (IndexRange bs ps T b e True)) \<le> unat (fst (IndexRange bs ps T b' e' True))"
    and "unat (snd (IndexRange bs ps T b' e' True)) \<le> unat (snd (IndexRange bs ps T b e True))"
proof -
  obtain p u where pu: "block_unit bs ps = (p, u)" by (cases "block_unit bs ps")
  then have p: "0 < p" "0 < u" using assms(1) by (simp_all add: status_ok_def)
  have T: "e' \<le> T" using assms(3,6) by simp
  show "unat (fst (IndexRange bs ps T b e True)) \<le> unat (fst (IndexRange bs ps T b' e' True))"
    using IndexRange_index(1) [OF assms(1,2,3) pu] IndexRange_index(1) [OF assms(1,5) T pu]
      index_lo_mono [OF p] assms(4) by (simp add: word_le_nat_alt)
  show "unat (snd (IndexRange bs ps T b' e' True)) \<le> unat (snd (IndexRange bs ps T b e True))"
    using IndexRange_index(2) [OF assms(1,2,3) pu] IndexRange_index(2) [OF assms(1,5) T pu]
      index_hi_mono [OF p] assms(6) by (simp add: word_le_nat_alt)
qed



section \<open>Base 32\<close>

lemma base32_roundtrip_char: "n < 32 \<Longrightarrow> base32_value (base32Chars ! n) = Some (of_nat n)"
proof -
  assume "n < 32"
  then have "n \<in> set [0..<32]" by simp
  moreover have "\<forall>n \<in> set [0..<32]. base32_value (base32Chars ! n) = Some (of_nat n)"
    by (simp add: base32_value_def base32Chars_def upt_rec)
  ultimately show ?thesis by blast
qed

text \<open>The five bit words a byte sequence is cut into: within one byte, and across two.\<close>

definition in_byte :: "nat \<Rightarrow> uint8 \<Rightarrow> uint8" where
  "in_byte k a = drop_bit k a AND 0x1F"

definition cross_byte :: "nat \<Rightarrow> uint8 \<Rightarrow> uint8 \<Rightarrow> uint8" where
  "cross_byte k a b = push_bit k (take_bit (5 - k) a) OR drop_bit (8 - k) b"

definition char32 :: "uint8 \<Rightarrow> char" where
  "char32 w = base32Chars ! unat w"

lemma mask5: "(0x1F :: uint8) = Bit_Operations.mask 5"
  by (simp add: mask_eq_exp_minus_1)

lemma less_32: "take_bit 5 (w :: uint8) = w \<Longrightarrow> unat w < 32"
proof -
  assume "take_bit 5 w = w"
  then have "unat w = take_bit 5 (unat w)" by (metis unsigned_take_bit_eq)
  also have "\<dots> < 2 ^ 5" by (rule take_bit_nat_less_exp)
  finally show ?thesis by simp
qed
lemma bits8: "n < 8 \<Longrightarrow> n = 0 \<or> n = 1 \<or> n = 2 \<or> n = 3 \<or> n = 4 \<or> n = 5 \<or> n = 6 \<or> n = (7 :: nat)"
  by arith

lemma in_byte_less: "unat (in_byte k a) < 32"
  by (rule less_32) (simp add: in_byte_def mask5 and.assoc flip: take_bit_eq_mask)

lemma cross_byte_less: "k \<le> 4 \<Longrightarrow> unat (cross_byte k a b) < 32"
  by (rule less_32, rule bit_word_eqI) (auto simp: cross_byte_def bit_simps dest: bit_imp_le_length)

lemma mask_index: "index \<in> {4, 5, 6, 7} \<Longrightarrow> (a :: uint8) AND drop_bit index 0xFF = take_bit (8 - index) a"
  by (auto simp: take_bit_eq_mask mask_eq_exp_minus_1)
lemma encode32_step_in:
  assumes "i < length h" and "index \<le> 3"
  shows "encode32 h i index = char32 (in_byte (3 - index) (h ! i)) #
    encode32 h (if index = 3 then i + 1 else i) ((index + 5) mod 8)"
proof -
  have "index = 0 \<or> index = 1 \<or> index = 2 \<or> index = 3" using assms(2) by linarith
  then show ?thesis using assms(1)
    by (subst encode32.simps) (auto simp: char32_def in_byte_def Let_def)
qed

lemma encode32_step_cross:
  assumes "i < length h" and "3 < index" and "index < 8"
  shows "encode32 h i index = char32 (cross_byte (index - 3) (h ! i) (if i + 1 < length h then h ! (i + 1) else 0)) #
    encode32 h (i + 1) (index - 3)"
proof -
  have "index = 4 \<or> index = 5 \<or> index = 6 \<or> index = 7" using assms(2,3) by linarith
  then show ?thesis using assms(1)
    by (subst encode32.simps) (auto simp: char32_def cross_byte_def Let_def mask_index)
qed

lemma encode32_end: "length h \<le> i \<Longrightarrow> encode32 h i index = []"
  by (subst encode32.simps) simp

lemma decode32_char:
  assumes "unat w < 32"
  shows "decode32 (char32 w # cs) n c =
    (if 3 \<le> c then ucast (drop_bit (c - 3) (n OR ucast w)) # decode32 cs (push_bit 5 (n OR ucast w)) (c - 3)
     else decode32 cs (push_bit 5 (n OR ucast w)) (c + 5))"
proof -
  have "(of_nat (unat w) :: uint32) = ucast w" by simp
  then show ?thesis using base32_roundtrip_char [OF assms] by (simp add: char32_def Let_def)
qed

lemma in_byte_bits: "in_byte k a = take_bit 5 (drop_bit k a)"
  by (simp only: in_byte_def mask5 take_bit_eq_mask)

lemma encode32_group:
  assumes "i + 4 < length h"
  shows "encode32 h i 0 = map char32 [in_byte 3 (h ! i), cross_byte 2 (h ! i) (h ! (i + 1)),
      in_byte 1 (h ! (i + 1)), cross_byte 4 (h ! (i + 1)) (h ! (i + 2)),
      cross_byte 1 (h ! (i + 2)) (h ! (i + 3)), in_byte 2 (h ! (i + 3)),
      cross_byte 3 (h ! (i + 3)) (h ! (i + 4)), in_byte 0 (h ! (i + 4))] @ encode32 h (i + 5) 0"
  using assms by (simp add: encode32_step_in encode32_step_cross, simp add: numeral_eq_Suc)

lemma decode32_group:
  assumes J: "\<And>k. k < 5 \<Longrightarrow> \<not> bit (J :: uint32) k"
  shows "\<exists>J'. (\<forall>k < 5. \<not> bit J' k) \<and>
    decode32 (map char32 [in_byte 3 a, cross_byte 2 a b, in_byte 1 b, cross_byte 4 b c, cross_byte 1 c d,
      in_byte 2 d, cross_byte 3 d e, in_byte 0 e] @ cs) J 0 = a # b # c # d # e # decode32 cs J' 0"
proof -
  let ?n1 = "push_bit 5 (J OR ucast (in_byte 3 a)) :: uint32"
  let ?n2 = "push_bit 5 (?n1 OR ucast (cross_byte 2 a b))"
  let ?n3 = "push_bit 5 (?n2 OR ucast (in_byte 1 b))"
  let ?n4 = "push_bit 5 (?n3 OR ucast (cross_byte 4 b c))"
  let ?n5 = "push_bit 5 (?n4 OR ucast (cross_byte 1 c d))"
  let ?n6 = "push_bit 5 (?n5 OR ucast (in_byte 2 d))"
  let ?n7 = "push_bit 5 (?n6 OR ucast (cross_byte 3 d e))"
  let ?n8 = "push_bit 5 (?n7 OR ucast (in_byte 0 e))"
  have a: "ucast (drop_bit 2 (?n1 OR ucast (cross_byte 2 a b))) = a"
    by (rule bit_word_eqI) (auto simp: bit_simps in_byte_bits cross_byte_def J dest: bit_imp_le_length)
  have b: "ucast (drop_bit 4 (?n3 OR ucast (cross_byte 4 b c))) = b"
  proof (rule bit_word_eqI)
    fix n assume "n < LENGTH(8)"
    then show "bit (ucast (drop_bit 4 (?n3 OR ucast (cross_byte 4 b c))) :: uint8) n = bit b n"
      by (cases "6 \<le> n") (auto simp: bit_simps in_byte_bits cross_byte_def bit_0 dest: bit_imp_le_length)  qed
  have c: "ucast (drop_bit 1 (?n4 OR ucast (cross_byte 1 c d))) = c"
  proof (rule bit_word_eqI)
    fix n assume "n < LENGTH(8)"
    then show "bit (ucast (drop_bit 1 (?n4 OR ucast (cross_byte 1 c d))) :: uint8) n = bit c n"
      by (cases "4 \<le> n") (auto simp: bit_simps in_byte_bits cross_byte_def dest: bit_imp_le_length
          simp del: push_bit_Suc One_nat_def)
  qed
  have d: "ucast (drop_bit 3 (?n6 OR ucast (cross_byte 3 d e))) = d"
  proof (rule bit_word_eqI)
    fix n assume n: "n < LENGTH(8)"
    show "bit (ucast (drop_bit 3 (?n6 OR ucast (cross_byte 3 d e))) :: uint8) n = bit d n"
    proof (cases "n = 7")
      case True
      then show ?thesis
        by (auto simp: bit_simps in_byte_bits cross_byte_def dest: bit_imp_le_length simp del: push_bit_Suc One_nat_def bit_0)
    next
      case False
      with n show ?thesis
        by (cases "2 \<le> n") (auto simp: bit_simps in_byte_bits cross_byte_def Suc_diff_le dest: bit_imp_le_length
          simp del: push_bit_Suc One_nat_def simp flip: numeral_2_eq_2 add_2_eq_Suc)
    qed
  qed
  have e: "ucast (?n7 OR ucast (in_byte 0 e)) = e"
    by (rule bit_word_eqI) (auto simp: bit_simps in_byte_bits cross_byte_def dest: bit_imp_le_length)
  show ?thesis
    by (rule exI [of _ ?n8])
      (simp add: decode32_char in_byte_less cross_byte_less a b d e
        del: decode32.simps(2) push_bit_or drop_bit_or push_bit_push_bit One_nat_def,
        insert c, simp add: bit_simps)
qed

lemma decode_encode_group:
  assumes "i + 4 < length h" and "\<forall>k < 5. \<not> bit (J :: uint32) k"
  shows "\<exists>J'. (\<forall>k < 5. \<not> bit J' k) \<and>
    decode32 (encode32 h i 0) J 0 = take 5 (drop i h) @ decode32 (encode32 h (i + 5) 0) J' 0"
proof -
  have "take 5 (drop i h) = [h ! i, h ! (i + 1), h ! (i + 2), h ! (i + 3), h ! (i + 4)]"
    using assms(1) by (simp add: list_eq_iff_nth_eq less_Suc_eq numeral_eq_Suc) 
  then show ?thesis
    unfolding encode32_group [OF assms(1)]
    using decode32_group [of J "h ! i" "h ! (i + 1)" "h ! (i + 2)" "h ! (i + 3)" "h ! (i + 4)" "encode32 h (i + 5) 0"] assms(2)
    by simp
qed

lemma decode32_prefix:
  assumes "\<And>x. x \<in> set xs \<Longrightarrow> base32_value x \<noteq> None" and "n < 8"
  shows "decode32 xs J n = take ((n + 5 * length xs) div 8) (decode32 (xs @ ys) J n)"
  using assms
proof (induction xs arbitrary: J n)
  case (Cons x xs)
  obtain v where v: "base32_value x = Some v" using Cons.prems(1) by fastforce
  have IH: "decode32 xs K m = take ((m + 5 * length xs) div 8) (decode32 (xs @ ys) K m)" if "m < 8" for K m
    using Cons.IH [OF _ that] Cons.prems(1) by simp
  show ?case
  proof (cases "3 \<le> n")
    case True
    then have "(n + 5 * length (x # xs)) div 8 = Suc ((n - 3 + 5 * length xs) div 8)" by simp
    then show ?thesis using True v IH [of "n - 3"] Cons.prems(2) by (simp add: Let_def)
  next
    case False
    then have "(n + 5 * length (x # xs)) div 8 = (n + 5 + 5 * length xs) div 8" by simp
    then show ?thesis using False v IH [of "n + 5"] by (simp add: Let_def)
  qed
qed simp

lemma word5_value:
  "base32_value (char32 (in_byte k a)) = Some (ucast (in_byte k a))"
  "k \<le> 4 \<Longrightarrow> base32_value (char32 (cross_byte k a b)) = Some (ucast (cross_byte k a b))"
  using base32_roundtrip_char [OF in_byte_less] base32_roundtrip_char [OF cross_byte_less]
  by (simp_all add: char32_def)

lemma decode_encode_tail:
  assumes "length h \<le> i + 4" and "\<forall>k < 5. \<not> bit (J :: uint32) k"
  shows "decode32 (encode32 h i 0) J 0 = drop i h"
proof -
  let ?G = "\<lambda>a b c d. map char32 [in_byte 3 a, cross_byte 2 a b, in_byte 1 b, cross_byte 4 b c,
    cross_byte 1 c d, in_byte 2 d, cross_byte 3 d 0, in_byte 0 0]"
  have G: "decode32 (take k (?G a b c d)) J 0 = take (5 * k div 8) [a, b, c, d, 0]" if "k \<le> 8" for k a b c d
  proof -
    obtain J' where J': "decode32 (?G a b c d @ []) J 0 = a # b # c # d # 0 # decode32 [] J' 0"
      using decode32_group [of J a b c d 0 "[]"] assms(2) by blast
    have "\<forall>x \<in> set (?G a b c d). base32_value x \<noteq> None"
      by (simp add: word5_value del: One_nat_def)
    then have "base32_value x \<noteq> None" if "x \<in> set (take k (?G a b c d))" for x
      using in_set_takeD [OF that] by (rule bspec)
    then have "decode32 (take k (?G a b c d)) J 0 = take ((0 + 5 * length (take k (?G a b c d))) div 8)
        (decode32 (take k (?G a b c d) @ drop k (?G a b c d)) J 0)"
      by (rule decode32_prefix) simp_all
    then show ?thesis using J' that by (simp only: append_Nil2 append_take_drop_id decode32.simps(1)) simp
  qed
  note steps = encode32_step_in encode32_step_cross encode32_end
  have "length h \<le> i \<or> length h = i + 1 \<or> length h = i + 2 \<or> length h = i + 3 \<or> length h = i + 4"
    using assms(1) by arith
  then show ?thesis
  proof (elim disjE)
    assume "length h \<le> i"
    then show ?thesis by (simp add: encode32_end)
  next
    assume n: "length h = i + 1"
    have "encode32 h i 0 = take 2 (?G (h ! i) 0 0 0)"
      using n by (simp add: steps, (simp add: numeral_eq_Suc)?)
    moreover have "drop i h = [h ! i]"
      using n by (simp add: list_eq_iff_nth_eq less_Suc_eq numeral_eq_Suc)
    ultimately show ?thesis using G [of 2] by (simp only:) simp
  next
    assume n: "length h = i + 2"
    have "encode32 h i 0 = take 4 (?G (h ! i) (h ! (i + 1)) 0 0)"
      using n by (simp add: steps, (simp add: numeral_eq_Suc)?)
    moreover have "drop i h = [h ! i, h ! (i + 1)]"
      using n by (simp add: list_eq_iff_nth_eq less_Suc_eq numeral_eq_Suc)
    ultimately show ?thesis using G [of 4] by (simp only:) simp
  next
    assume n: "length h = i + 3"
    have "encode32 h i 0 = take 5 (?G (h ! i) (h ! (i + 1)) (h ! (i + 2)) 0)"
      using n by (simp add: steps, (simp add: numeral_eq_Suc)?)
    moreover have "drop i h = [h ! i, h ! (i + 1), h ! (i + 2)]"
      using n by (simp add: list_eq_iff_nth_eq less_Suc_eq numeral_eq_Suc)
    ultimately show ?thesis using G [of 5] by (simp only:) simp
  next
    assume n: "length h = i + 4"
    have "encode32 h i 0 = take 7 (?G (h ! i) (h ! (i + 1)) (h ! (i + 2)) (h ! (i + 3)))"
      using n by (simp add: steps, (simp add: numeral_eq_Suc)?)
    moreover have "drop i h = [h ! i, h ! (i + 1), h ! (i + 2), h ! (i + 3)]"
      using n by (simp add: list_eq_iff_nth_eq less_Suc_eq numeral_eq_Suc)
    ultimately show ?thesis using G [of 7] by (simp only:) simp
  qed
qed

lemma decode_encode32_from:
  assumes "\<forall>k < 5. \<not> bit (J :: uint32) k"
  shows "decode32 (encode32 h i 0) J 0 = drop i h"
  using assms
proof (induction "length h - i" arbitrary: i J rule: less_induct)
  case less
  show ?case
  proof (cases "i + 4 < length h")
    case True
    obtain J' where J': "\<forall>k < 5. \<not> bit J' k"
        "decode32 (encode32 h i 0) J 0 = take 5 (drop i h) @ decode32 (encode32 h (i + 5) 0) J' 0"
      using decode_encode_group [OF True less.prems] by blast
    have "decode32 (encode32 h (i + 5) 0) J' 0 = drop (i + 5) h"
      using less.hyps [of "i + 5" J'] J'(1) True by simp
    then show ?thesis using J'(2) append_take_drop_id [of 5 "drop i h"] by (simp add: add.commute)
  next
    case False
    then show ?thesis using decode_encode_tail less.prems by simp
  qed
qed

lemma length_encode32_from: "i \<le> length h \<Longrightarrow> length (encode32 h i 0) = (8 * (length h - i) + 4) div 5"
proof (induction "length h - i" arbitrary: i rule: less_induct)
  case less
  show ?case
  proof (cases "i + 4 < length h")
    case True
    then have "length (encode32 h (i + 5) 0) = (8 * (length h - (i + 5)) + 4) div 5" using less by simp
    moreover have "8 * (length h - i) + 4 = 8 * (length h - (i + 5)) + 4 + 8 * 5" using True by simp
    ultimately show ?thesis unfolding encode32_group [OF True] by (simp del: mult_Suc_right)
  next
    case False
    then have "length h = i \<or> length h = i + 1 \<or> length h = i + 2 \<or> length h = i + 3 \<or> length h = i + 4"
      using less.prems by arith
    then show ?thesis
      by (elim disjE) (simp_all add: encode32_step_in encode32_step_cross encode32_end)
  qed
qed


section \<open>Text form\<close>

text \<open>What the code relies on in Qt's conversions, at one hash.\<close>

definition codec_ok :: "codec \<Rightarrow> bytes \<Rightarrow> bool" where
  "codec_ok q h =
     (fromHex q (toHex q h) = h \<and> length (toHex q h) = 2 * length h \<and>
      fromBase64 q (filter (\<lambda>c. c \<noteq> CHR ''='') (toBase64 q h)) = h \<and>
      length (filter (\<lambda>c. c \<noteq> CHR ''='') (toBase64 q h)) = (4 * length h + 2) div 3 \<and>
      CHR ''-'' \<notin> set (toBase64 q h) \<and> CHR ''_'' \<notin> set (toBase64 q h))"

lemma url_chars_inverse:
  assumes "CHR ''-'' \<notin> set s" and "CHR ''_'' \<notin> set s"
  shows "map (\<lambda>c. if c = CHR ''-'' then CHR ''+'' else if c = CHR ''_'' then CHR ''/'' else c)
      (filter (\<lambda>c. c \<noteq> CHR ''='')
        (map (\<lambda>c. if c = CHR ''+'' then CHR ''-'' else if c = CHR ''/'' then CHR ''_'' else c) s)) =
    filter (\<lambda>c. c \<noteq> CHR ''='') s"
  using assms by (induction s) auto

lemma length_url_chars:
  "length (filter (\<lambda>c. c \<noteq> CHR ''='')
      (map (\<lambda>c. if c = CHR ''+'' then CHR ''-'' else if c = CHR ''/'' then CHR ''_'' else c) s)) =
    length (filter (\<lambda>c. c \<noteq> CHR ''='') s)"
  by (induction s) auto

lemma HashTypeSize_cases: "HashTypeSize t \<in> {8, 16, 20, 24, 32}"
  by (cases t) (simp_all add: HashTypeSize_def)

lemma decode_encode32: "decode32 (encode32 h 0 0) 0 0 = h"
  using decode_encode32_from [of 0 h 0] by simp

lemma length_encode32: "length (encode32 h 0 0) = (8 * length h + 4) div 5"
  using length_encode32_from [of 0 h] by simp

lemma length_tells_base:
  assumes "n \<in> {8, 16, 20, 24, 32 :: nat}"
  shows "(8 * n + 4) div 5 div 2 \<noteq> n" "(8 * n + 4) div 5 * 5 div 8 = n" "(8 * n + 4) div 5 \<noteq> 0"
    "(4 * n + 2) div 3 div 2 \<noteq> n" "(4 * n + 2) div 3 * 5 div 8 \<noteq> n" "(4 * n + 2) div 3 * 3 div 4 = n"
    "(4 * n + 2) div 3 \<noteq> 0" "n \<noteq> 0"
  using assms by auto

lemma DecodeHash_base:
  assumes "HashTypeSize t = n"
  shows "length s = 2 * n \<Longrightarrow> length (fromHex q s) = n \<Longrightarrow> DecodeHash q t s = fromHex q s"
    and "length s = (8 * n + 4) div 5 \<Longrightarrow> length (decode32 s 0 0) = n \<Longrightarrow> DecodeHash q t s = decode32 s 0 0"
    and "length s = (4 * n + 2) div 3 \<Longrightarrow>
      s' = map (\<lambda>c. if c = CHR ''-'' then CHR ''+'' else if c = CHR ''_'' then CHR ''/'' else c) s \<Longrightarrow>
      length (fromBase64 q s') = n \<Longrightarrow> DecodeHash q t s = fromBase64 q s'"
proof -
  have n: "n \<in> {8, 16, 20, 24, 32}" using HashTypeSize_cases [of t] assms by simp
  note ne = length_tells_base [OF n]
  show "length s = 2 * n \<Longrightarrow> length (fromHex q s) = n \<Longrightarrow> DecodeHash q t s = fromHex q s"
    using ne(8) by (simp add: DecodeHash_def assms)
  show "length s = (8 * n + 4) div 5 \<Longrightarrow> length (decode32 s 0 0) = n \<Longrightarrow> DecodeHash q t s = decode32 s 0 0"
    by (simp only: DecodeHash_def assms Let_def ne if_True if_False simp_thms) (use ne(3) in simp)
  show "length s = (4 * n + 2) div 3 \<Longrightarrow>
      s' = map (\<lambda>c. if c = CHR ''-'' then CHR ''+'' else if c = CHR ''_'' then CHR ''/'' else c) s \<Longrightarrow>
      length (fromBase64 q s') = n \<Longrightarrow> DecodeHash q t s = fromBase64 q s'"
    by (simp only: DecodeHash_def assms Let_def ne if_True if_False simp_thms) (use ne(7) in simp)
qed

text \<open>
  C11. Decoding the text form of a hash gives the hash back, for every hash type and each of the bases 16,
  32 and 64 (as chosen or as the type's default): the length of the text alone tells the base.
\<close>

theorem EncodeHash_DecodeHash:
  assumes "length h = HashTypeSize t" and "(if b = 0 then GetBase t else b) \<in> {16, 32, 64}" and "codec_ok q h"
  shows "DecodeHash q t (EncodeHash q t h b) = h"
proof -
  consider "(if b = 0 then GetBase t else b) = 16" | "(if b = 0 then GetBase t else b) = 32"
    | "(if b = 0 then GetBase t else b) = 64" using assms(2) by auto
  then show ?thesis
  proof cases
    case 1
    then have "EncodeHash q t h b = toHex q h" by (simp add: EncodeHash_def Let_def)
    then show ?thesis using DecodeHash_base(1) [OF refl] assms(1,3) by (simp add: codec_ok_def)
  next
    case 2
    then have "EncodeHash q t h b = encode32 h 0 0" by (simp add: EncodeHash_def Let_def)
    then show ?thesis using DecodeHash_base(2) [OF refl, of "encode32 h 0 0" t q] assms(1)
      by (simp add: length_encode32 decode_encode32)
  next
    case 3
    let ?s = "filter (\<lambda>c. c \<noteq> CHR ''='')
        (map (\<lambda>c. if c = CHR ''+'' then CHR ''-'' else if c = CHR ''/'' then CHR ''_'' else c) (toBase64 q h))"
    have enc: "EncodeHash q t h b = ?s" using 3 by (simp add: EncodeHash_def Let_def)
    have q: "length ?s = (4 * HashTypeSize t + 2) div 3" using assms(1,3) by (simp only: length_url_chars codec_ok_def)
    have f: "fromBase64 q (filter (\<lambda>c. c \<noteq> CHR ''='') (toBase64 q h)) = h" using assms(3) by (simp only: codec_ok_def)
    have "filter (\<lambda>c. c \<noteq> CHR ''='') (toBase64 q h) =
        map (\<lambda>c. if c = CHR ''-'' then CHR ''+'' else if c = CHR ''_'' then CHR ''/'' else c) ?s"
      by (intro url_chars_inverse [symmetric]) (use assms(3) in \<open>simp_all add: codec_ok_def\<close>)
    from DecodeHash_base(3) [OF refl q this, of q] show ?thesis unfolding enc using f assms(1) by simp
  qed
qed

theorem EncodeHash_DecodeHash_witness:
  "let q = \<lparr>toHex = \<lambda>h. replicate 40 CHR ''0'', fromHex = \<lambda>s. replicate 20 0,
      toBase64 = \<lambda>h. replicate 27 CHR ''A'' @ ''='', fromBase64 = \<lambda>s. replicate 20 0\<rparr>
   in DecodeHash q HashSHA1 (EncodeHash q HashSHA1 (replicate 20 0) 64) = replicate 20 0"
  unfolding Let_def
  by (rule EncodeHash_DecodeHash) (simp_all add: HashTypeSize_def codec_ok_def)

end
