(* ===== verification/Buffer.thy ===== *)
theory Buffer
  imports Prelude
begin

text \<open>
  The byte buffer \<open>CBuffer\<close> (Framework/Buffer.cpp, Framework/Buffer.h). The memory behind
  \<open>m_pBuffer\<close> is a list of bytes, \<open>None\<close> for the null pointer; sizes, offsets and positions are
  64 bit words, so \<open>uOffset + uLength\<close> wraps as in the code. What \<open>malloc\<close> and \<open>realloc\<close> leave in
  fresh memory is the parameter \<open>junk\<close>, an arbitrary function. An operation returns (\<open>Ret\<close>) a
  result and the new buffer, throws the read error (\<open>Throw\<close>), or touches memory outside the
  allocation (\<open>Overrun\<close>): every \<open>memcpy\<close>, \<open>memmove\<close> and \<open>memset\<close> is bounds checked in the model.
  A returned pointer is its offset in the buffer, \<open>None\<close> is \<open>NULL\<close>.
\<close>

datatype buf_type = eNormal | eFixed | eDerived

record buffer =
  m_pBuffer :: "bytes option"
  m_uSize :: uint64
  m_uLength :: uint64
  m_uPosition :: uint64
  m_eType :: buf_type
  m_bReadOnly :: bool

datatype 'a outcome = Ret 'a buffer | Throw buffer | Overrun

fun bind_out :: "'a outcome \<Rightarrow> ('a \<Rightarrow> buffer \<Rightarrow> 'b outcome) \<Rightarrow> 'b outcome" where
  "bind_out (Ret a b) f = f a b"
| "bind_out (Throw b) f = Throw b"
| "bind_out Overrun f = Overrun"

section \<open>Memory\<close>

definition mem :: "buffer \<Rightarrow> bytes" where
  "mem b = (case m_pBuffer b of None \<Rightarrow> [] | Some m \<Rightarrow> m)"

definition fresh_mem :: "(nat \<Rightarrow> uint8) \<Rightarrow> nat \<Rightarrow> bytes" where
  "fresh_mem junk n = map junk [0..<n]"

definition mem_read :: "bytes \<Rightarrow> uint64 \<Rightarrow> uint64 \<Rightarrow> bytes option" where
  "mem_read m off len =
     (if unat off + unat len \<le> length m then Some (take (unat len) (drop (unat off) m)) else None)"

definition mem_write :: "bytes \<Rightarrow> uint64 \<Rightarrow> bytes \<Rightarrow> bytes option" where
  "mem_write m off data =
     (if unat off + length data \<le> length m
      then Some (take (unat off) m @ data @ drop (unat off + length data) m) else None)"

definition mem_move :: "bytes \<Rightarrow> uint64 \<Rightarrow> uint64 \<Rightarrow> uint64 \<Rightarrow> bytes option" where
  "mem_move m dst src len =
     (case mem_read m src len of None \<Rightarrow> None | Some d \<Rightarrow> mem_write m dst d)"

section \<open>Allocation and size\<close>

definition Init :: "buffer" where
  "Init = \<lparr>m_pBuffer = None, m_uSize = 0, m_uLength = 0, m_uPosition = 0, m_eType = eNormal,
     m_bReadOnly = False\<rparr>"

definition IsDerived :: "buffer \<Rightarrow> bool" where
  "IsDerived b = (m_eType b = eDerived)"

definition SetReadOnly :: "buffer \<Rightarrow> bool \<Rightarrow> buffer" where
  "SetReadOnly b r = b\<lparr>m_bReadOnly := r\<rparr>"

definition AllocBuffer :: "(nat \<Rightarrow> uint8) \<Rightarrow> buffer \<Rightarrow> uint64 \<Rightarrow> bool \<Rightarrow> bool \<Rightarrow> buffer" where
  "AllocBuffer junk b len bUsed bFixed =
     b\<lparr>m_uPosition := 0, m_uLength := len, m_pBuffer := Some (fresh_mem junk (unat len)),
       m_uSize := (if bUsed then len else 0), m_eType := (if bFixed then eFixed else eNormal)\<rparr>"

text \<open>\<open>SetBuffer\<close> takes over (or, derived, refers to) the given memory.\<close>

definition SetBuffer :: "buffer \<Rightarrow> bytes option \<Rightarrow> bool \<Rightarrow> buffer" where
  "SetBuffer b p bDerived =
     (case p of
        None \<Rightarrow> Init
      | Some d \<Rightarrow>
          b\<lparr>m_uLength := of_nat (length d), m_uSize := of_nat (length d),
            m_eType := (if bDerived then eDerived else eFixed), m_uPosition := 0,
            m_pBuffer := Some d\<rparr>)"

definition CopyBuffer :: "(nat \<Rightarrow> uint8) \<Rightarrow> buffer \<Rightarrow> bytes \<Rightarrow> unit outcome" where
  "CopyBuffer junk b src =
     (let b = AllocBuffer junk b (of_nat (length src)) True True
      in case mem_write (mem b) 0 src of
           None \<Rightarrow> Overrun
         | Some m \<Rightarrow> Ret () (b\<lparr>m_pBuffer := Some m\<rparr>))"

definition SetSize :: "(nat \<Rightarrow> uint8) \<Rightarrow> buffer \<Rightarrow> uint64 \<Rightarrow> bool \<Rightarrow> uint64 \<Rightarrow> bool \<times> buffer" where
  "SetSize junk b sz bExpend pre =
     (if m_uLength b < sz + pre \<and> (\<not> bExpend \<or> IsDerived b \<or> m_bReadOnly b) then (False, b)
      else
        let b = (if m_uLength b < sz + pre
              then b\<lparr>m_uLength := sz + pre,
                     m_pBuffer := Some (mem b @
                       fresh_mem junk (unat (sz + pre) - length (mem b)))\<rparr>
              else b);
            b = b\<lparr>m_uSize := sz\<rparr>
        in (True, if m_uSize b < m_uPosition b then b\<lparr>m_uPosition := m_uSize b\<rparr> else b))"

definition PrepareWrite :: "(nat \<Rightarrow> uint8) \<Rightarrow> buffer \<Rightarrow> uint64 \<Rightarrow> uint64 \<Rightarrow> bool \<times> buffer" where
  "PrepareWrite junk b off len =
     (if m_bReadOnly b then (False, b)
      else if off + len > m_uLength b \<or> m_pBuffer b = None
      then (if m_eType b \<noteq> eNormal then (False, b)
            else SetSize junk b (off + len) True (max (min (len * 10) (m_uSize b div 2)) 16))
      else if off + len > m_uSize b then (True, b\<lparr>m_uSize := off + len\<rparr>)
      else (True, b))"

text \<open>\<open>GetBuffer(true)\<close> hands the memory over; a derived buffer hands out a copy and keeps its own.\<close>

definition GetBuffer_detach :: "buffer \<Rightarrow> bytes option outcome" where
  "GetBuffer_detach b =
     (if IsDerived b
      then (case mem_read (mem b) 0 (m_uSize b) of
              None \<Rightarrow> Overrun | Some d \<Rightarrow> Ret (Some d) b)
      else Ret (m_pBuffer b) Init)"

definition contents :: "buffer \<Rightarrow> bytes" where
  "contents b = take (unat (m_uSize b)) (mem b)"

fun memcmp :: "bytes \<Rightarrow> bytes \<Rightarrow> int" where
  "memcmp (x # xs) (y # ys) = (if x < y then - 1 else if y < x then 1 else memcmp xs ys)"
| "memcmp xs ys = 0"

definition Compare :: "buffer \<Rightarrow> buffer \<Rightarrow> int" where
  "Compare this other =
     (if m_uSize other < m_uSize this then - 1
      else if m_uSize other > m_uSize this then 1
      else memcmp (contents other) (contents this))"

section \<open>Position based operations\<close>

definition SetPosition :: "buffer \<Rightarrow> uint64 \<Rightarrow> bool \<times> buffer" where
  "SetPosition b pos =
     (if pos = - 1 then (True, b\<lparr>m_uPosition := m_uSize b\<rparr>)
      else if pos > m_uSize b then (False, b)
      else (True, b\<lparr>m_uPosition := pos\<rparr>))"

definition GetSizeLeft :: "buffer \<Rightarrow> uint64" where
  "GetSizeLeft b = m_uSize b - m_uPosition b"

definition GetLengthLeft :: "buffer \<Rightarrow> uint64" where
  "GetLengthLeft b = m_uLength b - m_uSize b"

definition GetData :: "buffer \<Rightarrow> uint64 \<Rightarrow> uint64 option \<times> buffer" where
  "GetData b len =
     (let len = (if len = - 1 then GetSizeLeft b else len)
      in if m_uPosition b + len > m_uSize b then (None, b)
         else (Some (m_uPosition b), b\<lparr>m_uPosition := m_uPosition b + len\<rparr>))"

text \<open>A null pointer of a buffer without memory counts as a failed read, as in the code.\<close>

definition ReadData :: "buffer \<Rightarrow> uint64 \<Rightarrow> uint64 outcome" where
  "ReadData b len =
     (case GetData b len of
        (None, b) \<Rightarrow> Throw b
      | (Some p, b) \<Rightarrow> if m_pBuffer b = None \<and> p = 0 then Throw b else Ret p b)"

definition ReadQData :: "buffer \<Rightarrow> uint64 \<Rightarrow> bytes outcome" where
  "ReadQData b len =
     bind_out (ReadData b len) (\<lambda>p b'.
       case mem_read (mem b') p (if len = - 1 then GetSizeLeft b' else len) of
         None \<Rightarrow> Overrun | Some d \<Rightarrow> Ret d b')"

text \<open>\<open>SetData\<close> at the position: \<open>pData\<close> may be null, then the bytes are only reserved.\<close>

definition SetData :: "(nat \<Rightarrow> uint8) \<Rightarrow> buffer \<Rightarrow> bytes option \<Rightarrow> uint64 \<Rightarrow> uint64 option outcome" where
  "SetData junk b pData len =
     (case PrepareWrite junk b (m_uPosition b) len of
        (False, b) \<Rightarrow> Ret None b
      | (True, b) \<Rightarrow>
          (case pData of
             None \<Rightarrow> Ret (Some (m_uPosition b)) (b\<lparr>m_uPosition := m_uPosition b + len\<rparr>)
           | Some d \<Rightarrow>
               (case mem_write (mem b) (m_uPosition b) d of
                  None \<Rightarrow> Overrun
                | Some m \<Rightarrow> Ret (Some (m_uPosition b))
                    (b\<lparr>m_pBuffer := Some m, m_uPosition := m_uPosition b + len\<rparr>))))"

definition WriteData :: "(nat \<Rightarrow> uint8) \<Rightarrow> buffer \<Rightarrow> bytes \<Rightarrow> unit outcome" where
  "WriteData junk b d =
     bind_out (SetData junk b (Some d) (of_nat (length d)))
       (\<lambda>p b. case p of None \<Rightarrow> Throw b | Some _ \<Rightarrow> Ret () b)"

section \<open>Offset based operations\<close>

definition GetData_at :: "buffer \<Rightarrow> uint64 \<Rightarrow> uint64 \<Rightarrow> uint64 option" where
  "GetData_at b off len = (if off + len > m_uSize b then None else Some off)"

definition SetData_at :: "(nat \<Rightarrow> uint8) \<Rightarrow> buffer \<Rightarrow> uint64 \<Rightarrow> bytes option \<Rightarrow> uint64 \<Rightarrow>
    uint64 option outcome" where
  "SetData_at junk b off pData len =
     (let off = (if off = - 1 then m_uSize b else off)
      in case PrepareWrite junk b off len of
           (False, b) \<Rightarrow> Ret None b
         | (True, b) \<Rightarrow>
             (case mem_write (mem b) off (case pData of None \<Rightarrow> replicate (unat len) 0 | Some d \<Rightarrow> d) of
                None \<Rightarrow> Overrun
              | Some m \<Rightarrow> Ret (Some off) (b\<lparr>m_pBuffer := Some m\<rparr>)))"

definition InsertData :: "(nat \<Rightarrow> uint8) \<Rightarrow> buffer \<Rightarrow> uint64 \<Rightarrow> bytes option \<Rightarrow> uint64 \<Rightarrow>
    uint64 option outcome" where
  "InsertData junk b off pData len =
     (let uSize = m_uSize b
      in case PrepareWrite junk b (m_uSize b) len of
           (False, b) \<Rightarrow> Ret None b
         | (True, b) \<Rightarrow>
             (case mem_move (mem b) (off + len) off (uSize - off) of
                None \<Rightarrow> Overrun
              | Some m \<Rightarrow>
                  (case pData of
                     None \<Rightarrow> Ret (Some off) (b\<lparr>m_pBuffer := Some m\<rparr>)
                   | Some d \<Rightarrow>
                       (case mem_write m off d of
                          None \<Rightarrow> Overrun
                        | Some m \<Rightarrow> Ret (Some off) (b\<lparr>m_pBuffer := Some m\<rparr>)))))"

definition RemoveData :: "buffer \<Rightarrow> uint64 \<Rightarrow> uint64 \<Rightarrow> bool outcome" where
  "RemoveData b off len =
     (if m_bReadOnly b then Ret False b
      else if len \<noteq> - 1 \<and> off + len > m_uSize b then Ret False b
      else
        let len = (if len = - 1 then m_uSize b else len)
        in case mem_move (mem b) off (off + len) (m_uSize b - len) of
             None \<Rightarrow> Overrun
           | Some m \<Rightarrow> Ret True (b\<lparr>m_pBuffer := map_option (\<lambda>_. m) (m_pBuffer b),
                 m_uSize := m_uSize b - len\<rparr>))"

definition ReplaceData :: "(nat \<Rightarrow> uint8) \<Rightarrow> buffer \<Rightarrow> uint64 \<Rightarrow> uint64 \<Rightarrow> bytes option \<Rightarrow> uint64 \<Rightarrow>
    uint64 option outcome" where
  "ReplaceData junk b off oldLen pData newLen =
     bind_out (RemoveData b off oldLen) (\<lambda>ok b.
       if \<not> ok then Ret None b
       else bind_out (InsertData junk b off pData newLen) (\<lambda>p b.
         case p of None \<Rightarrow> Ret None b | Some _ \<Rightarrow> Ret (Some off) b))"

definition AppendData :: "(nat \<Rightarrow> uint8) \<Rightarrow> buffer \<Rightarrow> bytes \<Rightarrow> bool outcome" where
  "AppendData junk b d =
     (let off = m_uSize b
      in case PrepareWrite junk b off (of_nat (length d)) of
           (False, b) \<Rightarrow> Ret False b
         | (True, b) \<Rightarrow>
             (case mem_write (mem b) off d of
                None \<Rightarrow> Overrun
              | Some m \<Rightarrow> Ret True (b\<lparr>m_pBuffer := Some m\<rparr>)))"

definition ShiftData :: "buffer \<Rightarrow> uint64 \<Rightarrow> bool outcome" where
  "ShiftData b off =
     (if off > m_uSize b then Ret False b
      else
        let b = b\<lparr>m_uSize := m_uSize b - off\<rparr>
        in case mem_move (mem b) 0 off (m_uSize b) of
             None \<Rightarrow> Overrun
           | Some m \<Rightarrow> Ret True (b\<lparr>m_pBuffer := map_option (\<lambda>_. m) (m_pBuffer b),
                 m_uPosition := (if m_uPosition b > off then m_uPosition b - off else 0)\<rparr>))"

section \<open>Values\<close>

text \<open>The bytes of an integer in memory, least significant first, and back.\<close>

definition to_le :: "'a::len word \<Rightarrow> bytes" where
  "to_le w = map (\<lambda>i. ucast (drop_bit (8 * i) w)) [0..<LENGTH('a) div 8]"

fun from_le :: "bytes \<Rightarrow> 'a::len word" where
  "from_le [] = 0"
| "from_le (b # bs) = ucast b OR push_bit 8 (from_le bs)"

fun write_bytes :: "(nat \<Rightarrow> uint8) \<Rightarrow> buffer \<Rightarrow> bytes \<Rightarrow> unit outcome" where
  "write_bytes junk b [] = Ret () b"
| "write_bytes junk b (x # xs) = bind_out (WriteData junk b [x]) (\<lambda>_ b. write_bytes junk b xs)"

definition WriteValue :: "(nat \<Rightarrow> uint8) \<Rightarrow> buffer \<Rightarrow> 'a::len word \<Rightarrow> bool \<Rightarrow> unit outcome" where
  "WriteValue junk b v toBigEndian =
     (if toBigEndian then write_bytes junk b (rev (to_le v)) else WriteData junk b (to_le v))"

text \<open>\<open>read_bytes n\<close> reads \<open>n\<close> single bytes, the first one read is the last one of the result.\<close>

fun read_bytes :: "nat \<Rightarrow> buffer \<Rightarrow> bytes outcome" where
  "read_bytes 0 b = Ret [] b"
| "read_bytes (Suc n) b =
     bind_out (ReadQData b 1) (\<lambda>x b. bind_out (read_bytes n b) (\<lambda>xs b. Ret (xs @ x) b))"

definition ReadValue :: "buffer \<Rightarrow> bool \<Rightarrow> 'a::len word outcome" where
  "ReadValue b fromBigEndian =
     (if fromBigEndian
      then bind_out (read_bytes (LENGTH('a) div 8) b) (\<lambda>bs b. Ret (from_le bs) b)
      else bind_out (ReadQData b (of_nat (LENGTH('a) div 8))) (\<lambda>bs b. Ret (from_le bs) b))"

section \<open>Strings\<close>

text \<open>
  A \<open>wstring\<close> is a list of \<open>wchar_t\<close>, 32 bit units (a 16 bit \<open>wchar_t\<close> has the values up to
  0xFFFF only); a raw string is a list of bytes.
\<close>

type_synonym wstr = "uint32 list"

datatype str_set = eAscii | eUtf8_BOM | eUtf8

datatype str_len = e8Bit | e16Bit | e32Bit

definition WStrToAscii :: "wstr \<Rightarrow> bytes" where
  "WStrToAscii src = map (\<lambda>w. if w \<le> 0xff then ucast w else 0x3f) src"

definition utf8_char :: "uint32 \<Rightarrow> bytes" where
  "utf8_char w =
     (if w \<le> 0x7f then [ucast w]
      else if w \<le> 0x7ff
      then [0xc0 OR (ucast (drop_bit 6 w) AND 0x1f), 0x80 OR (ucast w AND 0x3f)]
      else if w \<le> 0xffff
      then [0xe0 OR (ucast (drop_bit 12 w) AND 0x0f), 0x80 OR (ucast (drop_bit 6 w) AND 0x3f),
            0x80 OR (ucast w AND 0x3f)]
      else [0x3f])"

definition WStrToUtf8 :: "wstr \<Rightarrow> bytes" where
  "WStrToUtf8 src = concat (map utf8_char src)"

definition AsciiToWStr :: "bytes \<Rightarrow> wstr" where
  "AsciiToWStr src = map ucast src"

text \<open>The decoder: \<open>w\<close> is the character under construction, \<open>n\<close> the continuation bytes it lacks.\<close>

definition utf8_err :: uint32 where
  "utf8_err = 0xFFFD"

fun utf8_decode :: "uint32 \<Rightarrow> nat \<Rightarrow> bytes \<Rightarrow> wstr" where
  "utf8_decode w n [] = (if n \<noteq> 0 then [utf8_err] else [])"
| "utf8_decode w n (c # cs) =
     (if c \<le> 0x7f then (if n \<noteq> 0 then [utf8_err] else []) @ ucast c # utf8_decode w 0 cs
      else if c \<le> 0xbf
      then (if n \<noteq> 0
            then let w = push_bit 6 w OR (ucast c AND 0x3f)
                 in (if n = 1 then [w] else []) @ utf8_decode w (n - 1) cs
            else utf8_err # utf8_decode w n cs)
      else if c \<le> 0xdf then utf8_decode (ucast c AND 0x1f) 1 cs
      else if c \<le> 0xef then utf8_decode (ucast c AND 0x0f) 2 cs
      else if c \<le> 0xf7 then utf8_decode (ucast c AND 0x07) 3 cs
      else utf8_err # utf8_decode w 0 cs)"

definition Utf8ToWStr :: "bytes \<Rightarrow> wstr" where
  "Utf8ToWStr src = utf8_decode 0 0 src"

definition utf8_bom :: bytes where
  "utf8_bom = [0xEF, 0xBB, 0xBF]"

definition raw_string :: "str_set \<Rightarrow> wstr \<Rightarrow> bytes" where
  "raw_string Set str =
     (let raw = (if Set = eAscii then WStrToAscii str else WStrToUtf8 str)
      in if Set = eUtf8_BOM then utf8_bom @ raw else raw)"

definition WriteString :: "(nat \<Rightarrow> uint8) \<Rightarrow> buffer \<Rightarrow> wstr \<Rightarrow> str_set \<Rightarrow> str_len \<Rightarrow> unit outcome" where
  "WriteString junk b str Set Len =
     (let raw = raw_string Set str;
          n = length raw
      in bind_out
           (case Len of
              e8Bit \<Rightarrow> WriteValue junk b (of_nat n :: uint8) False
            | e16Bit \<Rightarrow> WriteValue junk b (of_nat n :: uint16) False
            | e32Bit \<Rightarrow> WriteValue junk b (of_nat n :: uint32) False)
           (\<lambda>_ b. WriteData junk b raw))"

definition decode_string :: "str_set \<Rightarrow> bytes \<Rightarrow> wstr" where
  "decode_string Set raw =
     (if take 3 raw = utf8_bom then Utf8ToWStr (drop 3 raw)
      else if Set = eUtf8 then Utf8ToWStr raw else AsciiToWStr raw)"

definition ReadString_raw :: "buffer \<Rightarrow> str_set \<Rightarrow> uint64 \<Rightarrow> wstr outcome" where
  "ReadString_raw b Set len =
     (let len = (if len = - 1 then GetSizeLeft b else len)
      in bind_out (ReadQData b len) (\<lambda>raw b. Ret (decode_string Set raw) b))"

definition ReadString :: "buffer \<Rightarrow> str_set \<Rightarrow> str_len \<Rightarrow> wstr outcome" where
  "ReadString b Set Len =
     (case Len of
        e8Bit \<Rightarrow> bind_out (ReadValue b False :: uint8 outcome) (\<lambda>n b. ReadString_raw b Set (ucast n))
      | e16Bit \<Rightarrow> bind_out (ReadValue b False :: uint16 outcome) (\<lambda>n b. ReadString_raw b Set (ucast n))
      | e32Bit \<Rightarrow> bind_out (ReadValue b False :: uint32 outcome) (\<lambda>n b. ReadString_raw b Set (ucast n)))"

section \<open>Compression\<close>

text \<open>
  zlib is a parameter: \<open>compress2\<close> gives the packed bytes or fails for a given output size,
  \<open>uncompress\<close> gives the data, reports that the output buffer is too small, or fails.
\<close>

datatype zlib_result = Z_OK bytes | Z_BUF_ERROR | Z_FAIL

definition Pack :: "(bytes \<Rightarrow> nat \<Rightarrow> bytes option) \<Rightarrow> buffer \<Rightarrow> bool \<times> buffer" where
  "Pack compress2 b =
     (case compress2 (contents b) (unat (m_uSize b) + 300) of
        None \<Rightarrow> (False, b)
      | Some d \<Rightarrow>
          if unat (m_uSize b) < length d then (False, b) else (True, SetBuffer b (Some d) False))"

definition unpack_limit :: "nat \<Rightarrow> nat" where
  "unpack_limit sz = max (16 * 1024 * 1024) (sz * 100)"

function unpack_loop :: "(bytes \<Rightarrow> nat \<Rightarrow> zlib_result) \<Rightarrow> bytes \<Rightarrow> nat \<Rightarrow> nat \<Rightarrow> zlib_result" where
  "unpack_loop uncompress d limit alloc =
     (case uncompress d alloc of
        Z_BUF_ERROR \<Rightarrow>
          if 2 * alloc < limit \<and> 0 < alloc then unpack_loop uncompress d limit (2 * alloc) else Z_BUF_ERROR
      | r \<Rightarrow> r)"
  by pat_completeness auto
termination
  by (relation "measure (\<lambda>(u, d, l, a). l - a)") auto

declare unpack_loop.simps [simp del]

definition Unpack :: "(bytes \<Rightarrow> nat \<Rightarrow> zlib_result) \<Rightarrow> buffer \<Rightarrow> bool \<times> buffer" where
  "Unpack uncompress b =
     (case unpack_loop uncompress (contents b) (unpack_limit (unat (m_uSize b)))
             (unat (m_uSize b) * 10 + 300) of
        Z_OK d \<Rightarrow> (True, SetBuffer b (Some d) False)
      | _ \<Rightarrow> (False, b))"

section \<open>The invariant\<close>

definition buf_ok :: "buffer \<Rightarrow> bool" where
  "buf_ok b \<longleftrightarrow> length (mem b) = unat (m_uLength b) \<and> m_uSize b \<le> m_uLength b \<and>
     m_uPosition b \<le> m_uSize b"

text \<open>Offsets and lengths up to \<open>2 ^ 62\<close>: no sum of sizes wraps.\<close>

definition small :: "buffer \<Rightarrow> uint64 \<Rightarrow> uint64 \<Rightarrow> bool" where
  "small b off len \<longleftrightarrow> unat off + unat len \<le> 2 ^ 62 \<and> unat (m_uSize b) \<le> 2 ^ 62"

lemma mem_Some [simp]: "m_pBuffer b = Some m \<Longrightarrow> mem b = m"
  by (simp add: mem_def)

lemma mem_update [simp]: "mem (b\<lparr>m_pBuffer := Some m\<rparr>) = m"
  by (simp add: mem_def)

lemma mem_other [simp]:
  "mem (b\<lparr>m_uSize := s\<rparr>) = mem b" "mem (b\<lparr>m_uPosition := p\<rparr>) = mem b" "mem (b\<lparr>m_uLength := l\<rparr>) = mem b"
  by (simp_all add: mem_def)

lemma unat_small_add: "small b off len \<Longrightarrow> unat (off + len) = unat off + unat len"
  unfolding small_def by (simp add: unat_word_ariths)

lemma length_fresh [simp]: "length (fresh_mem junk n) = n"
  by (simp add: fresh_mem_def)

lemma mem_write_Some: "unat off + length d \<le> length m \<Longrightarrow>
    mem_write m off d = Some (take (unat off) m @ d @ drop (unat off + length d) m)"
  by (simp add: mem_write_def)

lemma mem_read_Some: "unat off + unat len \<le> length m \<Longrightarrow>
    mem_read m off len = Some (take (unat len) (drop (unat off) m))"
  by (simp add: mem_read_def)

lemma prealloc_bound:
  assumes "small b off len"
  shows "unat (max (min (len * 10) (m_uSize b div 2)) 16) \<le> 2 ^ 62"
proof -
  have "unat (min (len * 10) (m_uSize b div 2)) \<le> unat (m_uSize b div 2)"
    by (simp add: word_le_nat_alt [symmetric])
  also have "\<dots> = unat (m_uSize b) div 2" by (simp add: unat_div_distrib)
  also have "\<dots> \<le> unat (m_uSize b)" by simp
  also have "\<dots> \<le> 2 ^ 62" using assms by (simp add: small_def)
  finally have "unat (min (len * 10) (m_uSize b div 2)) \<le> 2 ^ 62" .
  then show ?thesis by (simp add: max_def)
qed

lemma SetSize_grow:
  assumes "m_uLength b < sz + pre" and "m_eType b = eNormal" and "\<not> m_bReadOnly b" and "buf_ok b"
    and "m_uPosition b \<le> sz" and "sz \<le> sz + pre"
  obtains b' where "SetSize junk b sz True pre = (True, b')" and "buf_ok b'" and "m_uSize b' = sz"
    and "m_uPosition b' = m_uPosition b" and "take (length (mem b)) (mem b') = mem b"
    and "m_pBuffer b' \<noteq> None" and "m_eType b' = eNormal" and "m_bReadOnly b' = m_bReadOnly b"
proof -
  have l: "length (mem b) \<le> unat (sz + pre)" using assms(1,4) by (simp add: buf_ok_def word_less_nat_alt)
  let ?b = "b\<lparr>m_uLength := sz + pre,
      m_pBuffer := Some (mem b @ fresh_mem junk (unat (sz + pre) - length (mem b))), m_uSize := sz\<rparr>"
  have "SetSize junk b sz True pre = (True, ?b)"
    using assms by (simp add: SetSize_def IsDerived_def Let_def)
  moreover have "mem ?b = mem b @ fresh_mem junk (unat (sz + pre) - length (mem b))"
    by (simp add: mem_def)
  ultimately show thesis
    by (intro that [of ?b]) (use assms l in \<open>simp_all add: buf_ok_def\<close>)
qed

lemma PrepareWrite_True:
  assumes ok: "buf_ok b" and s: "small b off len" and p: "PrepareWrite junk b off len = (True, b')"
  shows "buf_ok b' \<and> unat (m_uSize b') = max (unat (m_uSize b)) (unat off + unat len) \<and>
    m_uPosition b' = m_uPosition b \<and> take (length (mem b)) (mem b') = mem b \<and> m_pBuffer b' \<noteq> None \<and>
    m_eType b' = m_eType b \<and> m_bReadOnly b' = m_bReadOnly b"
proof -
  have add: "unat (off + len) = unat off + unat len" by (rule unat_small_add [OF s])
  let ?pre = "max (min (len * 10) (m_uSize b div 2)) 16"
  consider (grow) "off + len > m_uLength b \<or> m_pBuffer b = None"
    | (fit) "\<not> (off + len > m_uLength b \<or> m_pBuffer b = None)" by satx
  then show ?thesis
  proof cases
    case grow
    then have n: "m_eType b = eNormal" "\<not> m_bReadOnly b"
      and set: "SetSize junk b (off + len) True ?pre = (True, b')"
      using p by (auto simp: PrepareWrite_def split: if_splits)
    have mx: "unat (off + len + ?pre) = unat (off + len) + unat ?pre"
      using add s prealloc_bound [OF s] by (simp add: small_def unat_word_ariths)
    have pre16: "16 \<le> unat ?pre" by (simp add: max_def word_le_nat_alt)
    have null: "m_pBuffer b = None \<Longrightarrow> m_uLength b = 0"
      using ok by (simp add: buf_ok_def mem_def unat_eq_0 [symmetric])
    have lt: "m_uLength b < off + len + ?pre"
      unfolding word_less_nat_alt mx using grow pre16 null by (auto simp: word_less_nat_alt)
    have szl: "m_uSize b \<le> off + len"
      using grow null ok by (auto simp: buf_ok_def)
    then have pos: "m_uPosition b \<le> off + len" using ok by (auto simp: buf_ok_def)
    have le: "off + len \<le> off + len + ?pre" unfolding word_le_nat_alt mx by simp
    obtain c where "SetSize junk b (off + len) True ?pre = (True, c)" "buf_ok c" "m_uSize c = off + len"
        "m_uPosition c = m_uPosition b" "take (length (mem b)) (mem c) = mem b" "m_pBuffer c \<noteq> None"
        "m_eType c = eNormal" "m_bReadOnly c = m_bReadOnly b"
      by (rule SetSize_grow [OF lt n ok pos le])
    with set n szl add show ?thesis by (simp add: word_le_nat_alt max_absorb2)
  next
    case fit
    then have "b' = (if off + len > m_uSize b then b\<lparr>m_uSize := off + len\<rparr> else b)"
      using p by (auto simp: PrepareWrite_def split: if_splits)
    then show ?thesis using fit ok add
      by (auto simp: buf_ok_def not_less max_def word_le_nat_alt word_less_nat_alt mem_def)
  qed
qed

lemma PrepareWrite_normal:
  assumes "buf_ok b" and "small b off len" and "m_eType b = eNormal" and "\<not> m_bReadOnly b"
  obtains b' where "PrepareWrite junk b off len = (True, b')"
proof -
  have "fst (PrepareWrite junk b off len)"
    using assms(3,4) by (auto simp: PrepareWrite_def SetSize_def IsDerived_def Let_def)
  then show thesis using that by (metis (full_types) prod.collapse)
qed

lemma PrepareWrite_False: "PrepareWrite junk b off len = (False, b') \<Longrightarrow> b' = b"
  by (auto simp: PrepareWrite_def SetSize_def Let_def split: if_splits)

section \<open>Writing and reading at the position\<close>

lemma length_contents: "buf_ok b \<Longrightarrow> length (contents b) = unat (m_uSize b)"
  by (simp add: contents_def buf_ok_def word_le_nat_alt)

lemma contents_write:
  assumes ok: "buf_ok b" and s: "small b off (of_nat (length d))" and off: "off \<le> m_uSize b"
    and d: "length d < 2 ^ 64" and p: "PrepareWrite junk b off (of_nat (length d)) = (True, b')"
  obtains m where "mem_write (mem b') off d = Some m" and "length m = length (mem b')"
    and "take (unat (m_uSize b')) m =
      take (unat off) (contents b) @ d @ drop (unat off + length d) (contents b)"
proof -
  have len: "unat (of_nat (length d) :: uint64) = length d" using d by (simp add: unat_of_nat_eq)
  note pw = PrepareWrite_True [OF ok s p, unfolded len]
  let ?o = "unat off" and ?m = "take (unat off) (mem b') @ d @ drop (unat off + length d) (mem b')"
  have sz: "unat (m_uSize b') = max (unat (m_uSize b)) (?o + length d)" using pw by simp
  have le: "?o \<le> unat (m_uSize b)" using off by (simp add: word_le_nat_alt)
  have b': "unat (m_uSize b') \<le> length (mem b')"
    using conjunct1 [OF pw] by (simp add: buf_ok_def word_le_nat_alt)
  then have bound: "?o + length d \<le> length (mem b')" using sz by simp
  have bl: "unat (m_uSize b) \<le> length (mem b)" using ok by (simp add: buf_ok_def word_le_nat_alt)
  have pre: "take (length (mem b)) (mem b') = mem b" using pw by simp
  have c: "contents b = take (unat (m_uSize b)) (mem b')"
  proof -
    have "contents b = take (unat (m_uSize b)) (take (length (mem b)) (mem b'))"
      by (simp only: pre contents_def)
    then show ?thesis using bl by (simp add: min_absorb1)
  qed
  show thesis
  proof (rule that)
    show "mem_write (mem b') off d = Some ?m" by (rule mem_write_Some [OF bound])
    show "length ?m = length (mem b')" using bound by simp
    show "take (unat (m_uSize b')) ?m = take ?o (contents b) @ d @ drop (?o + length d) (contents b)"
    proof (rule nth_equalityI)
      show "length (take (unat (m_uSize b')) ?m) =
          length (take ?o (contents b) @ d @ drop (?o + length d) (contents b))"
        unfolding c using le bound b' sz by auto
      fix i assume "i < length (take (unat (m_uSize b')) ?m)"
      then have "i < unat (m_uSize b')" by simp
      then show "take (unat (m_uSize b')) ?m ! i =
          (take ?o (contents b) @ d @ drop (?o + length d) (contents b)) ! i"
        unfolding c using le bound b' sz by (auto simp: nth_append min_def)
    qed
  qed
qed

lemma AppendData_spec:
  assumes ok: "buf_ok b" and s: "small b (m_uSize b) (of_nat (length d))" and d: "length d < 2 ^ 64"
    and n: "m_eType b = eNormal" "\<not> m_bReadOnly b"
  obtains b' where "AppendData junk b d = Ret True b'" and "buf_ok b'" and "contents b' = contents b @ d"
    and "m_uPosition b' = m_uPosition b" and "m_eType b' = eNormal" and "\<not> m_bReadOnly b'"
proof -
  obtain c where c: "PrepareWrite junk b (m_uSize b) (of_nat (length d)) = (True, c)"
    by (rule PrepareWrite_normal [OF ok s n])
  note pw = PrepareWrite_True [OF ok s c]
  obtain m where m: "mem_write (mem c) (m_uSize b) d = Some m" "length m = length (mem c)"
      "take (unat (m_uSize c)) m = take (unat (m_uSize b)) (contents b) @ d @ drop (unat (m_uSize b) + length d) (contents b)"
    by (rule contents_write [OF ok s order_refl d c])
  show thesis
  proof (rule that)
    show "AppendData junk b d = Ret True (c\<lparr>m_pBuffer := Some m\<rparr>)"
      by (simp add: AppendData_def c m(1))
    show "contents (c\<lparr>m_pBuffer := Some m\<rparr>) = contents b @ d"
      using m(3) length_contents [OF ok] by (simp add: contents_def [of "c\<lparr>m_pBuffer := Some m\<rparr>"])
  qed (use pw m(2) n in \<open>auto simp: buf_ok_def\<close>)
qed

lemma SetData_spec:
  assumes ok: "buf_ok b" and s: "small b (m_uPosition b) (of_nat (length d))" and d: "length d < 2 ^ 64"
    and n: "m_eType b = eNormal" "\<not> m_bReadOnly b"
  obtains b' where "SetData junk b (Some d) (of_nat (length d)) = Ret (Some (m_uPosition b)) b'" and "buf_ok b'"
    and "contents b' = take (unat (m_uPosition b)) (contents b) @ d @
      drop (unat (m_uPosition b) + length d) (contents b)"
    and "unat (m_uPosition b') = unat (m_uPosition b) + length d" and "m_eType b' = eNormal" and "\<not> m_bReadOnly b'"
proof -
  let ?p = "m_uPosition b"
  obtain c where c: "PrepareWrite junk b ?p (of_nat (length d)) = (True, c)"
    by (rule PrepareWrite_normal [OF ok s n])
  note pw = PrepareWrite_True [OF ok s c]
  have p: "?p \<le> m_uSize b" using ok by (simp add: buf_ok_def)
  obtain m where m: "mem_write (mem c) ?p d = Some m" "length m = length (mem c)"
      "take (unat (m_uSize c)) m = take (unat ?p) (contents b) @ d @ drop (unat ?p + length d) (contents b)"
    by (rule contents_write [OF ok s p d c])
  have len: "unat (of_nat (length d) :: uint64) = length d" using d by (simp add: unat_of_nat_eq)
  have pos: "unat (?p + of_nat (length d)) = unat ?p + length d" using unat_small_add [OF s] len by simp
  show thesis
  proof (rule that)
    let ?b = "c\<lparr>m_pBuffer := Some m, m_uPosition := ?p + of_nat (length d)\<rparr>"
    show "SetData junk b (Some d) (of_nat (length d)) = Ret (Some ?p) ?b"
      using pw by (simp add: SetData_def c m(1))
    show "contents ?b = take (unat ?p) (contents b) @ d @ drop (unat ?p + length d) (contents b)"
      using m(3) by (simp add: contents_def [of ?b])
    show "unat (m_uPosition ?b) = unat ?p + length d" using pos by simp
    have cok: "buf_ok c" and csz: "unat (m_uSize c) = max (unat (m_uSize b)) (unat ?p + length d)"
      using pw len by simp_all
    have "?p + of_nat (length d) \<le> m_uSize c" unfolding word_le_nat_alt pos csz by simp
    then show "buf_ok ?b" using cok m(2) by (simp add: buf_ok_def)
  qed (use pw n in auto)
qed

lemma WriteData_spec:
  assumes "buf_ok b" and "small b (m_uPosition b) (of_nat (length d))" and "length d < 2 ^ 64"
    and "m_eType b = eNormal" "\<not> m_bReadOnly b"
  obtains b' where "WriteData junk b d = Ret () b'" and "buf_ok b'"
    and "contents b' = take (unat (m_uPosition b)) (contents b) @ d @
      drop (unat (m_uPosition b) + length d) (contents b)"
    and "unat (m_uPosition b') = unat (m_uPosition b) + length d" and "m_eType b' = eNormal" and "\<not> m_bReadOnly b'"
proof -
  obtain b' where "SetData junk b (Some d) (of_nat (length d)) = Ret (Some (m_uPosition b)) b'" "buf_ok b'"
    "contents b' = take (unat (m_uPosition b)) (contents b) @ d @ drop (unat (m_uPosition b) + length d) (contents b)"
    "unat (m_uPosition b') = unat (m_uPosition b) + length d" "m_eType b' = eNormal" "\<not> m_bReadOnly b'"
    by (rule SetData_spec [OF assms])
  then show thesis by (intro that [of b']) (simp_all add: WriteData_def)
qed

lemma ReadData_spec:
  assumes ok: "buf_ok b" and len: "len \<noteq> - 1" and fit: "unat (m_uPosition b) + unat len \<le> unat (m_uSize b)"
    and n: "m_pBuffer b \<noteq> None"
  shows "ReadData b len = Ret (m_uPosition b) (b\<lparr>m_uPosition := m_uPosition b + len\<rparr>)"
    and "unat (m_uPosition b + len) = unat (m_uPosition b) + unat len"
    and "buf_ok (b\<lparr>m_uPosition := m_uPosition b + len\<rparr>)"
proof -
  have "unat (m_uPosition b) + unat len < 2 ^ 64" using fit unat_lt2p [of "m_uSize b"] by simp
  then show add: "unat (m_uPosition b + len) = unat (m_uPosition b) + unat len"
    by (simp add: unat_word_ariths)
  then have "\<not> m_uSize b < m_uPosition b + len" using fit by (simp add: word_less_nat_alt)
  then show "ReadData b len = Ret (m_uPosition b) (b\<lparr>m_uPosition := m_uPosition b + len\<rparr>)"
    using len n by (simp add: ReadData_def GetData_def)
  show "buf_ok (b\<lparr>m_uPosition := m_uPosition b + len\<rparr>)"
    using ok add fit by (simp add: buf_ok_def word_le_nat_alt)
qed

lemma take_drop_contents:
  assumes "p + n \<le> unat (m_uSize b)"
  shows "take n (drop p (mem b)) = take n (drop p (contents b))"
  using assms unfolding contents_def drop_take take_take by (simp add: min_def)

lemma ReadQData_spec:
  assumes ok: "buf_ok b" and len: "len \<noteq> - 1" and fit: "unat (m_uPosition b) + unat len \<le> unat (m_uSize b)"
    and n: "m_pBuffer b \<noteq> None"
  shows "ReadQData b len = Ret (take (unat len) (drop (unat (m_uPosition b)) (contents b)))
    (b\<lparr>m_uPosition := m_uPosition b + len\<rparr>)"
proof -
  have "unat (m_uPosition b) + unat len \<le> length (mem b)"
    using ok fit by (simp add: buf_ok_def word_le_nat_alt)
  then show ?thesis
    using ReadData_spec(1) [OF assms] len take_drop_contents [OF fit]
    by (simp add: ReadQData_def mem_read_Some)
qed

lemma ReadData_short:
  assumes "len \<noteq> - 1" and "unat (m_uSize b) < unat (m_uPosition b) + unat len"
    and "unat (m_uPosition b) + unat len < 2 ^ 64"
  shows "ReadData b len = Throw b"
proof -
  have "unat (m_uPosition b + len) = unat (m_uPosition b) + unat len"
    using assms(3) by (simp add: unat_word_ariths)
  then have "m_uSize b < m_uPosition b + len" using assms(2) by (simp add: word_less_nat_alt)
  then show ?thesis using assms(1) by (simp add: ReadData_def GetData_def)
qed

section \<open>Values: lemmas\<close>

lemma bit_from_le:
  "bit (from_le bs :: 'a::len word) n = (n < LENGTH('a) \<and> n < 8 * length bs \<and> bit (bs ! (n div 8)) (n mod 8))"
proof (induction bs arbitrary: n)
  case (Cons b bs)
  show ?case
  proof (cases "n < 8")
    case True
    then show ?thesis by (auto simp: bit_or_iff bit_push_bit_iff bit_ucast_iff)
  next
    case False
    then have "n div 8 = Suc ((n - 8) div 8)" "n mod 8 = (n - 8) mod 8"
      by (simp_all add: le_div_geq le_mod_geq)
    moreover have "\<not> bit b n" using False by (auto dest: bit_imp_le_length)
    ultimately show ?thesis using False Cons.IH [of "n - 8"]
      by (auto simp: bit_or_iff bit_push_bit_iff bit_ucast_iff)
  qed
qed simp

lemma length_to_le [simp]: "length (to_le (w :: 'a::len word)) = LENGTH('a) div 8"
  by (simp add: to_le_def)

lemma from_to_le:
  assumes "8 dvd LENGTH('a::len)"
  shows "from_le (to_le (w :: 'a word)) = w"
proof (rule bit_word_eqI)
  fix n assume n: "n < LENGTH('a)"
  have len: "8 * (LENGTH('a) div 8) = LENGTH('a)" using assms by simp
  then have "n div 8 < LENGTH('a) div 8" using n by (metis less_mult_imp_div_less mult.commute)
  then have "bit (to_le w ! (n div 8)) (n mod 8) = bit w n"
    by (simp add: to_le_def bit_ucast_iff bit_drop_bit_eq)
  then show "bit (from_le (to_le w) :: 'a word) n = bit w n" using n len by (simp add: bit_from_le)
qed

definition value_bytes :: "'a::len word \<Rightarrow> bool \<Rightarrow> bytes" where
  "value_bytes v big = (if big then rev (to_le v) else to_le v)"

lemma write_bytes_spec:
  assumes "buf_ok b" and "unat (m_uPosition b) + length d \<le> 2 ^ 61" and "unat (m_uSize b) \<le> 2 ^ 61"
    and "m_eType b = eNormal" "\<not> m_bReadOnly b"
  obtains b' where "write_bytes junk b d = Ret () b'" and "buf_ok b'"
    and "contents b' = take (unat (m_uPosition b)) (contents b) @ d @
      drop (unat (m_uPosition b) + length d) (contents b)"
    and "unat (m_uPosition b') = unat (m_uPosition b) + length d" and "m_eType b' = eNormal" and "\<not> m_bReadOnly b'"
  using assms
proof (induction d arbitrary: b thesis)
  case Nil
  show ?case by (rule Nil.prems(1) [of b]) (use Nil.prems(2-) in \<open>simp_all add: buf_ok_def\<close>)
next
  case (Cons x d)
  have s: "small b (m_uPosition b) (of_nat (length [x]))" using Cons.prems by (simp add: small_def)
  let ?p = "unat (m_uPosition b)"
  obtain c where c: "WriteData junk b [x] = Ret () c" "buf_ok c"
      "contents c = take ?p (contents b) @ [x] @ drop (?p + length [x]) (contents b)"
      "unat (m_uPosition c) = ?p + length [x]" "m_eType c = eNormal" "\<not> m_bReadOnly c"
    by (rule WriteData_spec [OF Cons.prems(2) s _ Cons.prems(5,6)]) simp
  have pb: "?p \<le> unat (m_uSize b)" using Cons.prems(2) by (simp add: buf_ok_def word_le_nat_alt)
  have lc: "length (contents b) = unat (m_uSize b)" by (rule length_contents [OF Cons.prems(2)])
  then have "unat (m_uSize c) = max (unat (m_uSize b)) (Suc ?p)"
    using length_contents [OF c(2)] c(3) pb by simp
  then have cs: "unat (m_uSize c) \<le> 2 ^ 61" using Cons.prems(3,4) by simp
  have cp: "unat (m_uPosition c) + length d \<le> 2 ^ 61" using c(4) Cons.prems(3) by simp
  obtain b' where b': "write_bytes junk c d = Ret () b'" "buf_ok b'"
      "contents b' = take (unat (m_uPosition c)) (contents c) @ d @ drop (unat (m_uPosition c) + length d) (contents c)"
      "unat (m_uPosition b') = unat (m_uPosition c) + length d" "m_eType b' = eNormal" "\<not> m_bReadOnly b'"
    by (rule Cons.IH [OF _ c(2) cp cs c(5,6)])
  have "take (Suc ?p) (contents c) = take ?p (contents b) @ [x]"
    unfolding c(3) using pb lc by simp
  moreover have "drop (Suc ?p + length d) (contents c) = drop (?p + length (x # d)) (contents b)"
    unfolding c(3) using pb lc by (simp add: add.commute)
  ultimately have "contents b' = take ?p (contents b) @ (x # d) @ drop (?p + length (x # d)) (contents b)"
    unfolding b'(3) c(4) by simp
  moreover have "write_bytes junk b (x # d) = Ret () b'" using c(1) b'(1) by simp
  moreover have "unat (m_uPosition b') = ?p + length (x # d)" using b'(4) c(4) by simp
  ultimately show ?case using b'(2,5,6) by (intro Cons.prems(1) [of b'])
qed

lemma read_bytes_spec:
  assumes "buf_ok b" and "unat (m_uPosition b) + n \<le> unat (m_uSize b)" and "m_pBuffer b \<noteq> None"
  obtains b' where "read_bytes n b = Ret (rev (take n (drop (unat (m_uPosition b)) (contents b)))) b'"
    and "unat (m_uPosition b') = unat (m_uPosition b) + n"
    and "b' = b\<lparr>m_uPosition := m_uPosition b'\<rparr>"
  using assms
proof (induction n arbitrary: b thesis)
  case 0
  show ?case by (rule "0.prems"(1) [of b]) simp_all
next
  case (Suc n)
  let ?p = "unat (m_uPosition b)"
  have fit: "?p + unat (1 :: uint64) \<le> unat (m_uSize b)" using Suc.prems(3) by simp
  let ?c = "b\<lparr>m_uPosition := m_uPosition b + 1\<rparr>"
  have r: "ReadQData b 1 = Ret (take 1 (drop ?p (contents b))) ?c"
    using ReadQData_spec [OF Suc.prems(2) _ fit Suc.prems(4)] by simp
  have pos: "unat (m_uPosition b + 1) = Suc ?p"
    using ReadData_spec(2) [OF Suc.prems(2) _ fit Suc.prems(4)] by simp
  have ok: "buf_ok ?c" using ReadData_spec(3) [OF Suc.prems(2) _ fit Suc.prems(4)] by simp
  have cc: "contents ?c = contents b" by (simp add: contents_def mem_def)
  obtain b' where b': "read_bytes n ?c = Ret (rev (take n (drop (Suc ?p) (contents b)))) b'"
      "unat (m_uPosition b') = Suc ?p + n" "b' = ?c\<lparr>m_uPosition := m_uPosition b'\<rparr>"
    using Suc.IH [of ?c] ok Suc.prems(3,4) pos cc by auto
  have "?p < length (contents b)" using Suc.prems(3) length_contents [OF Suc.prems(2)] by simp
  then have "take (Suc n) (drop ?p (contents b)) = contents b ! ?p # take n (drop (Suc ?p) (contents b))"
    and "take 1 (drop ?p (contents b)) = [contents b ! ?p]"
    by (simp_all add: Cons_nth_drop_Suc [symmetric])
  then have "read_bytes (Suc n) b = Ret (rev (take (Suc n) (drop ?p (contents b)))) b'"
    using r b'(1) by simp
  then show ?case
    by (rule Suc.prems(1)) (use b' in simp_all)
qed

lemma WriteValue_spec:
  fixes v :: "'a::len word"
  assumes "buf_ok b" and "unat (m_uPosition b) + LENGTH('a) div 8 \<le> 2 ^ 61" and "unat (m_uSize b) \<le> 2 ^ 61"
    and "m_eType b = eNormal" "\<not> m_bReadOnly b"
  obtains b' where "WriteValue junk b v big = Ret () b'" and "buf_ok b'"
    and "contents b' = take (unat (m_uPosition b)) (contents b) @ value_bytes v big @
      drop (unat (m_uPosition b) + LENGTH('a) div 8) (contents b)"
    and "unat (m_uPosition b') = unat (m_uPosition b) + LENGTH('a) div 8" and "m_eType b' = eNormal" and "\<not> m_bReadOnly b'"
proof (cases big)
  case True
  obtain b' where "write_bytes junk b (rev (to_le v)) = Ret () b'" "buf_ok b'"
      "contents b' = take (unat (m_uPosition b)) (contents b) @ rev (to_le v) @
      drop (unat (m_uPosition b) + length (rev (to_le v))) (contents b)"
    "unat (m_uPosition b') = unat (m_uPosition b) + length (rev (to_le v))" "m_eType b' = eNormal" "\<not> m_bReadOnly b'"
    by (rule write_bytes_spec [OF assms(1) _ assms(3-5), of "rev (to_le v)" junk]) (use assms(2) in simp_all)
  with True show thesis by (intro that [of b']) (simp_all add: WriteValue_def value_bytes_def)
next
  case False
  have n: "LENGTH('a) div 8 < 2 ^ 64" using assms(2) by simp
  then have s: "small b (m_uPosition b) (of_nat (length (to_le v)))"
    using assms(2,3) by (simp add: small_def unat_of_nat_eq)
  obtain b' where "WriteData junk b (to_le v) = Ret () b'" "buf_ok b'"
      "contents b' = take (unat (m_uPosition b)) (contents b) @ to_le v @
      drop (unat (m_uPosition b) + length (to_le v)) (contents b)"
    "unat (m_uPosition b') = unat (m_uPosition b) + length (to_le v)" "m_eType b' = eNormal" "\<not> m_bReadOnly b'"
    by (rule WriteData_spec [OF assms(1) s _ assms(4,5), of junk]) (use n in simp_all)
  with False show thesis by (intro that [of b']) (simp_all add: WriteValue_def value_bytes_def)
qed

lemma unat_max64: "unat (- 1 :: uint64) = 18446744073709551615"
  by (simp add: unsigned_minus_1_eq_mask mask_eq_exp_minus_1)

lemma ReadValue_spec:
  fixes v :: "'a::len word"
  assumes ok: "buf_ok b" and eight: "8 dvd LENGTH('a)" and small: "LENGTH('a) div 8 < 2 ^ 32"
    and fit: "unat (m_uPosition b) + LENGTH('a) div 8 \<le> unat (m_uSize b)" and n: "m_pBuffer b \<noteq> None"
    and v: "take (LENGTH('a) div 8) (drop (unat (m_uPosition b)) (contents b)) = value_bytes v big"
  obtains b' where "ReadValue b big = Ret v b'" and "unat (m_uPosition b') = unat (m_uPosition b) + LENGTH('a) div 8"
    and "b' = b\<lparr>m_uPosition := m_uPosition b'\<rparr>"
proof (cases big)
  case True
  obtain b' where "read_bytes (LENGTH('a) div 8) b = Ret (rev (value_bytes v big)) b'"
      "unat (m_uPosition b') = unat (m_uPosition b) + LENGTH('a) div 8" "b' = b\<lparr>m_uPosition := m_uPosition b'\<rparr>"
    by (rule read_bytes_spec [OF ok fit n]) (simp only: v)
  then show thesis using True
    by (intro that [of b']) (simp_all add: ReadValue_def value_bytes_def from_to_le [OF eight])
next
  case False
  let ?n = "of_nat (LENGTH('a) div 8) :: uint64"
  have u: "unat ?n = LENGTH('a) div 8" using small by (simp add: unat_of_nat_eq)
  have "?n \<noteq> - 1"
  proof
    assume "?n = - 1"
    then have "LENGTH('a) div 8 = 18446744073709551615" using u unat_max64 by simp
    then show False using small by simp
  qed
  moreover have "unat (m_uPosition b) + unat ?n \<le> unat (m_uSize b)" using fit u by simp
  ultimately have "ReadQData b ?n = Ret (value_bytes v big) (b\<lparr>m_uPosition := m_uPosition b + ?n\<rparr>)"
    and "unat (m_uPosition b + ?n) = unat (m_uPosition b) + LENGTH('a) div 8"
    using ReadQData_spec [OF ok _ _ n] ReadData_spec(2) [OF ok _ _ n] v u by simp_all
  then show thesis using False
    by (intro that [of "b\<lparr>m_uPosition := m_uPosition b + ?n\<rparr>"])
      (simp_all add: ReadValue_def value_bytes_def from_to_le [OF eight])
qed

section \<open>Moving data\<close>

lemma ShiftData_spec:
  assumes ok: "buf_ok b" and off: "off \<le> m_uSize b"
  obtains b' where "ShiftData b off = Ret True b'" and "buf_ok b'"
    and "contents b' = drop (unat off) (contents b)"
    and "m_uPosition b' = (if m_uPosition b > off then m_uPosition b - off else 0)"
proof -
  let ?s = "m_uSize b - off"
  have us: "unat ?s = unat (m_uSize b) - unat off" using off by (simp add: unat_sub)
  have le: "unat off \<le> unat (m_uSize b)" using off by (simp add: word_le_nat_alt)
  have bl: "unat (m_uSize b) \<le> length (mem b)" using ok by (simp add: buf_ok_def word_le_nat_alt)
  let ?d = "take (unat ?s) (drop (unat off) (mem b))"
  let ?m = "?d @ drop (unat ?s) (mem b)"
  have ld: "length ?d = unat ?s" using us le bl by simp
  have mv: "mem_move (mem b) 0 off ?s = Some ?m"
    using us le bl ld by (simp add: mem_move_def mem_read_Some mem_write_def)
  let ?b = "b\<lparr>m_uSize := ?s, m_pBuffer := map_option (\<lambda>_. ?m) (m_pBuffer b),
      m_uPosition := (if m_uPosition b > off then m_uPosition b - off else 0)\<rparr>"
  have memb: "mem ?b = ?m"
  proof (cases "m_pBuffer b")
    case None
    then have "mem b = []" by (simp add: mem_def)
    then show ?thesis using None by (simp add: mem_def)
  qed (simp add: mem_def)
  show thesis
  proof (rule that)
    show "ShiftData b off = Ret True ?b" using off mv by (simp add: ShiftData_def not_less [symmetric])
    have "contents ?b = take (unat ?s) ?m" unfolding contents_def memb by simp
    then show "contents ?b = drop (unat off) (contents b)"
      using ld us by (simp add: contents_def drop_take)
    have "m_uPosition b > off \<Longrightarrow> m_uPosition b - off \<le> ?s"
      using unat_sub [OF less_imp_le, of off "m_uPosition b"] conjunct2 [OF conjunct2 [OF ok [unfolded buf_ok_def]]]
      unfolding word_le_nat_alt us by (simp add: diff_le_mono)
    moreover have "length ?m = unat (m_uLength b)" using ok ld us bl by (simp add: buf_ok_def)
    moreover have "?s \<le> m_uLength b"
      using ok us unfolding buf_ok_def word_le_nat_alt by linarith
    ultimately show "buf_ok ?b" unfolding buf_ok_def memb by simp
  qed simp
qed

text \<open>
  \<open>RemoveData\<close> moves \<open>m_uSize - uLength\<close> bytes, not \<open>m_uSize - uLength - uOffset\<close>: the read ends at
  \<open>uOffset + m_uSize\<close>, which is in the allocation only when there are \<open>uOffset\<close> spare bytes.
\<close>

lemma remove_list:
  assumes "p + l \<le> s" and "p + s \<le> length M"
  shows "take (s - l) (take p M @ take (s - l) (drop (p + l) M) @ R) =
    take p (take s M) @ drop (p + l) (take s M)"
proof -
  have "length (take p M) = p" using assms by simp
  moreover have "p \<le> s - l" "p \<le> s" using assms(1) by simp_all
  moreover have "length (take (s - l) (drop (p + l) M)) = s - l" using assms by simp
  ultimately show ?thesis by (simp add: drop_take min_def diff_diff_add add.commute)
qed

lemma RemoveData_cases:
  assumes ok: "buf_ok b" and fit: "unat off + unat len \<le> unat (m_uSize b)" and len: "len \<noteq> - 1"
    and rw: "\<not> m_bReadOnly b"
  shows "(RemoveData b off len = Overrun) = (unat (m_uLength b) < unat off + unat (m_uSize b))"
    and "unat off + unat (m_uSize b) \<le> unat (m_uLength b) \<Longrightarrow> \<exists>b'. RemoveData b off len = Ret True b' \<and>
      contents b' = take (unat off) (contents b) @ drop (unat off + unat len) (contents b)"
proof -
  have "unat off + unat len < 2 ^ 64" using fit unat_lt2p [of "m_uSize b"] by simp
  then have add: "unat (off + len) = unat off + unat len" by (simp add: unat_word_ariths)
  have nlt: "\<not> off + len > m_uSize b" using add fit by (simp add: word_less_nat_alt)
  have "len \<le> m_uSize b" using fit by (simp add: word_le_nat_alt)
  then have us: "unat (m_uSize b - len) = unat (m_uSize b) - unat len" by (simp add: unat_sub)
  have bl: "length (mem b) = unat (m_uLength b)" "unat (m_uSize b) \<le> unat (m_uLength b)"
    using ok by (simp_all add: buf_ok_def word_le_nat_alt)
  let ?rd = "take (unat (m_uSize b - len)) (drop (unat (off + len)) (mem b))"
  have step: "RemoveData b off len = (case mem_move (mem b) off (off + len) (m_uSize b - len) of
       None \<Rightarrow> Overrun
     | Some m \<Rightarrow> Ret True (b\<lparr>m_pBuffer := map_option (\<lambda>_. m) (m_pBuffer b), m_uSize := m_uSize b - len\<rparr>))"
    using rw len nlt by (simp add: RemoveData_def)
  have bound: "unat (off + len) + unat (m_uSize b - len) = unat off + unat (m_uSize b)"
    using add us fit by simp
  have move: "mem_move (mem b) off (off + len) (m_uSize b - len) =
      Some (take (unat off) (mem b) @ ?rd @ drop (unat off + unat (m_uSize b - len)) (mem b))"
    if "unat off + unat (m_uSize b) \<le> unat (m_uLength b)"
  proof -
    have r: "mem_read (mem b) (off + len) (m_uSize b - len) = Some ?rd"
      by (rule mem_read_Some) (use bound bl that in simp)
    have l: "length ?rd = unat (m_uSize b - len)" using bound bl that by simp
    have "unat off + length ?rd \<le> length (mem b)" unfolding l using us bl that by simp
    from mem_write_Some [OF this] show ?thesis using r l by (simp add: mem_move_def)
  qed
  have over: "mem_move (mem b) off (off + len) (m_uSize b - len) = None"
    if "unat (m_uLength b) < unat off + unat (m_uSize b)"
    using that bound bl by (simp add: mem_move_def mem_read_def)
  show "(RemoveData b off len = Overrun) = (unat (m_uLength b) < unat off + unat (m_uSize b))"
    using move over unfolding step by (cases "unat (m_uLength b) < unat off + unat (m_uSize b)") simp_all
  assume a: "unat off + unat (m_uSize b) \<le> unat (m_uLength b)"
  let ?m = "take (unat off) (mem b) @ ?rd @ drop (unat off + unat (m_uSize b - len)) (mem b)"
  let ?b = "b\<lparr>m_pBuffer := map_option (\<lambda>_. ?m) (m_pBuffer b), m_uSize := m_uSize b - len\<rparr>"
  have "mem ?b = ?m"
  proof (cases "m_pBuffer b")
    case None
    then have "mem b = []" by (simp add: mem_def)
    then show ?thesis using None by (simp add: mem_def)
  qed (simp add: mem_def)
  then have c: "contents ?b = take (unat (m_uSize b) - unat len) ?m" by (simp add: contents_def us)
  also have "\<dots> = take (unat off) (contents b) @ drop (unat off + unat len) (contents b)"
    unfolding contents_def add us by (rule remove_list [OF fit]) (use bl(1) a in simp)
  finally show "\<exists>b'. RemoveData b off len = Ret True b' \<and>
      contents b' = take (unat off) (contents b) @ drop (unat off + unat len) (contents b)"
    unfolding step move [OF a] by auto
qed

lemma InsertData_spec:
  assumes ok: "buf_ok b" and s: "small b (m_uSize b) (of_nat (length d))" and d: "length d < 2 ^ 62"
    and off: "off \<le> m_uSize b" and n: "m_eType b = eNormal" "\<not> m_bReadOnly b"
  obtains b' where "InsertData junk b off (Some d) (of_nat (length d)) = Ret (Some off) b'" and "buf_ok b'"
    and "contents b' = take (unat off) (contents b) @ d @ drop (unat off) (contents b)"
    and "m_uPosition b' = m_uPosition b"
proof -
  let ?n = "of_nat (length d) :: uint64" and ?o = "unat off" and ?S = "unat (m_uSize b)"
  obtain c where c: "PrepareWrite junk b (m_uSize b) ?n = (True, c)"
    by (rule PrepareWrite_normal [OF ok s n])
  have len: "unat ?n = length d" using d by (simp add: unat_of_nat_eq)
  note pw = PrepareWrite_True [OF ok s c, unfolded len]
  have cok: "buf_ok c" and csz: "unat (m_uSize c) = ?S + length d" and cpos: "m_uPosition c = m_uPosition b"
    using pw by simp_all
  have le: "?o \<le> ?S" using off by (simp add: word_le_nat_alt)
  have bl: "?S \<le> length (mem b)" using ok unfolding buf_ok_def word_le_nat_alt by linarith
  have cl: "?S + length d \<le> length (mem c)" using cok csz unfolding buf_ok_def word_le_nat_alt by linarith
  have pre: "take (length (mem b)) (mem c) = mem b" using pw by simp
  have cb: "contents b = take ?S (mem c)"
  proof -
    have "contents b = take ?S (take (length (mem b)) (mem c))" by (simp only: pre contents_def)
    then show ?thesis using bl by (simp add: min_absorb1)
  qed
  have us: "unat (m_uSize b - off) = ?S - ?o" using off by (simp add: unat_sub)
  have on: "unat (off + ?n) = ?o + length d"
  proof -
    have "?o + length d < 2 ^ 64" using le s d by (simp add: small_def)
    then show ?thesis using len by (simp add: unat_word_ariths)
  qed
  let ?t = "take (?S - ?o) (drop ?o (mem c))"
  have lt: "length ?t = ?S - ?o" using cl le by simp
  let ?m1 = "take (?o + length d) (mem c) @ ?t @ drop (?o + length d + (?S - ?o)) (mem c)"
  have m1: "mem_move (mem c) (off + ?n) off (m_uSize b - off) = Some ?m1"
  proof -
    have r: "mem_read (mem c) off (m_uSize b - off) = Some ?t"
      using mem_read_Some [of off "m_uSize b - off" "mem c"] us cl le by simp
    have "unat (off + ?n) + length ?t \<le> length (mem c)" unfolding on lt using cl le by simp
    from mem_write_Some [OF this] show ?thesis using r on lt by (simp add: mem_move_def)
  qed
  let ?m = "take ?o ?m1 @ d @ drop (?o + length d) ?m1"
  have l1: "length ?m1 = length (mem c)" using cl le lt by simp
  have w: "mem_write ?m1 off d = Some ?m" by (rule mem_write_Some) (use l1 cl le in simp)
  have m_eq: "?m = take ?o (mem c) @ d @ ?t @ drop (?S + length d) (mem c)"
  proof -
    have "length (take (?o + length d) (mem c)) = ?o + length d" using cl le by simp
    moreover have "?o + length d + (?S - ?o) = ?S + length d" using le by simp
    ultimately show ?thesis by (simp add: min_def add.commute)
  qed
  let ?b = "c\<lparr>m_pBuffer := Some ?m\<rparr>"
  show thesis
  proof (rule that)
    show "InsertData junk b off (Some d) ?n = Ret (Some off) ?b"
      by (simp add: InsertData_def c m1 w)
    have "m_uSize ?b = m_uSize c" by simp
    then have "contents ?b = take (?S + length d) ?m" by (simp only: contents_def mem_update csz)
    also have "\<dots> = take ?o (mem c) @ d @ ?t" unfolding m_eq using cl le lt by simp
    also have "\<dots> = take ?o (contents b) @ d @ drop ?o (contents b)"
      unfolding cb using le by (simp add: drop_take min_def)
    finally show "contents ?b = take ?o (contents b) @ d @ drop ?o (contents b)" .
    have "length ?m = length (mem c)" unfolding m_eq using cl le lt by simp
    moreover have "m_uLength ?b = m_uLength c" "m_uSize ?b = m_uSize c" "m_uPosition ?b = m_uPosition c" by simp_all
    ultimately show "buf_ok ?b" using cok by (simp only: buf_ok_def mem_update)
    show "m_uPosition ?b = m_uPosition b" using cpos by simp
  qed
qed

section \<open>Strings: lemmas\<close>

lemma ucast_small: "w \<le> 0x7f \<Longrightarrow> (ucast (ucast (w :: uint32) :: uint8) :: uint32) = w"
  "w \<le> 0xff \<Longrightarrow> (ucast (ucast (w :: uint32) :: uint8) :: uint32) = w"
proof -
  have "(ucast (ucast w :: uint8) :: uint32) = w" if "w \<le> 0xff"
  proof -
    have "unat w < 256" using that by (simp add: word_le_nat_alt)
    then show ?thesis by (simp add: word_unat_eq_iff unsigned_ucast_eq unsigned_take_bit_eq take_bit_nat_eq_self)
  qed
  moreover have "w \<le> 0xff" if "w \<le> 0x7f" using that by (rule order_trans) simp
  ultimately show "w \<le> 0x7f \<Longrightarrow> (ucast (ucast w :: uint8) :: uint32) = w"
    "w \<le> 0xff \<Longrightarrow> (ucast (ucast w :: uint8) :: uint32) = w" by blast+
qed

lemma ascii_roundtrip: "\<forall>w \<in> set s. w \<le> 0xff \<Longrightarrow> AsciiToWStr (WStrToAscii s) = s"
  by (induction s) (simp_all add: AsciiToWStr_def WStrToAscii_def ucast_small)

text \<open>A property of a byte holds when it holds for the 256 values.\<close>

lemma byte_cases: "list_all P (map of_nat [0..<256]) \<Longrightarrow> P (x :: uint8)"
proof -
  assume "list_all P (map of_nat [0..<256])"
  then have all: "\<forall>n < 256. P (of_nat n)" by (auto simp: list_all_iff)
  have "unat x < 256" using unat_lt2p [of x] by simp
  with all have "P (of_nat (unat x))" by blast
  then show ?thesis by simp
qed

lemma lead2_byte: "(0xbf :: uint8) < 0xc0 OR (x AND 0x1f) \<and> 0xc0 OR (x AND 0x1f) \<le> 0xdf \<and>
    (ucast (0xc0 OR (x AND 0x1f)) AND 0x1f :: uint32) = ucast x AND 0x1f"
  by (rule byte_cases [of "\<lambda>x. 0xbf < 0xc0 OR (x AND 0x1f) \<and> 0xc0 OR (x AND 0x1f) \<le> 0xdf \<and>
    (ucast (0xc0 OR (x AND 0x1f)) AND 0x1f :: uint32) = ucast x AND 0x1f"]) code_simp

lemma lead3_byte: "(0xdf :: uint8) < 0xe0 OR (x AND 0x0f) \<and> 0xe0 OR (x AND 0x0f) \<le> 0xef \<and>
    (ucast (0xe0 OR (x AND 0x0f)) AND 0x0f :: uint32) = ucast x AND 0x0f"
  by (rule byte_cases [of "\<lambda>x. 0xdf < 0xe0 OR (x AND 0x0f) \<and> 0xe0 OR (x AND 0x0f) \<le> 0xef \<and>
    (ucast (0xe0 OR (x AND 0x0f)) AND 0x0f :: uint32) = ucast x AND 0x0f"]) code_simp

lemma cont_byte: "(0x7f :: uint8) < 0x80 OR (x AND 0x3f) \<and> 0x80 OR (x AND 0x3f) \<le> 0xbf \<and>
    (ucast (0x80 OR (x AND 0x3f)) AND 0x3f :: uint32) = ucast x AND 0x3f"
  by (rule byte_cases [of "\<lambda>x. 0x7f < 0x80 OR (x AND 0x3f) \<and> 0x80 OR (x AND 0x3f) \<le> 0xbf \<and>
    (ucast (0x80 OR (x AND 0x3f)) AND 0x3f :: uint32) = ucast x AND 0x3f"]) code_simp

lemma utf8_decode_fresh: "utf8_decode w 0 cs = utf8_decode w' 0 cs"
  by (induction cs arbitrary: w w') (simp_all add: Let_def)

lemma bit_below: "(w :: uint32) < 2 ^ k \<Longrightarrow> bit w n \<Longrightarrow> k < 32 \<Longrightarrow> n < k"
proof -
  assume w: "w < 2 ^ k" "bit w n" "k < 32"
  have "(2 :: nat) ^ k < 2 ^ 32" using w(3) by (rule power_strict_increasing) simp
  then have "unat (of_nat (2 ^ k) :: uint32) = 2 ^ k" by (intro unat_of_nat_eq) simp
  then have "unat w < 2 ^ k" using w(1) by (simp add: word_less_nat_alt)
  then have "take_bit k w = w" by (simp add: word_unat_eq_iff unsigned_take_bit_eq take_bit_nat_eq_self)
  then show ?thesis using w(2) by (metis bit_take_bit_iff)
qed

lemma low_masks: "(0x1f :: uint32) = mask 5" "(0x0f :: uint32) = mask 4" "(0x3f :: uint32) = mask 6"
  by (simp_all add: mask_eq_exp_minus_1)

lemma decode_lead2: "0xbf < c \<Longrightarrow> c \<le> 0xdf \<Longrightarrow>
    utf8_decode v 0 (c # cs) = utf8_decode (ucast c AND 0x1f) 1 cs"
  using order.strict_trans [of "0x7f" "0xbf" c] by (simp flip: not_le)

lemma decode_lead3: "0xdf < c \<Longrightarrow> c \<le> 0xef \<Longrightarrow>
    utf8_decode v 0 (c # cs) = utf8_decode (ucast c AND 0x0f) 2 cs"
  using order.strict_trans [of "0x7f" "0xdf" c] order.strict_trans [of "0xbf" "0xdf" c]
  by (simp flip: not_le)

lemma decode_cont1: "0x7f < c \<Longrightarrow> c \<le> 0xbf \<Longrightarrow>
    utf8_decode w 1 (c # cs) = (push_bit 6 w OR (ucast c AND 0x3f)) #
      utf8_decode (push_bit 6 w OR (ucast c AND 0x3f)) 0 cs"
  by (simp add: Let_def flip: not_le)

lemma decode_cont2: "0x7f < c \<Longrightarrow> c \<le> 0xbf \<Longrightarrow>
    utf8_decode w 2 (c # cs) = utf8_decode (push_bit 6 w OR (ucast c AND 0x3f)) 1 cs"
  by (simp add: Let_def flip: not_le)
lemma utf8_decode_char:
  assumes "w \<le> 0xffff"
  shows "utf8_decode v 0 (utf8_char w @ cs) = w # utf8_decode 0 0 cs"
proof -
  consider (one) "w \<le> 0x7f" | (two) "\<not> w \<le> 0x7f" "w \<le> 0x7ff" | (three) "\<not> w \<le> 0x7f" "\<not> w \<le> 0x7ff" by blast
  then show ?thesis
  proof cases
    case one
    have "(ucast w :: uint8) \<le> 0x7f" 
      using one order_trans [OF take_bit_nat_less_eq_self]
      by (simp add: word_le_nat_alt unsigned_ucast_eq unsigned_take_bit_eq)
    then show ?thesis using one utf8_decode_fresh [of v cs 0] by (simp add: utf8_char_def ucast_small)
  next
    case two
    let ?x = "ucast (drop_bit 6 w) :: uint8" and ?y = "ucast w :: uint8"
    have c: "utf8_char w = [0xc0 OR (?x AND 0x1f), 0x80 OR (?y AND 0x3f)]"
      using two by (simp add: utf8_char_def)
    have "w < 2 ^ 11" using two(2) by (rule order_le_less_trans) simp
    then have hi: "bit w n \<Longrightarrow> n < 11" for n by (rule bit_below) simp_all
    have "push_bit 6 (ucast ?x AND 0x1f) OR (ucast ?y AND 0x3f) = w"
      unfolding low_masks by (intro bit_word_eqI)
        (auto simp: bit_or_iff bit_and_iff bit_push_bit_iff bit_ucast_iff bit_drop_bit_eq bit_mask_iff
          dest: hi)
    then show ?thesis
      unfolding c append.simps using lead2_byte [of ?x] cont_byte [of ?y] utf8_decode_fresh [of w cs 0]
      by (simp only: decode_lead2 decode_cont1)
  next
    case three
    let ?x = "ucast (drop_bit 12 w) :: uint8" and ?y = "ucast (drop_bit 6 w) :: uint8" and ?z = "ucast w :: uint8"
    have c: "utf8_char w = [0xe0 OR (?x AND 0x0f), 0x80 OR (?y AND 0x3f), 0x80 OR (?z AND 0x3f)]"
      using three assms by (simp add: utf8_char_def)
    have "w < 2 ^ 16" using assms by (rule order_le_less_trans) simp
    then have hi: "bit w n \<Longrightarrow> n < 16" for n by (rule bit_below) simp_all
    have "push_bit 6 (push_bit 6 (ucast ?x AND 0x0f) OR (ucast ?y AND 0x3f)) OR (ucast ?z AND 0x3f) = w"
      unfolding low_masks
    proof (rule bit_word_eqI)
      fix n
      show "bit (push_bit 6 (push_bit 6 (ucast ?x AND mask 4) OR (ucast ?y AND mask 6)) OR
          (ucast ?z AND mask 6) :: uint32) n = bit w n"
        if "n < LENGTH(32)"
        using that by (cases "n < 6"; cases "n < 12")
          (auto simp: bit_or_iff bit_and_iff bit_push_bit_iff bit_ucast_iff bit_drop_bit_eq bit_mask_iff
            dest: hi)
    qed
    then show ?thesis
      unfolding c append.simps
      using lead3_byte [of ?x] cont_byte [of ?y] cont_byte [of ?z] utf8_decode_fresh [of w cs 0]
      by (simp only: decode_lead3 decode_cont2 decode_cont1)
  qed
qed

lemma utf8_roundtrip: "\<forall>w \<in> set s. w \<le> 0xffff \<Longrightarrow> Utf8ToWStr (WStrToUtf8 s) = s"
  by (induction s) (simp_all add: Utf8ToWStr_def WStrToUtf8_def utf8_decode_char)

lemma buf_null: "buf_ok b \<Longrightarrow> m_pBuffer b = None \<Longrightarrow> m_uSize b = 0"
proof -
  assume ok: "buf_ok b" and n: "m_pBuffer b = None"
  then have "m_uLength b = 0" by (simp add: buf_ok_def mem_def unat_eq_0 [symmetric])
  with ok show ?thesis by (simp add: buf_ok_def)
qed

text \<open>Writing a length and then the raw bytes, for a length field of any width.\<close>

lemma write_raw_spec:
  fixes v :: "'a::len word"
  assumes ok: "buf_ok b" and s: "unat (m_uPosition b) + LENGTH('a) div 8 + length raw \<le> 2 ^ 60"
    "unat (m_uSize b) \<le> 2 ^ 60" and n: "m_eType b = eNormal" "\<not> m_bReadOnly b"
  obtains b' where "bind_out (WriteValue junk b v False) (\<lambda>_ b. WriteData junk b raw) = Ret () b'"
    and "buf_ok b'" and "contents b' = take (unat (m_uPosition b)) (contents b) @ to_le v @ raw @
      drop (unat (m_uPosition b) + LENGTH('a) div 8 + length raw) (contents b)"
    and "unat (m_uPosition b') = unat (m_uPosition b) + LENGTH('a) div 8 + length raw"
proof -
  let ?p = "unat (m_uPosition b)" and ?n = "LENGTH('a) div 8"
  obtain c where c: "WriteValue junk b v False = Ret () c" "buf_ok c"
      "contents c = take ?p (contents b) @ value_bytes v False @ drop (?p + ?n) (contents b)"
      "unat (m_uPosition c) = ?p + ?n" "m_eType c = eNormal" "\<not> m_bReadOnly c"
  proof (rule WriteValue_spec [OF ok _ _ n])
    have "(2 :: nat) ^ 60 \<le> 2 ^ 61" by simp
    then show "?p + ?n \<le> 2 ^ 61" "unat (m_uSize b) \<le> 2 ^ 61" using s by linarith+
  qed blast
  have pb: "?p \<le> unat (m_uSize b)" using ok by (simp add: buf_ok_def word_le_nat_alt)
  have lb: "length (contents b) = unat (m_uSize b)" by (rule length_contents [OF ok])
  have "unat (m_uSize c) = max (unat (m_uSize b)) (?p + ?n)"
    using length_contents [OF c(2)] c(3) pb lb by (simp add: value_bytes_def)
  then have sc: "unat (m_uSize c) \<le> 2 ^ 61" using s by simp
  have rl: "length raw < 2 ^ 64" using s(1) by simp
  then have sm: "small c (m_uPosition c) (of_nat (length raw))"
    using s(1) sc c(4) by (simp add: small_def unat_of_nat_eq)
  obtain b' where b': "WriteData junk c raw = Ret () b'" "buf_ok b'"
      "contents b' = take (unat (m_uPosition c)) (contents c) @ raw @ drop (unat (m_uPosition c) + length raw) (contents c)"
      "unat (m_uPosition b') = unat (m_uPosition c) + length raw"
    by (rule WriteData_spec [OF c(2) sm rl c(5,6)])
  show thesis
  proof (rule that)
    show "bind_out (WriteValue junk b v False) (\<lambda>_ b. WriteData junk b raw) = Ret () b'" using c(1) b'(1) by simp
    have "take (?p + ?n) (contents c) = take ?p (contents b) @ to_le v"
      and "drop (?p + ?n + length raw) (contents c) = drop (?p + ?n + length raw) (contents b)"
      unfolding c(3) using pb lb by (simp_all add: value_bytes_def add.commute add.left_commute)
    then show "contents b' = take ?p (contents b) @ to_le v @ raw @ drop (?p + ?n + length raw) (contents b)"
      unfolding b'(3) c(4) by simp
  qed (use b' c in simp_all)
qed

lemma read_raw_spec:
  fixes v :: "'a::len word"
  assumes ok: "buf_ok b" and w: "8 dvd LENGTH('a)" "LENGTH('a) \<le> 32"
    and c: "contents b = pre @ to_le v @ raw @ post" and p: "unat (m_uPosition b) = length pre"
    and v: "unat v = length raw"
  shows "\<exists>b'. bind_out (ReadValue b False :: 'a word outcome) (\<lambda>n b. ReadString_raw b Set (ucast n)) =
      Ret (decode_string Set raw) b'"
proof -
  let ?n = "LENGTH('a) div 8"
  have lc: "length (contents b) = unat (m_uSize b)" by (rule length_contents [OF ok])
  then have sz: "unat (m_uSize b) = length pre + ?n + length raw + length post" using c by simp
  have n8: "0 < ?n" using w(1) by (simp add: dvd_imp_le div_greater_zero_iff)
  have nn: "m_pBuffer b \<noteq> None"
  proof
    assume "m_pBuffer b = None"
    then have "unat (m_uSize b) = 0" using buf_null [OF ok] by simp
    then show False using sz n8 by simp
  qed
  have fit: "unat (m_uPosition b) + ?n \<le> unat (m_uSize b)" using sz p by simp
  have tk: "take ?n (drop (unat (m_uPosition b)) (contents b)) = value_bytes v False"
    using c p by (simp add: value_bytes_def)
  obtain b1 where b1: "ReadValue b False = Ret v b1" "unat (m_uPosition b1) = length pre + ?n"
      "b1 = b\<lparr>m_uPosition := m_uPosition b1\<rparr>"
    by (rule ReadValue_spec [OF ok w(1) _ fit nn tk]) (use w(2) p in auto)
  have same: "contents b1 = contents b" "m_uSize b1 = m_uSize b" "m_pBuffer b1 = m_pBuffer b" "m_uLength b1 = m_uLength b"
  proof -
    define q where "q = m_uPosition b1"
    have e: "b1 = b\<lparr>m_uPosition := q\<rparr>" unfolding q_def by (rule b1(3))
    show "contents b1 = contents b" "m_uSize b1 = m_uSize b" "m_pBuffer b1 = m_pBuffer b" "m_uLength b1 = m_uLength b"
      by (simp_all add: e contents_def mem_def)
  qed
  have ok1: "buf_ok b1"
    using ok b1(2) sz same by (simp add: buf_ok_def word_le_nat_alt mem_def)
  have "unat v < 2 ^ LENGTH('a)" by (rule unat_lt2p)
  also have "(2 :: nat) ^ LENGTH('a) \<le> 2 ^ 32" using w(2) by (intro power_increasing) simp_all
  finally have vs: "unat v < 2 ^ 32" .
  have uv: "unat (ucast v :: uint64) = length raw"
    using vs v by (simp add: unsigned_ucast_eq unsigned_take_bit_eq take_bit_nat_eq_self)
  have "(ucast v :: uint64) \<noteq> - 1"
  proof
    assume "(ucast v :: uint64) = - 1"
    then show False using uv vs v unat_max64 by simp
  qed
  moreover have "unat (m_uPosition b1) + unat (ucast v :: uint64) \<le> unat (m_uSize b1)"
    using b1(2) uv sz same(2) by simp
  ultimately have "ReadQData b1 (ucast v) = Ret (take (length raw) (drop (length pre + ?n) (contents b)))
      (b1\<lparr>m_uPosition := m_uPosition b1 + ucast v\<rparr>)"
    using ReadQData_spec [OF ok1, of "ucast v"] nn same b1(2) uv by simp
  moreover have "take (length raw) (drop (length pre + ?n) (contents b)) = raw" unfolding c by simp
  ultimately show ?thesis using b1(1) \<open>(ucast v :: uint64) \<noteq> - 1\<close> by (simp add: ReadString_raw_def)
qed

definition len_bits :: "str_len \<Rightarrow> nat" where
  "len_bits Len = (case Len of e8Bit \<Rightarrow> 8 | e16Bit \<Rightarrow> 16 | e32Bit \<Rightarrow> 32)"

lemma string_roundtrip:
  assumes ok: "buf_ok b" and s: "unat (m_uPosition b) + 4 + length (raw_string Set str) \<le> 2 ^ 60"
    "unat (m_uSize b) \<le> 2 ^ 60" and n: "m_eType b = eNormal" "\<not> m_bReadOnly b"
    and len: "length (raw_string Set str) < 2 ^ len_bits Len"
  shows "\<exists>b' b''. WriteString junk b str Set Len = Ret () b' \<and> 
    ReadString (b'\<lparr>m_uPosition := m_uPosition b\<rparr>) Set Len = Ret (decode_string Set (raw_string Set str)) b''"
proof -
  let ?raw = "raw_string Set str" and ?p = "unat (m_uPosition b)"
  have pb: "?p \<le> length (contents b)"
    using ok length_contents [OF ok] by (simp add: buf_ok_def word_le_nat_alt)
  have gen: "\<exists>b' b''. bind_out (WriteValue junk b v False) (\<lambda>_ b. WriteData junk b ?raw) = Ret () b' \<and>
      bind_out (ReadValue (b'\<lparr>m_uPosition := m_uPosition b\<rparr>) False :: 'a word outcome)
        (\<lambda>n b. ReadString_raw b Set (ucast n)) = Ret (decode_string Set ?raw) b''"
    if w: "8 dvd LENGTH('a)" "LENGTH('a) \<le> 32" and v: "unat v = length ?raw" for v :: "'a::len word"
  proof -
    have sp: "?p + LENGTH('a) div 8 + length ?raw \<le> 2 ^ 60" using s(1) w(2) by auto
    obtain b' where b': "bind_out (WriteValue junk b v False) (\<lambda>_ b. WriteData junk b ?raw) = Ret () b'"
      "buf_ok b'" "contents b' = take ?p (contents b) @ to_le v @ ?raw @ drop (?p + LENGTH('a) div 8 + length ?raw) (contents b)"
      "unat (m_uPosition b') = ?p + LENGTH('a) div 8 + length ?raw"
      by (rule write_raw_spec [OF ok sp s(2) n])
    let ?b = "b'\<lparr>m_uPosition := m_uPosition b\<rparr>"
    have okb: "buf_ok ?b"
      using b'(2) b'(4) by (simp add: buf_ok_def word_le_nat_alt)
    have cb: "contents ?b = take ?p (contents b) @ to_le v @ ?raw @ drop (?p + LENGTH('a) div 8 + length ?raw) (contents b)"
      using b'(3) by (simp add: contents_def mem_def)
    have "unat (m_uPosition ?b) = length (take ?p (contents b))" using pb by simp
    from read_raw_spec [OF okb w cb this v, of Set] b'(1) show ?thesis by blast
  qed
  show ?thesis
  proof (cases Len)
    case e8Bit
    have "unat (of_nat (length ?raw) :: uint8) = length ?raw" using len e8Bit by (simp add: len_bits_def unat_of_nat_eq)
    from gen [OF _ _ this] e8Bit show ?thesis by (simp add: WriteString_def ReadString_def Let_def)
  next
    case e16Bit
    have "unat (of_nat (length ?raw) :: uint16) = length ?raw" using len e16Bit by (simp add: len_bits_def unat_of_nat_eq)
    from gen [OF _ _ this] e16Bit show ?thesis by (simp add: WriteString_def ReadString_def Let_def)
  next
    case e32Bit
    have "unat (of_nat (length ?raw) :: uint32) = length ?raw" using len e32Bit by (simp add: len_bits_def unat_of_nat_eq)
    from gen [OF _ _ this] e32Bit show ?thesis by (simp add: WriteString_def ReadString_def Let_def)
  qed
qed

text \<open>When the raw string stands for the string.\<close>

definition str_fits :: "str_set \<Rightarrow> wstr \<Rightarrow> bool" where
  "str_fits Set s =
     (case Set of
        eAscii \<Rightarrow> (\<forall>w \<in> set s. w \<le> 0xff) \<and> take 3 (WStrToAscii s) \<noteq> utf8_bom
      | eUtf8 \<Rightarrow> (\<forall>w \<in> set s. w \<le> 0xffff) \<and> take 3 (WStrToUtf8 s) \<noteq> utf8_bom
      | eUtf8_BOM \<Rightarrow> (\<forall>w \<in> set s. w \<le> 0xffff))"

lemma decode_raw: "str_fits Set s \<Longrightarrow> decode_string Set (raw_string Set s) = s"
  by (cases Set) (simp_all add: str_fits_def raw_string_def decode_string_def Let_def
      ascii_roundtrip utf8_roundtrip utf8_bom_def)

section \<open>Compression: lemmas\<close>

lemma unpack_loop_finds:
  assumes "\<And>k. alloc \<le> k \<Longrightarrow> k < n \<Longrightarrow> u d k = Z_BUF_ERROR" and "\<And>k. n \<le> k \<Longrightarrow> u d k = Z_OK x"
    and "n \<le> alloc \<or> 2 * n < limit" and "0 < alloc"
  shows "unpack_loop u d limit alloc = Z_OK x"
  using assms
proof (induction u d limit alloc rule: unpack_loop.induct)
  case (1 u d limit alloc)
  show ?case
  proof (cases "n \<le> alloc")
    case True
    then show ?thesis using "1.prems"(2) by (subst unpack_loop.simps) simp
  next
    case False
    then have z: "u d alloc = Z_BUF_ERROR" using "1.prems"(1) by simp
    have l: "2 * alloc < limit \<and> 0 < alloc" using False "1.prems"(3,4) by simp
    have "unpack_loop u d limit (2 * alloc) = Z_OK x"
      by (rule "1.IH" [OF z l]) (use "1.prems" False in auto)
    then show ?thesis using z l by (subst unpack_loop.simps) simp
  qed
qed

section \<open>Properties of the buffer\<close>

text \<open>A buffer with some contents for the witnesses.\<close>

definition no_junk :: "nat \<Rightarrow> uint8" where
  "no_junk n = 0"

definition ex_buffer :: buffer where
  "ex_buffer = \<lparr>m_pBuffer = Some [1, 2, 3, 4], m_uSize = 3, m_uLength = 4, m_uPosition = 1,
     m_eType = eNormal, m_bReadOnly = False\<rparr>"

lemma ex_buffer_ok: "buf_ok ex_buffer"
  by (simp add: buf_ok_def ex_buffer_def mem_def)

text \<open>
  C7. A value written to a growable buffer at some position, in either byte order, is read back
  from that position, for integers of 8, 16, 32 and 64 bits.
\<close>

theorem WriteValue_ReadValue:
  fixes v :: "'a::len word"
  assumes "buf_ok b" and "LENGTH('a) \<in> {8, 16, 32, 64}" and "m_eType b = eNormal" and "\<not> m_bReadOnly b"
    and "unat (m_uSize b) + 8 \<le> 2 ^ 60"
  shows "\<exists>b' b''. WriteValue junk b v big = Ret () b' \<and> buf_ok b' \<and>
    ReadValue (b'\<lparr>m_uPosition := m_uPosition b\<rparr>) big = Ret v b''"
proof -
  let ?p = "unat (m_uPosition b)" and ?n = "LENGTH('a) div 8"
  have n8: "?n \<le> 8" "8 dvd LENGTH('a)" using assms(2) by auto
  have pb: "?p \<le> unat (m_uSize b)" using assms(1) by (simp add: buf_ok_def word_le_nat_alt)
  obtain b' where b': "WriteValue junk b v big = Ret () b'" "buf_ok b'"
      "contents b' = take ?p (contents b) @ value_bytes v big @ drop (?p + ?n) (contents b)"
      "unat (m_uPosition b') = ?p + ?n"
  proof (rule WriteValue_spec [OF assms(1) _ _ assms(3,4)])
    have "(2 :: nat) ^ 60 \<le> 2 ^ 61" by simp
    then show "?p + ?n \<le> 2 ^ 61" "unat (m_uSize b) \<le> 2 ^ 61" using assms(5) n8 pb by linarith+
  qed blast
  let ?b = "b'\<lparr>m_uPosition := m_uPosition b\<rparr>"
  have lv: "length (value_bytes v big) = ?n" by (simp add: value_bytes_def)
  have lp: "length (take ?p (contents b)) = ?p" using pb length_contents [OF assms(1)] by simp
  have cb: "contents ?b = contents b'" by (simp add: contents_def mem_def)
  have okb: "buf_ok ?b" using b'(2,4) by (simp add: buf_ok_def word_le_nat_alt)
  have "unat (m_uSize b') = length (contents b')" using length_contents [OF b'(2)] by simp
  then have fit: "unat (m_uPosition ?b) + ?n \<le> unat (m_uSize ?b)" unfolding b'(3) using lv lp by simp
  have "0 < ?n" using assms(2) by auto
  have nn: "m_pBuffer ?b \<noteq> None"
  proof
    assume "m_pBuffer ?b = None"
    then have "unat (m_uSize ?b) = 0" using buf_null [OF okb] by simp
    with fit \<open>0 < ?n\<close> show False by linarith
  qed
  have "take ?n (drop (unat (m_uPosition ?b)) (contents ?b)) = value_bytes v big"
    unfolding cb b'(3) using lp lv by simp
  moreover have "?n < 2 ^ 32" using n8(1) by simp
  ultimately obtain b'' where "ReadValue ?b big = Ret v b''"
    using ReadValue_spec [OF okb n8(2) _ fit nn] by metis
  with b'(1,2) show ?thesis by blast
qed

theorem WriteValue_ReadValue_witness:
  "\<exists>b' b''. WriteValue no_junk ex_buffer (0x12345678 :: uint32) True = Ret () b' \<and>
    ReadValue (b'\<lparr>m_uPosition := 1\<rparr>) True = Ret (0x12345678 :: uint32) b''"
  using WriteValue_ReadValue [OF ex_buffer_ok, of no_junk "0x12345678 :: uint32" True]
  by (auto simp: ex_buffer_def)

text \<open>
  C8. A string written with any character set and length field is read back as it was, when its
  characters exist in the set, its raw length fits the field, and (without a byte order mark being
  written) its raw form does not begin with the bytes of one.
\<close>

theorem WriteString_ReadString:
  assumes "buf_ok b" and "m_eType b = eNormal" and "\<not> m_bReadOnly b"
    and "str_fits Set str" and "length (raw_string Set str) < 2 ^ len_bits Len"
    and "unat (m_uSize b) + 4 + length (raw_string Set str) \<le> 2 ^ 60"
  shows "\<exists>b' b''. WriteString junk b str Set Len = Ret () b' \<and>
    ReadString (b'\<lparr>m_uPosition := m_uPosition b\<rparr>) Set Len = Ret str b''"
proof -
  have "unat (m_uPosition b) \<le> unat (m_uSize b)" using assms(1) by (simp add: buf_ok_def word_le_nat_alt)
  then have s: "unat (m_uPosition b) + 4 + length (raw_string Set str) \<le> 2 ^ 60" "unat (m_uSize b) \<le> 2 ^ 60"
    using assms(6) by linarith+
  from string_roundtrip [OF assms(1) s assms(2,3,5), of junk] show ?thesis
    unfolding decode_raw [OF assms(4)] .
qed

theorem WriteString_ReadString_witness:
  "\<exists>b' b''. WriteString no_junk ex_buffer [0x41, 0xE4, 0x20AC] eUtf8 e8Bit = Ret () b' \<and>
    ReadString (b'\<lparr>m_uPosition := 1\<rparr>) eUtf8 e8Bit = Ret [0x41, 0xE4, 0x20AC] b''"
  using WriteString_ReadString [OF ex_buffer_ok, of eUtf8 "[0x41, 0xE4, 0x20AC]" e8Bit no_junk]
  by (simp add: ex_buffer_def str_fits_def raw_string_def WStrToUtf8_def utf8_char_def utf8_bom_def len_bits_def)

text \<open>
  \<open>RemoveData\<close> of a range within the data removes it when the allocation has \<open>uOffset\<close> bytes to
  spare behind the data; otherwise its \<open>memmove\<close> reads beyond the allocation. In particular every
  removal that does not start at 0 from an exactly filled buffer does.
\<close>

theorem RemoveData_overrun:
  assumes "buf_ok b" and "unat off + unat len \<le> unat (m_uSize b)" and "len \<noteq> - 1" and "\<not> m_bReadOnly b"
  shows "(RemoveData b off len = Overrun) = (unat (m_uLength b) < unat off + unat (m_uSize b)) \<and>
    (unat off + unat (m_uSize b) \<le> unat (m_uLength b) \<longrightarrow> (\<exists>b'. RemoveData b off len = Ret True b' \<and>
      contents b' = take (unat off) (contents b) @ drop (unat off + unat len) (contents b)))"
  using RemoveData_cases [OF assms] by blast

theorem RemoveData_overrun_witness:
  "RemoveData ex_buffer 2 1 = Overrun \<and> (\<exists>b'. RemoveData ex_buffer 1 1 = Ret True b' \<and> contents b' = [1, 3])"
  using RemoveData_overrun [OF ex_buffer_ok, of 2 1] RemoveData_overrun [OF ex_buffer_ok, of 1 1]
  by (simp add: ex_buffer_def contents_def mem_def)

text \<open>
  \<open>InsertData\<close> into a growable buffer puts the bytes at the offset, keeps the data before and
  after it, keeps the position and the invariant.
\<close>

theorem InsertData_inserts:
  assumes "buf_ok b" and "m_eType b = eNormal" and "\<not> m_bReadOnly b" and "off \<le> m_uSize b"
    and "unat (m_uSize b) + length d \<le> 2 ^ 60"
  shows "\<exists>b'. InsertData junk b off (Some d) (of_nat (length d)) = Ret (Some off) b' \<and> buf_ok b' \<and>
    contents b' = take (unat off) (contents b) @ d @ drop (unat off) (contents b) \<and>
    m_uPosition b' = m_uPosition b"
proof -
  have two: "(2 :: nat) ^ 60 < 2 ^ 62" "(2 :: nat) ^ 62 < 2 ^ 64" by simp_all
  then have d: "length d < 2 ^ 62" using assms(5) by linarith
  have "unat (of_nat (length d) :: uint64) = length d"
    by (rule unat_of_nat_eq) (use d two(2) in simp)
  then have "small b (m_uSize b) (of_nat (length d))"
    using assms(5) two(1) unfolding small_def by linarith
  from InsertData_spec [OF assms(1) this d assms(4,2,3)] show ?thesis by metis
qed

theorem InsertData_inserts_witness:
  "\<exists>b'. InsertData no_junk ex_buffer 1 (Some [9, 8]) 2 = Ret (Some 1) b' \<and> contents b' = [1, 9, 8, 2, 3]"
  using InsertData_inserts [OF ex_buffer_ok, of 1 "[9, 8]" no_junk]
  by (auto simp: ex_buffer_def contents_def mem_def)


text \<open>
  The writing operations refuse a read-only buffer and leave it as it is; \<open>WriteData\<close> throws.
\<close>

theorem readonly_refused:
  assumes "m_bReadOnly b"
  shows "SetData junk b d len = Ret None b \<and> WriteData junk b data = Throw b \<and>
    SetData_at junk b off d len = Ret None b \<and> InsertData junk b off d len = Ret None b \<and>
    RemoveData b off len = Ret False b \<and> ReplaceData junk b off old d len = Ret None b \<and>
    AppendData junk b data = Ret False b"
  using assms
  by (simp add: SetData_def WriteData_def SetData_at_def InsertData_def RemoveData_def ReplaceData_def
      AppendData_def PrepareWrite_def Let_def)

theorem readonly_refused_witness:
  "AppendData no_junk (SetReadOnly ex_buffer True) [7] = Ret False (SetReadOnly ex_buffer True)"
  using readonly_refused [of "SetReadOnly ex_buffer True" no_junk None 0 "[7]" 0 0]
  by (simp add: SetReadOnly_def)

end
