(* ===== verification/BufferIO.thy ===== *)
theory BufferIO
  imports Buffer
begin

text \<open>
  Sequential use of a \<open>CBuffer\<close>, as the \<open>SaveBin\<close> and \<open>LoadBin\<close> methods use it: a growing buffer
  whose position is at its end, and a buffer of which the first part has been read.
\<close>

section \<open>Appending\<close>

definition appendable :: "buffer \<Rightarrow> bool" where
  "appendable b \<longleftrightarrow> buf_ok b \<and> m_eType b = eNormal \<and> \<not> m_bReadOnly b \<and> m_uPosition b = m_uSize b"

lemma appendable_Init: "appendable Init" "contents Init = []"
  by (simp_all add: appendable_def buf_ok_def Init_def contents_def mem_def)

lemma appendable_size: "appendable b \<Longrightarrow> unat (m_uSize b) = length (contents b)"
  by (simp add: appendable_def length_contents)

lemma append_data:
  assumes "appendable b" and "length (contents b) + length d \<le> 2 ^ 60"
  obtains b' where "WriteData junk b d = Ret () b'" and "appendable b'" and "contents b' = contents b @ d"
proof -
  have sz: "unat (m_uSize b) = length (contents b)" by (rule appendable_size [OF assms(1)])
  have "(2 :: nat) ^ 60 < 2 ^ 62" "(2 :: nat) ^ 62 < 2 ^ 64" by simp_all
  then have small: "small b (m_uPosition b) (of_nat (length d))" "length d < 2 ^ 64"
    using assms sz by (simp_all add: small_def appendable_def unat_of_nat_eq)
  obtain b' where b': "WriteData junk b d = Ret () b'" "buf_ok b'"
      "contents b' = take (unat (m_uPosition b)) (contents b) @ d @ drop (unat (m_uPosition b) + length d) (contents b)"
      "unat (m_uPosition b') = unat (m_uPosition b) + length d" "m_eType b' = eNormal" "\<not> m_bReadOnly b'"
    using WriteData_spec [OF _ small] assms(1) unfolding appendable_def by metis
  have c: "contents b' = contents b @ d" using b'(3) assms(1) sz by (simp add: appendable_def)
  have "unat (m_uSize b') = length (contents b')" using length_contents [OF b'(2)] by simp
  then have "m_uPosition b' = m_uSize b'"
    using b'(4) c sz assms(1) by (simp add: appendable_def word_unat_eq_iff)
  with b' c show thesis by (intro that [of b']) (simp_all add: appendable_def)
qed

lemma append_value:
  fixes v :: "'a::len word"
  assumes "appendable b" and "length (contents b) + LENGTH('a) div 8 \<le> 2 ^ 60"
  obtains b' where "WriteValue junk b v False = Ret () b'" and "appendable b'" and "contents b' = contents b @ to_le v"
  using append_data [OF assms(1), of "to_le v" junk] assms(2) by (auto simp: WriteValue_def)

section \<open>Reading\<close>

definition reading :: "buffer \<Rightarrow> bytes \<Rightarrow> bool" where
  "reading b rest \<longleftrightarrow> buf_ok b \<and> m_pBuffer b \<noteq> None \<and> drop (unat (m_uPosition b)) (contents b) = rest"

lemma reading_start:
  assumes "length d < 2 ^ 62"
  shows "reading (SetBuffer Init (Some d) True) d"
proof -
  have "unat (of_nat (length d) :: uint64) = length d" using assms by (simp add: unat_of_nat_eq)
  then show ?thesis by (simp add: reading_def SetBuffer_def buf_ok_def contents_def mem_def)
qed

lemma reading_fits: "reading b (d @ rest) \<Longrightarrow> unat (m_uPosition b) + length d \<le> unat (m_uSize b)"
proof -
  assume r: "reading b (d @ rest)"
  then have "length (drop (unat (m_uPosition b)) (contents b)) = length d + length rest" by (simp add: reading_def)
  moreover have "unat (m_uPosition b) \<le> unat (m_uSize b)" using r by (simp add: reading_def buf_ok_def word_le_nat_alt)
  moreover have "length (contents b) = unat (m_uSize b)" using r by (simp add: reading_def length_contents)
  ultimately show ?thesis by simp
qed

lemma reading_advance:
  assumes "reading b (d @ rest)" and "unat n = length d"
  shows "reading (b\<lparr>m_uPosition := m_uPosition b + n\<rparr>) rest"
    and "unat (m_uPosition b + n) = unat (m_uPosition b) + length d"
proof -
  have fit: "unat (m_uPosition b) + length d \<le> unat (m_uSize b)" by (rule reading_fits [OF assms(1)])
  then have "unat (m_uPosition b) + unat n < 2 ^ 64" using unat_lt2p [of "m_uSize b"] assms(2) by simp
  then show add: "unat (m_uPosition b + n) = unat (m_uPosition b) + length d"
    using assms(2) by (simp add: unat_word_ariths)
  have "drop (unat (m_uPosition b) + length d) (contents b) = drop (length d) (d @ rest)"
    using assms(1) by (simp add: reading_def add.commute flip: drop_drop)
  then show "reading (b\<lparr>m_uPosition := m_uPosition b + n\<rparr>) rest"
    using assms(1) add fit by (simp add: reading_def buf_ok_def word_le_nat_alt contents_def mem_def)
qed

lemma read_data:
  assumes "reading b (d @ rest)" and "unat n = length d" and "n \<noteq> - 1"
  obtains b' where "ReadQData b n = Ret d b'" and "reading b' rest"
proof -
  have fit: "unat (m_uPosition b) + unat n \<le> unat (m_uSize b)" using reading_fits [OF assms(1)] assms(2) by simp
  have "ReadQData b n = Ret (take (unat n) (drop (unat (m_uPosition b)) (contents b))) (b\<lparr>m_uPosition := m_uPosition b + n\<rparr>)"
    using ReadQData_spec [OF _ assms(3) fit] assms(1) by (simp add: reading_def)
  also have "take (unat n) (drop (unat (m_uPosition b)) (contents b)) = d"
    using assms(1,2) by (simp add: reading_def)
  finally show thesis using reading_advance(1) [OF assms(1,2)] by (rule that)
qed

lemma read_value:
  fixes v :: "'a::len word"
  assumes "reading b (to_le v @ rest)" and "8 dvd LENGTH('a)" and "LENGTH('a) div 8 < 2 ^ 32"
  obtains b' where "ReadValue b False = Ret v b'" and "reading b' rest"
proof -
  let ?n = "of_nat (LENGTH('a) div 8) :: uint64"
  have u: "unat ?n = length (to_le v)" using assms(3) by (simp add: unat_of_nat_eq)
  have "?n \<noteq> - 1"
  proof
    assume "?n = - 1"
    then have "LENGTH('a) div 8 = 18446744073709551615" using u unat_max64 by simp
    then show False using assms(3) by simp
  qed
  from read_data [OF assms(1) u this] obtain b' where "ReadQData b ?n = Ret (to_le v) b'" "reading b' rest" .
  then show thesis by (intro that [of b']) (simp_all add: ReadValue_def from_to_le [OF assms(2)])
qed

end
