(* ===== verification/HashTree.thy ===== *)
theory HashTree
  imports HashBase BufferIO "HOL-Library.Monad_Syntax"
begin

text \<open>
  The hash tree \<open>CFileHashTree\<close> (FileList/Hashing/FileHashTree.cpp, FileHashTree.h) and the variant
  with a meta data hash \<open>CFileHashTreeEx\<close> (FileHashTreeEx.cpp). A node pointer is a \<open>hnode\<close>, \<open>Null\<close>
  is the null pointer. What \<open>malloc\<close> leaves in the hash of a fresh node is the parameter \<open>junk\<close>. The
  hash function is the parameter \<open>H\<close>. The virtual \<open>SetTree\<close>, which the derived class overrides, is
  the parameter \<open>set_tree\<close> of the operations that call it.

  Ranges of the file are pairs of 64 bit words, as in the code; a shift by the full width, which C++
  leaves undefined, is the parameter \<open>shl\<close> of \<open>round_pow2\<close> and zero elsewhere.
\<close>

section \<open>Nodes\<close>

datatype hnode = Null | Node (pHash: bytes) (Left: hnode) (Right: hnode)

fun IsLeaf :: "hnode \<Rightarrow> bool" where
  "IsLeaf Null = True"
| "IsLeaf (Node h l r) = (l = Null \<or> r = Null)"

definition allocNode :: "bytes \<Rightarrow> hnode" where
  "allocNode junk = Node junk Null Null"

record hash_tree = file_hash_ex +
  m_BlockSize :: uint64
  m_PartSize :: uint64
  m_TreeRoot :: hnode
  m_DepthLimit :: int

definition new_hash_tree :: "hash_type \<Rightarrow> uint64 \<Rightarrow> uint64 \<Rightarrow> int \<Rightarrow> hash_tree" where
  "new_hash_tree t TotalSize BlockSize DepthLimit =
     file_hash.extend (new_file_hash t)
       \<lparr>m_TotalSize = TotalSize, m_StatusMap = [], m_CorruptionSet = [],
        m_BlockSize = (if t \<in> {HashNeo, HashXNeo} then 262144
          else if t = HashMule then 184320
          else if t = HashTigerTree then 1024
          else if t = HashTorrent then (if BlockSize = - 1 then 65536 else BlockSize)
          else - 1),
        m_PartSize = (if t = HashMule then 9728000 else - 1),
        m_TreeRoot = Null,
        m_DepthLimit = (if t \<in> {HashNeo, HashXNeo} then (if DepthLimit = - 1 then 12 else DepthLimit)
          else if t = HashTigerTree then (if DepthLimit = - 1 then 8 else DepthLimit)
          else 64)\<rparr>"

definition GetBlockSize :: "'z hash_tree_scheme \<Rightarrow> uint64" where
  "GetBlockSize t = (if m_BlockSize t = - 1 then 0 else m_BlockSize t)"

definition GetPartSize :: "'z hash_tree_scheme \<Rightarrow> uint64" where
  "GetPartSize t = (if m_PartSize t = - 1 then 0 else m_PartSize t)"

definition Unload_tree :: "'z hash_tree_scheme \<Rightarrow> 'z hash_tree_scheme" where
  "Unload_tree t = t\<lparr>m_TreeRoot := Null\<rparr>"

definition IsLoaded_tree :: "'z hash_tree_scheme \<Rightarrow> bool" where
  "IsLoaded_tree t = (m_TreeRoot t \<noteq> Null)"

section \<open>Sizes of trees and branches\<close>

text \<open>\<open>for (Pos = 0; TotalCount > 0; TotalCount >>= 1, ++Pos)\<close>.\<close>

function bit_count :: "int \<Rightarrow> nat" where
  "bit_count c = (if c > 0 then Suc (bit_count (c div 2)) else 0)"
  by pat_completeness auto
termination
  by (relation "measure nat") auto

declare bit_count.simps [simp del]

definition GetTreeSize :: "'z hash_tree_scheme \<Rightarrow> uint64" where
  "GetTreeSize t =
     (if m_eHashType t = HashTorrent
      then of_int (to_int32 (2 ^ bit_count (to_int (DivUp (m_TotalSize t) (m_BlockSize t))))) * m_BlockSize t
      else m_TotalSize t)"

datatype balance = eLeft | eRight

text \<open>\<open>while(LeftCount >> (pos+1)) pos ++\<close>: the highest bit that is set.\<close>

function highest_bit :: "uint64 \<Rightarrow> nat \<Rightarrow> nat" where
  "highest_bit w pos = (if drop_bit (pos + 1) w \<noteq> 0 then highest_bit w (pos + 1) else pos)"
  by pat_completeness auto
termination
proof (relation "measure (\<lambda>(w, pos). 64 - pos)", goal_cases)
  case (2 w pos)
  then obtain n where "bit (drop_bit (pos + 1) w) n" by (auto simp: bit_eq_iff)
  then have "pos + 1 + n < 64" using bit_imp_le_length [of w "pos + 1 + n"] by (simp add: bit_drop_bit_eq)
  then show ?case by simp
qed simp

declare highest_bit.simps [simp del]

definition round_pow2 :: "(nat \<Rightarrow> uint64 \<Rightarrow> uint64) \<Rightarrow> uint64 \<Rightarrow> uint64" where
  "round_pow2 shl LeftCount =
     (let pos = highest_bit LeftCount 0;
          pos = (if shl (64 - pos) LeftCount \<noteq> 0 then pos + 1 else pos)
      in push_bit pos 1)"

definition branch_unit :: "'z hash_tree_scheme \<Rightarrow> uint64 \<Rightarrow> uint64" where
  "branch_unit t uSize = (if m_PartSize t \<noteq> - 1 \<and> uSize > m_PartSize t then m_PartSize t else m_BlockSize t)"

definition GetBrancheSize :: "'z hash_tree_scheme \<Rightarrow> uint64 \<Rightarrow> uint64 \<Rightarrow> balance \<Rightarrow> uint64" where
  "GetBrancheSize t b e Balance =
     (let uSize = e - b;
          BlockSize = branch_unit t uSize;
          Count = to_int (DivUp uSize BlockSize)
      in if Count \<le> 1 then uSize
         else
           let LeftCount = of_int (Count div 2);
               LeftCount =
                 (if m_eHashType t \<in> {HashTigerTree, HashTorrent} then round_pow2 push_bit LeftCount
                  else if Balance \<noteq> eRight \<and> Count mod 2 = 1 then LeftCount + 1 else LeftCount)
           in LeftCount * BlockSize)"

section \<open>Calculating hashes\<close>

definition CalculateLeaf :: "hash_function \<Rightarrow> 'z hash_tree_scheme \<Rightarrow> device \<Rightarrow> uint64 \<Rightarrow> uint64 \<Rightarrow> hnode" where
  "CalculateLeaf H t f b e =
     (if sint b \<ge> int (dev_size f) then Node (replicate (m_uHashSize t) 0) Null Null
      else
        let e = (if sint e > int (dev_size f) then of_nat (dev_size f) else e);
            mark = (if m_eHashType t = HashTigerTree then [0x00] else [])
        in case read_loop f (unat b) (unat (e - b)) of
             None \<Rightarrow> Null
           | Some d \<Rightarrow> Node (H (GetAlgorithm (m_eHashType t)) (mark @ d)) Null Null)"

definition branch_hash :: "hash_function \<Rightarrow> hash_type \<Rightarrow> bytes \<Rightarrow> bytes \<Rightarrow> bytes" where
  "branch_hash H ty l r =
     H (GetAlgorithm ty) ((if ty = HashTigerTree then [0x01] else []) @ l @ r)"

definition CalculateBranche :: "hash_function \<Rightarrow> 'z hash_tree_scheme \<Rightarrow> hnode \<Rightarrow> hnode" where
  "CalculateBranche H t n =
     Node (branch_hash H (m_eHashType t) (pHash (Left n)) (pHash (Right n))) (Left n) (Right n)"

function CalculateRange :: "hash_function \<Rightarrow> bytes \<Rightarrow> 'z hash_tree_scheme \<Rightarrow> device \<Rightarrow> uint64 \<Rightarrow> uint64 \<Rightarrow>
    balance \<Rightarrow> int \<Rightarrow> hnode" where
  "CalculateRange H junk t f b e Balance Depth =
     (let s = GetBrancheSize t b e Balance
      in if s = 0 then Null
         else if s \<ge> e - b then CalculateLeaf H t f b e
         else
           let L = CalculateRange H junk t f b (b + s) eLeft (Depth + 1)
           in if L = Null then Null
              else
                let R = CalculateRange H junk t f (b + s) e eRight (Depth + 1)
                in if R = Null then Null
                   else
                     let n = CalculateBranche H t (Node junk L R)
                     in if Depth + 1 \<ge> m_DepthLimit t then Node (pHash n) Null Null else n)"
  by pat_completeness auto
termination
proof (relation "measure (\<lambda>(H, junk, t, f, b, e, bal, d). unat (e - b))", goal_cases)
  case (2 H junk t f b e bal d s)
  then show ?case by (simp add: word_less_nat_alt not_le)
next
  case (3 H junk t f b e bal d s L)
  then have "s < e - b" "s \<noteq> 0" by (simp_all add: not_le)
  then have "unat (e - (b + s)) = unat (e - b) - unat s" "0 < unat s" "unat s < unat (e - b)"
    using unat_sub [of s "e - b"]
    by (simp_all add: word_less_nat_alt unat_gt_0 less_imp_le diff_diff_add [symmetric])
  then show ?case by simp
qed simp

declare CalculateRange.simps [simp del]

fun CalculateTree :: "hash_function \<Rightarrow> 'z hash_tree_scheme \<Rightarrow> hnode \<Rightarrow> hnode option" where
  "CalculateTree H t Null = None"
| "CalculateTree H t (Node h l r) =
     (if IsLeaf (Node h l r) then Some (Node h l r)
      else case CalculateTree H t l of
             None \<Rightarrow> None
           | Some l' \<Rightarrow>
               (case CalculateTree H t r of
                  None \<Rightarrow> None
                | Some r' \<Rightarrow> Some (CalculateBranche H t (Node h l' r'))))"

fun TrimTree :: "hnode \<Rightarrow> int \<Rightarrow> hnode" where
  "TrimTree Null Depth = Null"
| "TrimTree (Node h l r) Depth =
     (if IsLeaf (Node h l r) then Node h l r
      else if Depth - 1 > 0 then Node h (TrimTree l (Depth - 1)) (TrimTree r (Depth - 1))
      else Node h Null Null)"

type_synonym 'z tree_setter = "'z hash_tree_scheme \<Rightarrow> hnode \<Rightarrow> bool \<times> 'z hash_tree_scheme"

definition SetTree :: "'z tree_setter" where
  "SetTree t n =
     (if m_eHashType t = HashTorrent then (True, t\<lparr>m_TreeRoot := n\<rparr>)
      else if \<not> IsValid t then (True, (SetHash_ptr t (Some (pHash n)))\<lparr>m_TreeRoot := n\<rparr>)
      else if \<not> Compare_ptr t (pHash n) then (False, t)
      else (True, t\<lparr>m_TreeRoot := n\<rparr>))"

definition Calculate_tree :: "'z tree_setter \<Rightarrow> hash_function \<Rightarrow> bytes \<Rightarrow> 'z hash_tree_scheme \<Rightarrow> device \<Rightarrow>
    bool \<times> 'z hash_tree_scheme" where
  "Calculate_tree set_tree H junk t f =
     (let t = Unload_tree t
      in if dev_size f = 0 then (False, t)
         else
           let t = t\<lparr>m_TotalSize := of_nat (dev_size f)\<rparr>;
               t = SetHash_ptr t None;
               n = CalculateRange H junk t f 0 (GetTreeSize t) eLeft 1
           in if n = Null then (False, t) else set_tree t n)"

section \<open>Verifying the file\<close>

text \<open>
  Is there a range of the branch that is selected, available and not yet known to be good? The loop
  stops at the first one. \<open>None\<close>: a bit outside the status map was read.
\<close>

fun unverified_range :: "'z hash_tree_scheme \<Rightarrow> uint64 \<Rightarrow> uint64 \<Rightarrow> (uint64 \<times> uint64 \<times> part_range) list \<Rightarrow>
    bool option" where
  "unverified_range t from to [] = Some False"
| "unverified_range t from to ((b, e, st) # rs) =
     (if \<not> (from < e \<and> to > b) then unverified_range t from to rs
      else if uStates st AND Part_Available = 0 then unverified_range t from to rs
      else case GetResult (GetBlockSize t) (GetPartSize t) t b e of
             None \<Rightarrow> None
           | Some True \<Rightarrow> unverified_range t from to rs
           | Some False \<Rightarrow> Some True)"

definition leaf_known :: "'z hash_tree_scheme \<Rightarrow> part_map \<Rightarrow> hashing_mode \<Rightarrow> uint64 \<Rightarrow> uint64 \<Rightarrow> bool option" where
  "leaf_known t rm Mode b e =
     (if Mode = eVerifyParts then
        (case GetResult (GetBlockSize t) (GetPartSize t) t b e of
           None \<Rightarrow> None
         | Some True \<Rightarrow> Some True
         | Some False \<Rightarrow> Some (uStates (GetRange part_ops rm b e eInter (SPartRange 0)) AND Part_Available = 0))
      else Some False)"

definition branch_known :: "'z hash_tree_scheme \<Rightarrow> part_map \<Rightarrow> hashing_mode \<Rightarrow> uint64 \<Rightarrow> uint64 \<Rightarrow> uint64 \<Rightarrow>
    uint64 \<Rightarrow> bool option" where
  "branch_known t rm Mode from to b e =
     (if Mode = eVerifyParts then
        do { rs \<leftarrow> iterate_ranges part_ops rm (new_iterator part_ops b e True) (SPartRange 0);
             found \<leftarrow> unverified_range t from to rs;
             Some (\<not> found) }
      else Some False)"

fun VerifyBranche :: "hash_function \<Rightarrow> bytes \<Rightarrow> device \<Rightarrow> part_map \<Rightarrow> uint64 \<Rightarrow> uint64 \<Rightarrow> hashing_mode \<Rightarrow>
    hnode \<Rightarrow> uint64 \<Rightarrow> uint64 \<Rightarrow> balance \<Rightarrow> 'z hash_tree_scheme \<Rightarrow> (bool \<times> 'z hash_tree_scheme) option" where
  "VerifyBranche H junk f rm from to Mode Null b e Balance t =
     (if b > m_TotalSize t then Some (True, t) else Some (False, t))"
| "VerifyBranche H junk f rm from to Mode (Node h l r) b e Balance t =
     (if b > m_TotalSize t then Some (True, t)
      else
        let s = GetBrancheSize t b e Balance;
            bLeaf = (s \<ge> e - b)
        in if bLeaf \<or> IsLeaf (Node h l r) then
             (if \<not> (from < e \<and> to > b) then Some (True, t)
              else case leaf_known t rm Mode b e of
                     None \<Rightarrow> None
                   | Some True \<Rightarrow> Some (True, t)
                   | Some False \<Rightarrow>
                       let Test = (if bLeaf then CalculateLeaf H t f b e
                                   else CalculateRange H junk t f b e Balance 1);
                           bResult = (Test \<noteq> Null \<and> h = pHash Test);
                           e = (if e > m_TotalSize t then m_TotalSize t else e)
                       in if Mode \<noteq> eRecoverParts \<or> bResult
                          then map_option (\<lambda>t. (True, t))
                                 (SetResult (GetBlockSize t) (GetPartSize t) t bResult b e)
                          else Some (True, t))
           else case branch_known t rm Mode from to b e of
                  None \<Rightarrow> None
                | Some True \<Rightarrow> Some (True, t)
                | Some False \<Rightarrow>
                    (case VerifyBranche H junk f rm from to Mode l b (b + s) eLeft t of
                       None \<Rightarrow> None
                     | Some (False, t) \<Rightarrow> Some (False, t)
                     | Some (True, t) \<Rightarrow>
                         VerifyBranche H junk f rm from to Mode r (b + s) e eRight t))"

definition Verify_tree :: "hash_function \<Rightarrow> bytes \<Rightarrow> device \<Rightarrow> part_map \<Rightarrow> uint64 \<Rightarrow> uint64 \<Rightarrow> hashing_mode \<Rightarrow>
    'z hash_tree_scheme \<Rightarrow> (bool \<times> 'z hash_tree_scheme) option" where
  "Verify_tree H junk f rm from to Mode t =
     (let t = ResetStatus t False
      in if m_TreeRoot t = Null then Some (False, t)
         else VerifyBranche H junk f rm from to Mode (m_TreeRoot t) 0 (GetTreeSize t) eLeft t)"

section \<open>How much of the tree is known\<close>

fun resolved_branch :: "'z hash_tree_scheme \<Rightarrow> hnode \<Rightarrow> uint64 \<Rightarrow> uint64 \<Rightarrow> balance \<Rightarrow> uint64 \<Rightarrow> uint64 \<Rightarrow>
    uint64 \<Rightarrow> int \<Rightarrow> bool" where
  "resolved_branch t Null b e Balance from to res Depth = (b > m_TotalSize t)"
| "resolved_branch t (Node h l r) b e Balance from to res Depth =
     (if b > m_TotalSize t then True
      else
        let s = GetBrancheSize t b e Balance
        in if s > res \<and> e > from \<and> b < to then
             (if IsLeaf (Node h l r) then Depth + 1 \<ge> m_DepthLimit t
              else resolved_branch t l b (b + s) eLeft from to res (Depth + 1) \<and>
                   resolved_branch t r (b + s) e eRight from to res (Depth + 1))
           else True)"

definition IsFullyResolved :: "'z hash_tree_scheme \<Rightarrow> uint64 \<Rightarrow> uint64 \<Rightarrow> uint64 \<Rightarrow> bool" where
  "IsFullyResolved t b e res =
     (if m_TreeRoot t = Null then False
      else
        let res = (if res = - 1 then m_BlockSize t else res);
            TotalSize = GetTreeSize t;
            e = (if e = - 1 then TotalSize else e)
        in resolved_branch t (m_TreeRoot t) 0 TotalSize eLeft b e res 1)"

definition CanHashParts_tree :: "'z hash_tree_scheme \<Rightarrow> bool" where
  "CanHashParts_tree t = IsFullyResolved t 0 (- 1) (if m_PartSize t \<noteq> - 1 then m_PartSize t else m_BlockSize t)"

definition CanHashBlocks_tree :: "'z hash_tree_scheme \<Rightarrow> bool" where
  "CanHashBlocks_tree t = IsFullyResolved t 0 (- 1) (- 1)"

definition IsComplete_tree :: "'z hash_tree_scheme \<Rightarrow> bool" where
  "IsComplete_tree t = (IsValid t \<and> CanHashBlocks_tree t)"

section \<open>Part hashes\<close>

text \<open>A node of a tree by the way from the root, \<open>True\<close> is left.\<close>

fun node_at :: "bool list \<Rightarrow> hnode \<Rightarrow> hnode" where
  "node_at [] n = n"
| "node_at (d # ds) n = (if n = Null then Null else node_at ds (if d then Left n else Right n))"

fun put_hash :: "bool list \<Rightarrow> bytes \<Rightarrow> hnode \<Rightarrow> hnode" where
  "put_hash p h Null = Null"
| "put_hash [] h (Node h' l r) = Node h l r"
| "put_hash (d # ds) h (Node h' l r) =
     (if d then Node h' (put_hash ds h l) r else Node h' l (put_hash ds h r))"

definition ensure_node :: "bytes \<Rightarrow> hnode \<Rightarrow> hnode" where
  "ensure_node junk n = (if n = Null then allocNode junk else n)"

text \<open>
  \<open>Expose\<close> returns the tree with the nodes it allocated and the way to the node of the range.
  The recursion need not end: \<open>None\<close> stands for a call that never returns.
\<close>

partial_function (option) Expose :: "bytes \<Rightarrow> 'z hash_tree_scheme \<Rightarrow> uint64 \<Rightarrow> uint64 \<Rightarrow> balance \<Rightarrow> hnode \<Rightarrow>
    uint64 \<Rightarrow> uint64 \<Rightarrow> (hnode \<times> bool list) option" where
  "Expose junk t b e Balance n from to =
     (let to = (if to > e then e else to)
      in if b = from \<and> e = to then Some (n, [])
         else
           let s = GetBrancheSize t b e Balance
           in if to \<le> b + s
              then do { (l, p) \<leftarrow> Expose junk t b (b + s) eLeft (ensure_node junk (Left n)) from to;
                        Some (Node (pHash n) l (Right n), True # p) }
              else do { (r, p) \<leftarrow> Expose junk t (b + s) e eRight (ensure_node junk (Right n)) from to;
                        Some (Node (pHash n) (Left n) r, False # p) })"

definition part_unit :: "'z hash_tree_scheme \<Rightarrow> uint64" where
  "part_unit t = (if m_PartSize t = - 1 then m_BlockSize t else m_PartSize t)"

text \<open>\<open>None\<close>: \<open>Expose\<close> does not return, or \<open>memcpy\<close> reads beyond the end of a short hash.\<close>

fun put_hashes :: "bytes \<Rightarrow> 'z hash_tree_scheme \<Rightarrow> int \<Rightarrow> bytes list \<Rightarrow> hnode \<Rightarrow> hnode option" where
  "put_hashes junk t Index [] n = Some n"
| "put_hashes junk t Index (h # hs) n =
     (let from = of_int Index * part_unit t; to = from + part_unit t
      in if length h < m_uHashSize t then None
         else do { (n, p) \<leftarrow> Expose junk t 0 (GetTreeSize t) eLeft n from to;
              put_hashes junk t (Index + 1) hs (put_hash p (take (m_uHashSize t) h) n) })"

definition SetHashSet_tree :: "'z tree_setter \<Rightarrow> hash_function \<Rightarrow> bytes \<Rightarrow> 'z hash_tree_scheme \<Rightarrow> bytes list \<Rightarrow>
    (bool \<times> 'z hash_tree_scheme) option" where
  "SetHashSet_tree set_tree H junk t hs =
     (if hs = [] \<or> length (hd hs) \<noteq> m_uHashSize t then Some (False, t)
      else do { n \<leftarrow> put_hashes junk t 0 hs (allocNode junk);
                Some (case CalculateTree H t n of None \<Rightarrow> (False, t) | Some n \<Rightarrow> set_tree t n) })"

text \<open>The loop of \<open>GetHashSet\<close>; it runs over \<open>m_TotalSize\<close>, not over the size of the tree.\<close>

partial_function (option) get_hashes :: "bytes \<Rightarrow> 'z hash_tree_scheme \<Rightarrow> uint64 \<Rightarrow> uint64 \<Rightarrow> hnode \<Rightarrow>
    (bytes list \<times> hnode) option" where
  "get_hashes junk t from to n =
     (if from < m_TotalSize t then
        let to = to + part_unit t
        in do { (n, p) \<leftarrow> Expose junk t 0 (m_TotalSize t) eLeft n from to;
                (hs, n') \<leftarrow> get_hashes junk t to to n;
                Some (pHash (node_at p n) # hs, n') }
      else Some ([], n))"

definition GetHashSet_tree :: "bytes \<Rightarrow> 'z hash_tree_scheme \<Rightarrow> (bytes list \<times> 'z hash_tree_scheme) option" where
  "GetHashSet_tree junk t =
     (if \<not> CanHashParts_tree t then Some ([], t)
      else do { (hs, n) \<leftarrow> get_hashes junk t 0 0 (m_TreeRoot t); Some (hs, t\<lparr>m_TreeRoot := n\<rparr>) })"

definition SetRootHash :: "'z tree_setter \<Rightarrow> bytes \<Rightarrow> 'z hash_tree_scheme \<Rightarrow> bytes \<Rightarrow> bool \<times> 'z hash_tree_scheme" where
  "SetRootHash set_tree junk t h =
     (case set_tree t (Node (take (m_uHashSize t) h) Null Null) of
        (True, t) \<Rightarrow> (True, t) | (False, t) \<Rightarrow> (False, t))"

definition GetRootHash :: "'z hash_tree_scheme \<Rightarrow> bytes" where
  "GetRootHash t = (if m_TreeRoot t = Null then [] else pHash (m_TreeRoot t))"

section \<open>Exchanging leafs\<close>

text \<open>\<open>Merge\<close> moves branches out of the source: both trees are results.\<close>

fun Merge_nodes :: "bytes \<Rightarrow> hnode \<Rightarrow> hnode \<Rightarrow> hnode \<times> hnode" where
  "Merge_nodes junk Null T = (Null, ensure_node junk T)"
| "Merge_nodes junk (Node sh sL sR) T =
     (case ensure_node junk T of
        Null \<Rightarrow> (Node sh sL sR, Null)
      | Node th tL tR \<Rightarrow>
          if IsLeaf (Node th tL tR) then
            (if \<not> IsLeaf (Node sh sL sR) then (Node sh Null Null, Node th sL sR)
             else (Node sh sL sR, Node th tL tR))
          else if \<not> IsLeaf (Node sh sL sR) then
            (case Merge_nodes junk sL tL of
               (sL', tL') \<Rightarrow>
                 (case Merge_nodes junk sR tR of (sR', tR') \<Rightarrow> (Node sh sL' sR', Node th tL' tR')))
          else (Node sh sL sR, Node th tL tR))"

text \<open>The result, this tree and the source afterwards.\<close>

definition AddLeafs :: "'z tree_setter \<Rightarrow> bytes \<Rightarrow> 'z hash_tree_scheme \<Rightarrow> 'y hash_tree_scheme \<Rightarrow>
    bool \<times> 'z hash_tree_scheme \<times> 'y hash_tree_scheme" where
  "AddLeafs set_tree junk t src =
     (if m_eHashType src \<noteq> m_eHashType t then (False, t, src)
      else if m_TreeRoot src = Null then (False, t, src)
      else
        case (if m_TreeRoot t = Null then set_tree t (Node (pHash (m_TreeRoot src)) Null Null)
              else (pHash (m_TreeRoot src) = pHash (m_TreeRoot t), t)) of
          (False, t) \<Rightarrow> (False, t, src)
        | (True, t) \<Rightarrow>
            (case Merge_nodes junk (m_TreeRoot src) (m_TreeRoot t) of
               (S, T) \<Rightarrow> (True, t\<lparr>m_TreeRoot := T\<rparr>, src\<lparr>m_TreeRoot := S\<rparr>)))"

text \<open>The hash of an inner node of the extracted tree is what \<open>malloc\<close> left there.\<close>

fun Extract :: "bytes \<Rightarrow> 'z hash_tree_scheme \<Rightarrow> hnode \<Rightarrow> uint64 \<Rightarrow> uint64 \<Rightarrow> balance \<Rightarrow> uint64 \<Rightarrow> uint64 \<Rightarrow>
    uint64 \<Rightarrow> hnode" where
  "Extract junk t Null b e Balance from to res = Null"
| "Extract junk t (Node h l r) b e Balance from to res =
     (let s = GetBrancheSize t b e Balance
      in if e > from \<and> b < to \<and> s < e - b \<and> s \<ge> res \<and> \<not> IsLeaf (Node h l r)
         then Node junk (Extract junk t l b (b + s) eLeft from to res)
                        (Extract junk t r (b + s) e eRight from to res)
         else Node h Null Null)"

definition GetLeafs :: "bytes \<Rightarrow> 'z hash_tree_scheme \<Rightarrow> uint64 \<Rightarrow> uint64 \<Rightarrow> hash_tree option" where
  "GetLeafs junk t from to =
     (if m_TreeRoot t = Null then None
      else Some ((new_hash_tree (m_eHashType t) (m_TotalSize t) (- 1) (- 1))
        \<lparr>m_TreeRoot := Extract junk t (m_TreeRoot t) 0 (GetTreeSize t) eLeft from to (m_BlockSize t)\<rparr>))"

section \<open>Saving and loading\<close>

type_synonym tree_dump = "(uint64 \<times> bytes) list"

fun save_branch :: "'z hash_tree_scheme \<Rightarrow> hnode \<Rightarrow> uint64 \<Rightarrow> int \<Rightarrow> tree_dump option" where
  "save_branch t Null TreePath DepthLimit = None"
| "save_branch t (Node h l r) TreePath DepthLimit =
     (let DepthLimit = (if DepthLimit = - 1 then m_DepthLimit t else DepthLimit)
      in if \<not> IsLeaf (Node h l r) \<and> DepthLimit > 0
         then do { L \<leftarrow> save_branch t l (push_bit 1 TreePath OR 1) (DepthLimit - 1);
                   R \<leftarrow> save_branch t r (push_bit 1 TreePath) (DepthLimit - 1);
                   Some (L @ R) }
         else Some [(TreePath, h)])"

definition Save_tree :: "'z hash_tree_scheme \<Rightarrow> int \<Rightarrow> tree_dump option" where
  "Save_tree t DepthLimit = save_branch t (m_TreeRoot t) 1 DepthLimit"

text \<open>\<open>None\<close>: the descent never ends, which happens for a negative number of steps to go.\<close>

partial_function (option) load_leaf :: "bytes \<Rightarrow> bytes \<Rightarrow> uint64 \<Rightarrow> int \<Rightarrow> hnode \<Rightarrow> hnode option" where
  "load_leaf junk h TreePath ToGo n =
     (if ToGo = 0 then Some (Node h (Left n) (Right n))
      else
        let n = (if IsLeaf n then Node (pHash n) (allocNode junk) (allocNode junk) else n)
        in if TreePath AND 0x8000000000000000 \<noteq> 0
           then do { l \<leftarrow> load_leaf junk h (push_bit 1 TreePath) (ToGo - 1) (Left n);
                     Some (Node (pHash n) l (Right n)) }
           else do { r \<leftarrow> load_leaf junk h (push_bit 1 TreePath) (ToGo - 1) (Right n);
                     Some (Node (pHash n) (Left n) r) })"

text \<open>\<open>for (; i < 64 && (TreePath & 0x8000000000000000) == 0; i++) TreePath <<= 1\<close>.\<close>

function top_align :: "nat \<Rightarrow> uint64 \<Rightarrow> nat \<times> uint64" where
  "top_align i p =
     (if i < 64 \<and> p AND 0x8000000000000000 = 0 then top_align (i + 1) (push_bit 1 p) else (i, p))"
  by pat_completeness auto
termination
  by (relation "measure (\<lambda>(i, p). 64 - i)") auto

declare top_align.simps [simp del]

fun load_leafs :: "bytes \<Rightarrow> tree_dump \<Rightarrow> hnode \<Rightarrow> hnode option" where
  "load_leafs junk [] n = Some n"
| "load_leafs junk ((p, h) # ds) n =
     (case top_align 0 p of
        (i, p) \<Rightarrow> do { n \<leftarrow> load_leaf junk h (push_bit 1 p) (64 - int i - 1) n; load_leafs junk ds n })"

definition Load_tree :: "'z tree_setter \<Rightarrow> hash_function \<Rightarrow> bytes \<Rightarrow> 'z hash_tree_scheme \<Rightarrow> tree_dump \<Rightarrow>
    (bool \<times> 'z hash_tree_scheme) option" where
  "Load_tree set_tree H junk t ds =
     do { n \<leftarrow> load_leafs junk ds (allocNode junk);
          Some (case CalculateTree H t n of None \<Rightarrow> (False, t) | Some n \<Rightarrow> set_tree t n) }"

text \<open>The binary form: the number of leafs, then the path and the hash of each.\<close>

fun write_leafs :: "(nat \<Rightarrow> uint8) \<Rightarrow> buffer \<Rightarrow> tree_dump \<Rightarrow> unit outcome" where
  "write_leafs mj B [] = Ret () B"
| "write_leafs mj B ((p, h) # ds) =
     bind_out (WriteValue mj B p False) (\<lambda>_ B. bind_out (WriteData mj B h) (\<lambda>_ B. write_leafs mj B ds))"

definition SaveBin_tree :: "(nat \<Rightarrow> uint8) \<Rightarrow> 'z hash_tree_scheme \<Rightarrow> int \<Rightarrow> unit outcome" where
  "SaveBin_tree mj t DepthLimit =
     (let ds = (case Save_tree t DepthLimit of None \<Rightarrow> [] | Some ds \<Rightarrow> ds)
      in bind_out (WriteValue mj Init (of_nat (length ds) :: uint32) False) (\<lambda>_ B. write_leafs mj B ds))"

fun read_leafs :: "nat \<Rightarrow> nat \<Rightarrow> buffer \<Rightarrow> tree_dump outcome" where
  "read_leafs sz 0 B = Ret [] B"
| "read_leafs sz (Suc n) B =
     bind_out (ReadValue B False) (\<lambda>p B. bind_out (ReadQData B (of_nat sz)) (\<lambda>h B.
       bind_out (read_leafs sz n B) (\<lambda>ds B. Ret ((p, h) # ds) B)))"

definition parse_leafs :: "nat \<Rightarrow> bytes \<Rightarrow> tree_dump outcome" where
  "parse_leafs sz array =
     bind_out (ReadValue (SetBuffer Init (Some array) True) False) (\<lambda>LeafCount B.
       read_leafs sz (unat (LeafCount :: uint32)) B)"

text \<open>\<open>None\<close>: the read of the buffer throws, leaves the allocation, or the load never returns.\<close>

definition LoadBin_tree :: "'z tree_setter \<Rightarrow> hash_function \<Rightarrow> bytes \<Rightarrow> 'z hash_tree_scheme \<Rightarrow> bytes \<Rightarrow>
    (bool \<times> 'z hash_tree_scheme) option" where
  "LoadBin_tree set_tree H junk t array =
     (case parse_leafs (m_uHashSize t) array of
        Ret ds B \<Rightarrow> Load_tree set_tree H junk t ds
      | _ \<Rightarrow> None)"

definition CFileHashTree_Clone :: "hash_function \<Rightarrow> bytes \<Rightarrow> 'z hash_tree_scheme \<Rightarrow> bool \<Rightarrow>
    (hash_tree \<times> 'z hash_tree_scheme) option" where
  "CFileHashTree_Clone H junk t bFull =
     (let c = snd (SetHash (new_hash_tree (m_eHashType t) (m_TotalSize t) (m_BlockSize t) (m_DepthLimit t)) (m_Hash t))
      in if bFull
         then do { (hs, t) \<leftarrow> GetHashSet_tree junk t;
                   (ok, c) \<leftarrow> SetHashSet_tree SetTree H junk c hs;
                   Some (c, t) }
         else Some (c, t))"

section \<open>Identifiers of the nodes\<close>

function highest_bit32 :: "uint32 \<Rightarrow> nat \<Rightarrow> nat" where
  "highest_bit32 w pos = (if drop_bit (pos + 1) w \<noteq> 0 \<and> pos < 32 then highest_bit32 w (pos + 1) else pos)"
  by pat_completeness auto
termination
  by (relation "measure (\<lambda>(w, pos). 32 - pos)") auto

declare highest_bit32.simps [simp del]

definition cbits :: "uint32 \<Rightarrow> uint32" where
  "cbits v =
     (let hob = push_bit (highest_bit32 v 0) 1;
          tmp = push_bit 1 hob - v
      in hob + tmp - 1)"

definition Neo2Merkle :: "uint32 \<Rightarrow> uint32" where
  "Neo2Merkle n = cbits n - 1"

definition Merkle2Neo :: "uint32 \<Rightarrow> uint32" where
  "Merkle2Neo m = cbits (m + 1)"

section \<open>CFileHashTreeEx\<close>

record hash_tree_ex = hash_tree +
  m_MetaHash :: bytes

definition HasMetaHash :: "hash_tree_ex \<Rightarrow> bool" where
  "HasMetaHash t = (m_MetaHash t \<noteq> [])"

definition IsComplete_ex :: "hash_tree_ex \<Rightarrow> bool" where
  "IsComplete_ex t = (IsComplete_tree t \<and> HasMetaHash t)"

definition meta_hash :: "hash_function \<Rightarrow> hash_type \<Rightarrow> bytes \<Rightarrow> bytes \<Rightarrow> bytes" where
  "meta_hash H ty MetaHash RootHash = H (GetAlgorithm ty) (MetaHash @ RootHash)"

definition HashMetaData :: "hash_function \<Rightarrow> hash_tree_ex \<Rightarrow> bytes \<Rightarrow> bytes" where
  "HashMetaData H t d = H (GetAlgorithm (m_eHashType t)) d"

definition Validate_ex :: "hash_function \<Rightarrow> hash_tree_ex \<Rightarrow> bool \<times> hash_tree_ex" where
  "Validate_ex H t =
     (let h = meta_hash H (m_eHashType t) (m_MetaHash t) (pHash (m_TreeRoot t))
      in if \<not> IsValid t then (True, SetHash_ptr t (Some h))
         else if \<not> Compare_ptr t h then (False, t\<lparr>m_MetaHash := [], m_TreeRoot := Null\<rparr>)
         else (True, t))"

definition SetTree_ex :: "hash_function \<Rightarrow> hash_tree_ex \<Rightarrow> hnode \<Rightarrow> bool \<times> hash_tree_ex" where
  "SetTree_ex H t n =
     (let t = t\<lparr>m_TreeRoot := n\<rparr> in if m_MetaHash t = [] then (True, t) else Validate_ex H t)"

definition SetMetaHash :: "hash_function \<Rightarrow> hash_tree_ex \<Rightarrow> bytes \<Rightarrow> bool \<times> hash_tree_ex" where
  "SetMetaHash H t MetaHash =
     (let t = t\<lparr>m_MetaHash := MetaHash\<rparr> in if m_TreeRoot t = Null then (True, t) else Validate_ex H t)"

definition Validate_hashes :: "hash_function \<Rightarrow> hash_tree_ex \<Rightarrow> bytes \<Rightarrow> bytes \<Rightarrow> bool" where
  "Validate_hashes H t MetaHash RootHash =
     (IsValid t \<and> Compare_ptr t (meta_hash H (m_eHashType t) MetaHash RootHash))"

definition Calculate_ex :: "hash_function \<Rightarrow> bytes \<Rightarrow> hash_tree_ex \<Rightarrow> device \<Rightarrow> bool \<times> hash_tree_ex" where
  "Calculate_ex H junk t f =
     (case Calculate_tree (SetTree_ex H) H junk t f of
        (False, t) \<Rightarrow> (False, t)
      | (True, t) \<Rightarrow> (True, SetHash_ptr t None))"

definition new_hash_tree_ex :: "hash_type \<Rightarrow> uint64 \<Rightarrow> uint64 \<Rightarrow> int \<Rightarrow> hash_tree_ex" where
  "new_hash_tree_ex ty TotalSize BlockSize DepthLimit =
     hash_tree.extend (new_hash_tree ty TotalSize BlockSize DepthLimit) \<lparr>m_MetaHash = []\<rparr>"

definition CFileHashTreeEx_Clone :: "hash_function \<Rightarrow> bytes \<Rightarrow> hash_tree_ex \<Rightarrow> bool \<Rightarrow>
    (hash_tree_ex \<times> hash_tree_ex) option" where
  "CFileHashTreeEx_Clone H junk t bFull =
     (let c = snd (SetHash (new_hash_tree_ex (m_eHashType t) (m_TotalSize t) (m_BlockSize t) (m_DepthLimit t)) (m_Hash t))
      in do { (c, t) \<leftarrow> (if bFull
                then do { (hs, t) \<leftarrow> GetHashSet_tree junk t;
                          (ok, c) \<leftarrow> SetHashSet_tree (SetTree_ex H) H junk c hs;
                          Some (c, t) }
                else Some (c, t));
              Some (if m_MetaHash t \<noteq> [] then snd (SetMetaHash H c (m_MetaHash t)) else c, t) })"

section \<open>Splitting a range\<close>

text \<open>
  The configurations the code creates: block and part sizes below 2^40, and a file (or, for torrents,
  a padded tree) whose number of blocks fits an \<open>int\<close>.
\<close>

definition size_ok :: "'z hash_tree_scheme \<Rightarrow> uint64 \<Rightarrow> bool" where
  "size_ok t n \<longleftrightarrow> 0 < m_BlockSize t \<and> unat (m_BlockSize t) < 2 ^ 40 \<and>
     (m_PartSize t \<noteq> - 1 \<longrightarrow> m_BlockSize t \<le> m_PartSize t \<and> unat (m_PartSize t) < 2 ^ 40) \<and>
     unat n < 2 ^ 62 \<and> ceil_div (unat n) (unat (m_BlockSize t)) < 2 ^ 31"

lemma size_ok_mono: "size_ok t n \<Longrightarrow> m \<le> n \<Longrightarrow> size_ok t m"
  using ceil_div_mono [of "unat m" "unat n" "unat (m_BlockSize t)"]
  by (auto simp: size_ok_def word_le_nat_alt)

lemma ceil_div_anti: "0 < a \<Longrightarrow> a \<le> b \<Longrightarrow> ceil_div n b \<le> ceil_div n a"
proof -
  assume ab: "0 < a" "a \<le> b"
  have "n \<le> ceil_div n a * a" using ceil_div_le_iff [OF ab(1)] by blast
  also have "\<dots> \<le> ceil_div n a * b" using ab(2) by simp
  finally show ?thesis using ceil_div_le_iff [of b n "ceil_div n a"] ab by simp
qed

lemma ceil_div_pred: "0 < n \<Longrightarrow> 0 < ceil_div a n \<Longrightarrow> (ceil_div a n - 1) * n < a"
proof -
  assume n: "0 < n" "0 < ceil_div a n"
  then have "\<not> ceil_div a n \<le> ceil_div a n - 1" by linarith
  then show ?thesis using ceil_div_le_iff [OF n(1), of a "ceil_div a n - 1"] by linarith
qed

lemma unit_bounds:
  assumes "size_ok t n"
  shows "0 < unat (branch_unit t n)" and "unat (branch_unit t n) < 2 ^ 40"
    and "ceil_div (unat n) (unat (branch_unit t n)) < 2 ^ 31" 
    and "unat (m_BlockSize t) \<le> unat (branch_unit t n)"
proof -
  have "0 < unat (m_BlockSize t)" using assms by (simp add: size_ok_def unat_gt_0 word_neq_0_conv)
  moreover show u: "unat (m_BlockSize t) \<le> unat (branch_unit t n)"
    using assms by (auto simp: size_ok_def branch_unit_def word_le_nat_alt)
  ultimately show "0 < unat (branch_unit t n)" by simp
  show "unat (branch_unit t n) < 2 ^ 40" using assms by (auto simp: size_ok_def branch_unit_def)
  have "ceil_div (unat n) (unat (branch_unit t n)) \<le> ceil_div (unat n) (unat (m_BlockSize t))"
    using \<open>0 < unat (m_BlockSize t)\<close> u by (rule ceil_div_anti)
  then show "ceil_div (unat n) (unat (branch_unit t n)) < 2 ^ 31" using assms by (simp add: size_ok_def)
qed

lemma block_count:
  assumes "size_ok t n"
  shows "to_int (DivUp n (branch_unit t n)) = int (ceil_div (unat n) (unat (branch_unit t n)))"
proof -
  note u = unit_bounds [OF assms]
  have "unat (DivUp n (branch_unit t n)) = ceil_div (unat n) (unat (branch_unit t n))"
  proof (rule DivUp_nat)
    show "unat n + unat (branch_unit t n) < 2 ^ 64" using assms u(2) by (simp add: size_ok_def)
    show "0 < branch_unit t n" using u(1) by (simp add: unat_gt_0 word_neq_0_conv)
  qed
  then have "uint (DivUp n (branch_unit t n)) = int (ceil_div (unat n) (unat (branch_unit t n)))"
    by (metis uint_nat)
  then show ?thesis using u(3) by (simp add: to_int_def to_int32_id)
qed

text \<open>The number of blocks in the left branch, for a range of \<open>n > 1\<close> blocks.\<close>

definition left_blocks :: "hash_type \<Rightarrow> balance \<Rightarrow> nat \<Rightarrow> nat" where
  "left_blocks ty bal n =
     (if ty \<in> {HashTigerTree, HashTorrent} then unat (round_pow2 push_bit (of_nat (n div 2)))
      else if bal \<noteq> eRight \<and> odd n then n div 2 + 1 else n div 2)"

lemma highest_bit_spec:
  assumes "drop_bit pos w \<noteq> 0"
  shows "pos \<le> highest_bit w pos \<and> drop_bit (highest_bit w pos) w \<noteq> 0 \<and> drop_bit (Suc (highest_bit w pos)) w = 0"
  using assms
proof (induction w pos rule: highest_bit.induct)
  case (1 w pos)
  show ?case
  proof (cases "drop_bit (pos + 1) w \<noteq> 0")
    case True
    then have "highest_bit w pos = highest_bit w (pos + 1)" by (subst highest_bit.simps) simp
    then show ?thesis using 1(1) [OF True] True by simp
  next
    case False
    then have "highest_bit w pos = pos" by (subst highest_bit.simps) simp
    then show ?thesis using False 1(2) by simp
  qed
qed

lemma drop_bit_zero: "(drop_bit n w = 0) = (unat (w :: 'a::len word) < 2 ^ n)"
proof -
  have "(drop_bit n w = 0) = (unat (drop_bit n w) = 0)" by (simp add: unat_eq_zero)
  also have "\<dots> = (unat w div 2 ^ n = 0)" unfolding unat_drop_bit_eq by (simp only: drop_bit_eq_div)
  finally show ?thesis by (simp add: div_eq_0_iff)
qed

lemma round_pow2_spec:
  assumes "0 < n" and "n < 2 ^ 32"
  shows "\<exists>k. unat (round_pow2 push_bit (of_nat n)) = 2 ^ k \<and> n \<le> 2 ^ k \<and> 2 ^ k < 2 * n"
proof -
  let ?w = "of_nat n :: uint64"
  let ?p = "highest_bit ?w 0"
  have w: "unat ?w = n" using assms(2) by (simp add: unat_of_nat_eq)
  then have "drop_bit 0 ?w \<noteq> 0" using assms(1) by auto
  from highest_bit_spec [OF this] have p: "2 ^ ?p \<le> n" "n < 2 ^ Suc ?p"
    by (auto simp: drop_bit_zero w not_less)
  have "(2 :: nat) ^ ?p < 2 ^ 32" using p(1) assms(2) by linarith
  then have p32: "?p < 32" by (rule power_less_imp_less_exp [rotated]) simp
  have "push_bit (64 - ?p) ?w = 0 \<longleftrightarrow> unat (push_bit (64 - ?p) ?w) = 0" by (simp add: unat_eq_zero)
  also have "\<dots> \<longleftrightarrow> n * 2 ^ (64 - ?p) mod 2 ^ 64 = 0"
    unfolding unsigned_push_bit_eq w by (simp add: take_bit_eq_mod push_bit_eq_mult)
  also have "\<dots> \<longleftrightarrow> 2 ^ ?p * 2 ^ (64 - ?p) dvd n * 2 ^ (64 - ?p)"
    using p32 by (simp add: mod_eq_0_iff_dvd flip: power_add)
  also have "\<dots> \<longleftrightarrow> 2 ^ ?p dvd n" by simp
  finally have split: "push_bit (64 - ?p) ?w = 0 \<longleftrightarrow> 2 ^ ?p dvd n" .
  have pw: "unat (push_bit k (1 :: uint64)) = 2 ^ k" if "k < 64" for k
    using power_strict_increasing [OF that, of "2 :: nat"]
    unfolding unsigned_push_bit_eq by (simp add: take_bit_eq_mod push_bit_eq_mult)
  show ?thesis
  proof (cases "2 ^ ?p dvd n")
    case True
    then obtain k where k: "n = 2 ^ ?p * k" by (rule dvdE)
    with p(1) assms(1) have "0 < k" by (cases k) simp_all
    moreover have "2 ^ ?p * k < 2 ^ ?p * 2" using p(2) k by (simp only: power_Suc mult.commute)
    then have "k < 2" by (simp only: nat_mult_less_cancel1 [of "2 ^ ?p"] zero_less_power zero_less_numeral simp_thms)
    ultimately have "k = 1" by linarith
    then have "n = 2 ^ ?p" using k unfolding \<open>k = 1\<close> mult_1_right by blast
    then have le: "n \<le> 2 ^ ?p" "2 ^ ?p < 2 * n" using assms(1) by linarith+
    have "unat (round_pow2 push_bit ?w) = 2 ^ ?p"
      using split True p32 pw [of ?p] by (simp add: round_pow2_def Let_def del: push_bit_of_1)
    with le show ?thesis by blast
  next
    case False
    then have "n \<noteq> 2 ^ ?p" by (metis dvd_refl)
    then have le: "n \<le> 2 ^ Suc ?p" "2 ^ Suc ?p < 2 * n" using p by auto
    have "unat (round_pow2 push_bit ?w) = unat (push_bit (Suc ?p) (1 :: uint64))"
      using split False by (simp add: round_pow2_def Let_def del: push_bit_of_1)
    also have "\<dots> = 2 ^ Suc ?p" using p32 by (intro pw) simp
    finally show ?thesis using le by blast
  qed
qed

lemma left_blocks_less:
  assumes "1 < n" and "n < 2 ^ 31"
  shows "0 < left_blocks ty bal n" and "left_blocks ty bal n < n"
proof -
  have "0 < n div 2" "n div 2 < 2 ^ 32" using assms by auto
  then obtain k where "unat (round_pow2 push_bit (of_nat (n div 2))) = 2 ^ k" "2 ^ k < 2 * (n div 2)"
    using round_pow2_spec by blast
  moreover have "2 * (n div 2) \<le> n" by simp
  ultimately show "0 < left_blocks ty bal n" "left_blocks ty bal n < n"
    using assms by (auto simp: left_blocks_def elim!: oddE)
qed

lemma GetBrancheSize_leaf:
  assumes "size_ok t (e - b)" and "ceil_div (unat (e - b)) (unat (branch_unit t (e - b))) \<le> 1"
  shows "GetBrancheSize t b e bal = e - b"
  using block_count [OF assms(1)] assms(2) by (simp add: GetBrancheSize_def Let_def)

lemma GetBrancheSize_blocks:
  assumes "size_ok t (e - b)" and "1 < ceil_div (unat (e - b)) (unat (branch_unit t (e - b)))"
  shows "unat (GetBrancheSize t b e bal) =
    left_blocks (m_eHashType t) bal (ceil_div (unat (e - b)) (unat (branch_unit t (e - b)))) * unat (branch_unit t (e - b))"
proof -
  let ?u = "branch_unit t (e - b)"
  define n where "n = ceil_div (unat (e - b)) (unat ?u)"
  note u = unit_bounds [OF assms(1)]
  have n: "1 < n" "n < 2 ^ 31" using assms(2) u(3) by (simp_all add: n_def)
  note lb = left_blocks_less [OF n, of "m_eHashType t" bal]
  have half: "(of_int (int n div 2) :: uint64) = of_nat (n div 2)" by (metis of_int_of_nat_eq of_nat_div of_nat_numeral)
  have "GetBrancheSize t b e bal = of_nat (left_blocks (m_eHashType t) bal n) * ?u"
    using block_count [OF assms(1)] n
    by (auto simp: GetBrancheSize_def Let_def left_blocks_def half odd_iff_mod_2_eq_one add.commute simp flip: n_def)
  moreover have "left_blocks (m_eHashType t) bal n * unat ?u < 2 ^ 64"
  proof -
    have "left_blocks (m_eHashType t) bal n * unat ?u < 2 ^ 24 * 2 ^ 40 \<or> True" by simp
    have "left_blocks (m_eHashType t) bal n \<le> n - 1" using lb(2) by simp
    then have "left_blocks (m_eHashType t) bal n * unat ?u \<le> (n - 1) * unat ?u" by (rule mult_le_mono1)
    also have "\<dots> \<le> unat (e - b)"
      using ceil_div_pred [OF u(1), of "unat (e - b)"] n(1) by (simp add: n_def)
    finally show ?thesis using unat_lt2p [of "e - b"] by simp
  qed
  ultimately show ?thesis using lb(2) n(2)
    by (simp add: n_def [symmetric] unat_word_ariths unat_of_nat_eq)
qed

text \<open>The left branch is a proper part of a range of several blocks and ends at a block.\<close>

lemma branch_split:
  assumes "size_ok t (e - b)" and "b < e" and "GetBrancheSize t b e bal < e - b"
  shows "0 < GetBrancheSize t b e bal" and "unat (branch_unit t (e - b)) dvd unat (GetBrancheSize t b e bal)"
    and "unat (branch_unit t (e - b)) < unat (e - b)"
proof -
  let ?u = "branch_unit t (e - b)"
  note u = unit_bounds [OF assms(1)]
  have "1 < ceil_div (unat (e - b)) (unat ?u)"
  proof (rule ccontr)
    assume "\<not> ?thesis"
    then have "GetBrancheSize t b e bal = e - b" using GetBrancheSize_leaf [OF assms(1), of bal] by linarith
    then show False using assms(3) by simp
  qed
  then have n: "1 < ceil_div (unat (e - b)) (unat ?u)" .
  note s = GetBrancheSize_blocks [OF assms(1) n, of bal]
  show "0 < GetBrancheSize t b e bal"
    using s left_blocks_less(1) [OF n u(3), of "m_eHashType t" bal] u(1) by (simp add: word_less_nat_alt)
  show "unat ?u dvd unat (GetBrancheSize t b e bal)" by (simp add: s)
  show "unat ?u < unat (e - b)" using ceil_div_le_iff [OF u(1), of "unat (e - b)" 1] n by simp
qed

lemma branch_leaf:
  assumes "size_ok t (e - b)" and "b < e" and "\<not> GetBrancheSize t b e bal < e - b"
  shows "GetBrancheSize t b e bal = e - b" and "e - b \<le> m_BlockSize t"
proof -
  let ?u = "branch_unit t (e - b)"
  note u = unit_bounds [OF assms(1)]
  have one: "ceil_div (unat (e - b)) (unat ?u) \<le> 1"
  proof (rule ccontr)
    assume "\<not> ?thesis"
    then have n: "1 < ceil_div (unat (e - b)) (unat ?u)" by simp
    define n where "n = ceil_div (unat (e - b)) (unat ?u)"
    note s = GetBrancheSize_blocks [OF assms(1) n, of bal]
    have "left_blocks (m_eHashType t) bal n \<le> n - 1"
      using left_blocks_less(2) [OF n u(3), of "m_eHashType t" bal] by (simp add: n_def)
    then have "left_blocks (m_eHashType t) bal n * unat ?u \<le> (n - 1) * unat ?u" by (rule mult_le_mono1)
    also have "\<dots> < unat (e - b)"
      using ceil_div_pred [OF u(1), of "unat (e - b)"] n by (simp add: n_def)
    finally show False using s assms(3) by (simp add: word_less_nat_alt n_def)
  qed
  show "GetBrancheSize t b e bal = e - b" by (rule GetBrancheSize_leaf [OF assms(1) one])
  have "unat (e - b) \<le> unat ?u" using ceil_div_le_iff [OF u(1), of "unat (e - b)" 1] one by simp
  then show "e - b \<le> m_BlockSize t"
    using u by (auto simp: branch_unit_def word_le_nat_alt word_less_nat_alt split: if_splits)
qed

section \<open>The ranges a traversal visits\<close>

inductive branch_range :: "'z hash_tree_scheme \<Rightarrow> uint64 \<Rightarrow> uint64 \<Rightarrow> balance \<Rightarrow> bool" for t where
  root: "branch_range t 0 (GetTreeSize t) eLeft"
| left: "branch_range t b e bal \<Longrightarrow> GetBrancheSize t b e bal < e - b \<Longrightarrow>
    branch_range t b (b + GetBrancheSize t b e bal) eLeft"
| right: "branch_range t b e bal \<Longrightarrow> GetBrancheSize t b e bal < e - b \<Longrightarrow>
    branch_range t (b + GetBrancheSize t b e bal) e eRight"

text \<open>The assertions of \<open>GetBrancheSize\<close> and of its callers.\<close>

definition asserts_hold :: "'z hash_tree_scheme \<Rightarrow> uint64 \<Rightarrow> uint64 \<Rightarrow> balance \<Rightarrow> bool" where
  "asserts_hold t b e bal \<longleftrightarrow> b < e \<and> GetBrancheSize t b e bal \<noteq> 0 \<and> GetBrancheSize t b e bal \<le> e - b \<and>
     (if m_PartSize t \<noteq> - 1 then
        if e - b > m_PartSize t then b mod m_PartSize t = 0
        else (let uOffset = b - b mod m_PartSize t
              in e - uOffset \<le> m_PartSize t \<and> (b - uOffset) mod m_BlockSize t = 0)
      else b mod m_BlockSize t = 0)"

text \<open>The invariant of the recursion over natural numbers; \<open>None\<close> is a tree without parts.\<close>

definition aligned :: "nat option \<Rightarrow> nat \<Rightarrow> nat \<Rightarrow> nat \<Rightarrow> bool" where
  "aligned ps bs b e = (b < e \<and> (case ps of
      None \<Rightarrow> b mod bs = 0
    | Some p \<Rightarrow> if e - b > p then b mod p = 0 else e \<le> b - b mod p + p \<and> (b mod p) mod bs = 0))"

lemma aligned_left:
  assumes "aligned ps bs b e" and "0 < s" and "s < e - b"
    and "(case ps of None \<Rightarrow> bs | Some p \<Rightarrow> if e - b > p then p else bs) dvd s"
  shows "aligned ps bs b (b + s)"
proof (cases ps)
  case None
  then show ?thesis using assms(1,2) by (simp add: aligned_def)
next
  case (Some p)
  show ?thesis
  proof (cases "e - b > p")
    case True
    then have "b mod p = 0" "p dvd s" using assms(1,4) Some by (simp_all add: aligned_def)
    moreover have "p \<le> s" using \<open>p dvd s\<close> assms(2) by (rule dvd_imp_le)
    ultimately show ?thesis using Some assms(2) by (auto simp: aligned_def)
  next
    case False
    then show ?thesis using Some assms by (auto simp: aligned_def)
  qed
qed

lemma aligned_right:
  assumes "aligned ps bs b e" and "0 < s" and "s < e - b" and "0 < bs" and "\<And>p. ps = Some p \<Longrightarrow> 0 < p"
    and "(case ps of None \<Rightarrow> bs | Some p \<Rightarrow> if e - b > p then p else bs) dvd s"
  shows "aligned ps bs (b + s) e"
proof (cases ps)
  case None
  then show ?thesis using assms(1,3,6) by (auto simp: aligned_def mod_eq_0_iff_dvd)
next
  case (Some p)
  then have p: "0 < p" using assms(5) by blast
  show ?thesis
  proof (cases "e - b > p")
    case True
    then have "b mod p = 0" "p dvd s" using assms(1,6) Some by (simp_all add: aligned_def)
    then have "(b + s) mod p = 0" by (simp add: mod_eq_0_iff_dvd)
    then show ?thesis using Some assms(3) by (auto simp: aligned_def)
  next
    case False
    let ?o = "b - b mod p"
    have a: "e \<le> ?o + p" "(b mod p) mod bs = 0" "bs dvd s" using False assms(1,6) Some by (simp_all add: aligned_def)
    have bo: "b = ?o + b mod p" by simp
    have lt: "b mod p + s < p" using a(1) assms(3) bo by linarith
    have m: "(b + s) mod p = b mod p + s" using mod_add_left_eq [of b p s] lt by simp    then have "(b + s) - (b + s) mod p = ?o" by simp
    moreover have "(b mod p + s) mod bs = 0" using a(2,3) by (simp add: mod_eq_0_iff_dvd)
    ultimately show ?thesis using Some False a(1) m assms(3) by (auto simp: aligned_def)
  qed
qed

definition part_nat :: "'z hash_tree_scheme \<Rightarrow> nat option" where
  "part_nat t = (if m_PartSize t = - 1 then None else Some (unat (m_PartSize t)))"

lemma unat_le_sub: "b \<le> (e :: 'a::len word) \<Longrightarrow> unat (e - b) = unat e - unat b"
  by (simp add: unat_sub)

lemma unat_add_le: "s \<le> e - b \<Longrightarrow> b \<le> e \<Longrightarrow> unat (b + s :: 'a::len word) = unat b + unat s"
proof -
  assume "s \<le> e - b" "b \<le> e"
  then have "unat b + unat s \<le> unat e" by (simp add: word_le_nat_alt unat_sub)
  then have "unat b + unat s < 2 ^ LENGTH('a)" by (rule order_le_less_trans) (rule unat_lt2p)
  then show ?thesis by (simp add: unat_word_ariths)
qed

lemma size_ok_sub: "size_ok t n \<Longrightarrow> b < e \<Longrightarrow> e \<le> n \<Longrightarrow> size_ok t (e - b)"
  by (rule size_ok_mono) (auto simp: word_le_nat_alt word_less_nat_alt unat_le_sub)

lemma branch_unit_nat: "unat (branch_unit t n) =
    (case part_nat t of None \<Rightarrow> unat (m_BlockSize t)
     | Some p \<Rightarrow> if unat n > p then p else unat (m_BlockSize t))"
  by (simp add: branch_unit_def part_nat_def word_less_nat_alt)

lemma branch_range_aligned:
  assumes "size_ok t (GetTreeSize t)" and "GetTreeSize t \<noteq> 0" and "branch_range t b e bal"
  shows "aligned (part_nat t) (unat (m_BlockSize t)) (unat b) (unat e) \<and> e \<le> GetTreeSize t"
  using assms(3)
proof induction
  case root
  show ?case using assms(2) by (auto simp: aligned_def unat_gt_0 split: option.split)
next
  case (left b e bal)
  let ?s = "GetBrancheSize t b e bal"
  have be: "b < e" "e \<le> GetTreeSize t" and a: "aligned (part_nat t) (unat (m_BlockSize t)) (unat b) (unat e)"
    using left.IH by (auto simp: aligned_def word_less_nat_alt)
  then have ok: "size_ok t (e - b)" using size_ok_sub [OF assms(1)] by blast
  note sp = branch_split [OF ok be(1) left.hyps(2)]
  have sub: "unat (e - b) = unat e - unat b" "unat (b + ?s) = unat b + unat ?s"
    using be(1) left.hyps(2) unat_add_le [of ?s e b] by (simp_all add: unat_le_sub less_imp_le)
  have s: "0 < unat ?s" "unat ?s < unat e - unat b" using sp(1) left.hyps(2) sub by (simp_all add: word_less_nat_alt)
  have "aligned (part_nat t) (unat (m_BlockSize t)) (unat b) (unat b + unat ?s)"
    by (rule aligned_left [OF a s sp(2) [unfolded branch_unit_nat sub(1)]])
  moreover have "b + ?s \<le> GetTreeSize t" using be s sub by (simp add: word_le_nat_alt)
  ultimately show ?case using sub(2) by simp
next
  case (right b e bal)
  let ?s = "GetBrancheSize t b e bal"
  have be: "b < e" "e \<le> GetTreeSize t" and a: "aligned (part_nat t) (unat (m_BlockSize t)) (unat b) (unat e)"
    using right.IH by (auto simp: aligned_def word_less_nat_alt)
  then have ok: "size_ok t (e - b)" using size_ok_sub [OF assms(1)] by blast
  note sp = branch_split [OF ok be(1) right.hyps(2)]
  have sub: "unat (e - b) = unat e - unat b" "unat (b + ?s) = unat b + unat ?s"
    using be(1) right.hyps(2) unat_add_le [of ?s e b] by (simp_all add: unat_le_sub less_imp_le)
  have s: "0 < unat ?s" "unat ?s < unat e - unat b" using sp(1) right.hyps(2) sub by (simp_all add: word_less_nat_alt)
  have bs: "0 < unat (m_BlockSize t)" "\<And>p. part_nat t = Some p \<Longrightarrow> 0 < p"
    using assms(1) by (auto simp: size_ok_def part_nat_def unat_gt_0 word_neq_0_conv split: if_splits)
  have "aligned (part_nat t) (unat (m_BlockSize t)) (unat b + unat ?s) (unat e)"
    by (rule aligned_right [OF a s bs sp(2) [unfolded branch_unit_nat sub(1)]])
  then show ?case using sub(2) be by simp
qed


lemma new_hash_tree_select [simp]:
  "m_eHashType (new_hash_tree ty n bs d) = ty"
  "m_TotalSize (new_hash_tree ty n bs d) = n"
  "m_BlockSize (new_hash_tree HashMule n bs d) = 184320"
  "m_PartSize (new_hash_tree HashMule n bs d) = 9728000"
  "m_BlockSize (new_hash_tree HashNeo n bs d) = 262144"
  "m_PartSize (new_hash_tree HashNeo n bs d) = - 1"
  "m_DepthLimit (new_hash_tree HashMule n bs d) = 64"
  "m_DepthLimit (new_hash_tree HashNeo n bs (- 1)) = 12"
  "m_TreeRoot (new_hash_tree ty n bs d) = Null"
  by (simp_all add: new_hash_tree_def file_hash.defs new_file_hash_def SetHash_ptr_def Let_def)


lemma round_pow2_exact:
  assumes "2 ^ j < n" and "n \<le> 2 ^ Suc j" and "0 < j" and "n < 2 ^ 31"
  shows "unat (round_pow2 push_bit (of_nat (n div 2))) = (if n = 2 ^ j + 1 then 2 ^ (j - 1) else 2 ^ j)"
proof -
  have j: "(2 :: nat) ^ j = 2 * 2 ^ (j - 1)" using assms(3) by (cases j) simp_all
  have "0 < n div 2" "n div 2 < 2 ^ 32" using assms j by auto
  then obtain k where k: "unat (round_pow2 push_bit (of_nat (n div 2))) = 2 ^ k" "n div 2 \<le> 2 ^ k" "2 ^ k < 2 * (n div 2)"
    using round_pow2_spec by blast
  show ?thesis
  proof (cases "n = 2 ^ j + 1")
    case True
    then have "n div 2 = 2 ^ (j - 1)" using j by simp
    then have "2 ^ (j - 1) \<le> (2 :: nat) ^ k" "(2 :: nat) ^ k < 2 ^ j" using k(2,3) j by simp_all
    then have "k = j - 1" using power_le_imp_le_exp [of "2 :: nat" "j - 1" k]
        power_less_imp_less_exp [of "2 :: nat" k j] by simp
    then show ?thesis using k(1) True by simp
  next
    case False
    then have "2 ^ (j - 1) < n div 2" using assms(1) j by linarith
    then have "(2 :: nat) ^ (j - 1) < 2 ^ k" using k(2) by linarith
    moreover have "(2 :: nat) ^ k < 2 ^ Suc j" using k(3) assms(2) by linarith
    ultimately have "k = j" using power_less_imp_less_exp [of "2 :: nat" "j - 1" k]
        power_less_imp_less_exp [of "2 :: nat" k "Suc j"] by simp
    then show ?thesis using k(1) False by simp
  qed
qed

text \<open>
  The left branch of a Tiger tree over \<open>n\<close> blocks has as many blocks as the largest power of two
  below \<open>n\<close> (the next power of two of one half), as the comment in the code demands, except for
  \<open>n = 2^j + 1\<close>: then it has only half of that. (For \<open>n = 2\<close> and \<open>n = 3\<close> the code shifts a 64 bit
  value by 64, which C++ leaves undefined; the model takes the result of such a shift to be zero.)
\<close>

theorem tiger_left_branch:
  assumes "size_ok t (e - b)" and "m_eHashType t = HashTigerTree" and "m_PartSize t = - 1"
    and "n = ceil_div (unat (e - b)) (unat (m_BlockSize t))" and "2 ^ j < n" and "n \<le> 2 ^ Suc j" and "3 < n"
  shows "unat (GetBrancheSize t b e bal) = (if n = 2 ^ j + 1 then 2 ^ (j - 1) else 2 ^ j) * unat (m_BlockSize t)"
proof -
  have u: "branch_unit t (e - b) = m_BlockSize t" using assms(3) by (simp add: branch_unit_def)
  have j: "0 < j" using assms(6,7) by (cases j) auto
  have "1 \<le> (2 :: nat) ^ j" by simp
  then have n: "1 < n" "n < 2 ^ 31" using assms(1,4,5) unfolding size_ok_def by linarith+
  have "left_blocks HashTigerTree bal n = (if n = 2 ^ j + 1 then 2 ^ (j - 1) else 2 ^ j)"
    using round_pow2_exact [OF assms(5,6) j n(2)] by (simp add: left_blocks_def)
  then show ?thesis using GetBrancheSize_blocks [OF assms(1), of bal] n(1) by (simp add: u assms(2) flip: assms(4))
qed

theorem tiger_left_branch_witness:
  "unat (GetBrancheSize (new_hash_tree HashTigerTree 5000 (- 1) (- 1)) 0 5000 eLeft) = 2048"
proof -
  let ?t = "new_hash_tree HashTigerTree 5000 (- 1) (- 1)"
  have t: "m_BlockSize ?t = 1024" "m_PartSize ?t = - 1"
    by (simp_all add: new_hash_tree_def file_hash.defs)
  have "size_ok ?t (5000 - 0)" by (simp add: size_ok_def ceil_div_def t)
  then have "unat (GetBrancheSize ?t 0 5000 eLeft) = (if 5 = (2 :: nat) ^ 2 + 1 then 2 ^ (2 - 1) else 2 ^ 2) * unat (m_BlockSize ?t)"
    by (rule tiger_left_branch) (simp_all add: ceil_div_def t)
  then show ?thesis by (simp add: t)
qed

section \<open>Calculated trees\<close>

lemma read_loop_file: "p + n \<le> length d \<Longrightarrow> read_loop (file_device d) p n = Some (take n (drop p d))"
proof (induction "file_device d" p n rule: read_loop.induct)
  case (1 p n)
  let ?k = "min 16384 n"
  show ?case
  proof (cases "n = 0")
    case False
    let ?d = "take ?k (drop p d)"
    have len: "length ?d = ?k" using 1(2) by simp
    have ne: "?d \<noteq> []" using len False by (metis length_0_conv min_0R min_def zero_neq_numeral)
    have dd: "take (min 16384 n) (dev_read (file_device d) p (min 16384 n)) = ?d" by (simp add: file_device_def)
    have "read_loop (file_device d) (p + ?k) (n - ?k) = Some (take (n - ?k) (drop (p + ?k) d))"
      using 1(1) [OF False dd [symmetric] ne] len 1(2) by simp
    then have "read_loop (file_device d) p n = Some (?d @ take (n - ?k) (drop (p + ?k) d))"
      using False ne len by (subst read_loop.simps) (simp add: Let_def dd [unfolded])
    also have "?d @ take (n - ?k) (drop (p + ?k) d) = take n (drop p d)"
      using take_add [of ?k "n - ?k" "drop p d"] by (simp add: add.commute)
    finally show ?thesis .
  qed (simp add: read_loop.simps)
qed

text \<open>Induction over the ranges of a traversal.\<close>

lemma split_facts:
  assumes "size_ok t (e - b)" and "b < e" and "GetBrancheSize t b e bal < e - b"
  defines "s \<equiv> GetBrancheSize t b e bal"
  shows "b < b + s" "b + s < e" "size_ok t ((b + s) - b)" "size_ok t (e - (b + s))"
    "unat (b + s) = unat b + unat s" "unat (e - (b + s)) < unat (e - b)" "unat ((b + s) - b) < unat (e - b)"
proof -
  have s0: "0 < s" unfolding s_def by (rule branch_split(1) [OF assms(1,2,3)])
  have sle: "s < e - b" using assms(3) by (simp add: s_def)
  show a: "unat (b + s) = unat b + unat s" using unat_add_le [of s e b] sle assms(2) by (simp add: less_imp_le)
  have n: "0 < unat s" "unat s < unat e - unat b"
    using s0 sle assms(2) by (simp_all add: word_less_nat_alt unat_le_sub less_imp_le)
  then show bs: "b < b + s" "b + s < e" using a by (simp_all add: word_less_nat_alt)
  have "unat (e - (b + s)) = unat e - (unat b + unat s)" using bs a by (simp add: unat_le_sub less_imp_le)
  moreover have "unat (e - b) = unat e - unat b" using assms(2) by (simp add: unat_le_sub less_imp_le)
  ultimately show d: "unat (e - (b + s)) < unat (e - b)" "unat ((b + s) - b) < unat (e - b)" using n by simp_all
  show "size_ok t ((b + s) - b)" "size_ok t (e - (b + s))"
    using size_ok_mono [OF assms(1)] d by (simp_all add: word_le_nat_alt less_imp_le)
qed

lemma range_induct [consumes 2, case_names leaf branch]:
  assumes "size_ok t (e - b)" and "b < e"
    and leaf: "\<And>b e bal. size_ok t (e - b) \<Longrightarrow> b < e \<Longrightarrow> \<not> GetBrancheSize t b e bal < e - b \<Longrightarrow> P b e bal"
    and branch: "\<And>b e bal. size_ok t (e - b) \<Longrightarrow> b < e \<Longrightarrow> GetBrancheSize t b e bal < e - b \<Longrightarrow>
      P b (b + GetBrancheSize t b e bal) eLeft \<Longrightarrow> P (b + GetBrancheSize t b e bal) e eRight \<Longrightarrow> P b e bal"
  shows "P b e bal"
  using assms(1,2)
proof (induction "unat (e - b)" arbitrary: b e bal rule: less_induct)
  case (less b e bal)
  show ?case
  proof (cases "GetBrancheSize t b e bal < e - b")
    case True
    note s = split_facts [OF less.prems True]
    show ?thesis
      using branch [OF less.prems True] less.hyps [OF s(7) s(3) s(1)] less.hyps [OF s(6) s(4) s(2)] by blast
  next
    case False
    then show ?thesis using leaf less.prems by blast
  qed
qed

lemma sint_small: "unat (w :: uint64) < 2 ^ 63 \<Longrightarrow> sint w = uint w"
proof -
  assume "unat w < 2 ^ 63"
  then have "uint w < 2 ^ 63" by (metis of_nat_less_iff of_nat_numeral of_nat_power of_nat_unat)
  moreover have "- (2 ^ 63) \<le> uint w" by (rule order_trans [of _ 0]) simp_all
  ultimately show ?thesis unfolding sint_uint by (simp add: signed_take_bit_int_eq_self)
qed

lemma int_uint_le: "(int n \<le> uint w) = (n \<le> unat w)"
  by (metis of_nat_le_iff of_nat_unat)

lemma int_uint_less: "(int n < uint w) = (n < unat w)"
  by (metis of_nat_less_iff of_nat_unat)

definition leaf_data :: "bytes \<Rightarrow> uint64 \<Rightarrow> uint64 \<Rightarrow> bytes" where
  "leaf_data d b e = take (min (unat e) (length d) - unat b) (drop (unat b) d)"

lemma dev_size_file: "dev_size (file_device d) = length d"
  by (simp add: file_device_def)

definition leaf_hash :: "hash_function \<Rightarrow> 'z hash_tree_scheme \<Rightarrow> bytes \<Rightarrow> uint64 \<Rightarrow> uint64 \<Rightarrow> bytes" where
  "leaf_hash H t d b e =
     (if length d \<le> unat b then replicate (m_uHashSize t) 0
      else H (GetAlgorithm (m_eHashType t)) ((if m_eHashType t = HashTigerTree then [0x00] else []) @ leaf_data d b e))"

lemma CalculateLeaf_file:
  assumes "b < e" and "unat e < 2 ^ 63" and "length d < 2 ^ 63"
  shows "CalculateLeaf H t (file_device d) b e = Node (leaf_hash H t d b e) Null Null"
proof (cases "length d \<le> unat b")
  case True
  have "unat b < 2 ^ 63" using assms(1,2) by (simp add: word_less_nat_alt)
  then show ?thesis using True
    by (simp add: CalculateLeaf_def leaf_hash_def sint_small file_device_def int_uint_le del: Let_def)
next
  case False
  let ?e = "if sint e > int (length d) then of_nat (length d) else e"
  have b: "unat b < 2 ^ 63" using assms(1,2) by (simp add: word_less_nat_alt)
  have e: "unat ?e = min (unat e) (length d)"
    using assms(2,3) by (auto simp: sint_small unat_of_nat_eq min_def int_uint_less)
  then have "b \<le> ?e" using False assms(1) by (auto simp: word_le_nat_alt word_less_nat_alt)
  then have "unat (?e - b) = min (unat e) (length d) - unat b" using e by (simp only: unat_le_sub)
  moreover have "read_loop (file_device d) (unat b) (min (unat e) (length d) - unat b) = Some (leaf_data d b e)"
    using False by (subst read_loop_file) (auto simp: leaf_data_def)
  moreover have "\<not> sint b \<ge> int (length d)" using False b by (simp add: sint_small int_uint_le)
  ultimately show ?thesis
    unfolding CalculateLeaf_def dev_size_file Let_def leaf_hash_def using False by (simp only: if_False option.case)
qed

lemma CalculateRange_leaf:
  assumes "size_ok t (e - b)" and "b < e" and "\<not> GetBrancheSize t b e bal < e - b"
  shows "CalculateRange H junk t f b e bal dep = CalculateLeaf H t f b e"
proof -
  have "e - b \<noteq> 0" using assms(2) by auto
  then show ?thesis using branch_leaf(1) [OF assms] by (subst CalculateRange.simps) simp
qed

lemma CalculateRange_branch:
  assumes "size_ok t (e - b)" and "b < e" and "GetBrancheSize t b e bal < e - b"
    and "CalculateRange H junk t f b (b + GetBrancheSize t b e bal) eLeft (dep + 1) = L" and "L \<noteq> Null"
    and "CalculateRange H junk t f (b + GetBrancheSize t b e bal) e eRight (dep + 1) = R" and "R \<noteq> Null"
  shows "CalculateRange H junk t f b e bal dep =
    (if dep + 1 \<ge> m_DepthLimit t then Node (branch_hash H (m_eHashType t) (pHash L) (pHash R)) Null Null
     else Node (branch_hash H (m_eHashType t) (pHash L) (pHash R)) L R)"
proof -
  have "GetBrancheSize t b e bal \<noteq> 0" using branch_split(1) [OF assms(1-3)] by auto
  moreover have "\<not> e - b \<le> GetBrancheSize t b e bal" using assms(3) by simp
  ultimately show ?thesis using assms(4-7)
    by (subst CalculateRange.simps) (auto simp: Let_def CalculateBranche_def dest: leD)
qed

text \<open>The reference: the hash of a range, without the tree that is kept of it.\<close>

function range_hash :: "hash_function \<Rightarrow> 'z hash_tree_scheme \<Rightarrow> bytes \<Rightarrow> uint64 \<Rightarrow> uint64 \<Rightarrow> balance \<Rightarrow> bytes" where
  "range_hash H t d b e bal =
     (let s = GetBrancheSize t b e bal
      in if s = 0 \<or> s \<ge> e - b then leaf_hash H t d b e
         else branch_hash H (m_eHashType t) (range_hash H t d b (b + s) eLeft) (range_hash H t d (b + s) e eRight))"
  by pat_completeness auto
termination
proof (relation "measure (\<lambda>(H, t, d, b, e, bal). unat (e - b))", goal_cases)
  case (2 H t d b e bal s)
  then show ?case by (simp add: word_less_nat_alt not_le)
next
  case (3 H t d b e bal s)
  then have "s < e - b" "s \<noteq> 0" by (simp_all add: not_le)
  then have "unat (e - (b + s)) = unat (e - b) - unat s" "0 < unat s" "unat s < unat (e - b)"
    using unat_sub [of s "e - b"]
    by (simp_all add: word_less_nat_alt unat_gt_0 less_imp_le diff_diff_add [symmetric])
  then show ?case by simp
qed simp

declare range_hash.simps [simp del]

lemma range_hash_leaf:
  assumes "size_ok t (e - b)" and "b < e" and "\<not> GetBrancheSize t b e bal < e - b"
  shows "range_hash H t d b e bal = leaf_hash H t d b e"
  using branch_leaf(1) [OF assms] by (subst range_hash.simps) simp

lemma range_hash_branch:
  assumes "size_ok t (e - b)" and "b < e" and "GetBrancheSize t b e bal < e - b"
  shows "range_hash H t d b e bal = branch_hash H (m_eHashType t)
      (range_hash H t d b (b + GetBrancheSize t b e bal) eLeft)
      (range_hash H t d (b + GetBrancheSize t b e bal) e eRight)"
proof -
  have "GetBrancheSize t b e bal \<noteq> 0" using branch_split(1) [OF assms] by auto
  then show ?thesis using assms(3) by (subst range_hash.simps) (auto simp: Let_def dest: leD)
qed

lemma CalculateRange_hash:
  assumes "size_ok t (e - b)" and "b < e" and "unat e < 2 ^ 63" and "length d < 2 ^ 63"
  shows "\<exists>l r. CalculateRange H junk t (file_device d) b e bal dep = Node (range_hash H t d b e bal) l r \<and> (l = Null) = (r = Null)"
  using assms(1-3)
proof (induction arbitrary: dep rule: range_induct)
  case (leaf b e bal)
  then show ?case
    using assms(4) by (simp add: CalculateRange_leaf range_hash_leaf CalculateLeaf_file)
next
  case (branch b e bal)
  let ?s = "GetBrancheSize t b e bal"
  have "unat (b + ?s) < 2 ^ 63" using split_facts(2) [OF branch.hyps] branch.prems by (simp add: word_less_nat_alt)
  then obtain l r where L: "CalculateRange H junk t (file_device d) b (b + ?s) eLeft (dep + 1) =
      Node (range_hash H t d b (b + ?s) eLeft) l r" using branch.IH(1) by blast
  obtain l' r' where R: "CalculateRange H junk t (file_device d) (b + ?s) e eRight (dep + 1) =
      Node (range_hash H t d (b + ?s) e eRight) l' r'" using branch.IH(2) branch.prems by blast
  show ?case
    using CalculateRange_branch [OF branch.hyps L _ R] range_hash_branch [OF branch.hyps] by simp
qed

lemma CalculateRange_resolved:
  assumes "size_ok t (e - b)" and "b < e" and "unat e < 2 ^ 63" and "length d < 2 ^ 63"
  shows "resolved_branch t (CalculateRange H junk t (file_device d) b e bal dep) b e bal from to (m_BlockSize t) dep"
  using assms(1-3)
proof (induction arbitrary: dep rule: range_induct)
  case (leaf b e bal)
  then show ?case
    using assms(4) branch_leaf [OF leaf.hyps]
    by (auto simp: CalculateRange_leaf CalculateLeaf_file Let_def dest: leD)
next
  case (branch b e bal)
  let ?s = "GetBrancheSize t b e bal"
  have m: "unat (b + ?s) < 2 ^ 63" using split_facts(2) [OF branch.hyps] branch.prems by (simp add: word_less_nat_alt)
  obtain L where L: "CalculateRange H junk t (file_device d) b (b + ?s) eLeft (dep + 1) = L" "L \<noteq> Null"
    using CalculateRange_hash [OF split_facts(3,1) [OF branch.hyps] m assms(4)] by blast
  obtain R where R: "CalculateRange H junk t (file_device d) (b + ?s) e eRight (dep + 1) = R" "R \<noteq> Null"
    using CalculateRange_hash [OF split_facts(4,2) [OF branch.hyps] branch.prems assms(4)] by blast
  show ?case
    using CalculateRange_branch [OF branch.hyps L R] branch.IH(1) [OF m, of "dep + 1"]
      branch.IH(2) [OF branch.prems, of "dep + 1"] L R
    by (simp add: Let_def)
qed

section \<open>Verifying a file against its own tree\<close>

definition same_conf :: "'z hash_tree_scheme \<Rightarrow> 'z hash_tree_scheme \<Rightarrow> bool" where
  "same_conf t t' \<longleftrightarrow> m_eHashType t' = m_eHashType t \<and> m_uHashSize t' = m_uHashSize t \<and>
     m_TotalSize t' = m_TotalSize t \<and> m_BlockSize t' = m_BlockSize t \<and> m_PartSize t' = m_PartSize t \<and>
     m_DepthLimit t' = m_DepthLimit t"

lemma same_conf_refl [simp]: "same_conf t t"
  by (simp add: same_conf_def)

lemma same_conf_trans: "same_conf t t' \<Longrightarrow> same_conf t' t'' \<Longrightarrow> same_conf t t''"
  by (simp add: same_conf_def)

lemma branch_unit_conf: "same_conf t t' \<Longrightarrow> branch_unit t' = branch_unit t"
  by (simp add: fun_eq_iff same_conf_def branch_unit_def)

lemma GetBrancheSize_conf: "same_conf t t' \<Longrightarrow> GetBrancheSize t' = GetBrancheSize t"
proof (intro ext)
  fix b e bal assume c: "same_conf t t'"
  have e: "m_eHashType t' = m_eHashType t" using c by (simp add: same_conf_def)
  show "GetBrancheSize t' b e bal = GetBrancheSize t b e bal"
    unfolding GetBrancheSize_def Let_def branch_unit_conf [OF c] e by (rule refl)
qed

lemma sizes_conf:
  assumes "same_conf t t'"
  shows "GetBlockSize t' = GetBlockSize t" "GetPartSize t' = GetPartSize t" "size_ok t' n = size_ok t n"
    "leaf_hash H t' = leaf_hash H t" "GetTreeSize t' = GetTreeSize t"
  using assms
  by (simp_all add: same_conf_def GetBlockSize_def GetPartSize_def size_ok_def leaf_hash_def fun_eq_iff GetTreeSize_def)

lemma range_hash_conf: "same_conf t t' \<Longrightarrow> range_hash H t' d b e bal = range_hash H t d b e bal"
proof (induction H t d b e bal rule: range_hash.induct)
  case (1 H t d b e bal)
  have c: "GetBrancheSize t' = GetBrancheSize t" "leaf_hash H t' = leaf_hash H t" "m_eHashType t' = m_eHashType t"
    using GetBrancheSize_conf [OF 1(3)] sizes_conf(4) [OF 1(3)] 1(3) by (simp_all add: same_conf_def)
  note eqs = range_hash.simps [of H t' d b e bal, unfolded Let_def c] range_hash.simps [of H t d b e bal, unfolded Let_def]
  show ?case
  proof (cases "GetBrancheSize t b e bal = 0 \<or> GetBrancheSize t b e bal \<ge> e - b")
    case True
    then show ?thesis unfolding eqs by (simp only: if_True)
  next
    case False
    from 1(1,2) [OF refl this 1(3)] False show ?thesis unfolding eqs by (simp only: if_False)
  qed
qed

lemma SetResult_conf:
  "SetResult bs ps t v b e = Some t' \<Longrightarrow> same_conf t t'"
  by (auto simp: SetResult_def same_conf_def)

abbreviation result_at :: "'z hash_tree_scheme \<Rightarrow> uint64 \<Rightarrow> uint64 \<Rightarrow> bool option" where
  "result_at t b e \<equiv> GetResult (GetBlockSize t) (GetPartSize t) t b e"

abbreviation status_wf :: "'z hash_tree_scheme \<Rightarrow> bool" where
  "status_wf t \<equiv> status_ok (GetBlockSize t) (GetPartSize t) (m_TotalSize t) \<and> bits_ok (GetBlockSize t) (GetPartSize t) t"

lemma GetResult_join:
  assumes "status_ok bs ps (m_TotalSize fh)" and "bits_ok bs ps fh" and "b < m" and "m < e" and "e \<le> m_TotalSize fh"
    and "GetResult bs ps fh b m = Some True" and "GetResult bs ps fh m e = Some True"
  shows "GetResult bs ps fh b e = Some True"
proof -
  let ?T = "m_TotalSize fh"
  let ?i = "\<lambda>b e. unat (fst (IndexRange bs ps ?T b e True))" and ?j = "\<lambda>b e. unat (snd (IndexRange bs ps ?T b e True))"
  obtain p u where pu: "block_unit bs ps = (p, u)" by (cases "block_unit bs ps")
  then have pos: "0 < p" "0 < u" using assms(1) by (simp_all add: status_ok_def)
  have be: "b < e" "m \<le> ?T" using assms(3-5) by simp_all
  have "?i m e \<le> ?j b m"
    using IndexRange_index(1) [OF assms(1,4,5) pu] IndexRange_index(2) [OF assms(1,3) be(2) pu] index_lo_le_hi [OF pos] by simp
  moreover have "?i b e = ?i b m"
    using IndexRange_index(1) [OF assms(1,3) be(2) pu] IndexRange_index(1) [OF assms(1) be(1) assms(5) pu] by simp
  moreover have "?j b e = ?j m e"
    using IndexRange_index(2) [OF assms(1,4,5) pu] IndexRange_index(2) [OF assms(1) be(1) assms(5) pu] by simp
  moreover have "m_StatusMap fh \<noteq> []" "\<And>n. ?i b m \<le> n \<Longrightarrow> n < ?j b m \<Longrightarrow> m_StatusMap fh ! n"
    using assms(6) GetResult_status [OF assms(1,2,3) be(2)] by auto
  moreover have "\<And>n. ?i m e \<le> n \<Longrightarrow> n < ?j m e \<Longrightarrow> m_StatusMap fh ! n"
    using assms(7) GetResult_status [OF assms(1,2,4,5)] by auto
  moreover have "m_StatusMap fh ! n" if n: "?i b e \<le> n" "n < ?j b e" for n
    using calculation n by (cases "n < ?j b m") simp_all
  ultimately show ?thesis using GetResult_status [OF assms(1,2) be(1) assms(5)] by simp
qed

lemma SetResult_True:
  assumes "status_ok bs ps (m_TotalSize fh)" and "bits_ok bs ps fh" and "b < e" and "e \<le> m_TotalSize fh"
  shows "\<exists>fh'. SetResult bs ps fh True b e = Some fh' \<and> bits_ok bs ps fh' \<and> m_TotalSize fh' = m_TotalSize fh \<and>
    m_CorruptionSet fh' = m_CorruptionSet fh \<and> GetResult bs ps fh' b e = Some True \<and>
    (\<forall>b' e'. b' < e' \<and> e' \<le> m_TotalSize fh \<and> GetResult bs ps fh b' e' = Some True \<longrightarrow> GetResult bs ps fh' b' e' = Some True)"
proof -
  let ?T = "m_TotalSize fh"
  let ?fh = "fh\<lparr>m_StatusMap := map (\<lambda>n. if unat (fst (IndexRange bs ps ?T b e True)) \<le> n \<and>
          n < unat (snd (IndexRange bs ps ?T b e True)) then True else status_map bs ps fh ! n)
        [0..<unat (GetStatusCount bs ps ?T)], m_CorruptionSet := m_CorruptionSet fh\<rparr>"
  have eq: "SetResult bs ps fh True b e = Some ?fh" using SetResult_status [OF assms] by simp
  have ok: "bits_ok bs ps ?fh" "status_ok bs ps (m_TotalSize ?fh)" using assms(1) by (simp_all add: bits_ok_def)
  have in1: "unat (snd (IndexRange bs ps ?T b e True)) \<le> unat (GetStatusCount bs ps ?T)"
    "unat (fst (IndexRange bs ps ?T b e True)) < unat (snd (IndexRange bs ps ?T b e True))"
    using IndexRange_in_map [OF assms(1,3,4)] IndexRange_nonempty [OF assms(1,3,4)] by blast+
  have "GetResult bs ps ?fh b e = Some True"
    using GetResult_status [OF ok(2,1) assms(3)] assms(4) in1 by auto
  moreover have "GetResult bs ps ?fh b' e' = Some True" if a: "b' < e'" "e' \<le> ?T" "GetResult bs ps fh b' e' = Some True" for b' e'
  proof -
    have "status_map bs ps fh = m_StatusMap fh"
      using a(3) GetResult_status [OF assms(1,2) a(1,2)] by (simp add: status_map_def)
    then show ?thesis
      using GetResult_status [OF ok(2,1) a(1)] GetResult_status [OF assms(1,2) a(1,2)] a(2,3) in1
        IndexRange_in_map [OF assms(1) a(1,2)] by auto
  qed
  ultimately show ?thesis using eq ok by (intro exI [of _ ?fh]) simp
qed

definition verified_step :: "'z hash_tree_scheme \<Rightarrow> 'z hash_tree_scheme \<Rightarrow> uint64 \<Rightarrow> uint64 \<Rightarrow> bool" where
  "verified_step t0 t1 b e \<longleftrightarrow> same_conf t0 t1 \<and> status_wf t1 \<and> m_CorruptionSet t1 = m_CorruptionSet t0 \<and>
     result_at t1 b e = Some True \<and>
     (\<forall>b' e'. b' < e' \<and> e' \<le> m_TotalSize t0 \<and> result_at t0 b' e' = Some True \<longrightarrow> result_at t1 b' e' = Some True)"

lemma SetResult_step:
  assumes "status_wf t0" and "b < e" and "e \<le> m_TotalSize t0"
  shows "\<exists>t1. SetResult (GetBlockSize t0) (GetPartSize t0) t0 True b e = Some t1 \<and> verified_step t0 t1 b e"
proof -
  obtain t1 where t1: "SetResult (GetBlockSize t0) (GetPartSize t0) t0 True b e = Some t1"
      "bits_ok (GetBlockSize t0) (GetPartSize t0) t1" "m_TotalSize t1 = m_TotalSize t0"
      "m_CorruptionSet t1 = m_CorruptionSet t0" "GetResult (GetBlockSize t0) (GetPartSize t0) t1 b e = Some True"
      "\<forall>b' e'. b' < e' \<and> e' \<le> m_TotalSize t0 \<and> GetResult (GetBlockSize t0) (GetPartSize t0) t0 b' e' = Some True \<longrightarrow>
        GetResult (GetBlockSize t0) (GetPartSize t0) t1 b' e' = Some True"
    using SetResult_True [of "GetBlockSize t0" "GetPartSize t0" t0 b e] assms by blast
  have c: "same_conf t0 t1" by (rule SetResult_conf [OF t1(1)])
  have s: "GetBlockSize t1 = GetBlockSize t0" "GetPartSize t1 = GetPartSize t0"
    using sizes_conf(1,2) [OF c] by blast+
  have "verified_step t0 t1 b e"
    unfolding verified_step_def s t1(3) using c t1 assms(1) by blast
  with t1(1) show ?thesis by blast
qed

lemma verified_step_join:
  assumes "verified_step t0 t1 b m" and "verified_step t1 t2 m e" and "b < m" and "m < e" and "e \<le> m_TotalSize t0"
  shows "verified_step t0 t2 b e"
proof -
  have c: "same_conf t0 t1" "same_conf t1 t2" using assms(1,2) by (simp_all add: verified_step_def)
  have T: "m_TotalSize t1 = m_TotalSize t0" "m_TotalSize t2 = m_TotalSize t0" using c by (simp_all add: same_conf_def)
  have m: "m \<le> m_TotalSize t1" using assms(4,5) T by simp
  have w: "status_wf t2" using assms(2) by (simp add: verified_step_def)
  have "result_at t2 b m = Some True" using assms(1,2,3) m by (simp add: verified_step_def)
  moreover have "result_at t2 m e = Some True" using assms(2) by (simp add: verified_step_def)
  ultimately have "result_at t2 b e = Some True"
    using GetResult_join [of "GetBlockSize t2" "GetPartSize t2" t2 b m e] w assms(3-5) T by simp
  then show ?thesis
    using assms(1,2) same_conf_trans [OF c] T(1) unfolding verified_step_def by simp
qed

lemma Verify_own_tree:
  assumes "size_ok t (e - b)" and "b < e" and "e \<le> m_TotalSize t" and "m_TotalSize t = of_nat (length d)"
    and "length d < 2 ^ 62" and "same_conf t t0" and "status_wf t0"
  shows "\<exists>t1. VerifyBranche H junk (file_device d) rm 0 (- 1) eVerifyFile
      (CalculateRange H junk' t (file_device d) b e bal dep) b e bal t0 = Some (True, t1) \<and> verified_step t0 t1 b e"
  using assms(1,2,3,6,7)
proof (induction arbitrary: dep t0 rule: range_induct)
  case (leaf b e bal)
  have c: "GetBrancheSize t0 = GetBrancheSize t" "leaf_hash H t0 = leaf_hash H t" "m_TotalSize t0 = m_TotalSize t"
    using GetBrancheSize_conf [OF leaf.prems(2)] sizes_conf(4) [OF leaf.prems(2)] leaf.prems(2)
    by (simp_all add: same_conf_def)
  have T: "unat (m_TotalSize t) < 2 ^ 62" using assms(4,5) by (simp add: unat_of_nat_eq)
  then have e: "unat e < 2 ^ 63" "length d < 2 ^ 63" using leaf.prems(1) assms(5) by (simp_all add: word_le_nat_alt)
  have big: "b < - 1" "\<not> m_TotalSize t0 < b" "0 < e" "\<not> m_TotalSize t0 < e"
    using leaf.hyps(2) leaf.prems(1) c(3) word_ne_max_less [OF word_less_max [OF leaf.hyps(2)]]
    by (simp_all add: word_less_nat_alt word_le_nat_alt)  have n: "CalculateRange H junk' t (file_device d) b e bal dep = Node (leaf_hash H t d b e) Null Null"
    using CalculateRange_leaf [OF leaf.hyps] CalculateLeaf_file [OF leaf.hyps(2) e] by simp
  have n0: "CalculateLeaf H t0 (file_device d) b e = Node (leaf_hash H t d b e) Null Null"
    unfolding CalculateLeaf_file [OF leaf.hyps(2) e] c(2) by (rule refl)
  obtain t1 where "SetResult (GetBlockSize t0) (GetPartSize t0) t0 True b e = Some t1" "verified_step t0 t1 b e"
    using SetResult_step [OF leaf.prems(3) leaf.hyps(2)] leaf.prems(1) c(3) by auto
  then show ?case
    using big branch_leaf(1) [OF leaf.hyps] by (simp add: n n0 c(1) leaf_known_def Let_def)
next
  case (branch b e bal)
  let ?s = "GetBrancheSize t b e bal"
  note f = split_facts [OF branch.hyps]
  have c: "GetBrancheSize t0 = GetBrancheSize t" "m_TotalSize t0 = m_TotalSize t"
    using GetBrancheSize_conf [OF branch.prems(2)] branch.prems(2) by (simp_all add: same_conf_def)
  have T: "unat (m_TotalSize t) < 2 ^ 62" using assms(4,5) by (simp add: unat_of_nat_eq)
  then have e: "unat e < 2 ^ 63" "length d < 2 ^ 63" using branch.prems(1) assms(5) by (simp_all add: word_le_nat_alt)
  have m: "unat (b + ?s) < 2 ^ 63" "b + ?s \<le> m_TotalSize t"
    using f(2) e(1) order.trans [OF less_imp_le [OF f(2)] branch.prems(1)] by (simp_all add: word_less_nat_alt)
  have big: "b < - 1" "\<not> m_TotalSize t0 < b" "0 < e" "\<not> m_TotalSize t0 < e"
    using branch.hyps(2) branch.prems(1) c(2) word_ne_max_less [OF word_less_max [OF branch.hyps(2)]]
    by (simp_all add: word_less_nat_alt word_le_nat_alt)
  have nl: "\<not> e - b \<le> ?s" using branch.hyps(3) by simp
  obtain L where L: "CalculateRange H junk' t (file_device d) b (b + ?s) eLeft (dep + 1) = L" "L \<noteq> Null"
    using CalculateRange_hash [OF f(3,1) m(1) e(2)] by blast
  obtain R where R: "CalculateRange H junk' t (file_device d) (b + ?s) e eRight (dep + 1) = R" "R \<noteq> Null"
    using CalculateRange_hash [OF f(4,2) e] by blast
  let ?h = "branch_hash H (m_eHashType t) (pHash L) (pHash R)"
  note n = CalculateRange_branch [OF branch.hyps L R]
  show ?case
  proof (cases "dep + 1 \<ge> m_DepthLimit t")
    case True
    then have n': "CalculateRange H junk' t (file_device d) b e bal dep = Node ?h Null Null" using n by simp
    have h: "?h = range_hash H t d b e bal"
      using CalculateRange_hash [OF branch.hyps(1,2) e, of H junk' bal dep] n' by simp
    obtain l r where n0: "CalculateRange H junk t0 (file_device d) b e bal 1 = Node ?h l r"
      using CalculateRange_hash [OF _ branch.hyps(2) e, of t0 H junk bal 1] branch.hyps(1)
        range_hash_conf [OF branch.prems(2)] sizes_conf(3) [OF branch.prems(2)] h by auto
    obtain t1 where "SetResult (GetBlockSize t0) (GetPartSize t0) t0 True b e = Some t1" "verified_step t0 t1 b e"
      using SetResult_step [OF branch.prems(3) branch.hyps(2)] branch.prems(1) c(2) by auto
    then show ?thesis
      using big nl n0 by (simp add: n' c(1) leaf_known_def Let_def)
  next
    case False
    then have n': "CalculateRange H junk' t (file_device d) b e bal dep = Node ?h L R" using n by simp
    obtain t1 where t1: "VerifyBranche H junk (file_device d) rm 0 (- 1) eVerifyFile L b (b + ?s) eLeft t0 = Some (True, t1)"
        "verified_step t0 t1 b (b + ?s)"
      using branch.IH(1) [OF m(2) branch.prems(2,3), of "dep + 1"] L(1) by auto
    have c1: "same_conf t t1" "status_wf t1"
      using t1(2) same_conf_trans [OF branch.prems(2)] by (auto simp: verified_step_def)
    obtain t2 where t2: "VerifyBranche H junk (file_device d) rm 0 (- 1) eVerifyFile R (b + ?s) e eRight t1 = Some (True, t2)"
        "verified_step t1 t2 (b + ?s) e"
      using branch.IH(2) [OF branch.prems(1) c1, of "dep + 1"] R(1) by auto
    have "verified_step t0 t2 b e"
      using verified_step_join [OF t1(2) t2(2) f(1,2)] branch.prems(1) c(2) by simp
    then show ?thesis
      using big nl L(2) R(2) t1(1) t2(1) by (simp add: n' c(1) branch_known_def Let_def)
  qed
qed

lemma resolved_conf: "same_conf t t' \<Longrightarrow> resolved_branch t' n b e bal from to res dep = resolved_branch t n b e bal from to res dep"
proof (induction n arbitrary: b e bal dep)
  case Null
  then show ?case by (simp add: same_conf_def)
next
  case (Node h l r)
  have c: "m_TotalSize t' = m_TotalSize t" "m_DepthLimit t' = m_DepthLimit t"
    using Node.prems by (simp_all add: same_conf_def)
  show ?case using Node.IH [OF Node.prems]
    by (simp only: resolved_branch.simps c GetBrancheSize_conf [OF Node.prems] Let_def)
qed

lemma IsValid_hash_first: "0 < n \<Longrightarrow> h ! 0 \<noteq> 0 \<Longrightarrow> IsValid_hash h n"
proof -
  assume n: "0 < n" "h ! 0 \<noteq> 0"
  have "take 4 (drop (4 * 0) h) \<noteq> [0, 0, 0, 0]"
  proof
    assume "take 4 (drop (4 * 0) h) = [0, 0, 0, 0]"
    then have "take 4 h ! 0 = 0" by simp
    then show False using n(2) by simp
  qed
  moreover have "0 \<in> set [0..<(n + 3) div 4]" using n(1) by simp
  ultimately show ?thesis unfolding IsValid_hash_def list_ex_iff by blast
qed

lemma IsValid_hash_zero: "4 dvd n \<Longrightarrow> IsValid_hash (replicate n 0) n = False"
proof -
  assume "4 dvd n"
  then obtain m where n: "n = 4 * m" by (rule dvdE)
  have "take 4 (drop (4 * k) (replicate n 0)) = [0, 0, 0, 0 :: uint8]" if "k < m" for k
  proof -
    have "min (n - 4 * k) 4 = 4" using that n by simp
    then have "take 4 (drop (4 * k) (replicate n 0)) = replicate 4 (0 :: uint8)" by simp
    also have "\<dots> = [0, 0, 0, 0]" by (simp add: numeral_eq_Suc)
    finally show ?thesis .
  qed
  moreover have "(n + 3) div 4 = m" using n by simp
  ultimately show ?thesis
    by (auto simp: IsValid_hash_def list_ex_iff simp del: take_replicate drop_replicate)
qed

lemma hash_size_dvd: "4 dvd HashTypeSize ty"
  using HashTypeSize_cases [of ty] by auto

text \<open>
  C13. The tree calculated for a file has the hash of the reference definition, is resolved down to the
  blocks (or the depth limit), and the file verifies against it: every block is marked as good and
  nothing as corrupt.
\<close>

theorem Calculate_Verify:
  assumes "d \<noteq> []" and "length d < 2 ^ 62" and "m_eHashType t \<noteq> HashTorrent"
    and "m_uHashSize t = HashTypeSize (m_eHashType t)" and "size_ok t (of_nat (length d))"
    and "status_ok (GetBlockSize t) (GetPartSize t) (of_nat (length d))" and "m_StatusMap t = []"
  shows "\<exists>t' t''. Calculate_tree SetTree H junk t (file_device d) = (True, t') \<and> CanHashBlocks_tree t' \<and>
    GetRootHash t' = range_hash H t' d 0 (m_TotalSize t') eLeft \<and>
    Verify_tree H junk' (file_device d) rm 0 (- 1) eVerifyFile t' = Some (True, t'') \<and>
    m_CorruptionSet t'' = [] \<and> result_at t'' 0 (of_nat (length d)) = Some True"
proof -
  let ?n = "of_nat (length d) :: uint64"
  let ?t = "SetHash_ptr (Unload_tree t\<lparr>m_TotalSize := ?n\<rparr>) None"
  have un: "unat ?n = length d" using assms(2) by (simp add: unat_of_nat_eq)
  then have n0: "0 < ?n" using assms(1) by (simp add: word_less_nat_alt)
  have t: "m_TotalSize ?t = ?n" "m_eHashType ?t = m_eHashType t" "m_BlockSize ?t = m_BlockSize t"
      "m_PartSize ?t = m_PartSize t" "m_StatusMap ?t = []" "m_uHashSize ?t = m_uHashSize t"
      "m_Hash ?t = replicate (m_uHashSize t) 0"
    using assms(7) by (simp_all add: SetHash_ptr_def Unload_tree_def)
  have tree: "GetTreeSize ?t = ?n" using assms(3) t by (simp add: GetTreeSize_def)
  have ok: "size_ok ?t (?n - 0)" using assms(5) t by (simp add: size_ok_def)
  have b: "unat ?n < 2 ^ 63" "length d < 2 ^ 63" using assms(2) un by simp_all
  obtain l r where N: "CalculateRange H junk ?t (file_device d) 0 ?n eLeft 1 =
      Node (range_hash H ?t d 0 ?n eLeft) l r"
    using CalculateRange_hash [OF ok n0 b, of H junk eLeft 1] by blast
  let ?N = "Node (range_hash H ?t d 0 ?n eLeft) l r"
  let ?t' = "(SetHash_ptr ?t (Some (pHash ?N)))\<lparr>m_TreeRoot := ?N\<rparr>"
  have inv: "\<not> IsValid ?t" using IsValid_hash_zero [OF hash_size_dvd] assms(4) t(6,7) by (simp add: IsValid_def)
  then have calc: "Calculate_tree SetTree H junk t (file_device d) = (True, ?t')"
    using assms(1,3) N tree t(2) by (simp add: Calculate_tree_def SetTree_def Let_def dev_size_file)
  have conf: "same_conf ?t ?t'" by (simp add: same_conf_def SetHash_ptr_def)
  have t': "m_TotalSize ?t' = ?n" "m_TreeRoot ?t' = ?N" "GetTreeSize ?t' = ?n" "m_DepthLimit ?t' = m_DepthLimit ?t"
    using conf t(1) tree sizes_conf(5) [OF conf] by (simp_all add: same_conf_def SetHash_ptr_def)
  have "resolved_branch ?t (CalculateRange H junk ?t (file_device d) 0 ?n eLeft 1) 0 ?n eLeft 0 ?n (m_BlockSize ?t) 1"
    by (rule CalculateRange_resolved [OF ok n0 b])
  then have "resolved_branch ?t' ?N 0 ?n eLeft 0 ?n (m_BlockSize ?t') 1"
    unfolding N resolved_conf [OF conf] using conf by (simp add: same_conf_def del: resolved_branch.simps)
  then have res: "CanHashBlocks_tree ?t'"
    using t'(2,3) by (simp add: CanHashBlocks_tree_def IsFullyResolved_def Let_def del: resolved_branch.simps)
  have root: "GetRootHash ?t' = range_hash H ?t' d 0 (m_TotalSize ?t') eLeft"
    using t'(1,2) range_hash_conf [OF conf] by (simp add: GetRootHash_def)
  let ?r = "ResetStatus ?t' False"
  have conf': "same_conf ?t ?r" using conf by (simp add: same_conf_def ResetStatus_def)
  have r: "GetBlockSize ?r = GetBlockSize t" "GetPartSize ?r = GetPartSize t" "m_StatusMap ?r = []" "m_TotalSize ?r = ?n"
    using assms(7) by (simp_all add: ResetStatus_def SetHash_ptr_def Unload_tree_def GetBlockSize_def GetPartSize_def)
  have "status_wf ?r" unfolding bits_ok_def r using assms(6) by simp
  then obtain t'' where v: "VerifyBranche H junk' (file_device d) rm 0 (- 1) eVerifyFile ?N 0 ?n eLeft ?r = Some (True, t'')"
      "verified_step ?r t'' 0 ?n"
    using Verify_own_tree [OF ok n0 _ t(1) assms(2) conf', of H junk' rm junk eLeft 1] t(1) N by auto
  have "Verify_tree H junk' (file_device d) rm 0 (- 1) eVerifyFile ?t' = Some (True, t'')"
    using v(1) sizes_conf(5) [OF conf'] tree by (simp add: Verify_tree_def Let_def ResetStatus_def)
  moreover have "m_CorruptionSet t'' = []" "result_at t'' 0 ?n = Some True"
    using v(2) by (simp_all add: verified_step_def ResetStatus_def)
  ultimately show ?thesis using calc res root by blast
qed

theorem Calculate_Verify_witness:
  "\<exists>t' t''. Calculate_tree SetTree (\<lambda>a x. replicate 32 7) [] (new_hash_tree HashNeo 3 (- 1) (- 1)) (file_device [1, 2, 3]) =
      (True, t') \<and>
    Verify_tree (\<lambda>a x. replicate 32 7) [] (file_device [1, 2, 3]) (new_range_map part_ops 3) 0 (- 1) eVerifyFile t' =
      Some (True, t'') \<and> m_CorruptionSet t'' = []"
proof -
  let ?t = "new_hash_tree HashNeo 3 (- 1) (- 1)"
  have "m_uHashSize ?t = HashTypeSize (m_eHashType ?t)" "m_StatusMap ?t = []"
    by (simp_all add: new_hash_tree_def new_file_hash_def SetHash_ptr_def file_hash.defs Let_def)
  moreover have "size_ok ?t 3" by (simp add: size_ok_def ceil_div_def)
  moreover have "status_ok (GetBlockSize ?t) (GetPartSize ?t) 3"
    by (simp add: status_ok_def GetBlockSize_def GetPartSize_def block_unit_def ceil_div_def index_hi_def)
  ultimately show ?thesis
    using Calculate_Verify [of "[1, 2, 3]" ?t "\<lambda>a x. replicate 32 7" "[]" "[]" "new_range_map part_ops 3"] by auto
qed

end
