(* ===== verification/HashTreeIO.thy ===== *)
theory HashTreeIO
  imports HashTree
begin

text \<open>
  Storing, loading and exchanging hash trees: the dumps and the binary form of \<open>Save\<close>, \<open>SaveBin\<close>,
  \<open>Load\<close> and \<open>LoadBin\<close>, the branches \<open>GetLeafs\<close> extracts and \<open>AddLeafs\<close> merges, and what the root hash
  of a tree says about its nodes. The operations are those of the theory HashTree.
\<close>

section \<open>Leafs and their paths\<close>

fun tree_leafs :: "hnode \<Rightarrow> (bool list \<times> bytes) list" where
  "tree_leafs Null = []"
| "tree_leafs (Node h l r) =
     (if IsLeaf (Node h l r) then [([], h)]
      else map (apfst (Cons True)) (tree_leafs l) @ map (apfst (Cons False)) (tree_leafs r))"

fun full_tree :: "hnode \<Rightarrow> bool" where
  "full_tree Null = False"
| "full_tree (Node h l r) = (l = Null \<and> r = Null \<or> full_tree l \<and> full_tree r)"

fun tree_depth :: "hnode \<Rightarrow> nat" where
  "tree_depth Null = 0"
| "tree_depth (Node h l r) = (if IsLeaf (Node h l r) then 0 else Suc (max (tree_depth l) (tree_depth r)))"

definition path_step :: "uint64 \<Rightarrow> bool \<Rightarrow> uint64" where
  "path_step w d = (if d then push_bit 1 w OR 1 else push_bit 1 w)"

definition path_word :: "bool list \<Rightarrow> uint64" where
  "path_word p = foldl path_step 1 p"

lemma full_not_Null: "full_tree n \<Longrightarrow> n \<noteq> Null"
  by auto

lemma leafs_nonempty: "full_tree n \<Longrightarrow> tree_leafs n \<noteq> []"
  by (induction n) auto

lemma leaf_depth: "(p, h) \<in> set (tree_leafs n) \<Longrightarrow> length p \<le> tree_depth n"
proof (induction n arbitrary: p h)
  case (Node h' l r)
  then show ?case by (fastforce split: if_splits simp: le_max_iff_disj)
qed simp

lemma save_branch_leafs:
  assumes "full_tree n" and "int (tree_depth n) \<le> k" and "k = (if lim = - 1 then m_DepthLimit t else lim)"
  shows "save_branch t n w lim = Some (map (\<lambda>(p, h). (foldl path_step w p, h)) (tree_leafs n))"
  using assms
proof (induction n arbitrary: w lim k)
  case (Node h l r)
  show ?case
  proof (cases "IsLeaf (Node h l r)")
    case False
    then have f: "full_tree l" "full_tree r" using Node.prems(1) by auto
    then have k: "int (tree_depth l) \<le> k - 1" "int (tree_depth r) \<le> k - 1" "0 < k" "k - 1 \<noteq> - 1"
      using Node.prems(2) full_not_Null by auto
    have L: "save_branch t l (path_step w True) (k - 1) =
        Some (map (\<lambda>(p, h). (foldl path_step (path_step w True) p, h)) (tree_leafs l))"
      using Node.IH(1) [OF f(1) k(1)] k by simp
    have R: "save_branch t r (path_step w False) (k - 1) =
        Some (map (\<lambda>(p, h). (foldl path_step (path_step w False) p, h)) (tree_leafs r))"
      using Node.IH(2) [OF f(2) k(2)] k by simp
    show ?thesis using False L R k(3) Node.prems(3)
      by (simp add: Let_def comp_def split_def del: push_bit_Suc) (auto simp: path_step_def simp del: push_bit_Suc split: if_splits)
  qed auto
qed simp

section \<open>Reading a path\<close>

lemma and_top_bit: "(w AND 0x8000000000000000 = 0) = (\<not> bit (w :: uint64) 63)"
proof -
  have e: "(0x8000000000000000 :: uint64) = 2 ^ 63" by simp
  show ?thesis unfolding e by (rule and_exp_eq_0_iff_not_bit)
qed

lemma bit_path_word:
  assumes "length p \<le> 63" and "j < 64"
  shows "bit (path_word p) j \<longleftrightarrow> j = length p \<or> j < length p \<and> p ! (length p - 1 - j)"
  using assms
proof (induction p arbitrary: j rule: rev_induct)
  case Nil
  then show ?case by (simp add: path_word_def bit_1_iff)
next
  case (snoc d p)
  have step: "path_word (p @ [d]) = path_step (path_word p) d" by (simp add: path_word_def)
  show ?case
  proof (cases j)
    case 0
    then show ?thesis unfolding step
      by (auto simp: path_step_def bit_or_iff bit_push_bit_iff bit_1_iff simp del: bit_0 push_bit_Suc One_nat_def)
  next
    case (Suc i)
    then have "bit (path_word (p @ [d])) j = bit (path_word p) i"
      using snoc.prems unfolding step
      by (auto simp: path_step_def bit_or_iff bit_push_bit_iff bit_1_iff simp del: push_bit_Suc)
    also have "\<dots> \<longleftrightarrow> i = length p \<or> i < length p \<and> p ! (length p - 1 - i)"
      using snoc.IH [of i] snoc.prems Suc by simp
    finally show ?thesis using Suc by (auto simp: nth_append)
  qed
qed

lemma top_align_word:
  assumes "bit w L" and "\<And>j. L < j \<Longrightarrow> j < 64 \<Longrightarrow> \<not> bit w j" and "L < 64" and "i \<le> 63 - L"
  shows "top_align i (push_bit i w) = (63 - L, push_bit (63 - L) w)"
  using assms(4)
proof (induction "63 - L - i" arbitrary: i)
  case 0
  then have i: "i = 63 - L" by simp
  have "bit (push_bit i w) 63" using assms(1,3) by (simp add: i bit_push_bit_iff)
  then show ?case by (subst top_align.simps) (simp add: and_top_bit i)
next
  case (Suc d)
  then have i: "i < 63 - L" by linarith
  have "\<not> bit (push_bit i w) 63" using assms(2) [of "63 - i"] i by (auto simp: bit_push_bit_iff)
  moreover have "i < 64" using i by simp
  moreover have "push_bit 1 (push_bit i w) = push_bit (i + 1) w" by (simp only: push_bit_push_bit add.commute)
  ultimately have "top_align i (push_bit i w) = top_align (i + 1) (push_bit (i + 1) w)"
    by (subst top_align.simps) (simp only: and_top_bit simp_thms if_True)
  also have "\<dots> = (63 - L, push_bit (63 - L) w)" using Suc i by (intro Suc.hyps) linarith+
  finally show ?case .
qed

lemma top_align_path:
  assumes "length p \<le> 63"
  shows "top_align 0 (path_word p) = (63 - length p, push_bit (63 - length p) (path_word p))"
  using top_align_word [of "path_word p" "length p" 0] bit_path_word [OF assms] assms by auto

fun path_of :: "nat \<Rightarrow> uint64 \<Rightarrow> bool list" where
  "path_of 0 w = []"
| "path_of (Suc k) w = bit w 63 # path_of k (push_bit 1 w)"

lemma length_path_of [simp]: "length (path_of k w) = k"
  by (induction k arbitrary: w) simp_all

lemma nth_path_of: "i < k \<Longrightarrow> k \<le> 64 \<Longrightarrow> path_of k w ! i \<longleftrightarrow> bit w (63 - i)"
proof (induction k arbitrary: w i)
  case (Suc k)
  show ?case
  proof (cases i)
    case (Suc i')
    then have "path_of (Suc k) w ! i = bit (push_bit 1 w) (63 - i')"
      using Suc.IH Suc.prems by (simp del: push_bit_Suc One_nat_def)
    also have "\<dots> = bit w (63 - i)" using Suc Suc.prems by (auto simp: bit_push_bit_iff simp del: push_bit_Suc)
    finally show ?thesis .
  qed simp
qed simp

lemma path_of_path_word:
  assumes "length p \<le> 63"
  shows "path_of (length p) (push_bit 1 (push_bit (63 - length p) (path_word p))) = p"
proof (rule nth_equalityI)
  fix i assume "i < length (path_of (length p) (push_bit 1 (push_bit (63 - length p) (path_word p))))"
  then have i: "i < length p" by simp
  then have "path_of (length p) (push_bit 1 (push_bit (63 - length p) (path_word p))) ! i \<longleftrightarrow>
      bit (path_word p) (length p - 1 - i)"
    using assms by (auto simp: nth_path_of bit_push_bit_iff simp del: push_bit_Suc)
  also have "\<dots> \<longleftrightarrow> p ! i" using bit_path_word [OF assms, of "length p - 1 - i"] assms i by auto
  finally show "path_of (length p) (push_bit 1 (push_bit (63 - length p) (path_word p))) ! i = p ! i" .
qed simp

section \<open>Loading\<close>

definition expand :: "bytes \<Rightarrow> hnode \<Rightarrow> hnode" where
  "expand junk n = (if IsLeaf n then Node (pHash n) (allocNode junk) (allocNode junk) else n)"

fun load_at :: "bytes \<Rightarrow> bool list \<Rightarrow> bytes \<Rightarrow> hnode \<Rightarrow> hnode" where
  "load_at junk [] h n = Node h (Left n) (Right n)"
| "load_at junk (d # ds) h n =
     (let n = expand junk n
      in if d then Node (pHash n) (load_at junk ds h (Left n)) (Right n)
         else Node (pHash n) (Left n) (load_at junk ds h (Right n)))"

lemma load_leaf_at: "load_leaf junk h w (int k) n = Some (load_at junk (path_of k w) h n)"
proof (induction k arbitrary: w n)
  case 0
  then show ?case by (subst load_leaf.simps) simp
next
  case (Suc k)
  then show ?case by (subst load_leaf.simps) (simp add: expand_def Let_def and_top_bit)
qed

lemma load_leafs_at:
  assumes "\<forall>(p, h) \<in> set ds. length p \<le> 63"
  shows "load_leafs junk (map (\<lambda>(p, h). (path_word p, h)) ds) n = Some (fold (\<lambda>(p, h). load_at junk p h) ds n)"
  using assms
proof (induction ds arbitrary: n)
  case (Cons d ds)
  obtain p h where d: "d = (p, h)" by (cases d)
  then have p: "length p \<le> 63" using Cons.prems by auto
  have g: "64 - int (63 - length p) - 1 = int (length p)" using p by (simp add: of_nat_diff)
  have "load_leaf junk h (push_bit 1 (push_bit (63 - length p) (path_word p))) (64 - int (63 - length p) - 1) n =
      Some (load_at junk p h n)"
    unfolding g load_leaf_at path_of_path_word [OF p] ..
  then show ?case using Cons.prems Cons.IH by (simp add: d top_align_path [OF p] del: push_bit_Suc One_nat_def)
qed simp

lemma load_at_not_Null [simp]: "load_at junk p h n \<noteq> Null"
  by (cases p) (simp_all add: Let_def)

text \<open>The shape of a tree with the hashes of its leafs; inner nodes hold what \<open>malloc\<close> left.\<close>

fun blank :: "bytes \<Rightarrow> hnode \<Rightarrow> hnode" where
  "blank junk Null = Null"
| "blank junk (Node h l r) = (if IsLeaf (Node h l r) then Node h Null Null else Node junk (blank junk l) (blank junk r))"

lemma blank_Null [simp]: "(blank junk n = Null) = (n = Null)"
  by (cases n) auto

lemma fold_load_left:
  assumes "a \<noteq> Null" and "b \<noteq> Null"
  shows "fold (\<lambda>(p, h). load_at junk p h) (map (apfst (Cons True)) ds) (Node x a b) =
    Node x (fold (\<lambda>(p, h). load_at junk p h) ds a) b"
  using assms by (induction ds arbitrary: a) (auto simp: expand_def)

lemma fold_load_right:
  assumes "a \<noteq> Null" and "b \<noteq> Null"
  shows "fold (\<lambda>(p, h). load_at junk p h) (map (apfst (Cons False)) ds) (Node x a b) =
    Node x a (fold (\<lambda>(p, h). load_at junk p h) ds b)"
  using assms by (induction ds arbitrary: b) (auto simp: expand_def)

lemma fold_load_expand:
  assumes "ds \<noteq> []"
  shows "fold (\<lambda>(p, h). load_at junk p h) (map (apfst (Cons d)) ds) (Node x Null Null) =
    fold (\<lambda>(p, h). load_at junk p h) (map (apfst (Cons d)) ds) (Node x (allocNode junk) (allocNode junk))"
  using assms by (cases ds) (auto simp: expand_def allocNode_def)

lemma fold_load_blank:
  assumes "full_tree n"
  shows "fold (\<lambda>(p, h). load_at junk p h) (tree_leafs n) (allocNode junk) = blank junk n"
  using assms
proof (induction n)
  case (Node h l r)
  show ?case
  proof (cases "IsLeaf (Node h l r)")
    case False
    then have f: "full_tree l" "full_tree r" using Node.prems by auto
    let ?f = "fold (\<lambda>(p, h). load_at junk p h)"
    have n: "allocNode junk \<noteq> Null" "blank junk l \<noteq> Null"
      using full_not_Null [OF f(1)] by (simp_all add: allocNode_def)
    have e: "?f (map (apfst (Cons True)) (tree_leafs l)) (Node junk Null Null) =
        ?f (map (apfst (Cons True)) (tree_leafs l)) (Node junk (allocNode junk) (allocNode junk))"
      by (rule fold_load_expand [OF leafs_nonempty [OF f(1)]])
    have L: "?f (map (apfst (Cons True)) (tree_leafs l)) (allocNode junk) = Node junk (blank junk l) (allocNode junk)"
      using e unfolding allocNode_def [of junk, symmetric] fold_load_left [OF n(1) n(1)] Node.IH(1) [OF f(1)] .
    have R: "?f (map (apfst (Cons False)) (tree_leafs r)) (Node junk (blank junk l) (allocNode junk)) =
        Node junk (blank junk l) (blank junk r)"
      unfolding fold_load_right [OF n(2) n(1)] Node.IH(2) [OF f(2)] ..
    have "tree_leafs (Node h l r) = map (apfst (Cons True)) (tree_leafs l) @ map (apfst (Cons False)) (tree_leafs r)"
      using False by simp
    then show ?thesis using False by (simp only: fold_append o_apply L R) simp
  next
    case True
    then have "l = Null" "r = Null" using Node.prems by auto
    then show ?thesis by (simp add: allocNode_def)
  qed
qed simp

section \<open>Trees whose inner hashes are right\<close>

fun hash_ok :: "hash_function \<Rightarrow> hash_type \<Rightarrow> hnode \<Rightarrow> bool" where
  "hash_ok H ty Null = False"
| "hash_ok H ty (Node h l r) =
     (l = Null \<and> r = Null \<or> hash_ok H ty l \<and> hash_ok H ty r \<and> h = branch_hash H ty (pHash l) (pHash r))"

lemma hash_ok_full: "hash_ok H ty n \<Longrightarrow> full_tree n"
  by (induction n) auto

fun rehash :: "hash_function \<Rightarrow> hash_type \<Rightarrow> hnode \<Rightarrow> hnode" where
  "rehash H ty Null = Null"
| "rehash H ty (Node h l r) =
     (if IsLeaf (Node h l r) then Node h l r
      else Node (branch_hash H ty (pHash (rehash H ty l)) (pHash (rehash H ty r))) (rehash H ty l) (rehash H ty r))"

lemma rehash_Null [simp]: "(rehash H ty n = Null) = (n = Null)"
  by (cases n) auto

lemma rehash_hash_ok: "full_tree n \<Longrightarrow> hash_ok H ty (rehash H ty n)"
  by (induction n) auto

lemma rehash_id: "hash_ok H ty n \<Longrightarrow> rehash H ty n = n"
  by (induction n) auto

lemma CalculateTree_blank: "full_tree n \<Longrightarrow> CalculateTree H t (blank junk n) = Some (rehash H (m_eHashType t) n)"
proof (induction n)
  case (Node h l r)
  show ?case
  proof (cases "l = Null \<or> r = Null")
    case False
    then have "CalculateTree H t (blank junk l) = Some (rehash H (m_eHashType t) l)"
        "CalculateTree H t (blank junk r) = Some (rehash H (m_eHashType t) r)"
      using Node by auto
    then show ?thesis using False by (simp add: CalculateBranche_def)
  qed (use Node in auto)
qed simp

section \<open>The binary form\<close>

definition dump_bytes :: "tree_dump \<Rightarrow> bytes" where
  "dump_bytes ds = concat (map (\<lambda>(p, h). to_le p @ h) ds)"

lemma dump_bytes_simps [simp]:
  "dump_bytes [] = []"
  "dump_bytes ((p, h) # ds) = to_le p @ h @ dump_bytes ds"
  by (simp_all add: dump_bytes_def)

lemma write_leafs_spec:
  assumes "appendable b" and "length (contents b) + length (dump_bytes ds) \<le> 2 ^ 60"
  shows "\<exists>b'. write_leafs mj b ds = Ret () b' \<and> appendable b' \<and> contents b' = contents b @ dump_bytes ds"
  using assms
proof (induction ds arbitrary: b)
  case (Cons d ds)
  obtain p h where d: "d = (p, h)" by (cases d)
  have len: "length (contents b) + 8 + length h + length (dump_bytes ds) \<le> 2 ^ 60"
    using Cons.prems(2) by (simp add: d)
  then have "length (contents b) + LENGTH(64) div 8 \<le> 2 ^ 60" by simp
  from append_value [OF Cons.prems(1) this] obtain b1 where
    b1: "WriteValue mj b p False = Ret () b1" "appendable b1" "contents b1 = contents b @ to_le p" .
  then have "length (contents b1) + length h \<le> 2 ^ 60" using len by simp
  from append_data [OF b1(2) this] obtain b2 where
    b2: "WriteData mj b1 h = Ret () b2" "appendable b2" "contents b2 = contents b1 @ h" .
  have "length (contents b2) + length (dump_bytes ds) \<le> 2 ^ 60" using len b1(3) b2(3) by simp
  from Cons.IH [OF b2(2) this] show ?case using b1 b2 by (simp add: d)
qed simp

lemma read_leafs_spec:
  assumes "reading b (dump_bytes ds @ rest)" and "\<forall>(p, h) \<in> set ds. length h = sz" and "sz < 2 ^ 16"
  shows "\<exists>b'. read_leafs sz (length ds) b = Ret ds b' \<and> reading b' rest"
  using assms(1,2)
proof (induction ds arbitrary: b)
  case (Cons d ds)
  obtain p h where d: "d = (p, h)" by (cases d)
  then have h: "length h = sz" using Cons.prems(2) by auto
  have "reading b (to_le p @ (h @ dump_bytes ds @ rest))" using Cons.prems(1) by (simp add: d)
  from read_value [OF this] obtain b1 where b1: "ReadValue b False = Ret p b1" "reading b1 (h @ dump_bytes ds @ rest)"
    by auto
  have sz: "unat (of_nat sz :: uint64) = length h" using assms(3) h by (simp add: unat_of_nat_eq)
  have "(of_nat sz :: uint64) \<noteq> - 1" using sz h assms(3) unat_max64 by auto
  from read_data [OF b1(2) sz this] obtain b2 where
    b2: "ReadQData b1 (of_nat sz) = Ret h b2" "reading b2 (dump_bytes ds @ rest)" .
  from Cons.IH [OF b2(2)] Cons.prems(2) obtain b3 where "read_leafs sz (length ds) b2 = Ret ds b3" "reading b3 rest"
    by auto
  then show ?case using b1 b2 by (simp add: d)
qed simp

definition leaf_dump :: "hnode \<Rightarrow> tree_dump" where
  "leaf_dump n = map (\<lambda>(p, h). (path_word p, h)) (tree_leafs n)"

lemma Save_tree_dump:
  assumes "full_tree (m_TreeRoot t)" and "int (tree_depth (m_TreeRoot t)) \<le> (if lim = - 1 then m_DepthLimit t else lim)"
  shows "Save_tree t lim = Some (leaf_dump (m_TreeRoot t))"
  using save_branch_leafs [OF assms refl, where w = 1] by (simp add: Save_tree_def leaf_dump_def path_word_def)

lemma Load_tree_dump:
  assumes "full_tree n" and "tree_depth n \<le> 63"
  shows "Load_tree set_tree H junk t (leaf_dump n) = Some (set_tree t (rehash H (m_eHashType t) n))"
proof -
  have "\<forall>(p, h) \<in> set (tree_leafs n). length p \<le> 63" using leaf_depth assms(2) by fastforce
  from load_leafs_at [OF this] show ?thesis
    by (simp add: Load_tree_def leaf_dump_def fold_load_blank [OF assms(1)] CalculateTree_blank [OF assms(1)])
qed

lemma dump_length:
  assumes "\<forall>(p, h) \<in> set ds. length h = sz"
  shows "length (dump_bytes ds) = length ds * (8 + sz)"
  using assms by (induction ds) auto

lemma parse_leafs_spec:
  assumes "\<forall>(p, h) \<in> set ds. length h = sz" and "sz < 2 ^ 16" and "length ds < 2 ^ 32"
  shows "\<exists>B. parse_leafs sz (to_le (of_nat (length ds) :: uint32) @ dump_bytes ds) = Ret ds B"
proof -
  let ?a = "to_le (of_nat (length ds) :: uint32) @ dump_bytes ds"
  have "length ds * (8 + sz) \<le> 2 ^ 32 * (8 + 2 ^ 16)" using assms(2,3) by (intro mult_mono) auto
  then have "length ?a < 2 ^ 62" by (simp add: dump_length [OF assms(1)])
  from reading_start [OF this] have "reading (SetBuffer Init (Some ?a) True) ?a" .
  from read_value [OF this] obtain b1 where
    b1: "ReadValue (SetBuffer Init (Some ?a) True) False = Ret (of_nat (length ds) :: uint32) b1" "reading b1 (dump_bytes ds @ [])"
    by auto
  have "unat (of_nat (length ds) :: uint32) = length ds" using assms(3) by (simp add: unat_of_nat_eq)
  with b1 read_leafs_spec [OF b1(2) assms(1,2)] show ?thesis by (auto simp: parse_leafs_def)
qed

lemma SaveBin_LoadBin_rehash:
  assumes "full_tree (m_TreeRoot t)"
    and "int (tree_depth (m_TreeRoot t)) \<le> (if lim = - 1 then m_DepthLimit t else lim)"
    and "tree_depth (m_TreeRoot t) \<le> 63"
    and "\<forall>(p, h) \<in> set (tree_leafs (m_TreeRoot t)). length h = m_uHashSize t'"
    and "m_uHashSize t' < 2 ^ 16" and "length (tree_leafs (m_TreeRoot t)) < 2 ^ 32"
  shows "\<exists>B. SaveBin_tree mj t lim = Ret () B \<and>
    LoadBin_tree set_tree H junk t' (contents B) = Some (set_tree t' (rehash H (m_eHashType t') (m_TreeRoot t)))"
proof -
  let ?ds = "leaf_dump (m_TreeRoot t)"
  have save: "Save_tree t lim = Some ?ds" by (rule Save_tree_dump [OF assms(1,2)])
  have ds: "\<forall>(p, h) \<in> set ?ds. length h = m_uHashSize t'" "length ?ds < 2 ^ 32"
    using assms(4,6) by (auto simp: leaf_dump_def)
  have "length ?ds * (8 + m_uHashSize t') \<le> 2 ^ 32 * (8 + 2 ^ 16)" using assms(5) ds(2) by (intro mult_mono) auto
  then have len: "4 + length (dump_bytes ?ds) \<le> 2 ^ 60" by (simp add: dump_length [OF ds(1)])
  then have "length (contents Init) + LENGTH(32) div 8 \<le> 2 ^ 60" by (simp add: appendable_Init)
  from append_value [OF appendable_Init(1) this, of mj "of_nat (length ?ds) :: uint32"] obtain b1 where
    b1: "WriteValue mj Init (of_nat (length ?ds) :: uint32) False = Ret () b1" "appendable b1"
        "contents b1 = to_le (of_nat (length ?ds) :: uint32)"
    by (auto simp: appendable_Init)
  then have "length (contents b1) + length (dump_bytes ?ds) \<le> 2 ^ 60" using len by simp
  from write_leafs_spec [OF b1(2) this] obtain B where B: "write_leafs mj b1 ?ds = Ret () B"
      "contents B = contents b1 @ dump_bytes ?ds"
    by blast
  obtain B' where "parse_leafs (m_uHashSize t') (contents B) = Ret ?ds B'"
    using parse_leafs_spec [OF ds(1) assms(5) ds(2)] B(2) b1(3) by auto
  then have "LoadBin_tree set_tree H junk t' (contents B) = Some (set_tree t' (rehash H (m_eHashType t') (m_TreeRoot t)))"
    using Load_tree_dump [OF assms(1,3)] by (simp add: LoadBin_tree_def)
  moreover have "SaveBin_tree mj t lim = Ret () B" using save b1(1) B(1) by (simp add: SaveBin_tree_def)
  ultimately show ?thesis by blast
qed

text \<open>
  What \<open>SaveBin\<close> writes for a tree whose inner hashes are right \<open>LoadBin\<close> turns into the same
  tree again, and hands it to \<open>SetTree\<close>, which checks its root: for every depth up to 63, the
  longest path a 64 bit identifier can hold.
\<close>

theorem SaveBin_LoadBin:
  assumes "hash_ok H (m_eHashType t') (m_TreeRoot t)"
    and "int (tree_depth (m_TreeRoot t)) \<le> (if lim = - 1 then m_DepthLimit t else lim)"
    and "tree_depth (m_TreeRoot t) \<le> 63"
    and "\<forall>(p, h) \<in> set (tree_leafs (m_TreeRoot t)). length h = m_uHashSize t'"
    and "m_uHashSize t' < 2 ^ 16" and "length (tree_leafs (m_TreeRoot t)) < 2 ^ 32"
  shows "\<exists>B. SaveBin_tree mj t lim = Ret () B \<and>
    LoadBin_tree set_tree H junk t' (contents B) = Some (set_tree t' (m_TreeRoot t))"
  using SaveBin_LoadBin_rehash [OF hash_ok_full [OF assms(1)] assms(2-6), of mj set_tree H junk]
  by (simp add: rehash_id [OF assms(1)])

theorem SaveBin_LoadBin_witness:
  "let H = (\<lambda>_ _. replicate 32 7);
       n = Node (replicate 32 7) (Node (replicate 32 1) Null Null) (Node (replicate 32 2) Null Null);
       t = (new_hash_tree HashNeo 500000 (- 1) (- 1))\<lparr>m_TreeRoot := n\<rparr>
   in \<exists>B. SaveBin_tree (\<lambda>_. 0) t (- 1) = Ret () B \<and>
     LoadBin_tree SetTree H [] (new_hash_tree HashNeo 500000 (- 1) (- 1)) (contents B) =
       Some (SetTree (new_hash_tree HashNeo 500000 (- 1) (- 1)) n)"
proof -
  let ?t' = "new_hash_tree HashNeo 500000 (- 1) (- 1)"
  let ?n = "Node (replicate 32 7) (Node (replicate 32 1) Null Null) (Node (replicate 32 2) Null Null)"
  have s: "m_uHashSize ?t' = 32" by (simp add: new_hash_tree_def file_hash.defs new_file_hash_def SetHash_ptr_def HashTypeSize_def)
  show ?thesis
    unfolding Let_def
    using SaveBin_LoadBin [of "\<lambda>_ _. replicate 32 7" ?t' "?t'\<lparr>m_TreeRoot := ?n\<rparr>" "- 1" "\<lambda>_. 0" SetTree "[]"]
    by (simp add: s branch_hash_def)
qed

section \<open>Pruned trees\<close>

text \<open>\<open>prunes m n\<close>: \<open>m\<close> is \<open>n\<close> with some of its inner nodes cut down to leafs.\<close>

fun prunes :: "hnode \<Rightarrow> hnode \<Rightarrow> bool" where
  "prunes Null n = False"
| "prunes (Node h l r) Null = False"
| "prunes (Node h l r) (Node h' l' r') =
     (h = h' \<and> (l = Null \<and> r = Null \<or> l \<noteq> Null \<and> r \<noteq> Null \<and> prunes l l' \<and> prunes r r'))"

lemma prunes_Null [simp]: "prunes m Null = False"
  by (cases m) auto

lemma prunes_refl: "full_tree n \<Longrightarrow> prunes n n"
  by (induction n) auto

lemma prunes_trans: "prunes a b \<Longrightarrow> prunes b c \<Longrightarrow> prunes a c"
proof (induction a b arbitrary: c rule: prunes.induct)
  case (3 h l r h' l' r')
  then show ?case by (cases c) auto
qed auto

lemma prunes_root: "prunes m n \<Longrightarrow> pHash m = pHash n \<and> m \<noteq> Null \<and> n \<noteq> Null"
  by (cases m; cases n) auto

lemma prunes_full: "prunes m n \<Longrightarrow> full_tree m"
  by (induction m n rule: prunes.induct) auto

lemma prunes_hash_ok: "prunes m n \<Longrightarrow> hash_ok H ty n \<Longrightarrow> hash_ok H ty m"
proof (induction m n rule: prunes.induct)
  case (3 h l r h' l' r')
  then show ?case using prunes_root by auto
qed auto

lemma prunes_depth: "prunes m n \<Longrightarrow> tree_depth m \<le> tree_depth n"
proof (induction m n rule: prunes.induct)
  case (3 h l r h' l' r')
  then show ?case using prunes_root by (auto simp: max.coboundedI1 max.coboundedI2)
qed auto

lemma prunes_leafs: "prunes m n \<Longrightarrow> full_tree n \<Longrightarrow> length (tree_leafs m) \<le> length (tree_leafs n)"
proof (induction m n rule: prunes.induct)
  case (3 h l r h' l' r')
  show ?case
  proof (cases "l = Null")
    case True
    then have "r = Null" using 3(3) by auto
    moreover have "0 < length (tree_leafs (Node h' l' r'))" using leafs_nonempty [OF 3(4)] by blast
    ultimately show ?thesis using True by (cases "tree_leafs (Node h' l' r')") auto
  next
    case False
    then have "prunes l l'" "prunes r r'" "r \<noteq> Null" using 3(3) by auto
    moreover from this have "l' \<noteq> Null" "r' \<noteq> Null" by auto
    ultimately show ?thesis using 3 False by simp
  qed
qed auto

fun node_hashes :: "hnode \<Rightarrow> bytes set" where
  "node_hashes Null = {}"
| "node_hashes (Node h l r) = insert h (node_hashes l \<union> node_hashes r)"

lemma prunes_hashes: "prunes m n \<Longrightarrow> node_hashes m \<subseteq> node_hashes n"
  by (induction m n rule: prunes.induct) auto

lemma leaf_hashes: "(p, h) \<in> set (tree_leafs n) \<Longrightarrow> h \<in> node_hashes n"
proof (induction n arbitrary: p)
  case (Node h' l r)
  then show ?case by (fastforce split: if_splits)
qed simp

lemma prunes_node_at:
  "prunes m n \<Longrightarrow> node_at p m \<noteq> Null \<Longrightarrow> node_at p n \<noteq> Null \<and> pHash (node_at p m) = pHash (node_at p n)"
proof (induction p arbitrary: m n)
  case Nil
  then show ?case using prunes_root by auto
next
  case (Cons d p)
  obtain h l r h' l' r' where mn: "m = Node h l r" "n = Node h' l' r'"
    using Cons.prems(1) prunes_root [OF Cons.prems(1)] by (metis hnode.exhaust)
  have "node_at p Null = Null" by (cases p) auto
  then have "l \<noteq> Null \<and> r \<noteq> Null" using Cons.prems by (auto simp: mn split: if_splits)
  then show ?case using Cons.prems Cons.IH [of l l'] Cons.IH [of r r'] by (auto simp: mn)
qed

text \<open>Two prunings of one tree merge to a pruning of it that contains both.\<close>

lemma Merge_prunes:
  assumes "prunes S n" and "prunes T n"
  shows "prunes (snd (Merge_nodes junk S T)) n \<and> prunes S (snd (Merge_nodes junk S T)) \<and>
    prunes T (snd (Merge_nodes junk S T))"
  using assms
proof (induction junk S T arbitrary: n rule: Merge_nodes.induct)
  case (2 junk sh sL sR T)
  obtain h l r where n: "n = Node h l r" using prunes_root [OF 2(3)] by (cases n) auto
  obtain th tL tR where T: "T = Node th tL tR" using prunes_root [OF 2(4)] by (cases T) auto
  have e: "ensure_node junk T = Node th tL tR" by (simp add: ensure_node_def T)
  have h: "sh = h" "th = h" using 2(3,4) by (auto simp: n T)
  consider (leafT) "tL = Null" "tR = Null" | (leafS) "sL = Null" "sR = Null" "tL \<noteq> Null" "tR \<noteq> Null"
    | (inner) "sL \<noteq> Null" "sR \<noteq> Null" "tL \<noteq> Null" "tR \<noteq> Null"
    using 2(3,4) by (auto simp: n T)
  then show ?case
  proof cases
    case leafT
    show ?thesis
    proof (cases "IsLeaf (Node sh sL sR)")
      case True
      then have "sL = Null" "sR = Null" using 2(3) by (auto simp: n)
      then show ?thesis using leafT h by (simp add: T ensure_node_def n)
    next
      case False
      then show ?thesis using leafT h 2(3) prunes_refl [OF prunes_full [OF 2(3)]] by (simp add: T ensure_node_def n)
    qed
  next
    case leafS
    then show ?thesis using h 2(4) prunes_refl [OF prunes_full [OF 2(4)]] by (simp add: T ensure_node_def n)
  next
    case inner
    then have s: "prunes sL l" "prunes sR r" "prunes tL l" "prunes tR r" using 2(3,4) by (auto simp: n T)
    obtain A B where L: "Merge_nodes junk sL tL = (A, B)" by fastforce
    obtain C D where R: "Merge_nodes junk sR tR = (C, D)" by fastforce
    have "prunes B l \<and> prunes sL B \<and> prunes tL B"
      using "2.IH"(1) [OF e _ _ s(1,3)] inner by (simp add: L)
    moreover have "prunes D r \<and> prunes sR D \<and> prunes tR D"
      using "2.IH"(2) [OF e _ _ L [symmetric] s(2,4)] inner by (simp add: R)
    moreover have "snd (Merge_nodes junk (Node sh sL sR) T) = Node th B D"
      using inner by (simp add: e L R)
    ultimately show ?thesis using inner h prunes_root by (auto simp: n T)
  qed
qed (auto)

section \<open>Extracted leafs\<close>

lemma Extract_prunes:
  assumes "hash_ok H ty n"
  shows "full_tree (Extract junk t n b e bal from to res) \<and>
    prunes (rehash H ty (Extract junk t n b e bal from to res)) n"
  using assms
proof (induction n arbitrary: b e bal)
  case (Node h l r)
  show ?case
  proof (cases "e > from \<and> b < to \<and> GetBrancheSize t b e bal < e - b \<and> GetBrancheSize t b e bal \<ge> res \<and> \<not> IsLeaf (Node h l r)")
    case True
    let ?s = "GetBrancheSize t b e bal"
    from True Node.prems have ok: "hash_ok H ty l" "hash_ok H ty r" "h = branch_hash H ty (pHash l) (pHash r)" by auto
    have L: "full_tree (Extract junk t l b (b + ?s) eLeft from to res)"
        "prunes (rehash H ty (Extract junk t l b (b + ?s) eLeft from to res)) l" and
      R: "full_tree (Extract junk t r (b + ?s) e eRight from to res)"
        "prunes (rehash H ty (Extract junk t r (b + ?s) e eRight from to res)) r"
      using Node.IH(1) [OF ok(1)] Node.IH(2) [OF ok(2)] by blast+
    have "Extract junk t (Node h l r) b e bal from to res =
        Node junk (Extract junk t l b (b + ?s) eLeft from to res) (Extract junk t r (b + ?s) e eRight from to res)"
      using True by (simp add: Let_def)
    then show ?thesis using L R ok(3) full_not_Null prunes_root [OF L(2)] prunes_root [OF R(2)] by auto
  next
    case False
    then have "Extract junk t (Node h l r) b e bal from to res = Node h Null Null" by (auto simp: Let_def)
    then show ?thesis by simp
  qed
qed simp

text \<open>The ways to the leafs whose range meets the range asked for.\<close>

fun leaf_paths :: "'z hash_tree_scheme \<Rightarrow> hnode \<Rightarrow> uint64 \<Rightarrow> uint64 \<Rightarrow> balance \<Rightarrow> uint64 \<Rightarrow> uint64 \<Rightarrow> bool list list" where
  "leaf_paths t Null b e bal from to = []"
| "leaf_paths t (Node h l r) b e bal from to =
     (let s = GetBrancheSize t b e bal
      in if \<not> (e > from \<and> b < to) then []
         else if IsLeaf (Node h l r) then [[]]
         else map (Cons True) (leaf_paths t l b (b + s) eLeft from to) @
              map (Cons False) (leaf_paths t r (b + s) e eRight from to))"

text \<open>A tree has inner nodes only where its range has more than one block.\<close>

fun shaped :: "'z hash_tree_scheme \<Rightarrow> hnode \<Rightarrow> uint64 \<Rightarrow> uint64 \<Rightarrow> balance \<Rightarrow> bool" where
  "shaped t Null b e bal = True"
| "shaped t (Node h l r) b e bal =
     (let s = GetBrancheSize t b e bal
      in IsLeaf (Node h l r) \<or> s < e - b \<and> s \<ge> m_BlockSize t \<and> shaped t l b (b + s) eLeft \<and> shaped t r (b + s) e eRight)"

lemma Extract_covers:
  assumes "shaped t n b e bal" and "p \<in> set (leaf_paths t n b e bal from to)"
  shows "node_at p (Extract junk t n b e bal from to (m_BlockSize t)) \<noteq> Null"
  using assms
proof (induction n arbitrary: b e bal p)
  case (Node h l r)
  let ?s = "GetBrancheSize t b e bal"
  show ?case
  proof (cases "IsLeaf (Node h l r)")
    case False
    then have s: "?s < e - b" "m_BlockSize t \<le> ?s" "shaped t l b (b + ?s) eLeft" "shaped t r (b + ?s) e eRight"
      using Node.prems(1) by (auto simp: Let_def)
    have r: "from < e" "b < to" and p: "p \<in> Cons True ` set (leaf_paths t l b (b + ?s) eLeft from to) \<or>
        p \<in> Cons False ` set (leaf_paths t r (b + ?s) e eRight from to)"
      using Node.prems(2) False by (auto simp: Let_def split: if_splits)
    have "Extract junk t (Node h l r) b e bal from to (m_BlockSize t) =
        Node junk (Extract junk t l b (b + ?s) eLeft from to (m_BlockSize t))
          (Extract junk t r (b + ?s) e eRight from to (m_BlockSize t))"
      using s r False by (simp add: Let_def)
    then show ?thesis using p Node.IH(1) [OF s(3)] Node.IH(2) [OF s(4)] by auto
  next
    case True
    then have "p = []" using Node.prems(2) by (auto simp: Let_def split: if_splits)
    then show ?thesis by (simp add: Let_def)
  qed
qed simp

lemma node_at_rehash: "node_at p n \<noteq> Null \<Longrightarrow> node_at p (rehash H ty n) \<noteq> Null"
proof (induction p arbitrary: n)
  case (Cons d p)
  then obtain h l r where "n = Node h l r" by (cases n) auto
  then show ?case using Cons by (auto split: if_splits)
qed auto

section \<open>What a root hash fixes\<close>

definition branch_input :: "hash_type \<Rightarrow> bytes \<Rightarrow> bytes \<Rightarrow> bytes" where
  "branch_input ty l r = (if ty = HashTigerTree then [0x01] else []) @ l @ r"

lemma branch_hash_input: "branch_hash H ty l r = H (GetAlgorithm ty) (branch_input ty l r)"
  by (simp add: branch_hash_def branch_input_def)

lemma branch_input_inj: "length l = length l' \<Longrightarrow> branch_input ty l r = branch_input ty l' r' \<Longrightarrow> l = l' \<and> r = r'"
  by (simp add: branch_input_def)

text \<open>The byte strings that are hashed for the inner nodes of a tree.\<close>

fun branch_inputs :: "hash_type \<Rightarrow> hnode \<Rightarrow> bytes set" where
  "branch_inputs ty Null = {}"
| "branch_inputs ty (Node h l r) =
     (if IsLeaf (Node h l r) then {}
      else insert (branch_input ty (pHash l) (pHash r)) (branch_inputs ty l \<union> branch_inputs ty r))"

text \<open>The hash function has no collision among the strings of the set.\<close>

definition collision_free :: "hash_function \<Rightarrow> hash_type \<Rightarrow> bytes set \<Rightarrow> bool" where
  "collision_free H ty A = inj_on (H (GetAlgorithm ty)) A"

lemma collision_free_subset: "collision_free H ty A \<Longrightarrow> B \<subseteq> A \<Longrightarrow> collision_free H ty B"
  unfolding collision_free_def by (rule inj_on_subset)

definition hash_length :: "nat \<Rightarrow> hnode \<Rightarrow> bool" where
  "hash_length k n = (\<forall>h \<in> node_hashes n. length h = k)"

lemma hash_length_simps [simp]:
  "hash_length k Null"
  "hash_length k (Node h l r) = (length h = k \<and> hash_length k l \<and> hash_length k r)"
  by (auto simp: hash_length_def)

lemma hash_length_root: "hash_length k n \<Longrightarrow> n \<noteq> Null \<Longrightarrow> length (pHash n) = k"
  by (cases n) auto

lemma same_children:
  assumes "branch_hash H ty (pHash l) (pHash r) = branch_hash H ty (pHash l') (pHash r')"
    and "collision_free H ty A" and "branch_input ty (pHash l) (pHash r) \<in> A" and "branch_input ty (pHash l') (pHash r') \<in> A"
    and "length (pHash l) = length (pHash l')"
  shows "pHash l = pHash l'" and "pHash r = pHash r'"
  using inj_onD [OF assms(2) [unfolded collision_free_def] _ assms(3,4)] assms(1) branch_input_inj [OF assms(5)]
  by (auto simp: branch_hash_input)

lemma merkle_agree:
  assumes "hash_ok H ty m" and "hash_ok H ty n" and "pHash m = pHash n"
    and "hash_length k m" and "hash_length k n" and "collision_free H ty (branch_inputs ty m \<union> branch_inputs ty n)"
    and "node_at p m \<noteq> Null" and "node_at p n \<noteq> Null"
  shows "pHash (node_at p m) = pHash (node_at p n)"
  using assms
proof (induction p arbitrary: m n)
  case (Cons d p)
  obtain h l r h' l' r' where mn: "m = Node h l r" "n = Node h' l' r'"
    using Cons.prems(1,2) by (metis hash_ok.simps(1) hnode.exhaust)
  have "node_at p Null = Null" by (cases p) auto
  then have inner: "l \<noteq> Null" "r \<noteq> Null" "l' \<noteq> Null" "r' \<noteq> Null"
    using Cons.prems(1,2,7,8) by (auto simp: mn split: if_splits)
  then have ok: "hash_ok H ty l" "hash_ok H ty r" "hash_ok H ty l'" "hash_ok H ty r'"
    and e: "branch_hash H ty (pHash l) (pHash r) = branch_hash H ty (pHash l') (pHash r')"
    using Cons.prems(1-3) by (auto simp: mn)
  have len: "length (pHash l) = length (pHash l')"
    using Cons.prems(4,5) inner hash_length_root [of k l] hash_length_root [of k l'] by (simp add: mn)
  have cf: "collision_free H ty (branch_inputs ty l \<union> branch_inputs ty l')"
      "collision_free H ty (branch_inputs ty r \<union> branch_inputs ty r')"
    using inner by (auto intro!: collision_free_subset [OF Cons.prems(6)] simp: mn)
  have "pHash l = pHash l'" "pHash r = pHash r'"
    using same_children [OF e Cons.prems(6) _ _ len] inner by (simp_all add: mn)
  then show ?case
    using Cons.IH [OF ok(1,3) _ _ _ cf(1)] Cons.IH [OF ok(2,4) _ _ _ cf(2)] Cons.prems by (auto simp: mn split: if_splits)
qed simp

lemma Merge_hash_ok:
  assumes "hash_ok H ty S" and "hash_ok H ty T" and "pHash S = pHash T" and "hash_length k S" and "hash_length k T"
    and "collision_free H ty (branch_inputs ty S \<union> branch_inputs ty T)"
  shows "hash_ok H ty (snd (Merge_nodes junk S T)) \<and> pHash (snd (Merge_nodes junk S T)) = pHash T \<and>
    hash_length k (snd (Merge_nodes junk S T)) \<and>
    branch_inputs ty (snd (Merge_nodes junk S T)) \<subseteq> branch_inputs ty S \<union> branch_inputs ty T"
  using assms
proof (induction junk S T rule: Merge_nodes.induct)
  case (2 junk sh sL sR T)
  obtain th tL tR where T: "T = Node th tL tR" using 2(4) by (cases T) auto
  have e: "ensure_node junk T = Node th tL tR" by (simp add: ensure_node_def T)
  show ?case
  proof (cases "IsLeaf (Node sh sL sR) \<or> IsLeaf (Node th tL tR)")
    case True
    then show ?thesis using 2(3-8) by (auto simp: T ensure_node_def)
  next
    case False
    then have inner: "sL \<noteq> Null" "sR \<noteq> Null" "tL \<noteq> Null" "tR \<noteq> Null" by auto
    then have ok: "hash_ok H ty sL" "hash_ok H ty sR" "hash_ok H ty tL" "hash_ok H ty tR"
        "sh = branch_hash H ty (pHash sL) (pHash sR)" "th = branch_hash H ty (pHash tL) (pHash tR)"
      and len: "hash_length k sL" "hash_length k sR" "hash_length k tL" "hash_length k tR"
      using 2(3-7) by (auto simp: T)
    have cf: "collision_free H ty (branch_inputs ty sL \<union> branch_inputs ty tL)"
        "collision_free H ty (branch_inputs ty sR \<union> branch_inputs ty tR)"
      using inner by (auto intro!: collision_free_subset [OF 2(8)] simp: T)
    have eq: "branch_hash H ty (pHash sL) (pHash sR) = branch_hash H ty (pHash tL) (pHash tR)"
      using ok(5,6) 2(5) by (simp add: T)
    have "length (pHash sL) = length (pHash tL)"
      using hash_length_root [OF len(1) inner(1)] hash_length_root [OF len(3) inner(3)] by simp
    then have h: "pHash sL = pHash tL" "pHash sR = pHash tR"
      using same_children [OF eq 2(8)] inner by (simp_all add: T)
    obtain A B where L: "Merge_nodes junk sL tL = (A, B)" by fastforce
    obtain C D where R: "Merge_nodes junk sR tR = (C, D)" by fastforce
    have B: "hash_ok H ty B" "pHash B = pHash tL" "hash_length k B"
        "branch_inputs ty B \<subseteq> branch_inputs ty sL \<union> branch_inputs ty tL"
      using "2.IH"(1) [OF e _ _ ok(1,3) h(1) len(1,3) cf(1)] inner by (simp_all add: L)
    have D: "hash_ok H ty D" "pHash D = pHash tR" "hash_length k D"
        "branch_inputs ty D \<subseteq> branch_inputs ty sR \<union> branch_inputs ty tR"
      using "2.IH"(2) [OF e _ _ L [symmetric] ok(2,4) h(2) len(2,4) cf(2)] inner by (simp_all add: R)
    have "snd (Merge_nodes junk (Node sh sL sR) T) = Node th B D" using inner by (simp add: e L R)
    moreover have "B \<noteq> Null" "D \<noteq> Null" using B(1) D(1) by auto
    ultimately show ?thesis using B D ok 2(7) inner by (auto simp: T)
  qed
qed auto

text \<open>
  C14. Leafs from another tree are taken only when its root hash is the one known here, and then no hash
  can be forged: whatever complete tree \<open>n\<close> of the file the root hash stands for, every node the
  resulting tree has in common with \<open>n\<close> has the hash it has in \<open>n\<close>, as long as the hash function has
  no collision among the inner nodes of the trees involved.
\<close>

theorem AddLeafs_sound:
  assumes "m_eHashType src = m_eHashType t" and "ty = m_eHashType t"
    and "hash_ok H ty (m_TreeRoot src)" and "hash_ok H ty (m_TreeRoot t)" and "hash_ok H ty n"
    and "pHash (m_TreeRoot t) = pHash n"
    and "hash_length k (m_TreeRoot src)" and "hash_length k (m_TreeRoot t)" and "hash_length k n"
    and "collision_free H ty (branch_inputs ty (m_TreeRoot src) \<union> branch_inputs ty (m_TreeRoot t) \<union> branch_inputs ty n)"
    and "AddLeafs set_tree junk t src = (ok, t', src')"
  shows "ok = (GetRootHash src = GetRootHash t) \<and> (\<not> ok \<longrightarrow> t' = t) \<and>
    hash_ok H ty (m_TreeRoot t') \<and> GetRootHash t' = GetRootHash t \<and>
    (\<forall>p. node_at p (m_TreeRoot t') \<noteq> Null \<and> node_at p n \<noteq> Null \<longrightarrow>
      pHash (node_at p (m_TreeRoot t')) = pHash (node_at p n))"
proof -
  let ?S = "m_TreeRoot src" and ?T = "m_TreeRoot t"
  have nn: "?S \<noteq> Null" "?T \<noteq> Null" using assms(3,4) by auto
  then have root: "GetRootHash src = pHash ?S" "GetRootHash t = pHash ?T" by (simp_all add: GetRootHash_def)
  define T where "T = (if pHash ?S = pHash ?T then snd (Merge_nodes junk ?S ?T) else ?T)"
  have res: "ok = (pHash ?S = pHash ?T)" "m_TreeRoot t' = T" "\<not> ok \<longrightarrow> t' = t"
    using assms(1,11) nn by (auto simp: AddLeafs_def T_def split: prod.splits bool.splits)
  have "hash_ok H ty T \<and> pHash T = pHash ?T \<and> hash_length k T \<and> branch_inputs ty T \<subseteq> branch_inputs ty ?S \<union> branch_inputs ty ?T"
  proof (cases "pHash ?S = pHash ?T")
    case True
    have "collision_free H ty (branch_inputs ty ?S \<union> branch_inputs ty ?T)"
      by (rule collision_free_subset [OF assms(10)]) auto
    from Merge_hash_ok [OF assms(3,4) True assms(7,8) this] show ?thesis using True by (simp add: T_def)
  next
    case False
    then show ?thesis using assms(4,8) by (simp add: T_def)
  qed
  then have T: "hash_ok H ty T" "pHash T = pHash ?T" "hash_length k T"
      "branch_inputs ty T \<subseteq> branch_inputs ty ?S \<union> branch_inputs ty ?T" by auto
  have "collision_free H ty (branch_inputs ty T \<union> branch_inputs ty n)"
    using T(4) by (intro collision_free_subset [OF assms(10)]) auto
  from merkle_agree [OF T(1) assms(5) _ T(3) assms(9) this] have
    "\<forall>p. node_at p T \<noteq> Null \<and> node_at p n \<noteq> Null \<longrightarrow> pHash (node_at p T) = pHash (node_at p n)"
    using T(2) assms(6) by simp
  moreover have "GetRootHash t' = pHash T" using T(1) res(2) by (auto simp: GetRootHash_def)
  ultimately show ?thesis using root res T(1,2) by auto
qed

text \<open>A hash function for the examples: it copies the first bytes of its input.\<close>

definition sample_hash :: "nat \<Rightarrow> hash_function" where
  "sample_hash k = (\<lambda>_ d. map (\<lambda>i. if i < length d then d ! i + of_nat (length d) else 0) [0..<k])"

lemma sample_hash_length [simp]: "length (sample_hash k a d) = k"
  by (simp add: sample_hash_def)

definition sample_leaf :: "uint8 \<Rightarrow> hnode" where
  "sample_leaf x = Node (replicate 32 x) Null Null"

definition sample_tree :: "uint8 \<Rightarrow> uint8 \<Rightarrow> hnode" where
  "sample_tree x y =
     Node (branch_hash (sample_hash 32) HashNeo (replicate 32 x) (replicate 32 y)) (sample_leaf x) (sample_leaf y)"

lemma sample_tree_ok [simp]:
  "hash_ok (sample_hash 32) HashNeo (sample_tree x y)"
  "hash_length 32 (sample_tree x y)"
  "branch_inputs HashNeo (sample_tree x y) = {branch_input HashNeo (replicate 32 x) (replicate 32 y)}"
  by (simp_all add: sample_tree_def sample_leaf_def branch_hash_def)

theorem AddLeafs_sound_witness:
  "let n = sample_tree 1 2; t = (new_hash_tree HashNeo 500000 (- 1) (- 1))\<lparr>m_TreeRoot := Node (pHash n) Null Null\<rparr>;
       src = (new_hash_tree HashNeo 500000 (- 1) (- 1))\<lparr>m_TreeRoot := n\<rparr>
   in case AddLeafs SetTree [] t src of (ok, t', src') \<Rightarrow>
     ok = (GetRootHash src = GetRootHash t) \<and> (\<not> ok \<longrightarrow> t' = t) \<and>
     hash_ok (sample_hash 32) HashNeo (m_TreeRoot t') \<and> GetRootHash t' = GetRootHash t \<and>
     (\<forall>p. node_at p (m_TreeRoot t') \<noteq> Null \<and> node_at p n \<noteq> Null \<longrightarrow>
       pHash (node_at p (m_TreeRoot t')) = pHash (node_at p n))"
proof -
  let ?t = "(new_hash_tree HashNeo 500000 (- 1) (- 1))\<lparr>m_TreeRoot := Node (pHash (sample_tree 1 2)) Null Null\<rparr>"
  let ?s = "(new_hash_tree HashNeo 500000 (- 1) (- 1))\<lparr>m_TreeRoot := sample_tree 1 2\<rparr>"
  obtain ok t' src' where a: "AddLeafs SetTree [] ?t ?s = (ok, t', src')" by (metis prod_cases3)
  have "length (pHash (sample_tree 1 2)) = 32" by (simp add: sample_tree_def branch_hash_def)
  then show ?thesis
    unfolding Let_def a prod.case
    by (intro AddLeafs_sound [OF _ _ _ _ _ _ _ _ _ _ a, where ty = HashNeo and k = 32])
      (simp_all add: collision_free_def)
qed

lemma rehash_leafs: "tree_leafs (rehash H ty n) = tree_leafs n \<and> tree_depth (rehash H ty n) = tree_depth n"
proof (induction n)
  case (Node h l r)
  then show ?case by (cases "l = Null \<or> r = Null") simp_all
qed simp

lemma new_tree_hash:
  "m_uHashSize (new_hash_tree ty n bs d) = HashTypeSize ty"
  "\<not> IsValid (new_hash_tree ty n bs d)"
proof -
  have u: "HashTypeSize HashUnknown = 8" by (simp add: HashTypeSize_def)
  show "m_uHashSize (new_hash_tree ty n bs d) = HashTypeSize ty"
    by (simp add: u new_hash_tree_def file_hash.defs new_file_hash_def SetHash_ptr_def Let_def)
  then show "\<not> IsValid (new_hash_tree ty n bs d)"
    using IsValid_hash_zero [OF hash_size_dvd [of ty]]
    by (simp add: u IsValid_def new_hash_tree_def file_hash.defs new_file_hash_def SetHash_ptr_def Let_def)
qed

lemma SetTree_fresh: "\<exists>P. SetTree (new_hash_tree ty n bs d) T = (True, P) \<and> m_TreeRoot P = T \<and> m_eHashType P = ty"
  by (simp add: SetTree_def new_tree_hash SetHash_ptr_def)

lemma pruned_leaf_length:
  assumes "prunes m n" and "hash_length k n"
  shows "\<forall>(p, h) \<in> set (tree_leafs m). length h = k"
  using leaf_hashes [of _ _ m] prunes_hashes [OF assms(1)] assms(2) by (fastforce simp: hash_length_def)

text \<open>
  C15. A peer that has the whole tree sends the leafs of a range: what \<open>GetLeafs\<close> extracts, written by
  \<open>SaveBin\<close> and read by \<open>LoadBin\<close> into a fresh tree, \<open>AddLeafs\<close> of a receiver that knows a part of the
  same tree accepts. Nothing the receiver knew is lost, everything it has is part of the tree of the
  sender, and it has all leafs of the range asked for.
\<close>

theorem leafs_exchange:
  fixes s :: "'z hash_tree_scheme" and r :: "'y hash_tree_scheme"
  assumes "m_eHashType s = ty" and "m_eHashType r = ty" and "hash_ok H ty (m_TreeRoot s)"
    and "prunes (m_TreeRoot r) (m_TreeRoot s)" and "hash_length (HashTypeSize ty) (m_TreeRoot s)"
    and "shaped s (m_TreeRoot s) 0 (GetTreeSize s) eLeft"
    and "int (tree_depth (m_TreeRoot s)) \<le> m_DepthLimit (new_hash_tree ty (m_TotalSize s) (- 1) (- 1))"
    and "tree_depth (m_TreeRoot s) \<le> 63" and "length (tree_leafs (m_TreeRoot s)) < 2 ^ 32"
  shows "\<exists>L B P r' P'. GetLeafs junk s from to = Some L \<and> SaveBin_tree mj L (- 1) = Ret () B \<and>
    LoadBin_tree SetTree H junk' (new_hash_tree ty (m_TotalSize r) (- 1) (- 1)) (contents B) = Some (True, P) \<and>
    AddLeafs SetTree junk' r P = (True, r', P') \<and>
    prunes (m_TreeRoot r) (m_TreeRoot r') \<and> prunes (m_TreeRoot r') (m_TreeRoot s) \<and>
    (\<forall>p \<in> set (leaf_paths s (m_TreeRoot s) 0 (GetTreeSize s) eLeft from to).
      node_at p (m_TreeRoot r') \<noteq> Null \<and> pHash (node_at p (m_TreeRoot r')) = pHash (node_at p (m_TreeRoot s)))"
proof -
  let ?S = "m_TreeRoot s"
  let ?X = "Extract junk s ?S 0 (GetTreeSize s) eLeft from to (m_BlockSize s)"
  let ?L = "(new_hash_tree ty (m_TotalSize s) (- 1) (- 1))\<lparr>m_TreeRoot := ?X\<rparr>"
  let ?P = "new_hash_tree ty (m_TotalSize r) (- 1) (- 1)"
  have X: "full_tree ?X" "prunes (rehash H ty ?X) ?S" using Extract_prunes [OF assms(3)] by blast+
  have leafs: "tree_leafs (rehash H ty n) = tree_leafs n" "tree_depth (rehash H ty n) = tree_depth n" for n
    using rehash_leafs by blast+
  have "?S \<noteq> Null" using assms(3) by auto
  then have get: "GetLeafs junk s from to = Some ?L" using assms(1) by (simp add: GetLeafs_def)
  have depth: "tree_depth ?X \<le> tree_depth ?S" using prunes_depth [OF X(2)] by (simp add: leafs)
  have count: "length (tree_leafs ?X) \<le> length (tree_leafs ?S)"
    using prunes_leafs [OF X(2) hash_ok_full [OF assms(3)]] by (simp add: leafs)
  have sz: "m_uHashSize ?P = HashTypeSize ty" by (rule new_tree_hash)
  have len: "\<forall>(p, h) \<in> set (tree_leafs ?X). length h = m_uHashSize ?P"
    using pruned_leaf_length [OF X(2) assms(5)] by (simp only: leafs sz)
  have "m_uHashSize ?P < 2 ^ 16" using sz HashTypeSize_cases [of ty] by auto
  then have "\<exists>B. SaveBin_tree mj ?L (- 1) = Ret () B \<and>
      LoadBin_tree SetTree H junk' ?P (contents B) = Some (SetTree ?P (rehash H ty ?X))"
    using SaveBin_LoadBin_rehash [of ?L "- 1" ?P mj SetTree H junk'] X(1) depth count len assms(7-9) by simp
  then obtain B where B: "SaveBin_tree mj ?L (- 1) = Ret () B"
      "LoadBin_tree SetTree H junk' ?P (contents B) = Some (SetTree ?P (rehash H ty ?X))"
    by blast
  obtain P where P: "SetTree ?P (rehash H ty ?X) = (True, P)" "m_TreeRoot P = rehash H ty ?X" "m_eHashType P = ty"
    using SetTree_fresh by blast
  define T where "T = snd (Merge_nodes junk' (rehash H ty ?X) (m_TreeRoot r))"
  have T: "prunes T ?S" "prunes (rehash H ty ?X) T" "prunes (m_TreeRoot r) T"
    using Merge_prunes [OF X(2) assms(4)] by (simp_all add: T_def)
  have "pHash (rehash H ty ?X) = pHash (m_TreeRoot r)" "rehash H ty ?X \<noteq> Null" "m_TreeRoot r \<noteq> Null"
    using prunes_root [OF X(2)] prunes_root [OF assms(4)] by auto
  moreover obtain A where "Merge_nodes junk' (rehash H ty ?X) (m_TreeRoot r) = (A, T)"
    unfolding T_def by (metis prod.collapse)
  ultimately have add: "AddLeafs SetTree junk' r P = (True, r\<lparr>m_TreeRoot := T\<rparr>, P\<lparr>m_TreeRoot := A\<rparr>)"
    using P(2,3) assms(2) by (simp add: AddLeafs_def)
  have "node_at p T \<noteq> Null \<and> pHash (node_at p T) = pHash (node_at p ?S)"
    if "p \<in> set (leaf_paths s ?S 0 (GetTreeSize s) eLeft from to)" for p
    using prunes_node_at [OF T(2) node_at_rehash [OF Extract_covers [OF assms(6) that, of junk]]]
      prunes_node_at [OF T(1), of p] by simp
  then show ?thesis using get B P(1) add T
    by (intro exI [of _ ?L] exI [of _ B] exI [of _ P] exI [of _ "r\<lparr>m_TreeRoot := T\<rparr>"] exI [of _ "P\<lparr>m_TreeRoot := A\<rparr>"]) simp
qed

theorem leafs_exchange_witness:
  "let n = sample_tree 1 2; s = (new_hash_tree HashNeo 500000 (- 1) (- 1))\<lparr>m_TreeRoot := n\<rparr>;
       r = (new_hash_tree HashNeo 500000 (- 1) (- 1))\<lparr>m_TreeRoot := Node (pHash n) Null Null\<rparr>
   in \<exists>L B P r' P'. GetLeafs [] s 0 1000 = Some L \<and> SaveBin_tree (\<lambda>_. 0) L (- 1) = Ret () B \<and>
    LoadBin_tree SetTree (sample_hash 32) [] (new_hash_tree HashNeo (m_TotalSize r) (- 1) (- 1)) (contents B) = Some (True, P) \<and>
    AddLeafs SetTree [] r P = (True, r', P') \<and>
    prunes (m_TreeRoot r) (m_TreeRoot r') \<and> prunes (m_TreeRoot r') (m_TreeRoot s) \<and>
    (\<forall>p \<in> set (leaf_paths s (m_TreeRoot s) 0 (GetTreeSize s) eLeft 0 1000).
      node_at p (m_TreeRoot r') \<noteq> Null \<and> pHash (node_at p (m_TreeRoot r')) = pHash (node_at p (m_TreeRoot s)))"
proof -
  let ?s = "(new_hash_tree HashNeo 500000 (- 1) (- 1))\<lparr>m_TreeRoot := sample_tree 1 2\<rparr>"
  have sz: "HashTypeSize HashNeo = 32" by (simp add: HashTypeSize_def)
  have b: "GetBrancheSize ((new_hash_tree HashNeo 500000 (- 1) (- 1))\<lparr>m_TreeRoot := n\<rparr>) 0 500000 eLeft = 262144" for n
    by (simp add: GetBrancheSize_def branch_unit_def DivUp_def to_int_def to_int32_id)
  have t: "GetTreeSize ?s = 500000" by (simp add: GetTreeSize_def)
  have sh: "shaped ?s (m_TreeRoot ?s) 0 (GetTreeSize ?s) eLeft"
    unfolding t by (simp add: b sample_tree_def sample_leaf_def Let_def)
  show ?thesis
    unfolding Let_def
    by (rule leafs_exchange [OF _ _ _ _ _ sh])
      (simp_all add: sz, simp_all add: sample_tree_def sample_leaf_def)
qed

section \<open>Calculated trees can be stored\<close>

lemma split_ge_block:
  assumes "size_ok t (e - b)" and "b < e" and "GetBrancheSize t b e bal < e - b"
  shows "m_BlockSize t \<le> GetBrancheSize t b e bal"
proof -
  note s = branch_split [OF assms]
  have "unat (branch_unit t (e - b)) \<le> unat (GetBrancheSize t b e bal)"
    using s(1,2) by (intro dvd_imp_le) (simp_all add: unat_gt_0 word_neq_0_conv)
  then show ?thesis using unit_bounds(4) [OF assms(1)] by (simp add: word_le_nat_alt)
qed

lemma CalculateRange_tree:
  fixes t :: "'z hash_tree_scheme"
  assumes "size_ok t (e - b)" and "b < e" and "unat e < 2 ^ 63" and "length d < 2 ^ 63"
    and H: "\<And>x. length (H (GetAlgorithm (m_eHashType t)) x) = m_uHashSize t"
  shows "let N = CalculateRange H junk t (file_device d) b e bal dep
    in hash_ok H (m_eHashType t) N \<and> hash_length (m_uHashSize t) N \<and> shaped t N b e bal \<and>
      int (tree_depth N) \<le> max 0 (m_DepthLimit t - 1 - dep) \<and> length (tree_leafs N) \<le> unat (e - b)"
  using assms(1-3)
proof (induction arbitrary: dep rule: range_induct)
  case (leaf b e bal)
  then have "0 < unat (e - b)" by (auto simp: unat_gt_0)
  then show ?case using leaf assms(4)
    by (simp add: CalculateRange_leaf CalculateLeaf_file leaf_hash_def H)
next
  case (branch b e bal)
  let ?s = "GetBrancheSize t b e bal"
  note sp = split_facts [OF branch.hyps]
  have m: "unat (b + ?s) < 2 ^ 63" using sp(2) branch.prems by (simp add: word_less_nat_alt)
  let ?L = "CalculateRange H junk t (file_device d) b (b + ?s) eLeft (dep + 1)"
  let ?R = "CalculateRange H junk t (file_device d) (b + ?s) e eRight (dep + 1)"
  have L: "hash_ok H (m_eHashType t) ?L" "hash_length (m_uHashSize t) ?L" "shaped t ?L b (b + ?s) eLeft"
      "int (tree_depth ?L) \<le> max 0 (m_DepthLimit t - 1 - (dep + 1))" "length (tree_leafs ?L) \<le> unat ((b + ?s) - b)"
    using branch.IH(1) [OF m, of "dep + 1"] by (simp_all add: Let_def)
  have R: "hash_ok H (m_eHashType t) ?R" "hash_length (m_uHashSize t) ?R" "shaped t ?R (b + ?s) e eRight"
      "int (tree_depth ?R) \<le> max 0 (m_DepthLimit t - 1 - (dep + 1))" "length (tree_leafs ?R) \<le> unat (e - (b + ?s))"
    using branch.IH(2) [OF branch.prems, of "dep + 1"] by (simp_all add: Let_def)
  have nn: "?L \<noteq> Null" "?R \<noteq> Null" using L(1) R(1) by auto
  have size: "unat (e - b) = unat ((b + ?s) - b) + unat (e - (b + ?s))"
    using sp(1,2,5) branch.hyps(2) by (simp add: unat_le_sub less_imp_le word_less_nat_alt)
  have N: "CalculateRange H junk t (file_device d) b e bal dep =
      (if dep + 1 \<ge> m_DepthLimit t then Node (branch_hash H (m_eHashType t) (pHash ?L) (pHash ?R)) Null Null
       else Node (branch_hash H (m_eHashType t) (pHash ?L) (pHash ?R)) ?L ?R)"
    by (rule CalculateRange_branch [OF branch.hyps refl nn(1) refl nn(2)])
  have len: "length (branch_hash H (m_eHashType t) x y) = m_uHashSize t" for x y
    by (simp add: branch_hash_def H)
  show ?case
  proof (cases "dep + 1 \<ge> m_DepthLimit t")
    case True
    have "0 < unat (e - b)" using branch.hyps(2) by (auto simp: unat_gt_0)
    then show ?thesis using True unfolding N by (simp add: len)
  next
    case False
    then show ?thesis using L R nn branch.hyps(3) split_ge_block [OF branch.hyps] size unfolding N
      by (auto simp: len Let_def)
  qed
qed

text \<open>A tree of bounded depth has a bounded number of leafs.\<close>

lemma leafs_le_depth: "length (tree_leafs n) \<le> 2 ^ tree_depth n"
proof (induction n)
  case (Node h l r)
  have "(2 :: nat) ^ tree_depth l \<le> 2 ^ max (tree_depth l) (tree_depth r)"
       "(2 :: nat) ^ tree_depth r \<le> 2 ^ max (tree_depth l) (tree_depth r)"
    by (simp_all add: power_increasing)
  then have le: "length (tree_leafs l) + length (tree_leafs r) \<le> 2 * 2 ^ max (tree_depth l) (tree_depth r)"
    using Node by linarith
  show ?case
  proof (cases "IsLeaf (Node h l r)")
    case True
    then show ?thesis by simp
  next
    case False
    then show ?thesis using le by simp
  qed
qed simp

text \<open>
  The tree calculated for a file can be stored and read back into any tree object that knows its
  root hash: the object accepts it and has exactly the calculated tree. This needs a depth limit, or
  a file below 4 GB, so that the number of leafs fits the 32 bit counter of the format.
\<close>

theorem Calculate_SaveBin_LoadBin:
  fixes t :: "'z hash_tree_scheme"
  assumes "d \<noteq> []" and "length d < 2 ^ 62" and "m_eHashType t \<noteq> HashTorrent"
    and "m_uHashSize t = HashTypeSize (m_eHashType t)" and "size_ok t (of_nat (length d))"
    and "\<And>x. length (H (GetAlgorithm (m_eHashType t)) x) = m_uHashSize t"
    and "0 \<le> m_DepthLimit t" and "m_DepthLimit t \<le> 64" and "m_DepthLimit t \<le> 32 \<or> length d < 2 ^ 32"
  shows "\<exists>t' B. Calculate_tree SetTree H junk t (file_device d) = (True, t') \<and>
    SaveBin_tree mj t' (- 1) = Ret () B \<and>
    (\<forall>t2 :: 'y hash_tree_scheme. m_eHashType t2 = m_eHashType t \<and> m_uHashSize t2 = m_uHashSize t \<and> m_Hash t2 = m_Hash t' \<longrightarrow>
      (\<exists>t2'. LoadBin_tree SetTree H junk' t2 (contents B) = Some (True, t2') \<and> m_TreeRoot t2' = m_TreeRoot t'))"
proof -
  let ?n = "of_nat (length d) :: uint64"
  let ?t = "SetHash_ptr (Unload_tree t\<lparr>m_TotalSize := ?n\<rparr>) None"
  have un: "unat ?n = length d" using assms(2) by (simp add: unat_of_nat_eq)
  then have n0: "0 < ?n" using assms(1) by (simp add: word_less_nat_alt)
  have t: "m_TotalSize ?t = ?n" "m_eHashType ?t = m_eHashType t" "m_BlockSize ?t = m_BlockSize t"
      "m_PartSize ?t = m_PartSize t" "m_uHashSize ?t = m_uHashSize t" "m_DepthLimit ?t = m_DepthLimit t"
      "m_Hash ?t = replicate (m_uHashSize t) 0"
    by (simp_all add: SetHash_ptr_def Unload_tree_def)
  have tree: "GetTreeSize ?t = ?n" using assms(3) t by (simp add: GetTreeSize_def)
  have ok: "size_ok ?t (?n - 0)" using assms(5) t by (simp add: size_ok_def)
  have b: "unat ?n < 2 ^ 63" "length d < 2 ^ 63" using assms(2) un by simp_all
  define N where "N = CalculateRange H junk ?t (file_device d) 0 ?n eLeft 1"
  have N: "hash_ok H (m_eHashType t) N" "hash_length (m_uHashSize t) N"
      "int (tree_depth N) \<le> max 0 (m_DepthLimit t - 2)" "length (tree_leafs N) \<le> length d"
    using CalculateRange_tree [OF ok n0 b, of H junk eLeft 1] assms(6) t un by (simp_all add: Let_def N_def)
  have inv: "\<not> IsValid ?t" using IsValid_hash_zero [OF hash_size_dvd] assms(4) t(5,7) by (simp add: IsValid_def)
  let ?t' = "(SetHash_ptr ?t (Some (pHash N)))\<lparr>m_TreeRoot := N\<rparr>"
  have "N \<noteq> Null" using N(1) by auto
  then have calc: "Calculate_tree SetTree H junk t (file_device d) = (True, ?t')"
    using assms(1,3) inv tree t(2) by (simp add: Calculate_tree_def SetTree_def Let_def dev_size_file N_def)
  have leafs: "\<forall>(p, h) \<in> set (tree_leafs N). length h = m_uHashSize t"
    by (rule pruned_leaf_length [OF prunes_refl [OF hash_ok_full [OF N(1)]] N(2)])
  have count: "length (tree_leafs N) < 2 ^ 32"
  proof (cases "m_DepthLimit t \<le> 32")
    case True
    then have "tree_depth N \<le> 31" using N(3) by linarith
    then have "(2 :: nat) ^ tree_depth N \<le> 2 ^ 31" by (intro power_increasing) simp_all
    then show ?thesis using leafs_le_depth [of N] by simp
  qed (use assms(9) N(4) in simp)
  have t': "m_TreeRoot ?t' = N" "m_DepthLimit ?t' = m_DepthLimit t" "m_Hash ?t' = take (m_uHashSize t) (pHash N)"
    using t by (simp_all add: SetHash_ptr_def)
  have depth: "int (tree_depth N) \<le> m_DepthLimit t" "tree_depth N \<le> 63" using N(3) assms(7,8) by linarith+
  have small: "m_uHashSize t < 2 ^ 16" using assms(4) HashTypeSize_cases [of "m_eHashType t"] by auto
  have save: "\<exists>B. SaveBin_tree mj ?t' (- 1) = Ret () B \<and>
      LoadBin_tree SetTree H junk' t2 (contents B) = Some (SetTree t2 N)"
    if "m_eHashType t2 = m_eHashType t" "m_uHashSize t2 = m_uHashSize t" for t2 :: "'y hash_tree_scheme"
    using SaveBin_LoadBin [of H t2 ?t' "- 1" mj SetTree junk'] N(1) depth leafs count small that t'(1,2) by simp
  have compare: "SetTree t2 N = (True, t2') \<and> m_TreeRoot t2' = N"
    if "m_eHashType t2 = m_eHashType t" "m_uHashSize t2 = m_uHashSize t" "m_Hash t2 = m_Hash ?t'"
      and "t2' = (if IsValid t2 then t2 else SetHash_ptr t2 (Some (pHash N)))\<lparr>m_TreeRoot := N\<rparr>"
    for t2 t2' :: "'y hash_tree_scheme"
    using that assms(3) t'(3) by (auto simp: SetTree_def Compare_ptr_def)
  obtain B where B: "SaveBin_tree mj ?t' (- 1) = Ret () B"
    using SaveBin_LoadBin [of H ?t' ?t' "- 1" mj SetTree junk'] N(1) depth leafs count small t'(1,2) t(2,5)
    by (auto simp: SetHash_ptr_def)
  show ?thesis
  proof (intro exI conjI allI impI)
    show "Calculate_tree SetTree H junk t (file_device d) = (True, ?t')" by (rule calc)
    show "SaveBin_tree mj ?t' (- 1) = Ret () B" by (rule B)
    fix t2 :: "'y hash_tree_scheme"
    assume a: "m_eHashType t2 = m_eHashType t \<and> m_uHashSize t2 = m_uHashSize t \<and> m_Hash t2 = m_Hash ?t'"
    let ?t2' = "(if IsValid t2 then t2 else SetHash_ptr t2 (Some (pHash N)))\<lparr>m_TreeRoot := N\<rparr>"
    show "LoadBin_tree SetTree H junk' t2 (contents B) = Some (True, ?t2')"
      using save [of t2] B compare [of t2 ?t2'] a by simp
    show "m_TreeRoot ?t2' = m_TreeRoot ?t'" using t'(1) by simp
  qed
qed

theorem Calculate_SaveBin_LoadBin_witness:
  "\<exists>t' B. Calculate_tree SetTree (sample_hash 32) [] (new_hash_tree HashNeo 3 (- 1) (- 1)) (file_device [1, 2, 3]) = (True, t') \<and>
    SaveBin_tree (\<lambda>_. 0) t' (- 1) = Ret () B \<and>
    (\<forall>t2 :: hash_tree. m_eHashType t2 = HashNeo \<and> m_uHashSize t2 = 32 \<and> m_Hash t2 = m_Hash t' \<longrightarrow>
      (\<exists>t2'. LoadBin_tree SetTree (sample_hash 32) [] t2 (contents B) = Some (True, t2') \<and> m_TreeRoot t2' = m_TreeRoot t'))"
proof -
  let ?t = "new_hash_tree HashNeo 3 (- 1) (- 1)"
  have sz: "m_uHashSize ?t = 32" "HashTypeSize HashNeo = 32" by (simp_all add: new_tree_hash HashTypeSize_def)
  have "size_ok ?t (of_nat (length [1, 2, 3 :: uint8]))" by (simp add: size_ok_def ceil_div_def)
  then show ?thesis
    using Calculate_SaveBin_LoadBin [of "[1, 2, 3]" ?t "sample_hash 32" "[]" "\<lambda>_. 0" "[]"] sz by simp
qed

section \<open>Identifiers of the Merkle torrents\<close>

lemma highest_bit32_spec:
  assumes "drop_bit pos w \<noteq> 0"
  shows "2 ^ highest_bit32 w pos \<le> unat w \<and> unat w < 2 ^ Suc (highest_bit32 w pos)"
  using assms
proof (induction w pos rule: highest_bit32.induct)
  case (1 w pos)
  show ?case
  proof (cases "drop_bit (pos + 1) w \<noteq> 0 \<and> pos < 32")
    case True
    then have "highest_bit32 w pos = highest_bit32 w (pos + 1)" by (subst highest_bit32.simps) simp
    then show ?thesis using 1(1) [OF True] True by simp
  next
    case False
    then have h: "highest_bit32 w pos = pos" by (subst highest_bit32.simps) (simp only: if_not_P simp_thms if_False)
    have "pos < 32"
    proof (rule ccontr)
      assume "\<not> pos < 32"
      then have "(2 :: nat) ^ 32 \<le> 2 ^ pos" by (intro power_increasing) simp_all
      then have "unat w < 2 ^ pos" using unat_lt2p [of w] by simp
      then show False using 1(2) drop_bit_zero [of pos w] by simp
    qed
    then have "drop_bit (pos + 1) w = 0" using False by simp
    then show ?thesis using 1(2) unfolding h by (simp add: drop_bit_zero not_less)
  qed
qed

lemma cbits_nat:
  assumes "2 ^ k \<le> unat v" and "unat v < 2 ^ Suc k" and "k < 31"
  shows "unat (cbits v) = 3 * 2 ^ k - 1 - unat v"
proof -
  have "drop_bit 0 v \<noteq> 0" using assms(1) by auto
  from highest_bit32_spec [OF this] have h: "2 ^ highest_bit32 v 0 \<le> unat v" "unat v < 2 ^ Suc (highest_bit32 v 0)" by auto
  have "(2 :: nat) ^ k < 2 ^ Suc (highest_bit32 v 0)" "(2 :: nat) ^ highest_bit32 v 0 < 2 ^ Suc k"
    using assms(1,2) h by linarith+
  then have "k < Suc (highest_bit32 v 0)" "highest_bit32 v 0 < Suc k" by (simp_all only: power_strict_increasing_iff one_less_numeral_iff semiring_norm)
  then have k: "highest_bit32 v 0 = k" by simp
  have pw: "unat (push_bit j (1 :: uint32)) = 2 ^ j" if "j < 32" for j
    using power_strict_increasing [OF that, of "2 :: nat"]
    unfolding unsigned_push_bit_eq by (simp add: take_bit_eq_mod push_bit_eq_mult)
  let ?h = "push_bit k (1 :: uint32)"
  have h1: "unat ?h = 2 ^ k" "unat (push_bit 1 ?h) = 2 ^ Suc k"
    using pw [of k] pw [of "Suc k"] assms(3) by (simp_all add: push_bit_push_bit mult.commute)
  have t: "unat (push_bit 1 ?h - v) = 2 ^ Suc k - unat v"
    using assms(2) h1(2) by (subst unat_sub) (simp_all add: word_le_nat_alt)
  have b: "(2 :: nat) ^ k \<le> 2 ^ 30" using assms(3) by (intro power_increasing) simp_all
  have "unat (?h + (push_bit 1 ?h - v)) = (unat ?h + unat (push_bit 1 ?h - v)) mod 2 ^ LENGTH(32)"
    by (rule unat_word_ariths)
  also have "\<dots> = 2 ^ k + (2 ^ Suc k - unat v)" unfolding h1 t using b by simp
  finally have u: "unat (?h + (push_bit 1 ?h - v)) = 2 ^ k + (2 ^ Suc k - unat v)" .
  then have "(1 :: uint32) \<le> ?h + (push_bit 1 ?h - v)" by (simp only: word_le_nat_alt u unat_1) (simp add: Suc_le_eq)
  then have "unat (?h + (push_bit 1 ?h - v) - 1) = 2 ^ k + (2 ^ Suc k - unat v) - 1"
    by (simp only: unat_sub u) simp
  then show ?thesis unfolding cbits_def Let_def k using assms(1,2) by simp
qed

lemma cbits_cbits:
  assumes "v \<noteq> 0" and "unat v < 2 ^ 31"
  shows "cbits (cbits v) = v" and "cbits v \<noteq> 0"
proof -
  have "drop_bit 0 v \<noteq> 0" using assms(1) by simp
  from highest_bit32_spec [OF this] obtain k where k: "2 ^ k \<le> unat v" "unat v < 2 ^ Suc k" by blast
  have "(2 :: nat) ^ k < 2 ^ 31" using k assms(2) by linarith
  then have k31: "k < 31" by (rule power_less_imp_less_exp [rotated]) simp
  have c: "unat (cbits v) = 3 * 2 ^ k - 1 - unat v" by (rule cbits_nat [OF k k31])
  have "2 ^ k \<le> unat (cbits v)" "unat (cbits v) < 2 ^ Suc k" using c k by auto
  from cbits_nat [OF this k31] have "unat (cbits (cbits v)) = unat v" using c k by simp
  then show "cbits (cbits v) = v" by (simp add: word_unat_eq_iff)
  show "cbits v \<noteq> 0" using \<open>2 ^ k \<le> unat (cbits v)\<close> by auto
qed

text \<open>
  The numbers of the nodes in the two notations are translated into each other without loss, for
  trees of up to 30 levels: each level keeps its numbers, in reverse order.
\<close>

theorem Neo_Merkle:
  assumes "n \<noteq> 0" and "unat n < 2 ^ 31" and "unat m < 2 ^ 31 - 1"
  shows "Merkle2Neo (Neo2Merkle n) = n \<and> Neo2Merkle (Merkle2Neo m) = m"
proof -
  have "unat (m + 1) = unat m + 1" using assms(3) by (simp add: unat_word_ariths)
  then have "m + 1 \<noteq> 0" "unat (m + 1) < 2 ^ 31" using assms(3) by auto
  then show ?thesis using cbits_cbits [OF assms(1,2)] cbits_cbits [of "m + 1"] by (simp add: Merkle2Neo_def Neo2Merkle_def)
qed

theorem Neo_Merkle_witness: "Merkle2Neo (Neo2Merkle 6) = 6 \<and> Neo2Merkle (Merkle2Neo 9) = 9"
  using Neo_Merkle [of 6 9] by simp

end
