(* ===== verification/TreeSetter.thy ===== *)
theory TreeSetter
  imports HashTreeIO
begin

text \<open>
  The contract of the virtual \<open>SetTree\<close>, by which \<open>CFileHashTree\<close> and \<open>CFileHashTreeEx\<close> decide whether a
  tree belongs to the file, as the locale \<open>tree_setter\<close>. What the operations that call it guarantee is
  proved once from the contract, which both classes meet.
\<close>

section \<open>Loading arbitrary leafs\<close>

lemma load_leaf_ToGo: "load_leaf junk h w k n = Some m \<Longrightarrow> 0 \<le> k"
proof (induction rule: load_leaf.raw_induct [of "\<lambda>_ _ _ k _ _. 0 \<le> k", rotated, consumes 1])
  case (1 load junk h w k n m)
  show ?case
  proof (rule ccontr)
    assume "\<not> 0 \<le> k"
    then have "\<not> 0 \<le> k - 1" "k \<noteq> 0" by simp_all
    then show False using 1(2) 1(1) [of _ _ _ "k - 1"]
      by (auto simp: Let_def split: if_splits bind_splits)
  qed
qed

lemma top_align_le: "i \<le> 64 \<Longrightarrow> fst (top_align i w) \<le> 64"
proof (induction i w rule: top_align.induct)
  case (1 i w)
  show ?case
  proof (cases "i < 64 \<and> w AND 0x8000000000000000 = 0")
    case True
    then show ?thesis using "1.IH" by (subst top_align.simps) simp
  next
    case False
    then show ?thesis using "1.prems" by (subst top_align.simps) auto
  qed
qed

lemma top_align_63:
  assumes "w \<noteq> 0"
  shows "fst (top_align 0 w) \<le> 63"
proof -
  define L where "L = Max {j. j < 64 \<and> bit w j}"
  have "\<exists>j. bit w j" using assms by (auto simp: bit_eq_iff)
  then have ne: "{j. j < 64 \<and> bit w j} \<noteq> {}" using bit_imp_le_length [of w] by auto
  have L: "L \<in> {j. j < 64 \<and> bit w j}" unfolding L_def using ne by (intro Max_in) auto
  have le: "j \<le> L" if "j < 64" "bit w j" for j unfolding L_def using that by (intro Max_ge) auto
  then have "top_align 0 (push_bit 0 w) = (63 - L, push_bit (63 - L) w)"
    using L by (intro top_align_word) (auto dest: le leD)
  then show ?thesis by simp
qed

lemma top_align_zero: "i \<le> 64 \<Longrightarrow> top_align i 0 = (64, 0)"
proof (induction "64 - i" arbitrary: i)
  case 0
  then show ?case by (subst top_align.simps) simp
next
  case (Suc k)
  then have "i < 64" "64 - (i + 1) = k" by linarith+
  then show ?case using Suc.hyps(1) [of "i + 1"] by (subst top_align.simps) simp
qed

lemma load_leafs_Some:
  assumes "load_leafs junk ds n = Some m" and "full_tree n"
  shows "full_tree m"
  using assms
proof (induction ds arbitrary: n)
  case (Cons d ds)
  obtain p h where d: "d = (p, h)" by (cases d)
  obtain i w where w: "top_align 0 p = (i, w)" by fastforce
  obtain n1 where n1: "load_leaf junk h (push_bit 1 w) (64 - int i - 1) n = Some n1" "load_leafs junk ds n1 = Some m"
    using Cons.prems(1) by (auto simp: d w split: bind_splits)
  then obtain k where k: "64 - int i - 1 = int k" using load_leaf_ToGo nonneg_int_cases by metis
  have "n1 = load_at junk (path_of k (push_bit 1 w)) h n" using n1(1) unfolding k load_leaf_at by simp
  moreover have "full_tree (load_at junk q h n)" if "full_tree n" for q n
    using that
  proof (induction q arbitrary: n)
    case (Cons c q)
    then obtain x l r where n: "n = Node x l r" by (cases n) auto
    have "full_tree (allocNode junk)" by (simp add: allocNode_def)
    then show ?case using Cons by (auto simp: n expand_def allocNode_def Let_def)
  next
    case Nil
    then show ?case by (cases n) auto
  qed
  ultimately show ?case using Cons.IH n1(2) Cons.prems(2) by blast
qed simp

lemma CalculateTree_full: "full_tree n \<Longrightarrow> CalculateTree H t n = Some (rehash H (m_eHashType t) n)"
proof (induction n)
  case (Node h l r)
  then show ?case by (cases "l = Null \<or> r = Null") (auto simp: CalculateBranche_def)
qed simp

lemma CalculateTree_not_Null: "CalculateTree H t n = Some m \<Longrightarrow> m \<noteq> Null"
  by (cases n) (auto simp: CalculateBranche_def split: if_splits option.splits)

text \<open>
  C16. \<open>Load\<close> returns exactly when no leaf has the identifier 0. For an identifier 0 the loop that looks
  for its highest bit ends with \<open>i = 64\<close>, and the recursion starts with -1 steps to go.
\<close>

theorem Load_returns:
  "(\<exists>r. Load_tree set_tree H junk t ds = Some r) = (\<forall>p \<in> fst ` set ds. p \<noteq> 0)"
proof -
  have "(\<exists>m. load_leafs junk ds n = Some m) = (\<forall>p \<in> fst ` set ds. p \<noteq> 0)" for n
  proof (induction ds arbitrary: n)
    case (Cons d ds)
    obtain p h where d: "d = (p, h)" by (cases d)
    show ?case
    proof (cases "p = 0")
      case True
      have "load_leaf junk h 0 (- 1) n = None" using load_leaf_ToGo [of junk h 0 "- 1" n] by (cases "load_leaf junk h 0 (- 1) n") auto
      then show ?thesis by (simp add: d True top_align_zero)
    next
      case False
      obtain i w where w: "top_align 0 p = (i, w)" by fastforce
      then have "i \<le> 63" using top_align_63 [OF False] by simp
      then obtain k where "64 - int i - 1 = int k" using nonneg_int_cases [of "64 - int i - 1"] by auto
      then show ?thesis using Cons.IH False by (simp add: d w load_leaf_at)
    qed
  qed simp
  from this [of "allocNode junk"] show ?thesis by (auto simp: Load_tree_def split: bind_splits)
qed

lemma Merge_root: "T \<noteq> Null \<Longrightarrow> snd (Merge_nodes junk S T) \<noteq> Null \<and> pHash (snd (Merge_nodes junk S T)) = pHash T"
  by (cases S; cases T) (auto simp: ensure_node_def split: prod.splits)

lemma empty_root: "m_TreeRoot t = Null \<Longrightarrow> t\<lparr>m_TreeRoot := Null\<rparr> = t"
  by (cases t) simp

theorem Load_returns_witness:
  "(\<exists>r. Load_tree SetTree (sample_hash 32) [] (new_hash_tree HashNeo 9 (- 1) (- 1)) [(1, [5])] = Some r) \<and>
   \<not> (\<exists>r. Load_tree SetTree (sample_hash 32) [] (new_hash_tree HashNeo 9 (- 1) (- 1)) [(0, [5])] = Some r)"
  using Load_returns [of SetTree "sample_hash 32" "[]" "new_hash_tree HashNeo 9 (- 1) (- 1)" "[(1, [5])]"]
    Load_returns [of SetTree "sample_hash 32" "[]" "new_hash_tree HashNeo 9 (- 1) (- 1)" "[(0, [5])]"] by simp

section \<open>The contract of SetTree\<close>

locale tree_setter =
  fixes set_tree :: "'z tree_setter"
    and inv :: "'z hash_tree_scheme \<Rightarrow> bool"
  assumes set_conf: "set_tree t n = (ok, t') \<Longrightarrow> same_conf t t'"
    and set_root: "set_tree t n = (True, t') \<Longrightarrow> m_TreeRoot t' = n"
    and set_hash: "set_tree t n = (ok, t') \<Longrightarrow> IsValid t \<Longrightarrow> m_Hash t' = m_Hash t"
    and set_inv: "inv t \<Longrightarrow> n \<noteq> Null \<Longrightarrow> set_tree t n = (ok, t') \<Longrightarrow> inv t'"
    and grow_inv: "inv t \<Longrightarrow> m_TreeRoot t \<noteq> Null \<Longrightarrow> n \<noteq> Null \<Longrightarrow> pHash n = pHash (m_TreeRoot t) \<Longrightarrow>
      inv (t\<lparr>m_TreeRoot := n\<rparr>)"
    and empty_inv: "inv (t\<lparr>m_TreeRoot := Null\<rparr>)"
begin

lemma Load_accepted:
  assumes "Load_tree set_tree H junk t ds = Some (True, t')"
  shows "hash_ok H (m_eHashType t) (m_TreeRoot t') \<and> same_conf t t'"
proof -
  obtain n where n: "load_leafs junk ds (allocNode junk) = Some n"
    using assms by (auto simp: Load_tree_def split: bind_splits)
  have f: "full_tree n" using load_leafs_Some [OF n] by (simp add: allocNode_def)
  then have "set_tree t (rehash H (m_eHashType t) n) = (True, t')"
    using assms n by (simp add: Load_tree_def CalculateTree_full)
  then show ?thesis using set_root set_conf rehash_hash_ok [OF f] by metis
qed

lemma Load_inv: "inv t \<Longrightarrow> Load_tree set_tree H junk t ds = Some (ok, t') \<Longrightarrow> inv t'"
  using set_inv CalculateTree_not_Null by (fastforce simp: Load_tree_def split: bind_splits option.splits)

lemma LoadBin_accepted:
  "LoadBin_tree set_tree H junk t a = Some (True, t') \<Longrightarrow> hash_ok H (m_eHashType t) (m_TreeRoot t') \<and> same_conf t t'"
  using Load_accepted by (auto simp: LoadBin_tree_def split: outcome.splits)

lemma LoadBin_inv: "inv t \<Longrightarrow> LoadBin_tree set_tree H junk t a = Some (ok, t') \<Longrightarrow> inv t'"
  using Load_inv by (auto simp: LoadBin_tree_def split: outcome.splits)

lemma SetHashSet_inv: "inv t \<Longrightarrow> SetHashSet_tree set_tree H junk t hs = Some (ok, t') \<Longrightarrow> inv t'"
  using set_inv CalculateTree_not_Null
  by (fastforce simp: SetHashSet_tree_def split: bind_splits option.splits if_splits)

lemma SetRootHash_inv: "inv t \<Longrightarrow> SetRootHash set_tree junk t h = (ok, t') \<Longrightarrow> inv t'"
  using set_inv by (fastforce simp: SetRootHash_def split: prod.splits bool.splits)

lemma merged_inv:
  assumes "inv t" and "m_TreeRoot t \<noteq> Null"
  shows "inv (t\<lparr>m_TreeRoot := snd (Merge_nodes junk S (m_TreeRoot t))\<rparr>)"
  using Merge_root [OF assms(2)] grow_inv [OF assms] by blast

lemma AddLeafs_inv:
  assumes "inv t" and "AddLeafs set_tree junk t src = (ok, t', src')"
  shows "inv t'"
proof (cases "m_TreeRoot t = Null")
  case True
  let ?n = "Node (pHash (m_TreeRoot src)) Null Null"
  obtain ok1 t1 where t1: "set_tree t ?n = (ok1, t1)" by fastforce
  have "inv t1" using set_inv [OF assms(1) _ t1] by simp
  moreover have "m_TreeRoot t1 = ?n" if ok1 using set_root t1 that by simp
  ultimately have "ok1 \<Longrightarrow> inv (t1\<lparr>m_TreeRoot := snd (Merge_nodes junk (m_TreeRoot src) (m_TreeRoot t1))\<rparr>)"
    using merged_inv [OF \<open>inv t1\<close>, of junk "m_TreeRoot src"] by simp
  then show ?thesis using assms t1 True \<open>inv t1\<close>
    by (cases ok1) (auto simp: AddLeafs_def split: if_splits prod.splits)
next
  case False
  then show ?thesis using assms merged_inv [OF assms(1) False, of junk "m_TreeRoot src"]
    by (auto simp: AddLeafs_def split: if_splits prod.splits bool.splits)
qed

lemma empty_tree_inv: "m_TreeRoot t = Null \<Longrightarrow> inv t"
  using empty_inv [of t] empty_root by metis

lemma Calculate_inv:
  assumes "Calculate_tree set_tree H junk t f = (ok, t')"
  shows "inv t'"
proof -
  let ?u = "Unload_tree t"
  let ?t = "SetHash_ptr (?u\<lparr>m_TotalSize := of_nat (dev_size f)\<rparr>) None"
  have i: "inv ?u" "inv ?t" by (auto intro!: empty_tree_inv simp: Unload_tree_def SetHash_ptr_def)
  show ?thesis using assms i set_inv [OF i(2)]
    by (auto simp: Calculate_tree_def Let_def split: if_splits)
qed

text \<open>No operation changes the size of the hash.\<close>

lemma set_size: "set_tree t n = (ok, t') \<Longrightarrow> m_uHashSize t' = m_uHashSize t"
  using set_conf by (simp add: same_conf_def)

lemma LoadBin_size: "LoadBin_tree set_tree H junk t a = Some (ok, t') \<Longrightarrow> m_uHashSize t' = m_uHashSize t"
  using set_size by (fastforce simp: LoadBin_tree_def Load_tree_def split: outcome.splits bind_splits option.splits)

lemma SetHashSet_size: "SetHashSet_tree set_tree H junk t hs = Some (ok, t') \<Longrightarrow> m_uHashSize t' = m_uHashSize t"
  using set_size by (fastforce simp: SetHashSet_tree_def split: bind_splits option.splits if_splits)

lemma SetRootHash_size: "SetRootHash set_tree junk t h = (ok, t') \<Longrightarrow> m_uHashSize t' = m_uHashSize t"
  using set_size by (fastforce simp: SetRootHash_def split: prod.splits bool.splits)

lemma AddLeafs_size: "AddLeafs set_tree junk t src = (ok, t', src') \<Longrightarrow> m_uHashSize t' = m_uHashSize t"
  using set_size by (fastforce simp: AddLeafs_def split: prod.splits bool.splits if_splits)

lemma Calculate_size: "Calculate_tree set_tree H junk t f = (ok, t') \<Longrightarrow> m_uHashSize t' = m_uHashSize t"
  using set_size [of "SetHash_ptr (Unload_tree t\<lparr>m_TotalSize := of_nat (dev_size f)\<rparr>) None"]
  by (fastforce simp: Calculate_tree_def Let_def Unload_tree_def SetHash_ptr_def split: if_splits)

end

section \<open>CFileHashTree\<close>

text \<open>The tree kept for a file has the hash of the file as its root (torrents aside).\<close>

definition tree_ok :: "'z hash_tree_scheme \<Rightarrow> bool" where
  "tree_ok t \<longleftrightarrow> (m_eHashType t \<noteq> HashTorrent \<and> m_TreeRoot t \<noteq> Null \<longrightarrow> Compare_ptr t (pHash (m_TreeRoot t)))"

interpretation file_tree: tree_setter SetTree tree_ok
proof
  fix t n t' and ok :: bool
  assume s: "SetTree t n = (ok, t')"
  then show "same_conf t t'"
    by (auto simp: SetTree_def same_conf_def SetHash_ptr_def split: if_splits)
  show "IsValid t \<Longrightarrow> m_Hash t' = m_Hash t" using s by (auto simp: SetTree_def split: if_splits)
  show "tree_ok t \<Longrightarrow> n \<noteq> Null \<Longrightarrow> tree_ok t'" using s
    by (auto simp: SetTree_def tree_ok_def Compare_ptr_def SetHash_ptr_def split: if_splits)
qed (auto simp: SetTree_def tree_ok_def Compare_ptr_def split: if_splits)



section \<open>CFileHashTreeEx\<close>

definition meta_ok :: "hash_function \<Rightarrow> hash_tree_ex \<Rightarrow> bool" where
  "meta_ok H t \<longleftrightarrow> (IsValid t \<and> HasMetaHash t \<and> m_TreeRoot t \<noteq> Null \<longrightarrow>
     Validate_hashes H t (m_MetaHash t) (GetRootHash t))"

interpretation ex_tree: tree_setter "SetTree_ex H" "meta_ok H" for H
proof
  fix t n t' and ok :: bool
  assume s: "SetTree_ex H t n = (ok, t')"
  then show "same_conf t t'"
    by (auto simp: SetTree_ex_def Validate_ex_def same_conf_def SetHash_ptr_def Let_def split: if_splits)
  show "IsValid t \<Longrightarrow> m_Hash t' = m_Hash t" using s
    by (auto simp: SetTree_ex_def Validate_ex_def IsValid_def Let_def split: if_splits)
  show "meta_ok H t \<Longrightarrow> n \<noteq> Null \<Longrightarrow> meta_ok H t'" using s
    by (auto simp: SetTree_ex_def Validate_ex_def meta_ok_def Validate_hashes_def HasMetaHash_def GetRootHash_def
        Compare_ptr_def SetHash_ptr_def Let_def split: if_splits)
next
  fix t n t'
  assume "SetTree_ex H t n = (True, t')"
  then show "m_TreeRoot t' = n" by (auto simp: SetTree_ex_def Validate_ex_def SetHash_ptr_def Let_def split: if_splits)
next
  fix t n
  assume "meta_ok H t" "m_TreeRoot t \<noteq> Null" "n \<noteq> Null" "pHash n = pHash (m_TreeRoot t)"
  then show "meta_ok H (t\<lparr>m_TreeRoot := n\<rparr>)"
    by (auto simp: meta_ok_def Validate_hashes_def HasMetaHash_def GetRootHash_def IsValid_def Compare_ptr_def)
qed (simp add: meta_ok_def)

text \<open>
  The operations on a tree with a meta data hash; \<open>SetHash\<close> is called on objects without a tree. The
  bytes \<open>malloc\<close> leaves are arbitrary in every step.
\<close>

inductive ex_step :: "hash_function \<Rightarrow> hash_tree_ex \<Rightarrow> hash_tree_ex \<Rightarrow> bool" for H where
  meta: "SetMetaHash H t m = (ok, t') \<Longrightarrow> ex_step H t t'"
| hash: "m_TreeRoot t = Null \<Longrightarrow> SetHash t d = (ok, t') \<Longrightarrow> ex_step H t t'"
| root: "SetRootHash (SetTree_ex H) junk t d = (ok, t') \<Longrightarrow> ex_step H t t'"
| loadBin: "LoadBin_tree (SetTree_ex H) H junk t array = Some (ok, t') \<Longrightarrow> ex_step H t t'"
| hashSet: "SetHashSet_tree (SetTree_ex H) H junk t hs = Some (ok, t') \<Longrightarrow> ex_step H t t'"
| addLeafs: "AddLeafs (SetTree_ex H) junk t (src :: hash_tree) = (ok, t', src') \<Longrightarrow> ex_step H t t'"
| calculate: "Calculate_ex H junk t f = (ok, t') \<Longrightarrow> ex_step H t t'"
| unload: "ex_step H t (Unload_tree t)"

lemma SetMetaHash_ok: "SetMetaHash H t m = (ok, t') \<Longrightarrow> meta_ok H t'"
  by (auto simp: SetMetaHash_def Validate_ex_def meta_ok_def Validate_hashes_def HasMetaHash_def GetRootHash_def
      Compare_ptr_def SetHash_ptr_def Let_def split: if_splits)

lemma not_valid_zero: "4 dvd m_uHashSize t \<Longrightarrow> \<not> IsValid (SetHash_ptr t None)"
  by (simp add: IsValid_def SetHash_ptr_def IsValid_hash_zero)

lemma Calculate_ex_ok:
  assumes "4 dvd m_uHashSize t" and "Calculate_ex H junk t f = (ok, t')"
  shows "meta_ok H t' \<and> m_uHashSize t' = m_uHashSize t"
proof -
  obtain ok1 t1 where t1: "Calculate_tree (SetTree_ex H) H junk t f = (ok1, t1)" by fastforce
  then have "m_uHashSize t1 = m_uHashSize t" "meta_ok H t1"
    using ex_tree.Calculate_size ex_tree.Calculate_inv by blast+
  moreover from this have "meta_ok H (SetHash_ptr t1 None)" using not_valid_zero [of t1] assms(1) by (simp add: meta_ok_def)
  ultimately show ?thesis using assms(2) t1 by (auto simp: Calculate_ex_def SetHash_ptr_def split: bool.splits)
qed

lemma ex_step_keeps:
  assumes "ex_step H t t'" and "4 dvd m_uHashSize t" and "meta_ok H t"
  shows "meta_ok H t' \<and> m_uHashSize t' = m_uHashSize t"
  using assms
proof (induction rule: ex_step.induct)
  case (meta t m ok t')
  then show ?case using SetMetaHash_ok
    by (auto simp: SetMetaHash_def Validate_ex_def SetHash_ptr_def Let_def split: if_splits)
next
  case (hash t d ok t')
  then show ?case by (auto simp: SetHash_def SetHash_ptr_def meta_ok_def split: if_splits)
next
  case (calculate junk t f ok t')
  then show ?case using Calculate_ex_ok by blast
next
  case (unload t)
  then show ?case by (simp add: Unload_tree_def meta_ok_def)
next
  case (root junk t d ok t')
  then show ?case by (simp add: ex_tree.SetRootHash_inv ex_tree.SetRootHash_size)
next
  case (loadBin junk t array ok t')
  then show ?case by (simp add: ex_tree.LoadBin_inv ex_tree.LoadBin_size)
next
  case (hashSet junk t hs ok t')
  then show ?case by (simp add: ex_tree.SetHashSet_inv ex_tree.SetHashSet_size)
next
  case (addLeafs junk t src ok t' src')
  then show ?case by (simp add: ex_tree.AddLeafs_inv ex_tree.AddLeafs_size)
qed

text \<open>
  C18. However a \<open>CFileHashTreeEx\<close> got where it is: when it holds a tree, a meta data hash and a valid hash,
  then these belong together, as \<open>Validate\<close> would find.
\<close>

theorem ex_reachable:
  assumes "(ex_step H)\<^sup>*\<^sup>* (new_hash_tree_ex ty n bs d) t"
    and "IsValid t" and "HasMetaHash t" and "IsLoaded_tree t"
  shows "Validate_hashes H t (m_MetaHash t) (GetRootHash t)"
proof -
  have "4 dvd m_uHashSize (new_hash_tree_ex ty n bs d)"
    using new_tree_hash(1) [of ty n bs d] hash_size_dvd by (simp add: new_hash_tree_ex_def hash_tree.defs)
  moreover have "meta_ok H (new_hash_tree_ex ty n bs d)"
    by (simp add: meta_ok_def HasMetaHash_def new_hash_tree_ex_def hash_tree.defs)
  moreover have "meta_ok H t \<and> m_uHashSize t = m_uHashSize (new_hash_tree_ex ty n bs d)"
    if "4 dvd m_uHashSize (new_hash_tree_ex ty n bs d)" "meta_ok H (new_hash_tree_ex ty n bs d)"
    using assms(1) that
  proof (induction rule: rtranclp_induct)
    case (step y z)
    then show ?case using ex_step_keeps [OF step(2)] by simp
  qed simp
  ultimately show ?thesis using assms(2-4) by (simp add: meta_ok_def IsLoaded_tree_def)
qed

theorem ex_reachable_witness:
  "let t = snd (SetMetaHash (sample_hash 32) (snd (SetRootHash (SetTree_ex (sample_hash 32)) [] (new_hash_tree_ex HashXNeo 9 (- 1) (- 1))
      (replicate 32 1))) [1])
   in Validate_hashes (sample_hash 32) t (m_MetaHash t) (GetRootHash t)"
proof -
  let ?H = "sample_hash 32"
  let ?t0 = "new_hash_tree_ex HashXNeo 9 (- 1) (- 1)"
  let ?t1 = "snd (SetRootHash (SetTree_ex ?H) [] ?t0 (replicate 32 1))"
  let ?t2 = "snd (SetMetaHash ?H ?t1 [1])"
  have s1: "ex_step ?H ?t0 ?t1" by (rule ex_step.root [OF surjective_pairing])
  have s2: "ex_step ?H ?t1 ?t2" by (rule ex_step.meta [OF surjective_pairing])
  have t0: "m_uHashSize ?t0 = 32" "m_Hash ?t0 = replicate 32 0" "m_MetaHash ?t0 = []" "m_eHashType ?t0 = HashXNeo"
    by (simp_all add: new_hash_tree_ex_def new_hash_tree_def hash_tree.defs file_hash.defs new_file_hash_def SetHash_ptr_def HashTypeSize_def)
  have t1: "?t1 = ?t0\<lparr>m_TreeRoot := Node (replicate 32 1) Null Null\<rparr>"
    by (simp add: SetRootHash_def SetTree_ex_def t0)
  have inv: "\<not> IsValid (?t0\<lparr>m_TreeRoot := n, m_MetaHash := m\<rparr>)" for n m
    using IsValid_hash_zero [of 32] by (simp add: IsValid_def t0)
  have t2: "?t2 = SetHash_ptr (?t1\<lparr>m_MetaHash := [1]\<rparr>) (Some (meta_hash ?H HashXNeo [1] (replicate 32 1)))"
    unfolding t1 by (simp add: SetMetaHash_def Validate_ex_def inv t0)
  have len: "m_uHashSize ?t2 = 32" "m_Hash ?t2 = take 32 (meta_hash ?H HashXNeo [1] (replicate 32 1))"
    unfolding t2 by (simp_all add: t1 SetHash_ptr_def t0)
  have "take 32 (meta_hash ?H HashXNeo [1] (replicate 32 1)) ! 0 \<noteq> 0"
    by (simp add: meta_hash_def sample_hash_def del: upt_Suc upt_rec_numeral)
  then have "IsValid ?t2" using IsValid_hash_first [of 32] unfolding IsValid_def len by simp
  moreover have "HasMetaHash ?t2" "IsLoaded_tree ?t2"
    unfolding t2 by (simp_all add: t1 HasMetaHash_def IsLoaded_tree_def SetHash_ptr_def)
  ultimately show ?thesis
    unfolding Let_def using s1 s2 by (intro ex_reachable [of ?H HashXNeo 9 "- 1" "- 1"]) auto
qed

end
