(* ===== verification/HashSet.thy ===== *)
theory HashSet
  imports HashTreeIO
begin

text \<open>
  The hash set \<open>CFileHashSet\<close> (FileList/Hashing/FileHashSet.cpp, FileHashSet.h): the hashes of the parts
  of an ed2k file, and the hash of the file over them. The arrays of \<open>m_HashSet\<close> are lists of bytes; the
  hash function is the parameter \<open>H\<close>.
\<close>

section \<open>The set\<close>

record hash_set = file_hash_ex +
  m_SetPartSize :: uint64
  m_HashSet :: "bytes list"

definition new_hash_set :: "hash_type \<Rightarrow> uint64 \<Rightarrow> uint64 \<Rightarrow> hash_set" where
  "new_hash_set t TotalSize PartSize =
     file_hash.extend (new_file_hash t)
       \<lparr>m_TotalSize = TotalSize, m_StatusMap = [], m_CorruptionSet = [],
        m_SetPartSize = (if t = HashEd2k then 9728000
          else if t = HashTorrent then (if PartSize = - 1 then 65536 else PartSize)
          else - 1),
        m_HashSet = []\<rparr>"

definition CanHashParts_set :: "'z hash_set_scheme \<Rightarrow> bool" where
  "CanHashParts_set s = (m_HashSet s \<noteq> [])"

definition IsComplete_set :: "'z hash_set_scheme \<Rightarrow> bool" where
  "IsComplete_set s = (IsValid s \<and> CanHashParts_set s)"

definition Unload_set :: "'z hash_set_scheme \<Rightarrow> 'z hash_set_scheme" where
  "Unload_set s = s\<lparr>m_HashSet := []\<rparr>"

definition GetPartCount :: "'z hash_set_scheme \<Rightarrow> uint32" where
  "GetPartCount s =
     (if m_eHashType s = HashEd2k then ucast (m_TotalSize s div m_SetPartSize s + 1)
      else ucast (DivUp (m_TotalSize s) (m_SetPartSize s)))"

definition GetPartSize_at :: "'z hash_set_scheme \<Rightarrow> int \<Rightarrow> uint64" where
  "GetPartSize_at s Index =
     (if (of_int (Index + 1) :: uint32) = GetPartCount s then
        (let uSize = m_TotalSize s mod m_SetPartSize s
         in if uSize = 0 then m_SetPartSize s else uSize)
      else m_SetPartSize s)"

definition GetHashSet :: "'z hash_set_scheme \<Rightarrow> bytes list" where
  "GetHashSet s = m_HashSet s"

definition root_hash :: "hash_function \<Rightarrow> 'z hash_set_scheme \<Rightarrow> bytes" where
  "root_hash H s = H (GetAlgorithm (m_eHashType s)) (concat (m_HashSet s))"

definition CalculateRoot :: "hash_function \<Rightarrow> 'z hash_set_scheme \<Rightarrow> bool \<times> 'z hash_set_scheme" where
  "CalculateRoot H s =
     (if m_HashSet s = [] then (False, s)
      else if m_eHashType s = HashTorrent then (True, s)
      else if length (m_HashSet s) = 1 then (True, SetHash_ptr s (Some (hd (m_HashSet s))))
      else if \<not> IsValid s then (True, SetHash_ptr s (Some (root_hash H s)))
      else if \<not> Compare_ptr s (root_hash H s) then (False, s)
      else (True, s))"

text \<open>\<open>None\<close>: \<open>memcpy\<close> reads beyond the end of a hash that is shorter than the first one.\<close>

definition SetHashSet :: "hash_function \<Rightarrow> 'z hash_set_scheme \<Rightarrow> bytes list \<Rightarrow> (bool \<times> 'z hash_set_scheme) option" where
  "SetHashSet H s hs =
     (if (of_nat (length hs) :: uint32) \<noteq> GetPartCount s \<or> hs = [] \<or> length (hd hs) \<noteq> m_uHashSize s
      then Some (False, s)
      else if \<exists>h \<in> set hs. length h < m_uHashSize s then None
      else
        let s = s\<lparr>m_HashSet := m_HashSet s @ map (take (m_uHashSize s)) hs\<rparr>
        in case CalculateRoot H s of
             (True, s) \<Rightarrow> Some (True, s)
           | (False, s) \<Rightarrow> Some (False, Unload_set s))"

section \<open>Calculating and verifying parts\<close>

definition CalculatePart :: "hash_function \<Rightarrow> 'z hash_set_scheme \<Rightarrow> device \<Rightarrow> uint64 \<Rightarrow> uint64 \<Rightarrow> bytes option" where
  "CalculatePart H s f b e =
     (if sint e > int (dev_size f) then None
      else map_option (\<lambda>d. H (GetAlgorithm (m_eHashType s)) d) (read_loop f (unat b) (unat (e - b))))"

definition set_part_range :: "'z hash_set_scheme \<Rightarrow> nat \<Rightarrow> uint64 \<times> uint64" where
  "set_part_range s i =
     (let b = of_nat i * m_SetPartSize s; e = b + m_SetPartSize s
      in (b, if e > m_TotalSize s then m_TotalSize s else e))"

text \<open>The loop of \<open>Calculate\<close> for \<open>n\<close> parts from part \<open>i\<close> on; a part that cannot be read ends it.\<close>

fun calculate_parts :: "hash_function \<Rightarrow> 'z hash_set_scheme \<Rightarrow> device \<Rightarrow> nat \<Rightarrow> nat \<Rightarrow> bool \<times> bytes list" where
  "calculate_parts H s f i 0 = (True, [])"
| "calculate_parts H s f i (Suc n) =
     (case set_part_range s i of (b, e) \<Rightarrow>
        case CalculatePart H s f b e of
          None \<Rightarrow> (False, [])
        | Some h \<Rightarrow> apsnd (Cons h) (calculate_parts H s f (Suc i) n))"

definition Calculate_set :: "hash_function \<Rightarrow> 'z hash_set_scheme \<Rightarrow> device \<Rightarrow> bool \<times> 'z hash_set_scheme" where
  "Calculate_set H s f =
     (let s = Unload_set s
      in if dev_size f = 0 then (False, s)
         else
           let s = SetHash_ptr (s\<lparr>m_TotalSize := of_nat (dev_size f)\<rparr>) None
           in case calculate_parts H s f 0 (nat (sint (GetPartCount s))) of
                (False, hs) \<Rightarrow> (False, s\<lparr>m_HashSet := hs\<rparr>)
              | (True, hs) \<Rightarrow> CalculateRoot H (s\<lparr>m_HashSet := hs\<rparr>))"

text \<open>Is a part left out when only new parts are verified? \<open>None\<close>: a bit beyond the status map is read.\<close>

definition part_known :: "'z hash_set_scheme \<Rightarrow> part_map \<Rightarrow> hashing_mode \<Rightarrow> nat \<Rightarrow> uint64 \<Rightarrow> uint64 \<Rightarrow> bool option" where
  "part_known s rm Mode i b e =
     (if Mode \<noteq> eVerifyParts then Some False
      else if m_StatusMap s \<noteq> [] \<and> length (m_StatusMap s) \<le> i then None
      else if m_StatusMap s \<noteq> [] \<and> m_StatusMap s ! i then Some True
      else Some (uStates (GetRange part_ops rm b e eInter (SPartRange 0)) AND Part_Available = 0))"

fun verify_parts :: "hash_function \<Rightarrow> device \<Rightarrow> part_map \<Rightarrow> uint64 \<Rightarrow> uint64 \<Rightarrow> hashing_mode \<Rightarrow> nat \<Rightarrow> bytes list \<Rightarrow>
    'z hash_set_scheme \<Rightarrow> 'z hash_set_scheme option" where
  "verify_parts H f rm from to Mode i [] s = Some s"
| "verify_parts H f rm from to Mode i (h # hs) s =
     (case set_part_range s i of (b, e) \<Rightarrow>
        if \<not> (from < e \<and> to > b) then verify_parts H f rm from to Mode (Suc i) hs s
        else case part_known s rm Mode i b e of
               None \<Rightarrow> None
             | Some True \<Rightarrow> verify_parts H f rm from to Mode (Suc i) hs s
             | Some False \<Rightarrow>
                 let bResult = (CalculatePart H s f b e = Some h)
                 in if Mode \<noteq> eRecoverParts \<or> bResult
                    then case SetResult 0 (m_SetPartSize s) s bResult b e of
                           None \<Rightarrow> None
                         | Some s \<Rightarrow> verify_parts H f rm from to Mode (Suc i) hs s
                    else verify_parts H f rm from to Mode (Suc i) hs s)"

definition Verify_set :: "hash_function \<Rightarrow> device \<Rightarrow> part_map \<Rightarrow> uint64 \<Rightarrow> uint64 \<Rightarrow> hashing_mode \<Rightarrow>
    'z hash_set_scheme \<Rightarrow> (bool \<times> 'z hash_set_scheme) option" where
  "Verify_set H f rm from to Mode s =
     (let s = ResetStatus s False
      in if m_HashSet s = [] then Some (False, s)
         else map_option (\<lambda>s. (True, s)) (verify_parts H f rm from to Mode 0 (m_HashSet s) s))"

section \<open>The binary form\<close>

fun write_parts :: "(nat \<Rightarrow> uint8) \<Rightarrow> buffer \<Rightarrow> bytes list \<Rightarrow> unit outcome" where
  "write_parts mj B [] = Ret () B"
| "write_parts mj B (h # hs) = bind_out (WriteData mj B h) (\<lambda>_ B. write_parts mj B hs)"

definition SaveBin_set :: "(nat \<Rightarrow> uint8) \<Rightarrow> 'z hash_set_scheme \<Rightarrow> unit outcome" where
  "SaveBin_set mj s =
     bind_out (WriteValue mj Init (of_nat (length (m_HashSet s)) :: uint32) False) (\<lambda>_ B. write_parts mj B (m_HashSet s))"

text \<open>The hashes that were read, and whether all of them were; the read throws when the data ends.\<close>

fun read_parts :: "nat \<Rightarrow> nat \<Rightarrow> buffer \<Rightarrow> bytes list \<times> bool" where
  "read_parts sz 0 B = ([], True)"
| "read_parts sz (Suc n) B =
     (case ReadQData B (of_nat sz) of
        Ret h B \<Rightarrow> apfst (Cons h) (read_parts sz n B)
      | _ \<Rightarrow> ([], False))"

text \<open>The first result is \<open>None\<close> when an exception leaves the function.\<close>

definition LoadBin_set :: "hash_function \<Rightarrow> 'z hash_set_scheme \<Rightarrow> bytes \<Rightarrow> bool option \<times> 'z hash_set_scheme" where
  "LoadBin_set H s array =
     (case ReadValue (SetBuffer Init (Some array) True) False of
        Ret PartCount B \<Rightarrow>
          (case read_parts (m_uHashSize s) (unat (PartCount :: uint32)) B of
             (hs, False) \<Rightarrow> (None, s\<lparr>m_HashSet := m_HashSet s @ hs\<rparr>)
           | (hs, True) \<Rightarrow>
               (case CalculateRoot H (s\<lparr>m_HashSet := m_HashSet s @ hs\<rparr>) of
                  (True, s) \<Rightarrow> (Some True, s)
                | (False, s) \<Rightarrow> (Some False, Unload_set s)))
      | _ \<Rightarrow> (None, s))"

definition CFileHashSet_Clone :: "hash_function \<Rightarrow> 'z hash_set_scheme \<Rightarrow> bool \<Rightarrow> hash_set option" where
  "CFileHashSet_Clone H s bFull =
     (let c = snd (SetHash (new_hash_set (m_eHashType s) (m_TotalSize s) (m_SetPartSize s)) (m_Hash s))
      in if bFull then map_option snd (SetHashSet H c (GetHashSet s)) else Some c)"

section \<open>The hash over the set\<close>

lemma new_hash_set_fields [simp]:
  "m_eHashType (new_hash_set ty n ps) = ty"
  "m_TotalSize (new_hash_set ty n ps) = n"
  "m_SetPartSize (new_hash_set HashEd2k n ps) = 9728000"
  "m_uHashSize (new_hash_set HashEd2k n ps) = 16"
  "m_HashSet (new_hash_set ty n ps) = []"
  "m_StatusMap (new_hash_set ty n ps) = []"
  "\<not> IsValid (new_hash_set HashEd2k n ps)"
  by (simp_all add: new_hash_set_def file_hash.defs new_file_hash_def SetHash_ptr_def HashTypeSize_def IsValid_def
      IsValid_hash_zero Let_def)

lemma IsValid_parts [simp]: "IsValid (s\<lparr>m_HashSet := hs\<rparr>) = IsValid s"
  by (simp add: IsValid_def)



text \<open>
  For a file of one part the one hash of the set becomes the hash of the file, even when another
  valid hash of the file is known.
\<close>

theorem single_part_overwrites:
  assumes "GetPartCount s = 1" and "m_HashSet s = []" and "m_eHashType s \<noteq> HashTorrent" and "length h = m_uHashSize s"
  shows "SetHashSet H s [h] = Some (True, s\<lparr>m_Hash := h, m_HashSet := [h]\<rparr>)"
  using assms by (simp add: SetHashSet_def CalculateRoot_def SetHash_ptr_def)

theorem single_part_overwrites_witness:
  "let s = (new_hash_set HashEd2k 1000 (- 1))\<lparr>m_Hash := replicate 16 7\<rparr>
   in IsValid s \<and> SetHashSet (sample_hash 16) s [replicate 16 8] = Some (True, s\<lparr>m_Hash := replicate 16 8, m_HashSet := [replicate 16 8]\<rparr>)"
proof -
  let ?s = "(new_hash_set HashEd2k 1000 (- 1))\<lparr>m_Hash := replicate 16 7\<rparr>"
  have "GetPartCount ?s = 1" by (simp add: GetPartCount_def)
  then have "SetHashSet (sample_hash 16) ?s [replicate 16 8] = Some (True, ?s\<lparr>m_Hash := replicate 16 8, m_HashSet := [replicate 16 8]\<rparr>)"
    by (intro single_part_overwrites) simp_all
  moreover have "IsValid ?s" using IsValid_hash_first [of 16 "replicate 16 7"] by (simp add: IsValid_def)
  ultimately show ?thesis by (simp add: Let_def)
qed

section \<open>Parts of a file\<close>

definition set_conf :: "'z hash_set_scheme \<Rightarrow> 'z hash_set_scheme \<Rightarrow> bool" where
  "set_conf s s' \<longleftrightarrow> m_eHashType s' = m_eHashType s \<and> m_uHashSize s' = m_uHashSize s \<and>
     m_TotalSize s' = m_TotalSize s \<and> m_SetPartSize s' = m_SetPartSize s"

lemma set_conf_refl [simp]: "set_conf s s"
  by (simp add: set_conf_def)

lemma set_conf_trans: "set_conf s s' \<Longrightarrow> set_conf s' s'' \<Longrightarrow> set_conf s s''"
  by (simp add: set_conf_def)

lemma set_part_range_conf: "set_conf s s' \<Longrightarrow> set_part_range s' i = set_part_range s i"
  by (simp add: set_conf_def set_part_range_def Let_def)

lemma CalculatePart_conf: "set_conf s s' \<Longrightarrow> CalculatePart H s' f b e = CalculatePart H s f b e"
  by (simp add: set_conf_def CalculatePart_def)

text \<open>The sizes of ed2k files: parts of 9728000 bytes, and less than 2^50 bytes in all.\<close>

definition ed2k_ok :: "'z hash_set_scheme \<Rightarrow> nat \<Rightarrow> bool" where
  "ed2k_ok s n \<longleftrightarrow> m_eHashType s = HashEd2k \<and> m_SetPartSize s = 9728000 \<and> m_uHashSize s = 16 \<and>
     unat (m_TotalSize s) = n \<and> 0 < n \<and> n < 2 ^ 50"

lemma ed2k_ok_conf: "ed2k_ok s n \<Longrightarrow> set_conf s s' \<Longrightarrow> ed2k_ok s' n"
  by (simp add: ed2k_ok_def set_conf_def)

lemma set_part_range_nat:
  assumes "ed2k_ok s n" and "i \<le> n div 9728000"
  shows "unat (fst (set_part_range s i)) = i * 9728000" and "unat (snd (set_part_range s i)) = min (i * 9728000 + 9728000) n"
proof -
  have n: "unat (m_TotalSize s) = n" "n < 2 ^ 50" "m_SetPartSize s = 9728000" using assms(1) by (simp_all add: ed2k_ok_def)
  have i: "i * 9728000 \<le> n" using assms(2) by (simp add: less_eq_div_iff_mult_less_eq)
  then have "i < 2 ^ 64" using n(2) by simp
  then have "unat (of_nat i :: uint64) = i" by (simp add: unat_of_nat_eq)
  then have b: "unat (of_nat i * 9728000 :: uint64) = i * 9728000" using i n(2) by (simp add: unat_word_ariths)
  then have e: "unat (of_nat i * 9728000 + 9728000 :: uint64) = i * 9728000 + 9728000"
    using i n(2) by (simp add: unat_word_ariths)
  show "unat (fst (set_part_range s i)) = i * 9728000" using b n(3) by (simp add: set_part_range_def Let_def)
  show "unat (snd (set_part_range s i)) = min (i * 9728000 + 9728000) n"
    using e n(1,3) by (auto simp: set_part_range_def Let_def word_less_nat_alt min_def)
qed

definition file_part :: "bytes \<Rightarrow> nat \<Rightarrow> bytes" where
  "file_part d i = take 9728000 (drop (i * 9728000) d)"

lemma CalculatePart_file:
  assumes "ed2k_ok s (length d)" and "i \<le> length d div 9728000"
  shows "CalculatePart H s (file_device d) (fst (set_part_range s i)) (snd (set_part_range s i)) = Some (H eMD4 (file_part d i))"
proof -
  note r = set_part_range_nat [OF assms]
  have d: "length d < 2 ^ 50" "m_eHashType s = HashEd2k" using assms(1) by (simp_all add: ed2k_ok_def)
  have i: "i * 9728000 \<le> length d" using assms(2) by (simp add: less_eq_div_iff_mult_less_eq)
  let ?b = "fst (set_part_range s i)" and ?e = "snd (set_part_range s i)"
  have e63: "unat ?e < 2 ^ 63" "unat ?e \<le> length d" using r(2) d by simp_all
  have "\<not> sint ?e > int (length d)" using e63 by (simp add: sint_small int_uint_less)
  moreover have "unat (?e - ?b) = min 9728000 (length d - i * 9728000)"
    using r i by (subst unat_le_sub) (auto simp: word_le_nat_alt)
  moreover have "read_loop (file_device d) (i * 9728000) (min 9728000 (length d - i * 9728000)) = Some (file_part d i)"
    using i by (subst read_loop_file) (auto simp: file_part_def min_def)
  ultimately show ?thesis using d(2) r(1) by (simp add: CalculatePart_def dev_size_file GetAlgorithm_def)
qed

lemma GetPartCount_ed2k:
  assumes "ed2k_ok s n"
  shows "nat (sint (GetPartCount s)) = Suc (n div 9728000)" and "GetPartCount s = of_nat (Suc (n div 9728000))"
proof -
  have n: "unat (m_TotalSize s) = n" "n < 2 ^ 50" "m_SetPartSize s = 9728000" "m_eHashType s = HashEd2k"
    using assms by (simp_all add: ed2k_ok_def)
  have q: "n div 9728000 < 2 ^ 30" using n(2) by (simp add: div_less_iff_less_mult)
  have "unat (m_TotalSize s div 9728000) = n div 9728000" using n(1) by (simp add: unat_div)
  then have "unat (m_TotalSize s div 9728000 + 1) = Suc (n div 9728000)" using q by (simp add: unat_word_ariths)
  then have u: "unat (GetPartCount s) = Suc (n div 9728000)"
    using q n by (simp add: GetPartCount_def unsigned_ucast_eq take_bit_nat_eq_self)
  then show "GetPartCount s = of_nat (Suc (n div 9728000))" 
    using q unat_of_nat_eq [of "Suc (n div 9728000)", where 'a = 32] by (simp only: word_unat_eq_iff u) simp
  have "uint (GetPartCount s) = int (Suc (n div 9728000))" using u by (metis of_nat_unat)
  then have "sint (GetPartCount s) = int (Suc (n div 9728000))"
    using q unfolding sint_uint by (simp add: signed_take_bit_int_eq_self)
  then show "nat (sint (GetPartCount s)) = Suc (n div 9728000)" by simp
qed

lemma calculate_parts_file:
  assumes "ed2k_ok s (length d)" and "i + k \<le> Suc (length d div 9728000)"
  shows "calculate_parts H s (file_device d) i k = (True, map (\<lambda>j. H eMD4 (file_part d j)) [i..<i + k])"
  using assms(2)
proof (induction k arbitrary: i)
  case (Suc k)
  obtain b e where r: "set_part_range s i = (b, e)" by fastforce
  have "CalculatePart H s (file_device d) b e = Some (H eMD4 (file_part d i))"
    using CalculatePart_file [OF assms(1), of i] Suc.prems by (simp add: r)
  then show ?case using Suc.IH [of "Suc i"] Suc.prems by (simp add: r upt_conv_Cons del: upt_Suc)
qed simp

text \<open>The ed2k hash of a file: the hash of its one part, or the hash over the hashes of its parts.\<close>

definition ed2k_parts :: "hash_function \<Rightarrow> bytes \<Rightarrow> bytes list" where
  "ed2k_parts H d = map (\<lambda>i. H eMD4 (file_part d i)) [0..<Suc (length d div 9728000)]"

definition ed2k_hash :: "hash_function \<Rightarrow> bytes \<Rightarrow> bytes" where
  "ed2k_hash H d = (case ed2k_parts H d of [h] \<Rightarrow> h | hs \<Rightarrow> H eMD4 (concat hs))"

lemma Calculate_set_file:
  assumes "d \<noteq> []" and "length d < 2 ^ 50" and "m_eHashType s = HashEd2k" and "m_SetPartSize s = 9728000" and "m_uHashSize s = 16"
    and "\<And>x. length (H eMD4 x) = 16"
  shows "\<exists>s'. Calculate_set H s (file_device d) = (True, s') \<and> ed2k_ok s' (length d) \<and>
    m_HashSet s' = ed2k_parts H d \<and> m_Hash s' = ed2k_hash H d \<and> m_StatusMap s' = m_StatusMap s"
proof -
  let ?s = "SetHash_ptr (Unload_set s\<lparr>m_TotalSize := of_nat (length d)\<rparr>) None"
  have "unat (of_nat (length d) :: uint64) = length d" using assms(2) by (simp add: unat_of_nat_eq)
  then have ok: "ed2k_ok ?s (length d)" using assms by (simp add: ed2k_ok_def SetHash_ptr_def Unload_set_def)
  have parts: "calculate_parts H ?s (file_device d) 0 (nat (sint (GetPartCount ?s))) = (True, ed2k_parts H d)"
    unfolding GetPartCount_ed2k(1) [OF ok] ed2k_parts_def by (subst calculate_parts_file [OF ok]) (simp_all del: upt_Suc)
  have inv: "\<not> IsValid (?s\<lparr>m_HashSet := hs\<rparr>)" for hs
    using IsValid_hash_zero [of 16] assms(5) by (simp add: IsValid_def SetHash_ptr_def Unload_set_def)
  define n where "n = length d div 9728000"
  have p: "ed2k_parts H d = H eMD4 (file_part d 0) # map (\<lambda>i. H eMD4 (file_part d i)) [1..<Suc n]"
    by (simp add: ed2k_parts_def n_def upt_conv_Cons del: upt_Suc)
  have root: "root_hash H (?s\<lparr>m_HashSet := ed2k_parts H d\<rparr>) = H eMD4 (concat (ed2k_parts H d))"
    using assms(3) by (simp add: root_hash_def SetHash_ptr_def Unload_set_def GetAlgorithm_def)
  let ?s' = "?s\<lparr>m_HashSet := ed2k_parts H d, m_Hash := ed2k_hash H d\<rparr>"
  have "CalculateRoot H (?s\<lparr>m_HashSet := ed2k_parts H d\<rparr>) = (True, ?s')"
  proof (cases n)
    case 0
    then show ?thesis using assms(3,5,6) p by (simp add: CalculateRoot_def ed2k_hash_def SetHash_ptr_def Unload_set_def)
  next
    case (Suc m)
    then have "ed2k_parts H d \<noteq> []" "length (ed2k_parts H d) \<noteq> 1" "ed2k_hash H d = H eMD4 (concat (ed2k_parts H d))"
      using p by (simp_all add: ed2k_hash_def upt_conv_Cons del: upt_Suc)
    then show ?thesis using assms(3,5,6) inv [of "ed2k_parts H d"] root
      by (simp add: CalculateRoot_def SetHash_ptr_def Unload_set_def)
  qed
  then have "Calculate_set H s (file_device d) = (True, ?s')"
    using assms(1) parts by (simp add: Calculate_set_def dev_size_file Let_def Unload_set_def)
  moreover have "ed2k_ok ?s' (length d)" by (rule ed2k_ok_conf [OF ok]) (simp add: set_conf_def)
  ultimately show ?thesis by (intro exI [of _ ?s']) (simp add: SetHash_ptr_def Unload_set_def)
qed

section \<open>Verifying a file against its own set\<close>

abbreviation part_result :: "'z hash_set_scheme \<Rightarrow> uint64 \<Rightarrow> uint64 \<Rightarrow> bool option" where
  "part_result s b e \<equiv> GetResult 0 9728000 s b e"

lemma ed2k_status_ok: "ed2k_ok s n \<Longrightarrow> status_ok 0 9728000 (m_TotalSize s)"
proof -
  assume a: "ed2k_ok s n"
  then have n: "unat (m_TotalSize s) = n" "n < 2 ^ 50" by (simp_all add: ed2k_ok_def)
  then have "ceil_div n 9728000 < 2 ^ 32" by (simp add: ceil_div_def div_less_iff_less_mult)
  then show ?thesis using n by (simp add: status_ok_def block_unit_def index_one ceil_div_one)
qed

lemma SetResult_set_conf:
  "SetResult bs ps s v b e = Some s' \<Longrightarrow> set_conf s s' \<and> m_HashSet s' = m_HashSet s"
  by (auto simp: SetResult_def set_conf_def)

lemma SetResult_empty:
  assumes "ed2k_ok s n" and "m_StatusMap s \<noteq> []" and "b = m_TotalSize s" and "n mod 9728000 = 0"
  shows "SetResult 0 9728000 s True b b = Some s"
proof -
  have n: "unat b = n" "n < 2 ^ 50" using assms(1,3) by (simp_all add: ed2k_ok_def)
  have "unat (DivUp b 9728000) = ceil_div n 9728000" using DivUp_nat [of b 9728000] n by simp
  also have "\<dots> = n div 9728000" using assms(4) by (auto simp: ceil_div_def elim!: dvdE)
  finally have "DivUp b 9728000 = b div 9728000" using n by (simp add: word_unat_eq_iff unat_div)
  then have "fst (IndexRange 0 9728000 (m_TotalSize s) b b True) = snd (IndexRange 0 9728000 (m_TotalSize s) b b True)"
    by (simp add: IndexRange_def Let_def)
  then show ?thesis using assms(2) by (simp add: SetResult_def set_bits_def status_map_def)
qed

lemma verify_parts_file:
  assumes "ed2k_ok s (length d)" and "bits_ok 0 9728000 s" and "m_CorruptionSet s = []"
    and "hs = drop i (ed2k_parts H d)" and "i \<le> Suc (length d div 9728000)"
    and "i = 0 \<or> part_result s 0 (of_nat (min (i * 9728000) (length d))) = Some True"
  shows "\<exists>s'. verify_parts H (file_device d) rm 0 (- 1) eVerifyFile i hs s = Some s' \<and> set_conf s s' \<and>
    m_HashSet s' = m_HashSet s \<and> m_CorruptionSet s' = [] \<and> part_result s' 0 (m_TotalSize s) = Some True"
  using assms
proof (induction hs arbitrary: i s)
  case Nil
  let ?n = "length d"
  have "i = Suc (?n div 9728000)" using Nil.prems(4,5) by (simp add: ed2k_parts_def del: upt_Suc)
  moreover have "?n < Suc (?n div 9728000) * 9728000" using div_mult_mod_eq [of ?n 9728000] mod_less_divisor [of 9728000 ?n] by simp
  ultimately have "min (i * 9728000) ?n = ?n" "i \<noteq> 0" by simp_all
  moreover have "of_nat ?n = m_TotalSize s" using Nil.prems(1) by (simp add: ed2k_ok_def word_unat_eq_iff unat_of_nat_eq)
  ultimately show ?case using Nil.prems(3,6) by simp
next
  case (Cons h hs)
  let ?n = "length d" and ?T = "m_TotalSize s"
  have ok: "unat ?T = ?n" "0 < ?n" "?n < 2 ^ 50" "m_SetPartSize s = 9728000" using Cons.prems(1) by (simp_all add: ed2k_ok_def)
  have i: "i \<le> ?n div 9728000" "h = H eMD4 (file_part d i)" "hs = drop (Suc i) (ed2k_parts H d)"
  proof -
    have "i < length (ed2k_parts H d)" using Cons.prems(4) by (metis drop_all list.distinct(1) not_le)
    then show "i \<le> ?n div 9728000" by (simp add: ed2k_parts_def)
    have "h # hs = ed2k_parts H d ! i # drop (Suc i) (ed2k_parts H d)"
      using Cons.prems(4) \<open>i < length (ed2k_parts H d)\<close> by (simp add: Cons_nth_drop_Suc)
    then show "h = H eMD4 (file_part d i)" "hs = drop (Suc i) (ed2k_parts H d)"
      using \<open>i < length (ed2k_parts H d)\<close> by (simp_all add: ed2k_parts_def del: upt_Suc)
  qed
  obtain b e where r: "set_part_range s i = (b, e)" by fastforce
  note be = set_part_range_nat [OF Cons.prems(1) i(1), unfolded r fst_conv snd_conv]
  have in_file: "i * 9728000 \<le> ?n" using i(1) by (simp add: less_eq_div_iff_mult_less_eq)
  have calc: "CalculatePart H s (file_device d) b e = Some h"
    using CalculatePart_file [OF Cons.prems(1) i(1)] by (simp add: r i(2))
  have sel: "0 < e" "b < - 1" using be ok(2,3) in_file by (simp_all add: word_less_nat_alt unat_max64)
  have known: "part_known s rm eVerifyFile i b e = Some False" by (simp add: part_known_def)
  have step: "verify_parts H (file_device d) rm 0 (- 1) eVerifyFile i (h # hs) s =
    (case SetResult 0 9728000 s True b e of None \<Rightarrow> None
     | Some s \<Rightarrow> verify_parts H (file_device d) rm 0 (- 1) eVerifyFile (Suc i) hs s)"
    using sel known calc ok(4) by (simp add: r)
  have eT: "e \<le> ?T" "b \<le> ?T" using be ok(1) in_file by (simp_all add: word_le_nat_alt)
  have "min (i * 9728000) ?n = unat b" "min (Suc i * 9728000) ?n = unat e"
    using be in_file by (simp_all add: min_def)
  then have words: "of_nat (min (i * 9728000) ?n) = b" "of_nat (min (Suc i * 9728000) ?n) = e"
    by simp_all
  note st = ed2k_status_ok [OF Cons.prems(1)]
  have "\<exists>s1. SetResult 0 9728000 s True b e = Some s1 \<and> bits_ok 0 9728000 s1 \<and> m_CorruptionSet s1 = [] \<and>
      part_result s1 0 e = Some True"
  proof (cases "b < e")
    case True
    from SetResult_True [OF st Cons.prems(2) True eT(1)] obtain s1 where
      s1: "SetResult 0 9728000 s True b e = Some s1" "bits_ok 0 9728000 s1" "m_TotalSize s1 = ?T"
        "m_CorruptionSet s1 = m_CorruptionSet s" "part_result s1 b e = Some True"
        "\<And>b' e'. b' < e' \<Longrightarrow> e' \<le> ?T \<Longrightarrow> part_result s b' e' = Some True \<Longrightarrow> part_result s1 b' e' = Some True"
      by blast
    have "part_result s1 0 e = Some True"
    proof (cases "i = 0")
      case True
      then have "b = 0" using be(1) by (simp add: word_unat_eq_iff)
      then show ?thesis using s1(5) by simp
    next
      case False
      then have b0: "0 < b" using be(1) by (simp add: word_less_nat_alt)
      have "part_result s 0 b = Some True" using Cons.prems(6) False words(1) by simp
      then have "part_result s1 0 b = Some True" using s1(6) b0 eT(2) by blast
      then show ?thesis using GetResult_join [of 0 9728000 s1 0 b e] st s1(2,3,5) b0 True eT(1) by simp
    qed
    then show ?thesis using s1 Cons.prems(3) by auto
  next
    case False
    then have "unat e \<le> unat b" by (simp add: word_le_nat_alt not_less)
    then have eq: "i * 9728000 = ?n" using be in_file by (simp add: min_def split: if_splits)
    then have "b = e" "b = ?T" "?n mod 9728000 = 0" using be ok(1) by (simp_all add: word_unat_eq_iff flip: eq)
    moreover have i0: "i \<noteq> 0" using eq ok(2) by (metis less_not_refl mult_zero_left)
    moreover have res: "part_result s 0 b = Some True" using Cons.prems(6) i0 words(1) by simp
    moreover have "m_StatusMap s \<noteq> []" using res by (auto simp: GetResult_def testBits_def)
    ultimately show ?thesis using SetResult_empty [OF Cons.prems(1)] Cons.prems(2,3) by simp
  qed
  then obtain s1 where s1: "SetResult 0 9728000 s True b e = Some s1" "bits_ok 0 9728000 s1" "m_CorruptionSet s1 = []"
      "part_result s1 0 e = Some True" by blast
  have c: "set_conf s s1" "m_HashSet s1 = m_HashSet s" using SetResult_set_conf [OF s1(1)] by simp_all
  have "\<exists>s'. verify_parts H (file_device d) rm 0 (- 1) eVerifyFile (Suc i) hs s1 = Some s' \<and> set_conf s1 s' \<and>
      m_HashSet s' = m_HashSet s1 \<and> m_CorruptionSet s' = [] \<and> part_result s' 0 (m_TotalSize s1) = Some True"
    using Cons.IH [OF ed2k_ok_conf [OF Cons.prems(1) c(1)] s1(2,3) i(3)] i(1) s1(4) words(2) by simp
  then show ?case using s1(1) c set_conf_trans [OF c(1)] unfolding step by (auto simp: set_conf_def)
qed


section \<open>Storing the set\<close>

lemma write_parts_spec:
  assumes "appendable b" and "length (contents b) + length (concat hs) \<le> 2 ^ 60"
  shows "\<exists>b'. write_parts mj b hs = Ret () b' \<and> appendable b' \<and> contents b' = contents b @ concat hs"
  using assms
proof (induction hs arbitrary: b)
  case (Cons h hs)
  then have "length (contents b) + length h \<le> 2 ^ 60" by simp
  from append_data [OF Cons.prems(1) this] obtain b1 where
    b1: "WriteData mj b h = Ret () b1" "appendable b1" "contents b1 = contents b @ h" .
  then show ?case using Cons.IH [OF b1(2)] Cons.prems(2) by simp
qed simp

lemma read_parts_spec:
  assumes "reading b (concat hs @ rest)" and "\<forall>h \<in> set hs. length h = sz" and "sz < 2 ^ 16"
  shows "read_parts sz (length hs) b = (hs, True)"
  using assms(1,2)
proof (induction hs arbitrary: b)
  case (Cons h hs)
  then have h: "length h = sz" by simp
  have sz: "unat (of_nat sz :: uint64) = length h" using assms(3) h by (simp add: unat_of_nat_eq)
  have "(of_nat sz :: uint64) \<noteq> - 1" using sz h assms(3) unat_max64 by auto
  from read_data [of b h "concat hs @ rest", OF _ sz this] Cons.prems(1) obtain b2 where
    b2: "ReadQData b (of_nat sz) = Ret h b2" "reading b2 (concat hs @ rest)"
    by auto
  then show ?case using Cons.IH [OF b2(2)] Cons.prems(2) by simp
qed simp

lemma length_concat_same: "\<forall>h \<in> set hs. length h = k \<Longrightarrow> length (concat hs) = length hs * k"
  by (induction hs) simp_all

text \<open>
  A stored hash set is read back, by an object that knows the hash of the file or none: it has the
  same part hashes then, and the hash over them is its hash.
\<close>

theorem SaveBin_LoadBin_set:
  fixes s :: "'z hash_set_scheme" and s2 :: "'y hash_set_scheme"
  assumes "\<forall>h \<in> set (m_HashSet s). length h = m_uHashSize s" and "m_uHashSize s < 2 ^ 16"
    and "1 < length (m_HashSet s)" and "length (m_HashSet s) < 2 ^ 32"
    and "m_HashSet s2 = []" and "m_uHashSize s2 = m_uHashSize s" and "m_eHashType s2 = m_eHashType s" and "m_eHashType s \<noteq> HashTorrent"
    and "\<not> IsValid s2 \<or> Compare_ptr s2 (root_hash H s)"
  shows "\<exists>B s2'. SaveBin_set mj s = Ret () B \<and> LoadBin_set H s2 (contents B) = (Some True, s2') \<and>
    m_HashSet s2' = m_HashSet s \<and> Compare_ptr s2' (root_hash H s)"
proof -
  let ?hs = "m_HashSet s"
  have "length ?hs * m_uHashSize s \<le> 2 ^ 32 * 2 ^ 16" using assms(2,4) by (intro mult_mono) auto
  then have len: "4 + length (concat ?hs) \<le> 2 ^ 60" by (simp add: length_concat_same [OF assms(1)])
  then have "length (contents Init) + LENGTH(32) div 8 \<le> 2 ^ 60" by (simp add: appendable_Init)
  from append_value [OF appendable_Init(1) this, of mj "of_nat (length ?hs) :: uint32"] obtain b1 where
    b1: "WriteValue mj Init (of_nat (length ?hs) :: uint32) False = Ret () b1" "appendable b1"
        "contents b1 = to_le (of_nat (length ?hs) :: uint32)"
    by (auto simp: appendable_Init)
  then have "length (contents b1) + length (concat ?hs) \<le> 2 ^ 60" using len by simp
  from write_parts_spec [OF b1(2) this] obtain B where
    B: "write_parts mj b1 ?hs = Ret () B" "contents B = contents b1 @ concat ?hs" by blast
  have "length (contents B) < 2 ^ 62" using len B(2) b1(3) by simp
  from reading_start [OF this] have "reading (SetBuffer Init (Some (contents B)) True)
      (to_le (of_nat (length ?hs) :: uint32) @ (concat ?hs @ []))" using B(2) b1(3) by simp
  from read_value [OF this] obtain b2 where
    b2: "ReadValue (SetBuffer Init (Some (contents B)) True) False = Ret (of_nat (length ?hs) :: uint32) b2"
        "reading b2 (concat ?hs @ [])"
    by auto
  have "unat (of_nat (length ?hs) :: uint32) = length ?hs" using assms(4) by (simp add: unat_of_nat_eq)
  then have parts: "read_parts (m_uHashSize s2) (unat (of_nat (length ?hs) :: uint32)) b2 = (?hs, True)"
    using read_parts_spec [OF b2(2) assms(1,2)] assms(6) by simp
  let ?s = "s2\<lparr>m_HashSet := ?hs\<rparr>"
  have root: "root_hash H ?s = root_hash H s" using assms(7) by (simp add: root_hash_def)
  have "?hs \<noteq> []" "length ?hs \<noteq> 1" using assms(3) by auto
  then have "\<exists>s2'. CalculateRoot H ?s = (True, s2') \<and> m_HashSet s2' = ?hs \<and> Compare_ptr s2' (root_hash H s)"
    using assms(7,8,9) unfolding CalculateRoot_def root
    by (auto simp: IsValid_def Compare_ptr_def SetHash_ptr_def)
  then show ?thesis using b1(1) B(1) b2(1) parts assms(5)
    by (intro exI [of _ B]) (auto simp: SaveBin_set_def LoadBin_set_def)
qed

theorem SaveBin_LoadBin_set_witness:
  "let hs = [replicate 16 1, replicate 16 2]; s = (new_hash_set HashEd2k 10000000 (- 1))\<lparr>m_HashSet := hs\<rparr>
   in \<exists>B s2'. SaveBin_set (\<lambda>_. 0) s = Ret () B \<and>
     LoadBin_set (sample_hash 16) (new_hash_set HashEd2k 10000000 (- 1)) (contents B) = (Some True, s2') \<and>
     m_HashSet s2' = hs \<and> Compare_ptr s2' (root_hash (sample_hash 16) s)"
  using SaveBin_LoadBin_set [of "(new_hash_set HashEd2k 10000000 (- 1))\<lparr>m_HashSet := [replicate 16 1, replicate 16 2]\<rparr>"
      "new_hash_set HashEd2k 10000000 (- 1)" "sample_hash 16" "\<lambda>_. 0"]
  by simp


end
