(* ===== verification/UIntX.thy ===== *)
theory UIntX
  imports Buffer
begin

text \<open>
  The unsigned integers of the Kademlia network, \<open>CUIntX\<close> (NeoKad/Kad/UIntX.cpp, UIntX.h). A value is
  the list of the bytes of \<open>m_Data\<close>; its 32 bit words are groups of four bytes, least significant byte
  first, as the union has them on a little endian machine. \<open>CUInt128\<close> is a list of 16 bytes. An access
  outside of the array is \<open>None\<close>.
\<close>

section \<open>Words and bits\<close>

definition GetDWordCount :: "bytes \<Rightarrow> nat" where
  "GetDWordCount d = length d div 4"

definition GetDWord :: "bytes \<Rightarrow> nat \<Rightarrow> uint32" where
  "GetDWord d i = from_le (take 4 (drop (4 * i) d))"

definition SetDWord :: "bytes \<Rightarrow> nat \<Rightarrow> uint32 \<Rightarrow> bytes" where
  "SetDWord d i v = take (4 * i) d @ to_le v @ drop (4 * i + 4) d"

definition GetBitSize :: "bytes \<Rightarrow> nat" where
  "GetBitSize d = length d * 8"

definition GetBit :: "bytes \<Rightarrow> nat \<Rightarrow> bool \<Rightarrow> bool" where
  "GetBit d uBit bBigEndian =
     (if uBit \<ge> GetBitSize d then False
      else
        let uBit = (if bBigEndian then (GetBitSize d - 1) - uBit else uBit)
        in drop_bit (uBit mod 8) (d ! (uBit div 8)) AND 1 \<noteq> 0)"

definition SetBit :: "bytes \<Rightarrow> nat \<Rightarrow> bool \<Rightarrow> bool \<Rightarrow> bytes" where
  "SetBit d uBit bValue bBigEndian =
     (if uBit \<ge> GetBitSize d then d
      else
        let uBit = (if bBigEndian then (GetBitSize d - 1) - uBit else uBit);
            iNum = uBit div 8; iShift = uBit mod 8
        in if bValue then d[iNum := d ! iNum OR push_bit iShift 1]
           else d[iNum := d ! iNum AND NOT (push_bit iShift 1)])"

section \<open>Initialisation\<close>

definition Init_fill :: "bytes \<Rightarrow> bool \<Rightarrow> bytes" where
  "Init_fill d bFill = fold (\<lambda>i d. SetDWord d i (if bFill then - 1 else 0)) [0..<GetDWordCount d] d"

definition Init_value :: "bytes \<Rightarrow> uint32 \<Rightarrow> bytes" where
  "Init_value d v = fold (\<lambda>i d. SetDWord d i 0) [1..<GetDWordCount d] (SetDWord d 0 v)"

text \<open>The rest of the bits is random: \<open>rnd i\<close> is what \<open>rand()\<close> returns for bit \<open>i\<close>.\<close>

definition Init_copy :: "bytes \<Rightarrow> uint32 \<Rightarrow> bool \<Rightarrow> (nat \<Rightarrow> int) \<Rightarrow> bytes" where
  "Init_copy v uBits bRand rnd =
     (if uBits = - 1 then v
      else fold (\<lambda>i d. SetBit d i (if bRand then rnd i AND 2 \<noteq> 0 else False) True) [unat uBits..<GetBitSize v] v)"

text \<open>From the bytes of a variant; \<open>None\<close> is the exception for a wrong size.\<close>

definition Init_variant :: "bytes \<Rightarrow> bytes \<Rightarrow> bytes option" where
  "Init_variant d v = (if length v \<noteq> length d then None else Some v)"

section \<open>Operations\<close>

definition dword_loop :: "(uint32 \<Rightarrow> uint32 \<Rightarrow> uint32) \<Rightarrow> bytes \<Rightarrow> bytes \<Rightarrow> bytes" where
  "dword_loop f d v = fold (\<lambda>i d. SetDWord d i (f (GetDWord d i) (GetDWord v i))) [0..<GetDWordCount d] d"

definition AndX :: "bytes \<Rightarrow> bytes \<Rightarrow> bytes" where
  "AndX d v = dword_loop (AND) d v"

definition OrX :: "bytes \<Rightarrow> bytes \<Rightarrow> bytes" where
  "OrX d v = dword_loop (OR) d v"

definition XorX :: "bytes \<Rightarrow> bytes \<Rightarrow> bytes" where
  "XorX d v = dword_loop (XOR) d v"

definition Invert :: "bytes \<Rightarrow> bytes" where
  "Invert d = dword_loop (\<lambda>a _. NOT a) d d"

definition IsNull :: "bytes \<Rightarrow> bool" where
  "IsNull d = list_all (\<lambda>i. GetDWord d i = 0) [0..<GetDWordCount d]"

text \<open>The sum is a 64 bit integer, which holds any sum of two words and a carry; \<open>>> 32\<close> rounds down.\<close>

definition add_step :: "bytes \<Rightarrow> nat \<Rightarrow> int \<times> bytes \<Rightarrow> int \<times> bytes" where
  "add_step v i = (\<lambda>(iSum, d).
     let iSum = iSum + uint (GetDWord d i) + uint (GetDWord v i)
     in (iSum div 2 ^ 32, SetDWord d i (of_int iSum)))"

definition AddX :: "bytes \<Rightarrow> bytes \<Rightarrow> bytes" where
  "AddX d v = (if IsNull v then d else snd (fold (add_step v) [0..<GetDWordCount d] (0, d)))"

definition sub_step :: "bytes \<Rightarrow> nat \<Rightarrow> int \<times> bytes \<Rightarrow> int \<times> bytes" where
  "sub_step v i = (\<lambda>(iSum, d).
     let iSum = iSum + uint (GetDWord d i) - uint (GetDWord v i)
     in (iSum div 2 ^ 32, SetDWord d i (of_int iSum)))"

text \<open>The loop of \<open>Subtract\<close> starts with the most significant word.\<close>

definition SubtractX :: "bytes \<Rightarrow> bytes \<Rightarrow> bytes" where
  "SubtractX d v = (if IsNull v then d else snd (fold (sub_step v) (rev [0..<GetDWordCount d]) (0, d)))"

fun compare_words :: "bytes \<Rightarrow> bytes \<Rightarrow> nat list \<Rightarrow> int" where
  "compare_words d v [] = 0"
| "compare_words d v (i # is) =
     (if GetDWord d i < GetDWord v i then - 1
      else if GetDWord d i > GetDWord v i then 1
      else compare_words d v is)"

definition CompareTo :: "bytes \<Rightarrow> bytes \<Rightarrow> int" where
  "CompareTo d v = compare_words d v (rev [0..<GetDWordCount d])"

section \<open>Shifts\<close>

text \<open>\<open>(short)Data[i] << n\<close>, of which the two bytes are used.\<close>

definition short_shift :: "uint8 \<Rightarrow> nat \<Rightarrow> uint16" where
  "short_shift x n = push_bit n (ucast x)"

definition low_byte :: "uint16 \<Rightarrow> uint8" where
  "low_byte w = ucast w"

definition high_byte :: "uint16 \<Rightarrow> uint8" where
  "high_byte w = ucast (drop_bit 8 w)"

definition shl_step :: "nat \<Rightarrow> nat \<Rightarrow> nat \<Rightarrow> bytes \<Rightarrow> bytes" where
  "shl_step n iIndexShift i d =
     (let iShifted = short_shift (d ! i) n;
          d = d[i + iIndexShift := low_byte iShifted]
      in d[i + iIndexShift + 1 := d ! (i + iIndexShift + 1) OR high_byte iShifted])"

definition ShiftLeft :: "bytes \<Rightarrow> nat \<Rightarrow> bytes option" where
  "ShiftLeft d uBits =
     (if uBits = 0 \<or> IsNull d then Some d
      else if uBits > GetBitSize d then Some (Init_fill d False)
      else
        let iIndexShift = uBits div 8
        in if length d \<le> iIndexShift then None
           else
             let i = length d - iIndexShift - 1;
                 d = d[i + iIndexShift := low_byte (short_shift (d ! i) (uBits mod 8))];
                 d = fold (shl_step (uBits mod 8) iIndexShift) (rev [0..<i]) d
             in Some (fold (\<lambda>i d. d[i := 0]) [0..<iIndexShift] d))"

definition shr_step :: "nat \<Rightarrow> nat \<Rightarrow> nat \<Rightarrow> uint16 \<times> bytes \<Rightarrow> uint16 \<times> bytes" where
  "shr_step n iIndexShift i = (\<lambda>(iShifted, d).
     let d = d[i - iIndexShift - 1 := high_byte iShifted];
         iShifted = short_shift (d ! i) (8 - n)
     in (iShifted, d[i - iIndexShift - 1 := d ! (i - iIndexShift - 1) OR low_byte iShifted]))"

definition ShiftRight :: "bytes \<Rightarrow> nat \<Rightarrow> bytes option" where
  "ShiftRight d uBits =
     (if uBits = 0 \<or> IsNull d then Some d
      else if uBits > GetBitSize d then Some (Init_fill d False)
      else
        let iIndexShift = uBits div 8
        in if length d \<le> iIndexShift then None
           else
             let iShifted = short_shift (d ! iIndexShift) (8 - uBits mod 8)
             in case fold (shr_step (uBits mod 8) iIndexShift) [Suc iIndexShift..<length d] (iShifted, d) of
                  (iShifted, d) \<Rightarrow>
                    let d = d[length d - iIndexShift - 1 := high_byte iShifted]
                    in Some (fold (\<lambda>i d. d[i := 0]) (rev [length d - iIndexShift..<length d]) d))"

text \<open>\<open>for(; uValue > 0; uValue >>= 1, ++Pos)\<close>.\<close>

function shift_count :: "int \<Rightarrow> nat" where
  "shift_count v = (if v > 0 then Suc (shift_count (v div 2)) else 0)"
  by pat_completeness auto
termination
  by (relation "measure nat") auto

declare shift_count.simps [simp del]

definition Multi :: "bytes \<Rightarrow> int \<Rightarrow> bytes option" where
  "Multi d v =
     (if v = 0 then Some (Init_fill d False)
      else if v AND (v - 1) = 0 then ShiftLeft d (shift_count (v - 1))
      else Some d)"

definition DivX :: "bytes \<Rightarrow> int \<Rightarrow> bytes option" where
  "DivX d v =
     (if v = 0 then Some (Init_fill d True)
      else if v AND (v - 1) = 0 then ShiftRight d (shift_count (v - 1))
      else Some d)"

section \<open>Text\<close>

definition hex_char :: "uint8 \<Rightarrow> uint32" where
  "hex_char n = (if n < 10 then ucast n + 48 else ucast n + 65 - 10)"

definition ToHex :: "bytes \<Rightarrow> uint32 list" where
  "ToHex d = concat (map (\<lambda>i. [hex_char (drop_bit 4 (d ! i) AND 0xF), hex_char (d ! i AND 0xF)]) (rev [0..<length d]))"

definition hex_digit :: "uint32 \<Rightarrow> uint8 option" where
  "hex_digit c =
     (if 48 \<le> c \<and> c \<le> 57 then Some (ucast (c - 48))
      else if 65 \<le> c \<and> c \<le> 70 then Some (ucast (c - 65 + 10))
      else if 97 \<le> c \<and> c \<le> 102 then Some (ucast (c - 97 + 10))
      else None)"

text \<open>The loop from the last pair of digits on; what is already written stays when it fails.\<close>

fun from_hex :: "uint32 list \<Rightarrow> nat list \<Rightarrow> nat \<Rightarrow> bytes \<Rightarrow> bool \<times> bytes" where
  "from_hex h [] j d = (True, d)"
| "from_hex h (i # is) j d =
     (case hex_digit (h ! (i * 2)) of
        None \<Rightarrow> (False, d)
      | Some dig1 \<Rightarrow>
          (case hex_digit (h ! (i * 2 + 1)) of
             None \<Rightarrow> (False, d)
           | Some dig2 \<Rightarrow> from_hex h is (j + 1) (d[j := dig1 * 16 + dig2])))"

definition FromHex :: "bytes \<Rightarrow> uint32 list \<Rightarrow> bool \<times> bytes" where
  "FromHex d h =
     (if length h \<noteq> length d * 2 then (False, d) else from_hex h (rev [0..<length d]) 0 d)"

definition ToBin :: "bytes \<Rightarrow> uint32 list" where
  "ToBin d = map (\<lambda>i. if GetBit d i False then 49 else 48) (rev [0..<GetBitSize d])"

section \<open>The value of 16 bytes\<close>

type_synonym uint128 = "128 word"

definition idw :: "bytes \<Rightarrow> uint128" where
  "idw d = from_le d"

lemma bit_idw: "length d = 16 \<Longrightarrow> bit (idw d) n = (n < 128 \<and> bit (d ! (n div 8)) (n mod 8))"
  by (auto simp: idw_def bit_from_le)

lemma dword_pos:
  fixes i n :: nat
  assumes "n < 32"
  shows "(32 * i + n) div 8 = 4 * i + n div 8" "(32 * i + n) mod 8 = n mod 8"
proof -
  have e: "32 * i + n = n + 8 * (4 * i)" by simp
  show "(32 * i + n) div 8 = 4 * i + n div 8" by simp
  show "(32 * i + n) mod 8 = n mod 8" unfolding e by (rule mod_mult_self2)
qed

lemma bit_GetDWord:
  assumes "length d = 16" and "i < 4"
  shows "bit (GetDWord d i) n = (n < 32 \<and> bit (idw d) (32 * i + n))"
proof (cases "n < 32")
  case True
  have "bit (GetDWord d i) n = (n < 32 \<and> bit (d ! (4 * i + n div 8)) (n mod 8))"
    using assms True by (auto simp: GetDWord_def bit_from_le)
  also have "\<dots> = (n < 32 \<and> bit (idw d) (32 * i + n))"
    using assms True by (simp add: bit_idw dword_pos)
  finally show ?thesis .
next
  case False
  then show ?thesis by (auto dest: bit_imp_le_length)
qed

lemma GetDWord_idw: "length d = 16 \<Longrightarrow> i < 4 \<Longrightarrow> GetDWord d i = ucast (drop_bit (32 * i) (idw d))"
  by (rule bit_word_eqI) (simp add: bit_GetDWord bit_ucast_iff bit_drop_bit_eq)

lemma length_SetDWord: "length d = 16 \<Longrightarrow> i < 4 \<Longrightarrow> length (SetDWord d i v) = 16"
  by (simp add: SetDWord_def)

lemma bit_SetDWord:
  assumes "length d = 16" and "i < 4" and "n < 128"
  shows "bit (idw (SetDWord d i v)) n = (if n div 32 = i then bit v (n mod 32) else bit (idw d) n)"
proof -
  let ?k = "n div 8"
  have k: "?k < 16" "(?k div 4 = i) = (n div 32 = i)" using assms(3) by (auto simp: div_mult2_eq [symmetric])
  have "bit (idw (SetDWord d i v)) n = bit (SetDWord d i v ! ?k) (n mod 8)"
    using assms length_SetDWord [OF assms(1,2)] by (simp add: bit_idw)
  also have "\<dots> = (if ?k div 4 = i then bit (to_le v ! (?k - 4 * i)) (n mod 8) else bit (d ! ?k) (n mod 8))"
  proof -
    consider "?k < 4 * i" | "4 * i \<le> ?k" "?k < 4 * i + 4" | "4 * i + 4 \<le> ?k" by linarith
    then show ?thesis
      using assms(1,2) k(1) by cases (auto simp: SetDWord_def nth_append)
  qed
  also have "\<dots> = (if n div 32 = i then bit v (n mod 32) else bit (idw d) n)"
  proof (cases "n div 32 = i")
    case True
    define r where "r = n mod 32"
    then have r: "r < 32" "n = 32 * i + r" using True div_mult_mod_eq [of n 32] by simp_all
    have "?k = 4 * i + r div 8" "n mod 8 = r mod 8" unfolding r(2) by (rule dword_pos [OF r(1)])+
    then have "?k - 4 * i < 4" "8 * (?k - 4 * i) + n mod 8 = n mod 32" using r(1) by (simp_all add: r_def)
    moreover have "n mod 8 < 8" by simp
    ultimately have "bit (to_le v ! (?k - 4 * i)) (n mod 8) = bit v (n mod 32)"
      by (simp add: to_le_def bit_ucast_iff bit_drop_bit_eq del: mod_less_divisor)
    then show ?thesis using True k(2) by simp
  next
    case False
    then show ?thesis using assms k(2) by (simp add: bit_idw)
  qed
  finally show ?thesis .
qed

lemma GetDWord_SetDWord:
  assumes "length d = 16" and "i < 4" and "j < 4"
  shows "GetDWord (SetDWord d i v) j = (if i = j then v else GetDWord d j)"
proof (rule bit_word_eqI)
  fix n assume n: "n < LENGTH(32)"
  then have "(32 * j + n) div 32 = j" "(32 * j + n) mod 32 = n" "32 * j + n < 128" using assms(3) by simp_all
  then show "bit (GetDWord (SetDWord d i v) j) n = bit (if i = j then v else GetDWord d j) n"
    using n bit_GetDWord [OF length_SetDWord [OF assms(1,2)] assms(3)] bit_GetDWord [OF assms(1,3)]
      bit_SetDWord [OF assms(1,2), of "32 * j + n"] by simp
qed

lemma idw_eqI:
  assumes "\<And>i. i < 4 \<Longrightarrow> GetDWord d i = ucast (drop_bit (32 * i) w)" and "length d = 16"
  shows "idw d = w"
proof (rule bit_word_eqI)
  fix n assume n: "n < LENGTH(128)"
  then have i: "n div 32 < 4" by simp
  have "bit (GetDWord d (n div 32)) (n mod 32) = bit (idw d) n"
    using bit_GetDWord [OF assms(2) i] by simp
  moreover have "bit (ucast (drop_bit (32 * (n div 32)) w) :: uint32) (n mod 32) = bit w n"
    by (simp add: bit_ucast_iff bit_drop_bit_eq)
  ultimately show "bit (idw d) n = bit w n" using assms(1) [OF i] by simp
qed

lemma four: "[0..<4] = [0, 1, 2, 3 :: nat]" "rev [0..<4] = [3, 2, 1, 0 :: nat]"
  by (simp_all add: upt_rec)

lemma less_four: "i < 4 \<Longrightarrow> i = 0 \<or> i = 1 \<or> i = 2 \<or> i = (3 :: nat)"
  by linarith

text \<open>What a loop over the four words leaves.\<close>

lemma dwords_set:
  assumes "length d = 16"
  shows "length (SetDWord (SetDWord (SetDWord (SetDWord d 0 a) 1 b) 2 c) 3 e) = 16"
    and "GetDWord (SetDWord (SetDWord (SetDWord (SetDWord d 0 a) 1 b) 2 c) 3 e) 0 = a"
    and "GetDWord (SetDWord (SetDWord (SetDWord (SetDWord d 0 a) 1 b) 2 c) 3 e) 1 = b"
    and "GetDWord (SetDWord (SetDWord (SetDWord (SetDWord d 0 a) 1 b) 2 c) 3 e) 2 = c"
    and "GetDWord (SetDWord (SetDWord (SetDWord (SetDWord d 0 a) 1 b) 2 c) 3 e) 3 = e"
  using assms by (simp_all add: GetDWord_SetDWord length_SetDWord)

lemma dword_loop_words:
  assumes "length d = 16"
  shows "length (dword_loop f d v) = 16"
    and "i < 4 \<Longrightarrow> GetDWord (dword_loop f d v) i = f (GetDWord d i) (GetDWord v i)"
proof -
  have e: "dword_loop f d v = SetDWord (SetDWord (SetDWord (SetDWord d 0 (f (GetDWord d 0) (GetDWord v 0)))
      1 (f (GetDWord d 1) (GetDWord v 1))) 2 (f (GetDWord d 2) (GetDWord v 2))) 3 (f (GetDWord d 3) (GetDWord v 3))"
    using assms by (simp add: dword_loop_def GetDWordCount_def four GetDWord_SetDWord length_SetDWord)
  show "length (dword_loop f d v) = 16" unfolding e by (rule dwords_set(1) [OF assms])
  show "i < 4 \<Longrightarrow> GetDWord (dword_loop f d v) i = f (GetDWord d i) (GetDWord v i)"
    unfolding e using dwords_set(2-5) [OF assms] less_four [of i] by auto
qed

lemma bitwise_idw:
  assumes "length d = 16" and "length v = 16"
  shows "idw (AndX d v) = idw d AND idw v" and "idw (OrX d v) = idw d OR idw v"
    and "idw (XorX d v) = idw d XOR idw v" and "idw (Invert d) = NOT (idw d)"
proof -
  have b: "i < 4 \<Longrightarrow> n < 32 \<Longrightarrow> 32 * i + n < 128" for i n :: nat by linarith
  show "idw (AndX d v) = idw d AND idw v" "idw (OrX d v) = idw d OR idw v" "idw (XorX d v) = idw d XOR idw v"
      "idw (Invert d) = NOT (idw d)"
    unfolding AndX_def OrX_def XorX_def Invert_def
    by (rule idw_eqI, rule bit_word_eqI,
        auto simp: dword_loop_words [OF assms(1)] GetDWord_idw [OF assms(1)] GetDWord_idw [OF assms(2)] b
          bit_ucast_iff bit_drop_bit_eq bit_and_iff bit_or_iff bit_xor_iff bit_not_iff)+
qed

lemma IsNull_idw: "length d = 16 \<Longrightarrow> IsNull d = (idw d = 0)"
proof -
  assume l: "length d = 16"
  have "IsNull d = (\<forall>i < 4. GetDWord d i = 0)" using l by (auto simp: IsNull_def GetDWordCount_def list_all_iff)
  also have "\<dots> = (idw d = 0)"
    using idw_eqI [of d 0] l by (auto simp: GetDWord_idw)
  finally show ?thesis .
qed

text \<open>The value in base 2^32.\<close>

lemma four_digits:
  fixes x B :: int
  assumes "0 < B" and "0 \<le> x" and "x < B ^ 4"
  shows "x = x mod B + x div B mod B * B + x div B ^ 2 mod B * B ^ 2 + x div B ^ 3 mod B * B ^ 3"
proof -
  define a b c where "a = x div B" and "b = a div B" and "c = b div B"
  have e: "x = a * B + x mod B" "a = b * B + a mod B" "b = c * B + b mod B"
    unfolding a_def b_def c_def by (simp_all only: div_mult_mod_eq)
  have d: "x div B ^ 2 = b" "x div B ^ 3 = c"
    using assms(1) unfolding a_def b_def c_def by (simp_all add: power2_eq_square power3_eq_cube zdiv_zmult2_eq)
  have "c * B ^ 3 < B ^ 4"
    using assms by (metis d(2) div_mult_mod_eq le_less_trans zle_add1_eq_le add.commute add_le_same_cancel1
      le_add_same_cancel2 pos_mod_sign zero_less_power order_le_less)
  then have "c < B" using assms(1) by (simp add: eval_nat_numeral)
  moreover have "0 \<le> c" using assms d(2) by (simp add: pos_imp_zdiv_nonneg_iff flip: d(2))
  ultimately have "c mod B = c" by (simp add: mod_pos_pos_trivial)
  then have "x div B ^ 3 mod B * B ^ 3 = c * B ^ 3" by (simp add: d)
  moreover have "x = x mod B + a mod B * B + b mod B * B ^ 2 + c * B ^ 3"
    by (subst e(1), subst e(2), subst e(3)) (simp add: algebra_simps power2_eq_square power3_eq_cube)
  ultimately show ?thesis by (simp only: d a_def [symmetric])
qed

lemma uint_GetDWord:
  assumes "length d = 16" and "i < 4"
  shows "uint (GetDWord d i) = uint (idw d) div 2 ^ (32 * i) mod 2 ^ 32"
proof -
  have "uint (drop_bit (32 * i) (idw d)) = drop_bit (32 * i) (uint (idw d))"
    by (simp only: unsigned_drop_bit_eq) (simp add: bintr_uint)
  then show ?thesis
    unfolding GetDWord_idw [OF assms] unsigned_ucast_eq by (simp only: take_bit_eq_mod drop_bit_eq_div) simp
qed

lemma idw_value:
  assumes "length d = 16"
  shows "uint (idw d) = uint (GetDWord d 0) + uint (GetDWord d 1) * 2 ^ 32 + uint (GetDWord d 2) * (2 ^ 32) ^ 2 + uint (GetDWord d 3) * (2 ^ 32) ^ 3"
proof -
  have "uint (idw d) < 2 ^ LENGTH(128)" by (rule uint_lt2p)
  also have "(2 :: int) ^ LENGTH(128) = (2 ^ 32) ^ 4" by (simp flip: power_mult)
  finally have l: "uint (idw d) < (2 ^ 32) ^ 4" .
  have e: "(2 :: int) ^ (32 * 0) = 1" "(2 :: int) ^ (32 * 1) = 2 ^ 32" "(2 :: int) ^ (32 * 2) = (2 ^ 32) ^ 2"
    "(2 :: int) ^ (32 * 3) = (2 ^ 32) ^ 3"
    by (simp_all only: power_mult power_0 power_one_right mult_1 mult_0_right mult_1_right)
  have g: "(0::nat) < 4" "(1::nat) < 4" "(2::nat) < 4" "(3::nat) < 4" by simp_all
  show ?thesis
    unfolding uint_GetDWord [OF assms g(1)] uint_GetDWord [OF assms g(2)] uint_GetDWord [OF assms g(3)]
      uint_GetDWord [OF assms g(4)] e div_by_1
    by (rule four_digits [OF _ uint_ge_0 l]) simp
qed

section \<open>Sums and comparison\<close>

lemma idw_sum:
  "length d = 16 \<Longrightarrow> uint (idw d) = (\<Sum>i<4. uint (GetDWord d i) * (2 ^ 32) ^ i)"
proof -
  assume l: "length d = 16"
  have "{..<4} = {0, 1, 2, 3 :: nat}" by auto
  then have "(\<Sum>i<4. uint (GetDWord d i) * (2 ^ 32) ^ i) = (\<Sum>i\<in>{0, 1, 2, 3}. uint (GetDWord d i) * (2 ^ 32) ^ i)"
    by (simp only:)
  also have "\<dots> = uint (idw d)"
    unfolding idw_value [OF l] by (simp del: of_nat_numeral power_mult_numeral)
  finally show ?thesis by (rule sym)
qed

lemma uint_of_int32: "uint (of_int s :: uint32) = s mod 2 ^ 32"
  by (simp add: uint_word_of_int)

lemma add_steps:
  assumes "length d = 16" and "n \<le> 4"
  shows "case fold (add_step v) [0..<n] (0, d) of (c, e) \<Rightarrow>
     length e = 16 \<and> (\<forall>i < 4. n \<le> i \<longrightarrow> GetDWord e i = GetDWord d i)
     \<and> (\<Sum>i<n. uint (GetDWord e i) * (2 ^ 32) ^ i) + c * (2 ^ 32) ^ n
       = (\<Sum>i<n. (uint (GetDWord d i) + uint (GetDWord v i)) * (2 ^ 32) ^ i)"
  using assms(2)
proof (induction n)
  case 0
  then show ?case using assms by simp
next
  case (Suc n)
  obtain c e where f: "fold (add_step v) [0..<n] (0, d) = (c, e)" by fastforce
  with Suc have l: "length e = 16" and k: "\<forall>i < 4. n \<le> i \<longrightarrow> GetDWord e i = GetDWord d i"
    and s: "(\<Sum>i<n. uint (GetDWord e i) * (2 ^ 32) ^ i) + c * (2 ^ 32) ^ n
       = (\<Sum>i<n. (uint (GetDWord d i) + uint (GetDWord v i)) * (2 ^ 32) ^ i)" by auto
  let ?t = "c + uint (GetDWord e n) + uint (GetDWord v n)"
  let ?e = "SetDWord e n (of_int ?t)"
  have g: "fold (add_step v) [0..<Suc n] (0, d) = (?t div 2 ^ 32, ?e)" by (simp add: f add_step_def Let_def)
  have w: "GetDWord ?e i = (if i = n then of_int ?t else GetDWord e i)" if "i < 4" for i
    using GetDWord_SetDWord [OF l] that Suc.prems by simp
  have "(\<Sum>i<n. uint (GetDWord ?e i) * (2 ^ 32) ^ i) = (\<Sum>i<n. uint (GetDWord e i) * (2 ^ 32) ^ i)"
  proof (rule sum.cong [OF refl])
    fix i
    assume "i \<in> {..<n}"
    with Suc.prems have "i < 4" "i \<noteq> n" by auto
    then show "uint (GetDWord ?e i) * (2 ^ 32) ^ i = uint (GetDWord e i) * (2 ^ 32) ^ i" by (simp only: w if_False)
  qed
  moreover have "uint (GetDWord ?e n) + ?t div 2 ^ 32 * 2 ^ 32 = ?t"
    using Suc.prems unfolding w [of n, simplified] by (simp only: w uint_of_int32 if_True refl mod_div_mult_eq)
  then have "uint (GetDWord ?e n) * (2 ^ 32) ^ n + ?t div 2 ^ 32 * (2 ^ 32) ^ Suc n = ?t * (2 ^ 32) ^ n"
    by (metis (no_types, lifting) distrib_right mult.assoc power_Suc)
  ultimately have "(\<Sum>i<Suc n. uint (GetDWord ?e i) * (2 ^ 32) ^ i) + ?t div 2 ^ 32 * (2 ^ 32) ^ Suc n
      = (\<Sum>i<n. uint (GetDWord e i) * (2 ^ 32) ^ i) + ?t * (2 ^ 32) ^ n" by (simp only: sum.lessThan_Suc)
  also have "\<dots> = (\<Sum>i<n. (uint (GetDWord d i) + uint (GetDWord v i)) * (2 ^ 32) ^ i)
      + (uint (GetDWord e n) + uint (GetDWord v n)) * (2 ^ 32) ^ n" unfolding s [symmetric]
    by (simp only: distrib_right add.assoc)
  also have "\<dots> = (\<Sum>i<Suc n. (uint (GetDWord d i) + uint (GetDWord v i)) * (2 ^ 32) ^ i)"
    using k Suc.prems by simp
  finally have "(\<Sum>i<Suc n. uint (GetDWord ?e i) * (2 ^ 32) ^ i) + ?t div 2 ^ 32 * (2 ^ 32) ^ Suc n
      = (\<Sum>i<Suc n. (uint (GetDWord d i) + uint (GetDWord v i)) * (2 ^ 32) ^ i)"
    .
  moreover have "GetDWord ?e i = GetDWord d i" if "i < 4" "Suc n \<le> i" for i
    using k that w [OF that(1)] by (simp only: Suc_le_eq) simp
  moreover have "length ?e = 16" using l Suc.prems by (simp only: length_SetDWord Suc_le_eq)
  ultimately show ?case unfolding g by (intro case_prodI2 conjI allI impI) (simp_all only: prod.inject)
qed

lemma AddX_idw:
  assumes "length d = 16" and "length v = 16"
  shows "idw (AddX d v) = idw d + idw v" and "length (AddX d v) = 16"
proof -
  obtain c e where f: "fold (add_step v) [0..<4] (0, d) = (c, e)" by fastforce
  have l: "length e = 16" and s: "(\<Sum>i<4. uint (GetDWord e i) * (2 ^ 32) ^ i) + c * (2 ^ 32) ^ 4
       = (\<Sum>i<4. (uint (GetDWord d i) + uint (GetDWord v i)) * (2 ^ 32) ^ i)"
    using add_steps [OF assms(1), of 4 v] unfolding f by (simp_all only: case_prod_conv le_refl)
  have "uint (idw e) + c * (2 ^ 32) ^ 4 = uint (idw d) + uint (idw v)"
    using s unfolding idw_sum [OF l] idw_sum [OF assms(1)] idw_sum [OF assms(2)]
    by (simp only: distrib_right sum.distrib)
  then have "of_int (uint (idw e) + c * (2 ^ 32) ^ 4) = (of_int (uint (idw d) + uint (idw v)) :: uint128)" by simp
  moreover have "(of_int ((2 ^ 32) ^ 4) :: uint128) = 0" by simp
  ultimately have "idw e = idw d + idw v" by (simp only: of_int_add of_int_mult) simp
  moreover have "AddX d v = (if IsNull v then d else e)" using f assms by (simp add: AddX_def GetDWordCount_def)
  ultimately show "idw (AddX d v) = idw d + idw v" "length (AddX d v) = 16"
    using l assms IsNull_idw [OF assms(2)] by auto
qed

lemma digits_less:
  fixes a\<^sub>0 a\<^sub>1 a\<^sub>2 a\<^sub>3 b\<^sub>0 b\<^sub>1 b\<^sub>2 b\<^sub>3 :: int
  assumes "0 \<le> a\<^sub>0 \<and> a\<^sub>0 < 2 ^ 32" "0 \<le> a\<^sub>1 \<and> a\<^sub>1 < 2 ^ 32" "0 \<le> a\<^sub>2 \<and> a\<^sub>2 < 2 ^ 32"
    and "0 \<le> b\<^sub>0 \<and> b\<^sub>0 < 2 ^ 32" "0 \<le> b\<^sub>1 \<and> b\<^sub>1 < 2 ^ 32" "0 \<le> b\<^sub>2 \<and> b\<^sub>2 < 2 ^ 32"
  shows "a\<^sub>0 + a\<^sub>1 * 2 ^ 32 + a\<^sub>2 * (2 ^ 32) ^ 2 + a\<^sub>3 * (2 ^ 32) ^ 3 < b\<^sub>0 + b\<^sub>1 * 2 ^ 32 + b\<^sub>2 * (2 ^ 32) ^ 2 + b\<^sub>3 * (2 ^ 32) ^ 3
     \<longleftrightarrow> a\<^sub>3 < b\<^sub>3 \<or> a\<^sub>3 = b\<^sub>3 \<and> (a\<^sub>2 < b\<^sub>2 \<or> a\<^sub>2 = b\<^sub>2 \<and> (a\<^sub>1 < b\<^sub>1 \<or> a\<^sub>1 = b\<^sub>1 \<and> a\<^sub>0 < b\<^sub>0))"
proof -
  consider "a\<^sub>3 < b\<^sub>3" | "b\<^sub>3 < a\<^sub>3" | "a\<^sub>3 = b\<^sub>3" "a\<^sub>2 < b\<^sub>2" | "a\<^sub>3 = b\<^sub>3" "b\<^sub>2 < a\<^sub>2"
    | "a\<^sub>3 = b\<^sub>3" "a\<^sub>2 = b\<^sub>2" "a\<^sub>1 < b\<^sub>1" | "a\<^sub>3 = b\<^sub>3" "a\<^sub>2 = b\<^sub>2" "b\<^sub>1 < a\<^sub>1"
    | "a\<^sub>3 = b\<^sub>3" "a\<^sub>2 = b\<^sub>2" "a\<^sub>1 = b\<^sub>1" by linarith
  then show ?thesis using assms by cases auto
qed

lemma CompareTo_idw:
  assumes "length d = 16" and "length v = 16"
  shows "CompareTo d v = (if idw d < idw v then - 1 else if idw v < idw d then 1 else 0)"
proof -
  have r: "0 \<le> uint (GetDWord e i) \<and> uint (GetDWord e i) < 2 ^ 32" for e i
    using uint_lt2p [of "GetDWord e i"] by simp
  have c: "CompareTo d v = compare_words d v [3, 2, 1, 0]"
  proof -
    have "rev [0..<4] = [3, 2, 1, 0 :: nat]" by (simp add: upt_rec)
    then show ?thesis using assms by (simp add: CompareTo_def GetDWordCount_def)
  qed
  have l: "idw x < idw y \<longleftrightarrow> GetDWord x 3 < GetDWord y 3 \<or> GetDWord x 3 = GetDWord y 3 \<and> (GetDWord x 2 < GetDWord y 2
      \<or> GetDWord x 2 = GetDWord y 2 \<and> (GetDWord x 1 < GetDWord y 1 \<or> GetDWord x 1 = GetDWord y 1 \<and> GetDWord x 0 < GetDWord y 0))"
    if "length x = 16" "length y = 16" for x y
    unfolding word_less_alt idw_value [OF that(1)] idw_value [OF that(2)] digits_less [OF r r r r r r] word_uint_eq_iff
    by (rule refl)
  show ?thesis
    unfolding c l [OF assms] l [OF assms(2,1)]
    by (cases "GetDWord d 3" "GetDWord v 3" rule: linorder_cases; cases "GetDWord d 2" "GetDWord v 2" rule: linorder_cases;
        cases "GetDWord d 1" "GetDWord v 1" rule: linorder_cases)
      (simp_all add: order_less_imp_not_less order_less_imp_not_eq order_less_imp_not_eq2 del: One_nat_def)
qed

section \<open>Bits and shifts\<close>

lemma GetBit_idw:
  assumes "length d = 16"
  shows "GetBit d i e = (i < 128 \<and> bit (idw d) (if e then 127 - i else i))"
proof -
  have "(drop_bit k x AND 1 \<noteq> 0) = bit x k" for k and x :: uint8
    by (simp add: bit_iff_odd_drop_bit [of x k] and_one_eq odd_iff_mod_2_eq_one)
  then show ?thesis using assms by (auto simp: GetBit_def GetBitSize_def Let_def bit_idw)
qed

lemma bit_with_bit:
  fixes x :: uint8
  assumes "q < 8"
  shows "bit (if b then x OR push_bit q 1 else x AND NOT (push_bit q 1)) n = (if q = n then b else bit x n)"
  using assms by (cases b) (auto simp: bit_or_iff bit_and_iff bit_not_iff bit_push_bit_iff bit_1_iff
      simp del: push_bit_Suc push_bit_of_1 dest: bit_imp_le_length)

lemma bit_byte_update:
  assumes "length d = 16" and "q < 128" and "n < 128"
    and x: "\<And>n. bit x n = (if q mod 8 = n then b else bit (d ! (q div 8)) n)"
  shows "bit (idw (d[q div 8 := x])) n = (if n = q then b else bit (idw d) n)"
proof -
  have l: "length (d[q div 8 := x]) = 16" using assms(1) by simp
  have q: "q div 8 < length d" using assms(1,2) by (simp add: div_less_iff_less_mult)
  have i: "bit (idw (d[q div 8 := x])) n = bit (d[q div 8 := x] ! (n div 8)) (n mod 8)"
    unfolding bit_idw [OF l] using assms(3) by (simp only: simp_thms)
  have j: "bit (idw d) n = bit (d ! (n div 8)) (n mod 8)"
    unfolding bit_idw [OF assms(1)] using assms(3) by (simp only: simp_thms)
  show ?thesis
  proof (cases "n div 8 = q div 8")
    case True
    then have "(q mod 8 = n mod 8) = (n = q)" by (metis div_mult_mod_eq)
    then show ?thesis unfolding i j x True nth_list_update_eq [OF q] by (simp only:)
  next
    case False
    then show ?thesis unfolding i j using nth_list_update_neq [of "q div 8" "n div 8" d x] by auto
  qed
qed

lemma SetBit_idw:
  assumes "length d = 16"
  shows "idw (SetBit d i b e) =
      (if i < 128 then (if b then set_bit else unset_bit) (if e then 127 - i else i) (idw d) else idw d)"
    and "length (SetBit d i b e) = 16"
proof -
  show "length (SetBit d i b e) = 16" using assms by (simp add: SetBit_def Let_def)
  define q where "q = (if e then 127 - i else i)"
  have "idw (SetBit d i b e) = (if b then set_bit else unset_bit) q (idw d)" if "i < 128"
  proof (rule bit_word_eqI)
    fix n assume "n < LENGTH(128)"
    then have n: "n < 128" by simp
    have q: "q < 128" using that by (auto simp: q_def)
    have "SetBit d i b e = d[q div 8 := if b then d ! (q div 8) OR push_bit (q mod 8) 1
        else d ! (q div 8) AND NOT (push_bit (q mod 8) 1)]"
      using that assms by (simp add: SetBit_def Let_def GetBitSize_def q_def del: push_bit_Suc push_bit_of_1)
    then have "bit (idw (SetBit d i b e)) n = (if n = q then b else bit (idw d) n)"
      using bit_byte_update [OF assms q n bit_with_bit [where b = b]] by simp
    then show "bit (idw (SetBit d i b e)) n = bit ((if b then set_bit else unset_bit) q (idw d)) n"
      using n by (simp add: bit_set_bit_iff bit_unset_bit_iff)
  qed
  moreover have "SetBit d i b e = d" if "\<not> i < 128" using that assms by (simp add: SetBit_def GetBitSize_def)
  ultimately show "idw (SetBit d i b e) = (if i < 128 then (if b then set_bit else unset_bit) (if e then 127 - i else i) (idw d) else idw d)"
    unfolding q_def by simp
qed

lemma bit_low_byte: "bit (low_byte (short_shift x n)) k = (k < 8 \<and> n \<le> k \<and> bit x (k - n))"
  by (auto simp: low_byte_def short_shift_def bit_ucast_iff bit_push_bit_iff)

lemma bit_high_byte: "n \<le> 8 \<Longrightarrow> bit (high_byte (short_shift x n)) k = (k < 8 \<and> n \<le> k + 8 \<and> bit x (k + 8 - n))"
  by (auto simp: high_byte_def short_shift_def bit_ucast_iff bit_push_bit_iff bit_drop_bit_eq add.commute)

text \<open>Byte \<open>j\<close> of the value shifted left by \<open>8 * s + n\<close> bits.\<close>

definition shl_byte :: "bytes \<Rightarrow> nat \<Rightarrow> nat \<Rightarrow> nat \<Rightarrow> uint8" where
  "shl_byte d s n j = (if j < s then 0 else low_byte (short_shift (d ! (j - s)) n))
     OR (if j \<le> s then 0 else high_byte (short_shift (d ! (j - s - 1)) n))"

lemma bit_pos: "(8 * j + k :: nat) div 8 = j \<and> (8 * j + k) mod 8 = k" if "k < 8"
  using that by simp

lemma shl_bytes:
  assumes "length d = 16" and "length e = 16" and "s < 16" and "n < 8" and "\<And>j. j < 16 \<Longrightarrow> e ! j = shl_byte d s n j"
  shows "idw e = push_bit (8 * s + n) (idw d)"
proof (rule bit_word_eqI)
  fix m assume "m < LENGTH(128)"
  then have m: "m < 128" "m div 8 < 16" by simp_all
  define j k where "j = m div 8" and "k = m mod 8"
  then have mk: "m = 8 * j + k" "k < 8" "j < 16" using m by simp_all
  have "bit (idw e) m = bit (shl_byte d s n j) k"
    using m by (simp add: bit_idw [OF assms(2)] assms(5) j_def k_def)
  also have "\<dots> = (j \<ge> s \<and> n \<le> k \<and> bit (d ! (j - s)) (k - n) \<or> j > s \<and> n \<le> k + 8 \<and> bit (d ! (j - s - 1)) (k + 8 - n))"
    using mk assms(4) by (auto simp: shl_byte_def bit_or_iff bit_low_byte bit_high_byte)
  also have "\<dots> = (8 * s + n \<le> m \<and> bit (idw d) (m - (8 * s + n)))"
  proof (cases "n \<le> k")
    case True
    have "\<not> bit x (k + 8 - n)" for x :: uint8 using True by (auto dest: bit_imp_le_length)
    moreover have "m - (8 * s + n) = 8 * (j - s) + (k - n)" if "s \<le> j" using True mk that by simp
    moreover have "(8 * s + n \<le> m) = (s \<le> j)" using True mk by linarith
    ultimately show ?thesis using True mk m bit_pos [of "k - n" "j - s"] by (auto simp: bit_idw [OF assms(1)])
  next
    case False
    have "m - (8 * s + n) = 8 * (j - s - 1) + (k + 8 - n)" if "s < j" using False mk assms(4) that by linarith
    moreover have "(8 * s + n \<le> m) = (s < j)" using False mk assms(4) by linarith
    ultimately show ?thesis
      using False mk m assms(4) bit_pos [of "k + 8 - n" "j - s - 1"] by (auto simp: bit_idw [OF assms(1)])
  qed
  also have "\<dots> = bit (push_bit (8 * s + n) (idw d)) m" using m by (auto simp: bit_push_bit_iff)
  finally show "bit (idw e) m = bit (push_bit (8 * s + n) (idw d)) m" .
qed

definition shl_inv :: "bytes \<Rightarrow> nat \<Rightarrow> nat \<Rightarrow> nat \<Rightarrow> bytes \<Rightarrow> bool" where
  "shl_inv d s n k e = (length e = 16 \<and> (\<forall>j < 16. e ! j =
     (if j < k + s then d ! j else if j = k + s then low_byte (short_shift (d ! k) n) else shl_byte d s n j)))"

lemma shl_loop:
  assumes "length d = 16" and "s + k < 16" and "shl_inv d s n k e"
  shows "shl_inv d s n 0 (fold (shl_step n s) (rev [0..<k]) e)"
  using assms(2,3)
proof (induction k arbitrary: e)
  case 0
  then show ?case by simp
next
  case (Suc k)
  have "e ! k = d ! k" using Suc.prems by (simp add: shl_inv_def)
  moreover have "e ! Suc (s + k) = low_byte (short_shift (d ! Suc k) n)" using Suc.prems by (simp add: shl_inv_def)
  ultimately have "shl_inv d s n k (shl_step n s k e)"
    using Suc.prems by (auto simp: shl_inv_def shl_step_def Let_def nth_list_update shl_byte_def Suc_diff_le add.commute)
  with Suc show ?case by simp
qed

lemma fold_clear: "fold (\<lambda>i d. d[i := 0]) is d = map (\<lambda>j. if j \<in> set is then 0 else d ! j) [0..<length d]"
  by (induction "is" arbitrary: d) (auto intro: nth_equalityI simp: nth_list_update)

lemma ShiftLeft_idw:
  assumes "length d = 16" and "u < 128"
  shows "\<exists>e. ShiftLeft d u = Some e \<and> length e = 16 \<and> idw e = push_bit u (idw d)"
proof (cases "u = 0 \<or> IsNull d")
  case True
  then show ?thesis using assms IsNull_idw by (auto simp: ShiftLeft_def)
next
  case False
  define s n where "s = u div 8" and "n = u mod 8"
  have sn: "s < 16" "n < 8" "u = 8 * s + n" using assms by (auto simp: s_def n_def)
  define e0 where "e0 = d[15 := low_byte (short_shift (d ! (15 - s)) n)]"
  define e1 where "e1 = fold (shl_step n s) (rev [0..<15 - s]) e0"
  define e2 where "e2 = fold (\<lambda>i d. d[i := 0]) [0..<s] e1"
  have "shl_inv d s n (15 - s) e0"
    using sn assms(1) by (auto simp: shl_inv_def e0_def nth_list_update)
  then have "shl_inv d s n 0 e1" unfolding e1_def using sn assms(1) by (intro shl_loop) simp_all
  then have "length e2 = 16" "\<And>j. j < 16 \<Longrightarrow> e2 ! j = shl_byte d s n j"
    by (auto simp: shl_inv_def e2_def fold_clear shl_byte_def)
  then have "idw e2 = push_bit u (idw d)" "length e2 = 16" using shl_bytes [OF assms(1) _ sn(1,2)] sn(3) by simp_all
  moreover have "ShiftLeft d u = Some e2"
    using False sn(1) assms by (simp add: ShiftLeft_def GetBitSize_def Let_def e2_def e1_def e0_def s_def n_def)
  ultimately show ?thesis by blast
qed


text \<open>Byte \<open>j\<close> of the value shifted right.\<close>

definition shr_byte :: "bytes \<Rightarrow> nat \<Rightarrow> nat \<Rightarrow> nat \<Rightarrow> uint8" where
  "shr_byte d s n j = (if j + s < 16 then high_byte (short_shift (d ! (j + s)) (8 - n)) else 0)
     OR (if j + s < 15 then low_byte (short_shift (d ! (j + s + 1)) (8 - n)) else 0)"

lemma shr_bytes:
  assumes "length d = 16" and "length e = 16" and "s < 16" and "n < 8" and "\<And>j. j < 16 \<Longrightarrow> e ! j = shr_byte d s n j"
  shows "idw e = drop_bit (8 * s + n) (idw d)"
proof (rule bit_word_eqI)
  fix m assume "m < LENGTH(128)"
  then have m: "m < 128" "m div 8 < 16" by simp_all
  define j k where "j = m div 8" and "k = m mod 8"
  then have mk: "m = 8 * j + k" "k < 8" "j < 16" using m by simp_all
  have "bit (idw e) m = bit (shr_byte d s n j) k"
    using m by (simp add: bit_idw [OF assms(2)] assms(5) j_def k_def)
  also have "\<dots> = (j + s < 16 \<and> bit (d ! (j + s)) (k + n) \<or> j + s < 15 \<and> 8 \<le> k + n \<and> bit (d ! (j + s + 1)) (k + n - 8))"
    using mk assms(4) by (auto simp: shr_byte_def bit_or_iff bit_low_byte bit_high_byte le_diff_conv2)
  also have "\<dots> = (m + (8 * s + n) < 128 \<and> bit (idw d) (m + (8 * s + n)))"
  proof (cases "k + n < 8")
    case True
    have "m + (8 * s + n) = 8 * (j + s) + (k + n)" using mk by simp
    then have "(m + (8 * s + n)) div 8 = j + s" "(m + (8 * s + n)) mod 8 = k + n" using bit_pos [OF True, of "j + s"] by (simp_all only:)
    moreover have "(m + (8 * s + n) < 128) = (j + s < 16)" using True mk by linarith
    ultimately show ?thesis using True by (simp add: bit_idw [OF assms(1)])
  next
    case False
    have "\<not> bit x (k + n)" for x :: uint8 using False by (auto dest: bit_imp_le_length)
    moreover have "k + n - 8 < 8" using mk assms(4) by simp
    moreover have "m + (8 * s + n) = 8 * (j + s + 1) + (k + n - 8)" unfolding mk(1) using False by simp
    then have "(m + (8 * s + n)) div 8 = j + s + 1" "(m + (8 * s + n)) mod 8 = k + n - 8"
      using bit_pos [OF \<open>k + n - 8 < 8\<close>, of "j + s + 1"] by (simp_all only:)
    moreover have "(m + (8 * s + n) < 128) = (j + s < 15)" using False mk assms(4) by linarith
    ultimately show ?thesis
      using False by (simp add: bit_idw [OF assms(1)])
  qed
  also have "\<dots> = bit (drop_bit (8 * s + n) (idw d)) m"
    by (auto simp: bit_drop_bit_eq bit_idw [OF assms(1)] add.commute)
  finally show "bit (idw e) m = bit (drop_bit (8 * s + n) (idw d)) m" .
qed

text \<open>After the iterations for the bytes below \<open>k\<close>: what is written, and what is pending in \<open>iShifted\<close>.\<close>

definition shr_inv :: "bytes \<Rightarrow> nat \<Rightarrow> nat \<Rightarrow> nat \<Rightarrow> uint16 \<times> bytes \<Rightarrow> bool" where
  "shr_inv d s n k = (\<lambda>(w, e). length e = 16 \<and> w = short_shift (d ! (k - 1)) (8 - n)
     \<and> (\<forall>j < 16. e ! j = (if j + s + 1 < k then shr_byte d s n j else d ! j)))"

lemma shr_loop:
  assumes "length d = 16" and "s < k" and "k \<le> 16"
  shows "shr_inv d s n k (fold (shr_step n s) [Suc s..<k] (short_shift (d ! s) (8 - n), d))"
  using assms(2,3)
proof (induction k)
  case 0
  then show ?case by simp
next
  case (Suc k)
  show ?case
  proof (cases "s = k")
    case True
    then show ?thesis using assms(1) by (simp add: shr_inv_def)
  next
    case False
    with Suc have I: "shr_inv d s n k (fold (shr_step n s) [Suc s..<k] (short_shift (d ! s) (8 - n), d))" and sk: "s < k"
      by simp_all
    obtain w e where f: "fold (shr_step n s) [Suc s..<k] (short_shift (d ! s) (8 - n), d) = (w, e)" by fastforce
    have k: "k - Suc 0 < 16" "k - s - Suc 0 + s = k - Suc 0" "k - s - Suc 0 < k" using sk Suc.prems by simp_all
    have "shr_inv d s n (Suc k) (shr_step n s k (w, e))"
      using I sk Suc.prems k unfolding f
      by (auto simp: shr_inv_def shr_step_def Let_def nth_list_update shr_byte_def)
    then show ?thesis using sk by (simp add: f)
  qed
qed

lemma ShiftRight_idw:
  assumes "length d = 16" and "u < 128"
  shows "\<exists>e. ShiftRight d u = Some e \<and> length e = 16 \<and> idw e = drop_bit u (idw d)"
proof (cases "u = 0 \<or> IsNull d")
  case True
  then show ?thesis using assms IsNull_idw by (auto simp: ShiftRight_def)
next
  case False
  define s n where "s = u div 8" and "n = u mod 8"
  have sn: "s < 16" "n < 8" "u = 8 * s + n" using assms by (auto simp: s_def n_def)
  obtain w e where f: "fold (shr_step n s) [Suc s..<16] (short_shift (d ! s) (8 - n), d) = (w, e)" by fastforce
  have I: "shr_inv d s n 16 (w, e)" using shr_loop [OF assms(1), of s 16 n] sn f by simp
  define e1 where "e1 = e[15 - s := high_byte w]"
  define e2 where "e2 = fold (\<lambda>i d. d[i := 0]) (rev [16 - s..<16]) e1"
  have "length e2 = 16" "\<And>j. j < 16 \<Longrightarrow> e2 ! j = shr_byte d s n j"
    using I sn by (auto simp: shr_inv_def e2_def e1_def fold_clear nth_list_update shr_byte_def)
  then have "idw e2 = drop_bit u (idw d)" "length e2 = 16" using shr_bytes [OF assms(1) _ sn(1,2)] sn(3) by simp_all
  moreover have "ShiftRight d u = Some e2"
    using False sn(1) assms f I by (simp add: ShiftRight_def GetBitSize_def Let_def e2_def e1_def s_def n_def shr_inv_def)
  ultimately show ?thesis by blast
qed

section \<open>Multiplication and division by powers of two\<close>

lemma shift_count_power: "shift_count (2 ^ k - 1) = k"
proof (induction k)
  case 0
  show ?case by (simp add: shift_count.simps)
next
  case (Suc k)
  have "(2 ^ Suc k - 1 :: int) div 2 = 2 ^ k - 1" by simp
  moreover have "(0 :: int) < 2 ^ Suc k - 1" using one_less_power [of "2 :: int" "Suc k"] by simp
  ultimately show ?case using Suc by (subst shift_count.simps) (simp only: if_True)
qed

lemma Multi_power:
  assumes "length d = 16" and "k < 128"
  shows "\<exists>e. Multi d (2 ^ k) = Some e \<and> length e = 16 \<and> idw e = push_bit k (idw d)"
    and "\<exists>e. DivX d (2 ^ k) = Some e \<and> length e = 16 \<and> idw e = drop_bit k (idw d)"
proof -
  have "(2 ^ k AND (2 ^ k - 1) :: int) = 0"
    by (rule bit_eqI) (auto simp: bit_and_iff bit_exp_iff bit_mask_iff simp flip: mask_eq_exp_minus_1)
  then have "Multi d (2 ^ k) = ShiftLeft d k" "DivX d (2 ^ k) = ShiftRight d k"
    by (simp_all add: Multi_def DivX_def shift_count_power)
  then show "\<exists>e. Multi d (2 ^ k) = Some e \<and> length e = 16 \<and> idw e = push_bit k (idw d)"
      "\<exists>e. DivX d (2 ^ k) = Some e \<and> length e = 16 \<and> idw e = drop_bit k (idw d)"
    using ShiftLeft_idw [OF assms] ShiftRight_idw [OF assms] by simp_all
qed

section \<open>Subtraction\<close>

definition borrow :: "int \<Rightarrow> int" where
  "borrow x = (if x < 0 then 1 else 0)"

lemma sub_word:
  fixes a b c :: int
  assumes "0 \<le> a \<and> a < 2 ^ 32" "0 \<le> b \<and> b < 2 ^ 32" "c = 0 \<or> c = 1"
  shows "(a - b - c) div 2 ^ 32 = - borrow (a - b - c)" "(a - b - c) mod 2 ^ 32 = a - b - c + 2 ^ 32 * borrow (a - b - c)"
proof -
  let ?x = "a - b - c"
  have "?x div 2 ^ 32 = - borrow ?x \<and> ?x mod 2 ^ 32 = ?x + 2 ^ 32 * borrow ?x"
  proof (cases "?x < 0")
    case True
    have "?x = 2 ^ 32 * (- 1) + (?x + 2 ^ 32)" "0 \<le> ?x + 2 ^ 32" "?x + 2 ^ 32 < 2 ^ 32" using True assms by auto
    then have "?x div 2 ^ 32 = - 1" "?x mod 2 ^ 32 = ?x + 2 ^ 32" by (rule int_div_pos_eq, rule int_mod_pos_eq)
    then show ?thesis using True by (simp add: borrow_def)
  next
    case False
    then show ?thesis using assms by (auto simp: borrow_def)
  qed
  then show "?x div 2 ^ 32 = - borrow ?x" "?x mod 2 ^ 32 = ?x + 2 ^ 32 * borrow ?x" by simp_all
qed

lemma borrow_01: "borrow x = 0 \<or> borrow x = 1"
  by (simp add: borrow_def)

text \<open>The words of the difference: each borrow goes to the word below instead of the one above.\<close>

lemma SubtractX_words:
  assumes "length d = 16" and "length v = 16" and "\<not> IsNull v"
  defines "x3 \<equiv> uint (GetDWord d 3) - uint (GetDWord v 3)"
  defines "x2 \<equiv> uint (GetDWord d 2) - uint (GetDWord v 2) - borrow x3"
  defines "x1 \<equiv> uint (GetDWord d 1) - uint (GetDWord v 1) - borrow x2"
  defines "x0 \<equiv> uint (GetDWord d 0) - uint (GetDWord v 0) - borrow x1"
  shows "length (SubtractX d v) = 16"
    and "uint (idw (SubtractX d v)) = (x0 + 2 ^ 32 * borrow x0) + (x1 + 2 ^ 32 * borrow x1) * 2 ^ 32
      + (x2 + 2 ^ 32 * borrow x2) * (2 ^ 32) ^ 2 + (x3 + 2 ^ 32 * borrow x3) * (2 ^ 32) ^ 3"
proof -
  have r: "0 \<le> uint (GetDWord e i) \<and> uint (GetDWord e i) < 2 ^ 32" for e i
    using uint_lt2p [of "GetDWord e i"] by simp
  let ?e3 = "SetDWord d 3 (of_int x3)"
  let ?e2 = "SetDWord ?e3 2 (of_int x2)"
  let ?e1 = "SetDWord ?e2 1 (of_int x1)"
  let ?e0 = "SetDWord ?e1 0 (of_int x0)"
  have l: "length ?e3 = 16" "length ?e2 = 16" "length ?e1 = 16" "length ?e0 = 16"
    using assms(1) by (simp_all add: length_SetDWord)
  have s3: "x3 div 2 ^ 32 = - borrow x3" "x3 mod 2 ^ 32 = x3 + 2 ^ 32 * borrow x3"
    using sub_word [OF r r, of 0 d 3 v 3] unfolding x3_def by simp_all
  have s2: "x2 div 2 ^ 32 = - borrow x2" "x2 mod 2 ^ 32 = x2 + 2 ^ 32 * borrow x2"
    using sub_word [OF r r borrow_01] unfolding x2_def by blast+
  have s1: "x1 div 2 ^ 32 = - borrow x1" "x1 mod 2 ^ 32 = x1 + 2 ^ 32 * borrow x1"
    using sub_word [OF r r borrow_01] unfolding x1_def by blast+
  have s0: "x0 mod 2 ^ 32 = x0 + 2 ^ 32 * borrow x0"
    using sub_word [OF r r borrow_01] unfolding x0_def by blast
  have e3: "sub_step v 3 (0, d) = (- borrow x3, ?e3)"
    unfolding sub_step_def Let_def prod.case add_0 x3_def [symmetric] s3 ..
  have "GetDWord ?e3 2 = GetDWord d 2" using GetDWord_SetDWord [OF assms(1)] by simp
  then have t2: "- borrow x3 + uint (GetDWord ?e3 2) - uint (GetDWord v 2) = x2" unfolding x2_def by simp
  have e2: "sub_step v 2 (- borrow x3, ?e3) = (- borrow x2, ?e2)"
    unfolding sub_step_def Let_def prod.case t2 s2 ..
  have "GetDWord ?e2 1 = GetDWord d 1" using GetDWord_SetDWord [OF assms(1)] GetDWord_SetDWord [OF l(1)] by simp
  then have t1: "- borrow x2 + uint (GetDWord ?e2 1) - uint (GetDWord v 1) = x1" unfolding x1_def by simp
  have e1: "sub_step v 1 (- borrow x2, ?e2) = (- borrow x1, ?e1)"
    unfolding sub_step_def Let_def prod.case t1 s1 ..
  have "GetDWord ?e1 0 = GetDWord d 0"
    using GetDWord_SetDWord [OF assms(1)] GetDWord_SetDWord [OF l(1)] GetDWord_SetDWord [OF l(2)] by simp
  then have t0: "- borrow x1 + uint (GetDWord ?e1 0) - uint (GetDWord v 0) = x0" unfolding x0_def by simp
  have e0: "snd (sub_step v 0 (- borrow x1, ?e1)) = ?e0"
    unfolding sub_step_def Let_def prod.case t0 snd_conv ..
  have u: "rev [0..<4] = [3, 2, 1, 0 :: nat]" by (simp add: upt_rec)
  have c: "GetDWordCount d = 4" using assms(1) by (simp add: GetDWordCount_def)
  have S: "SubtractX d v = ?e0"
    unfolding SubtractX_def c u using assms(3) by (simp only: if_False fold_simps e3 e2 e1 e0)
  show "length (SubtractX d v) = 16" unfolding S by (rule l(4))
  have "GetDWord ?e0 3 = of_int x3" "GetDWord ?e0 2 = of_int x2" "GetDWord ?e0 1 = of_int x1" "GetDWord ?e0 0 = of_int x0"
    using GetDWord_SetDWord [OF assms(1)] GetDWord_SetDWord [OF l(1)] GetDWord_SetDWord [OF l(2)] GetDWord_SetDWord [OF l(3)]
    by simp_all
  then show "uint (idw (SubtractX d v)) = (x0 + 2 ^ 32 * borrow x0) + (x1 + 2 ^ 32 * borrow x1) * 2 ^ 32
      + (x2 + 2 ^ 32 * borrow x2) * (2 ^ 32) ^ 2 + (x3 + 2 ^ 32 * borrow x3) * (2 ^ 32) ^ 3"
    unfolding S idw_value [OF l(4)] by (simp only: uint_of_int32 s3 s2 s1 s0)
qed

lemma borrows_vanish:
  fixes p q r s :: int
  assumes "p = 0 \<or> p = 1" "q = 0 \<or> q = 1" "r = 0 \<or> r = 1" "s = 0 \<or> s = 1"
  shows "(of_int (p * 2 ^ 32 + q * (2 ^ 64 - 1) + r * (2 ^ 96 - 2 ^ 32) + s * (2 ^ 128 - 2 ^ 64)) :: uint128) = 0
     \<longleftrightarrow> p = 0 \<and> q = 0 \<and> r = 0 \<and> s = 0"
  using assms by (elim disjE) simp_all

lemma SubtractX_exact:
  assumes "length d = 16" and "length v = 16"
  shows "idw (SubtractX d v) = idw d - idw v \<longleftrightarrow> (\<forall>i < 4. GetDWord v i \<le> GetDWord d i)"
proof (cases "IsNull v")
  case True
  then have z: "idw v = 0" using IsNull_idw [OF assms(2)] by simp
  then have "GetDWord v i \<le> GetDWord d i" if "i < 4" for i using that by (simp add: GetDWord_idw [OF assms(2)])
  then show ?thesis using True z by (simp add: SubtractX_def)
next
  case False
  define x3 where "x3 = uint (GetDWord d 3) - uint (GetDWord v 3)"
  define x2 where "x2 = uint (GetDWord d 2) - uint (GetDWord v 2) - borrow x3"
  define x1 where "x1 = uint (GetDWord d 1) - uint (GetDWord v 1) - borrow x2"
  define x0 where "x0 = uint (GetDWord d 0) - uint (GetDWord v 0) - borrow x1"
  let ?E = "borrow x0 * 2 ^ 32 + borrow x1 * (2 ^ 64 - 1) + borrow x2 * (2 ^ 96 - 2 ^ 32) + borrow x3 * (2 ^ 128 - 2 ^ 64)"
  note w = SubtractX_words(2) [OF assms False, folded x3_def, folded x2_def, folded x1_def, folded x0_def]
  have "uint (idw (SubtractX d v)) = uint (idw d) - uint (idw v) + ?E"
    unfolding w idw_value [OF assms(1)] idw_value [OF assms(2)] x0_def x1_def x2_def x3_def
    by (simp add: algebra_simps)
  then have "(of_int (uint (idw (SubtractX d v))) :: uint128) = of_int (uint (idw d) - uint (idw v) + ?E)" by (rule arg_cong)
  then have "idw (SubtractX d v) = idw d - idw v + of_int ?E"
    by (simp only: of_int_add of_int_diff word_of_int_uint)
  then have "idw (SubtractX d v) = idw d - idw v \<longleftrightarrow> of_int ?E = (0 :: uint128)" by simp
  also have "\<dots> \<longleftrightarrow> borrow x0 = 0 \<and> borrow x1 = 0 \<and> borrow x2 = 0 \<and> borrow x3 = 0"
    by (rule borrows_vanish [OF borrow_01 borrow_01 borrow_01 borrow_01])
  also have "\<dots> \<longleftrightarrow> GetDWord v 0 \<le> GetDWord d 0 \<and> GetDWord v 1 \<le> GetDWord d 1 \<and> GetDWord v 2 \<le> GetDWord d 2
      \<and> GetDWord v 3 \<le> GetDWord d 3"
    unfolding word_le_def by (auto simp: x0_def x1_def x2_def x3_def borrow_def)
  also have "\<dots> \<longleftrightarrow> (\<forall>i < 4. GetDWord v i \<le> GetDWord d i)" by (auto dest!: less_four)
  finally show ?thesis .
qed

section \<open>Text\<close>

lemma hex_digit_char: "n < 16 \<Longrightarrow> hex_digit (hex_char n) = Some n"
proof -
  assume "n < 16"
  then have "unat n < 16" by (simp add: word_less_nat_alt)
  then have "unat n \<in> {0, 1, 2, 3, 4, 5, 6, 7, 8, 9, 10, 11, 12, 13, 14, 15}" by (simp; presburger)
  then have "n \<in> {0, 1, 2, 3, 4, 5, 6, 7, 8, 9, 10, 11, 12, 13, 14, 15}" by (simp add: word_unat_eq_iff)
  then show ?thesis by (elim insertE emptyE) (simp_all add: hex_char_def hex_digit_def)
qed

lemma nibbles:
  fixes b :: uint8
  shows "drop_bit 4 b AND 0xF < 16" "b AND 0xF < 16" "(drop_bit 4 b AND 0xF) * 16 + (b AND 0xF) = b"
proof -
  have m: "x AND 0xF = take_bit 4 x" for x :: uint8 by (simp add: take_bit_eq_mask mask_eq_exp_minus_1)
  have l: "unat (take_bit 4 x) = unat x mod 16" for x :: uint8
    unfolding unsigned_take_bit_eq by (simp only: take_bit_eq_mod) simp
  have d: "unat (drop_bit 4 b) = unat b div 16" unfolding unat_drop_bit_eq by (simp only: drop_bit_eq_div) simp
  have u: "unat b < 256" using unat_lt2p [of b] by simp
  show "drop_bit 4 b AND 0xF < 16" "b AND 0xF < 16" by (simp_all add: m l word_less_nat_alt)
  have "unat b div 16 mod 16 = unat b div 16" using u by (simp add: div_less_iff_less_mult)
  moreover have "(take_bit 4 (drop_bit 4 b)) * 16 + take_bit 4 b = of_nat (unat b div 16 mod 16 * 16 + unat b mod 16)"
    by (simp flip: l d)
  ultimately show "(drop_bit 4 b AND 0xF) * 16 + (b AND 0xF) = b"
    unfolding m by (simp only: div_mult_mod_eq) simp
qed

lemma nth_concat_pairs:
  "k < length xs \<Longrightarrow> concat (map (\<lambda>i. [f i, g i]) xs) ! (k * 2) = f (xs ! k) \<and>
     concat (map (\<lambda>i. [f i, g i]) xs) ! (k * 2 + 1) = g (xs ! k)"
  by (induction xs arbitrary: k) (auto simp: nth_Cons' less_Suc_eq_0_disj)

lemma length_ToHex: "length (ToHex d) = length d * 2"
  by (simp add: ToHex_def length_concat comp_def sum_list_triv)

lemma ToHex_nth:
  assumes "i < length d"
  shows "ToHex d ! (i * 2) = hex_char (drop_bit 4 (d ! (length d - 1 - i)) AND 0xF)"
    and "ToHex d ! (i * 2 + 1) = hex_char (d ! (length d - 1 - i) AND 0xF)"
  using nth_concat_pairs [of i "rev [0..<length d]" "\<lambda>i. hex_char (drop_bit 4 (d ! i) AND 0xF)" "\<lambda>i. hex_char (d ! i AND 0xF)"]
    assms by (simp_all add: ToHex_def rev_nth)

lemma from_hex_ToHex:
  assumes "k \<le> length d" and "length e = length d" and "take (length d - k) e = take (length d - k) d"
  shows "from_hex (ToHex d) (rev [0..<k]) (length d - k) e = (True, d)"
  using assms
proof (induction k arbitrary: e)
  case 0
  then show ?case by simp
next
  case (Suc k)
  let ?j = "length d - Suc k"
  have k: "k < length d" and j: "length d - 1 - k = ?j" "?j + 1 = length d - k" "?j < length e" using Suc.prems by simp_all
  let ?e = "e[?j := d ! ?j]"
  have "take (Suc ?j) ?e = take ?j ?e @ [?e ! ?j]" by (rule take_Suc_conv_app_nth) (use j in simp)
  also have "\<dots> = take ?j d @ [d ! ?j]" using Suc.prems j by simp
  also have "\<dots> = take (Suc ?j) d" by (rule take_Suc_conv_app_nth [symmetric]) (use j Suc.prems in simp)
  finally have "take (Suc ?j) ?e = take (Suc ?j) d" .
  then have IH: "from_hex (ToHex d) (rev [0..<k]) (?j + 1) ?e = (True, d)"
    using Suc.IH [of ?e] Suc.prems j by simp
  have "from_hex (ToHex d) (rev [0..<Suc k]) ?j e = from_hex (ToHex d) (k # rev [0..<k]) ?j e" by simp
  also have "\<dots> = from_hex (ToHex d) (rev [0..<k]) (?j + 1) ?e"
    unfolding from_hex.simps ToHex_nth [OF k] j(1) hex_digit_char [OF nibbles(1)] hex_digit_char [OF nibbles(2)]
      option.case nibbles(3) ..
  finally show ?case using IH by simp
qed

lemma hex_roundtrip: "length e = length d \<Longrightarrow> FromHex e (ToHex d) = (True, d)"
  using from_hex_ToHex [of "length d" d e] by (simp add: FromHex_def length_ToHex)

section \<open>Properties\<close>

text \<open>
  C21. The operations of \<open>CUInt128\<close> are those of 128 bit words: the bitwise operators, the sum, the test for
  zero, the comparison, the access to a bit (which counts from the most significant one), and the shifts
  by less than 128 bits, which are found here to stay inside of the array.
\<close>

theorem word_refinement:
  "length d = 16 \<Longrightarrow> length v = 16 \<Longrightarrow> u < 128 \<Longrightarrow>
     idw (AndX d v) = idw d AND idw v \<and> idw (OrX d v) = idw d OR idw v \<and> idw (XorX d v) = idw d XOR idw v
     \<and> idw (Invert d) = NOT (idw d) \<and> idw (AddX d v) = idw d + idw v \<and> IsNull d = (idw d = 0)
     \<and> CompareTo d v = (if idw d < idw v then - 1 else if idw v < idw d then 1 else 0)
     \<and> GetBit d u True = bit (idw d) (127 - u)
     \<and> idw (SetBit d u b True) = (if b then set_bit else unset_bit) (127 - u) (idw d)
     \<and> map_option idw (ShiftLeft d u) = Some (push_bit u (idw d))
     \<and> map_option idw (ShiftRight d u) = Some (drop_bit u (idw d))"
  using bitwise_idw [of d v] AddX_idw [of d v] IsNull_idw [of d] CompareTo_idw [of d v] GetBit_idw [of d u True]
    SetBit_idw [of d u b True] ShiftLeft_idw [of d u] ShiftRight_idw [of d u] by auto

lemma word_refinement_witness:
  "idw (AddX (255 # replicate 15 0) (2 # replicate 15 0)) = idw (255 # replicate 15 0) + idw (2 # replicate 15 0)
   \<and> map_option idw (ShiftLeft (255 # replicate 15 0) 12) = Some (push_bit 12 (idw (255 # replicate 15 0)))"
  using word_refinement [of "255 # replicate 15 0" "2 # replicate 15 0" 12] by simp

text \<open>
  \<open>Subtract\<close> goes through the words from the most significant one, so a borrow is taken from the word
  below: its result is the difference only when no word of the subtrahend exceeds the word it is taken from.
\<close>

theorem Subtract_wrong_borrow:
  "length d = 16 \<Longrightarrow> length v = 16 \<Longrightarrow>
     idw (SubtractX d v) = idw d - idw v \<longleftrightarrow> (\<forall>i < 4. GetDWord v i \<le> GetDWord d i)"
  by (rule SubtractX_exact)

lemma Subtract_wrong_borrow_witness:
  "idw (SubtractX ([0, 0, 0, 0, 1] @ replicate 11 0) (1 # replicate 15 0))
     \<noteq> idw ([0, 0, 0, 0, 1] @ replicate 11 0) - idw (1 # replicate 15 0)"
proof -
  have "\<not> GetDWord (1 # replicate 15 0) 0 \<le> GetDWord ([0, 0, 0, 0, 1] @ replicate 11 0) 0"
    by (simp add: GetDWord_def numeral_eq_Suc)
  then show ?thesis
    using Subtract_wrong_borrow [of "[0, 0, 0, 0, 1] @ replicate 11 0" "1 # replicate 15 0"] by fastforce
qed

text \<open>\<open>FromHex\<close> reads back every value \<open>ToHex\<close> has written, whatever the value it is called on held.\<close>

theorem FromHex_ToHex:
  "length e = length d \<Longrightarrow> FromHex e (ToHex d) = (True, d)"
  by (rule hex_roundtrip)

lemma FromHex_ToHex_witness: "FromHex (replicate 4 0) (ToHex [0xEF, 0xBE, 0xAD, 0xDE]) = (True, [0xEF, 0xBE, 0xAD, 0xDE])"
  using FromHex_ToHex [of "replicate 4 0" "[0xEF, 0xBE, 0xAD, 0xDE]"] by simp

end
