(* ===== verification/Address.thy ===== *)
theory Address
  imports Prelude
begin

text \<open>
  Network addresses, \<open>CAddress\<close> (Framework/Address.cpp, Address.h), with the text forms the file has
  of its own (\<open>_inet_ntop\<close>, \<open>_inet_pton\<close>, \<open>_inet_aton\<close>). A C string is the list of its characters; a pointer
  into it is the suffix it points to, and the terminator is read at the end of the list. The array \<open>m_IP\<close> is
  a list of 16 bytes, its four or sixteen first bytes are in network order.
\<close>

section \<open>The standard library: numbers as text\<close>

definition NUL :: char where
  "NUL = CHR 0x00"

definition peek :: "string \<Rightarrow> char" where
  "peek s = (case s of [] \<Rightarrow> NUL | c # _ \<Rightarrow> c)"

definition isspace :: "char \<Rightarrow> bool" where
  "isspace c = (c \<in> {CHR '' '', CHR 0x09, CHR 0x0A, CHR 0x0B, CHR 0x0C, CHR 0x0D})"

text \<open>The value of a digit of a base up to 36, and the digit of a value.\<close>

definition digit_val :: "char \<Rightarrow> nat option" where
  "digit_val c =
     (let n = (of_char c :: nat)
      in if 48 \<le> n \<and> n \<le> 57 then Some (n - 48)
         else if 65 \<le> n \<and> n \<le> 90 then Some (n - 55)
         else if 97 \<le> n \<and> n \<le> 122 then Some (n - 87)
         else None)"

definition is_digit :: "nat \<Rightarrow> char \<Rightarrow> bool" where
  "is_digit base c = (case digit_val c of None \<Rightarrow> False | Some d \<Rightarrow> d < base)"

definition digit_char :: "nat \<Rightarrow> char" where
  "digit_char d = char_of (if d < 10 then d + 48 else d + 87)"

fun read_digits :: "nat \<Rightarrow> nat \<Rightarrow> string \<Rightarrow> nat \<times> string" where
  "read_digits base v [] = (v, [])"
| "read_digits base v (c # s) =
     (case digit_val c of
        None \<Rightarrow> (v, c # s)
      | Some d \<Rightarrow> if d < base then read_digits base (v * base + d) s else (v, c # s))"

definition ulong_max :: nat where
  "ulong_max = 2 ^ 64 - 1"

text \<open>\<open>strtoul\<close>: the number and the rest; the rest is the whole string when there is no number.\<close>

definition strtoul :: "string \<Rightarrow> nat \<Rightarrow> nat \<times> string" where
  "strtoul s base =
     (let t = dropWhile isspace s;
          neg = (peek t = CHR ''-'');
          t = (if peek t = CHR ''-'' \<or> peek t = CHR ''+'' then drop 1 t else t);
          hexed = ((base = 0 \<or> base = 16) \<and> peek t = CHR ''0'' \<and> (peek (drop 1 t) = CHR ''x'' \<or> peek (drop 1 t) = CHR ''X'')
            \<and> is_digit 16 (peek (drop 2 t)));
          b = (if hexed then 16 else if base = 0 then (if peek t = CHR ''0'' then 8 else 10) else base);
          t = (if hexed then drop 2 t else t)
      in if \<not> is_digit b (peek t) then (0, s)
         else case read_digits b 0 t of
                (v, r) \<Rightarrow> (if v > ulong_max then ulong_max else if neg then (2 ^ 64 - v) mod 2 ^ 64 else v, r))"

text \<open>\<open>sprintf\<close> with \<open>%d\<close> or \<open>%x\<close>.\<close>

function print_nat :: "nat \<Rightarrow> nat \<Rightarrow> string" where
  "print_nat base n =
     (if base < 2 \<or> n < base then [digit_char n] else print_nat base (n div base) @ [digit_char (n mod base)])"
  by pat_completeness auto
termination
  by (relation "measure snd") auto

declare print_nat.simps [simp del]

section \<open>Addresses\<close>

datatype EAF = AF_None | IPv4 | IPv6

record address =
  m_IP :: bytes
  m_eAF :: EAF

definition new_address :: "EAF \<Rightarrow> address" where
  "new_address eAF = \<lparr>m_IP = replicate 16 0, m_eAF = eAF\<rparr>"

definition Len :: "EAF \<Rightarrow> nat" where
  "Len eAF = (if eAF = IPv6 then 16 else 4)"

definition AF :: "EAF \<Rightarrow> EAF" where
  "AF eAF = (if eAF = IPv6 then IPv6 else IPv4)"

definition Size :: "EAF \<Rightarrow> nat" where
  "Size eAF = (case eAF of IPv4 \<Rightarrow> 4 | IPv6 \<Rightarrow> 16 | AF_None \<Rightarrow> 0)"

text \<open>The bytes of an integer in memory, on a little endian machine, and back.\<close>

definition mem32 :: "uint32 \<Rightarrow> bytes" where
  "mem32 w = [ucast w, ucast (drop_bit 8 w), ucast (drop_bit 16 w), ucast (drop_bit 24 w)]"

definition of_mem32 :: "bytes \<Rightarrow> uint32" where
  "of_mem32 b = ucast (b ! 0) OR push_bit 8 (ucast (b ! 1)) OR push_bit 16 (ucast (b ! 2)) OR push_bit 24 (ucast (b ! 3))"

definition mem16 :: "uint16 \<Rightarrow> bytes" where
  "mem16 w = [ucast w, ucast (drop_bit 8 w)]"

definition of_mem16 :: "bytes \<Rightarrow> uint16" where
  "of_mem16 b = ucast (b ! 0) OR push_bit 8 (ucast (b ! 1))"

definition ntohl :: "uint32 \<Rightarrow> uint32" where
  "ntohl IP = (let b = mem32 IP in of_mem32 [b ! 3, b ! 2, b ! 1, b ! 0])"

definition ntohs :: "uint16 \<Rightarrow> uint16" where
  "ntohs PT = (let b = mem16 PT in of_mem16 [b ! 1, b ! 0])"

definition overwrite :: "bytes \<Rightarrow> bytes \<Rightarrow> bytes" where
  "overwrite ip b = b @ drop (length b) ip"

text \<open>\<open>rest\<close> are the bytes the constructor leaves uninitialised.\<close>

definition address_v4 :: "uint32 \<Rightarrow> bytes \<Rightarrow> address" where
  "address_v4 IP rest = \<lparr>m_IP = mem32 (ntohl IP) @ rest, m_eAF = IPv4\<rparr>"

definition address_v6 :: "bytes \<Rightarrow> address" where
  "address_v6 IP = \<lparr>m_IP = take 16 IP, m_eAF = IPv6\<rparr>"

definition ToIPv4 :: "'a address_scheme \<Rightarrow> uint32" where
  "ToIPv4 a = ntohl (if m_eAF a = IPv4 then of_mem32 (m_IP a) else 0)"

definition less_address :: "'a address_scheme \<Rightarrow> 'b address_scheme \<Rightarrow> bool" where
  "less_address a b =
     (if m_eAF a \<noteq> m_eAF b then
        (case m_eAF a of AF_None \<Rightarrow> True | IPv4 \<Rightarrow> m_eAF b = IPv6 | IPv6 \<Rightarrow> False)
      else lexordp (<) (take (Len (m_eAF a)) (m_IP a)) (take (Len (m_eAF a)) (m_IP b)))"

definition equal_address :: "'a address_scheme \<Rightarrow> 'b address_scheme \<Rightarrow> bool" where
  "equal_address a b = (m_eAF a = m_eAF b \<and> take (Len (m_eAF a)) (m_IP a) = take (Len (m_eAF a)) (m_IP b))"

definition IsNull_address :: "'a address_scheme \<Rightarrow> bool" where
  "IsNull_address a =
     (case m_eAF a of
        AF_None \<Rightarrow> True
      | IPv4 \<Rightarrow> list_all (\<lambda>b. b = 0) (take 4 (m_IP a))
      | IPv6 \<Rightarrow> list_all (\<lambda>b. b = 0) (take 16 (m_IP a)))"

definition IsMappedIPv4 :: "'a address_scheme \<Rightarrow> bool" where
  "IsMappedIPv4 a = (m_eAF a = IPv6 \<and> m_IP a ! 10 = 0xFF \<and> m_IP a ! 11 = 0xFF \<and> list_all (\<lambda>i. m_IP a ! i = 0) [0..<10])"

definition Convert :: "EAF \<Rightarrow> 'a address_scheme \<Rightarrow> bool \<times> 'a address_scheme" where
  "Convert eAF a =
     (if eAF = m_eAF a then (True, a)
      else case eAF of
        IPv6 \<Rightarrow>
          (if m_eAF a \<noteq> IPv4 then (False, a)
           else
             let ip = m_IP a;
                 ip = ip[12 := ip ! 0]; ip = ip[13 := ip ! 1]; ip = ip[14 := ip ! 2]; ip = ip[15 := ip ! 3];
                 ip = ip[10 := 0xFF, 11 := 0xFF];
                 ip = ip[0 := 0, 1 := 0, 2 := 0, 3 := 0, 4 := 0, 5 := 0, 6 := 0, 7 := 0, 8 := 0, 9 := 0]
             in (True, a\<lparr>m_IP := ip, m_eAF := IPv6\<rparr>))
      | IPv4 \<Rightarrow>
          (if \<not> IsMappedIPv4 a then (False, a)
           else
             let ip = m_IP a;
                 ip = ip[0 := ip ! 12]; ip = ip[1 := ip ! 13]; ip = ip[2 := ip ! 14]; ip = ip[3 := ip ! 15];
                 ip = ip[4 := 0, 5 := 0, 6 := 0, 7 := 0, 8 := 0, 9 := 0, 10 := 0, 11 := 0, 12 := 0, 13 := 0, 14 := 0, 14 := 0]
             in (True, a\<lparr>m_IP := ip, m_eAF := IPv4\<rparr>))
      | AF_None \<Rightarrow> (False, a))"

definition IsLanIPv4 :: "uint32 \<Rightarrow> bool" where
  "IsLanIPv4 ip =
     (let uIP = mem32 ip
      in if uIP ! 3 = 192 \<and> uIP ! 2 = 168 then True
         else if uIP ! 3 = 172 \<and> uIP ! 2 \<ge> 16 \<and> uIP ! 2 \<le> 31 then True
         else if uIP ! 3 = 0 \<or> uIP ! 3 = 10 then True
         else False)"

text \<open>Socket addresses of the operating system: the family, the bytes of the address, the port in network order.\<close>

datatype sockaddr = Sockaddr_in (sin_addr: bytes) (sin_port: uint16) | Sockaddr_in6 (sin6_addr: bytes) (sin6_port: uint16) | Sockaddr_other

definition FromSA :: "sockaddr \<Rightarrow> 'a address_scheme \<times> uint16 \<Rightarrow> 'a address_scheme \<times> uint16" where
  "FromSA sa = (\<lambda>(a, port).
     case sa of
       Sockaddr_in ip p \<Rightarrow> (a\<lparr>m_eAF := IPv4, m_IP := overwrite (m_IP a) ip\<rparr>, ntohs p)
     | Sockaddr_in6 ip p \<Rightarrow> (a\<lparr>m_eAF := IPv6, m_IP := overwrite (m_IP a) ip\<rparr>, ntohs p)
     | Sockaddr_other \<Rightarrow> (a\<lparr>m_eAF := AF_None\<rparr>, port))"

text \<open>\<open>None\<close>: the buffer of the caller is left as it was.\<close>

definition ToSA :: "'a address_scheme \<Rightarrow> uint16 \<Rightarrow> sockaddr option" where
  "ToSA a uPort =
     (case m_eAF a of
        IPv4 \<Rightarrow> Some (Sockaddr_in (take 4 (m_IP a)) (ntohs uPort))
      | IPv6 \<Rightarrow> Some (Sockaddr_in6 (take 16 (m_IP a)) (ntohs uPort))
      | AF_None \<Rightarrow> None)"

section \<open>Text\<close>

definition inet_ntop4 :: "bytes \<Rightarrow> string" where
  "inet_ntop4 p = print_nat 10 (unat (p ! 0)) @ ''.'' @ print_nat 10 (unat (p ! 1)) @ ''.'' @ print_nat 10 (unat (p ! 2))
     @ ''.'' @ print_nat 10 (unat (p ! 3))"

fun ntop6_loop :: "bytes \<Rightarrow> nat list \<Rightarrow> string" where
  "ntop6_loop p [] = []"
| "ntop6_loop p (i # is) =
     (if i > 0 then '':'' else []) @ print_nat 16 (unat (p ! i) * 256 + unat (p ! (i + 1))) @ ntop6_loop p is"

definition inet_ntop :: "EAF \<Rightarrow> bytes \<Rightarrow> string" where
  "inet_ntop af p = (if af = IPv4 then inet_ntop4 p else ntop6_loop p [0, 2, 4, 6, 8, 10, 12, 14])"

definition ToString_address :: "'a address_scheme \<Rightarrow> string" where
  "ToString_address a = (if m_eAF a \<noteq> AF_None then inet_ntop (AF (m_eAF a)) (m_IP a) else [])"

text \<open>The loop of \<open>_inet_aton\<close>: whether it went on to its end, \<open>i\<close>, and the bytes written.\<close>

function aton_loop :: "nat \<Rightarrow> string \<Rightarrow> bytes \<Rightarrow> bool \<times> nat \<times> bytes" where
  "aton_loop i from to =
     (if i < 4 \<and> peek from \<noteq> NUL then
        case strtoul from 0 of
          (x, p) \<Rightarrow>
            if x > 255 \<or> p = from then (False, i, to)
            else
              let to = to[i := of_nat x]
              in if peek p = CHR ''.'' then aton_loop (i + 1) (drop 1 p) to
                 else if peek p \<noteq> NUL then (False, i, to)
                 else aton_loop (i + 1) p to
      else (True, i, to))"
  by pat_completeness auto
termination
  by (relation "measure (\<lambda>(i, _, _). 4 - i)") auto

declare aton_loop.simps [simp del]

definition inet_aton :: "string \<Rightarrow> bytes \<Rightarrow> bool \<times> bytes" where
  "inet_aton from to =
     (let to = overwrite to [0, 0, 0, 0]
      in if peek from = NUL then (False, to)
         else case aton_loop 0 from to of
                (False, i, to) \<Rightarrow> (False, to)
              | (True, i, to) \<Rightarrow>
                  let cls = drop_bit 6 (to ! 0)
                  in if cls = 0 \<or> cls = 1 then
                       (if i = 3 then
                          let to = to[3 := to ! 2]; to = to[2 := to ! 1] in (True, to[1 := 0])
                        else if i = 2 then
                          let to = to[3 := to ! 1] in (True, to[1 := 0])
                        else (True, to))
                     else if cls = 2 then
                       (if i = 3 then
                          let to = to[3 := to ! 2] in (True, to[2 := 0])
                        else (True, to))
                     else (True, to))"

definition ipcharok :: "char \<Rightarrow> bool" where
  "ipcharok c = (c = CHR '':'' \<or> is_digit 16 c)"

definition delimchar :: "char \<Rightarrow> bool" where
  "delimchar c = (if c = NUL then True else if c = CHR '':'' \<or> is_digit 36 c then False else True)"

text \<open>The loop of \<open>_inet_pton\<close>: whether there was no error in it, the rest, \<open>i\<close>, \<open>elipsis\<close> and the bytes.\<close>

function pton_loop :: "nat \<Rightarrow> string \<Rightarrow> nat \<Rightarrow> bytes \<Rightarrow> bool \<times> string \<times> nat \<times> nat \<times> bytes" where
  "pton_loop i p elipsis to =
     (if i < 16 \<and> ipcharok (peek p) then
        let op = p
        in case strtoul p 16 of
          (x, p) \<Rightarrow>
            if x > 65535 \<or> peek p \<noteq> CHR '':'' \<and> \<not> delimchar (peek p) then (False, p, i, elipsis, to)
            else
              let to = to[i := of_nat (x div 256), i + 1 := of_nat x]
              in if peek p = CHR '':'' then
                   let p = drop 1 p
                   in if peek p = CHR '':'' then
                        (if elipsis \<noteq> 0 then (False, p, i, elipsis, to)
                         else pton_loop (i + 2) (drop 1 p) (i + 2) to)
                      else pton_loop (i + 2) p elipsis to
                 else if p = op then (True, p, i, elipsis, to)
                 else pton_loop (i + 2) p elipsis to
      else (True, p, i, elipsis, to))"
  by pat_completeness auto
termination
  by (relation "measure (\<lambda>(i, _, _). 16 - i)") auto

declare pton_loop.simps [simp del]

text \<open>\<open>memmove\<close> and \<open>memset\<close> within the 16 bytes; \<open>None\<close> is an access outside of them.\<close>

definition move_bytes :: "bytes \<Rightarrow> nat \<Rightarrow> nat \<Rightarrow> nat \<Rightarrow> bytes option" where
  "move_bytes b d s n =
     (if d + n \<le> length b \<and> s + n \<le> length b then Some (take d b @ take n (drop s b) @ drop (d + n) b) else None)"

definition mem_set0 :: "bytes \<Rightarrow> nat \<Rightarrow> nat \<Rightarrow> bytes option" where
  "mem_set0 b d n = (if d + n \<le> length b then Some (take d b @ replicate n 0 @ drop (d + n) b) else None)"

definition inet_pton6 :: "string \<Rightarrow> (bool \<times> bytes) option" where
  "inet_pton6 src =
     (case pton_loop 0 src 0 (replicate 16 0) of
        (ok, p, i, elipsis, to) \<Rightarrow>
          if \<not> ok then Some (False, to)
          else if p = src \<or> \<not> delimchar (peek p) then Some (False, to)
          else if i < 16 then
            (if i < elipsis then None
             else case move_bytes to (elipsis + 16 - i) elipsis (i - elipsis) of
               None \<Rightarrow> None
             | Some to \<Rightarrow> map_option (Pair True) (mem_set0 to elipsis (16 - i)))
          else Some (True, to))"

definition inet_pton :: "EAF \<Rightarrow> string \<Rightarrow> bytes \<Rightarrow> (bool \<times> bytes) option" where
  "inet_pton af src dst = (if af = IPv4 then Some (inet_aton src dst) else inet_pton6 src)"

text \<open>\<open>c_str\<close> ends at the first terminator of the string.\<close>

definition c_str :: "string \<Rightarrow> string" where
  "c_str s = takeWhile (\<lambda>c. c \<noteq> NUL) s"

definition FromString_address :: "string \<Rightarrow> 'a address_scheme \<Rightarrow> (bool \<times> 'a address_scheme) option" where
  "FromString_address s a =
     (if CHR ''.'' \<in> set s then
        map_option (\<lambda>(ok, ip). (ok, a\<lparr>m_eAF := IPv4, m_IP := ip\<rparr>)) (inet_pton IPv4 (c_str s) (m_IP a))
      else if CHR '':'' \<in> set s then
        map_option (\<lambda>(ok, ip). (ok, a\<lparr>m_eAF := IPv6, m_IP := ip\<rparr>)) (inet_pton IPv6 (c_str s) (m_IP a))
      else Some (False, a))"

section \<open>Printed numbers are read back\<close>

lemma of_char_char_of: "n < 256 \<Longrightarrow> of_char (char_of n) = (n :: nat)"
  by simp

lemma digit_val_char: "d < 36 \<Longrightarrow> digit_val (digit_char d) = Some d"
  by (auto simp: digit_val_def digit_char_def Let_def of_char_char_of)

lemma is_digit_char: "d < base \<Longrightarrow> base \<le> 36 \<Longrightarrow> is_digit base (digit_char d)"
  by (simp add: is_digit_def digit_val_char)

lemma is_digit_mono: "is_digit b c \<Longrightarrow> b \<le> b' \<Longrightarrow> is_digit b' c"
  by (auto simp: is_digit_def split: option.splits)

lemma not_is_digit_NUL [simp]: "\<not> is_digit b NUL"
  by (simp add: is_digit_def digit_val_def NUL_def Let_def)

lemma is_digit_not:
  "is_digit b c \<Longrightarrow> \<not> isspace c \<and> c \<noteq> CHR ''-'' \<and> c \<noteq> CHR ''+'' \<and> c \<noteq> CHR '':'' \<and> c \<noteq> CHR ''.'' \<and> c \<noteq> NUL"
  by (auto simp: is_digit_def digit_val_def isspace_def NUL_def Let_def split: if_splits)

lemma peek_simps [simp]: "peek (c # s) = c" "peek [] = NUL"
  by (simp_all add: peek_def)

lemma NUL_neq [simp]: "CHR ''.'' \<noteq> NUL" "CHR '':'' \<noteq> NUL" "NUL \<noteq> CHR ''.''" "NUL \<noteq> CHR '':''"
  by (simp_all add: NUL_def)

lemma digit_val_0 [simp]: "digit_val (CHR ''0'') = Some 0"
  by (simp add: digit_val_def)

lemma is_digit_0 [simp]: "is_digit b (CHR ''0'') = (0 < b)"
  by (simp add: is_digit_def)

lemma digit_char_0 [simp]: "digit_char 0 = CHR ''0''"
  by (simp add: digit_char_def char_of_eq_iff)

lemma print_nat_nonempty [simp]: "print_nat base n \<noteq> []" "[] \<noteq> print_nat base n"
  by (subst print_nat.simps, simp)+

lemma print_nat_first:
  "2 \<le> base \<Longrightarrow> \<exists>d ds. print_nat base n = digit_char d # ds \<and> d < base \<and> (d = 0 \<longrightarrow> n = 0 \<and> ds = [])"
proof (induction base n rule: print_nat.induct)
  case (1 base n)
  show ?case
  proof (cases "n < base")
    case True
    then show ?thesis by (subst print_nat.simps) (intro exI [of _ n] exI [of _ "[]"], simp)
  next
    case False
    with 1 obtain d ds where "print_nat base (n div base) = digit_char d # ds" "d < base" "d = 0 \<longrightarrow> n div base = 0" by auto
    moreover have "n div base \<noteq> 0" using False 1 by (simp add: div_eq_0_iff)
    ultimately show ?thesis using False 1 by (subst print_nat.simps) auto
  qed
qed

lemma peek_print_nat: "2 \<le> base \<Longrightarrow> base \<le> 36 \<Longrightarrow> is_digit base (peek (print_nat base n @ r))"
  using print_nat_first [of base n] is_digit_char by force

lemma read_digits_print_nat:
  "2 \<le> base \<Longrightarrow> base \<le> 36 \<Longrightarrow>
     read_digits base v (print_nat base n @ r) = read_digits base (v * base ^ length (print_nat base n) + n) r"
proof (induction base n arbitrary: v r rule: print_nat.induct)
  case (1 base n)
  show ?case
  proof (cases "n < base")
    case True
    then show ?thesis using 1 by (subst (1 2) print_nat.simps) (simp add: digit_val_char)
  next
    case False
    have p: "print_nat base n = print_nat base (n div base) @ [digit_char (n mod base)]"
      using False 1 by (subst print_nat.simps) simp
    have "n mod base < base" using 1 by simp
    then have m: "n mod base < base" "n mod base < 36" using 1 by linarith+
    let ?l = "length (print_nat base (n div base))"
    have "read_digits base v (print_nat base n @ r) = read_digits base (v * base ^ ?l + n div base) (digit_char (n mod base) # r)"
      using 1 False unfolding p by simp
    also have "\<dots> = read_digits base ((v * base ^ ?l + n div base) * base + n mod base) r"
      using m by (simp add: digit_val_char)
    also have "(v * base ^ ?l + n div base) * base + n mod base = v * base ^ length (print_nat base n) + n"
      unfolding p by (simp add: algebra_simps div_mult_mod_eq)
    finally show ?thesis .
  qed
qed

lemma read_digits_stop: "\<not> is_digit base (peek r) \<Longrightarrow> read_digits base v r = (v, r)"
  by (cases r) (auto simp: is_digit_def split: option.splits)

lemma strtoul_prefix:
  assumes "is_digit 16 (peek s)"
  shows "dropWhile isspace s = s" "peek s \<noteq> CHR ''-''" "peek s \<noteq> CHR ''+''"
  using assms is_digit_not [OF assms] by (cases s; simp)+

lemma strtoul_plain:
  assumes "n \<le> ulong_max"
    and "\<not> (peek s = CHR ''0'' \<and> (peek (drop 1 s) = CHR ''x'' \<or> peek (drop 1 s) = CHR ''X''))"
    and "read_digits base 0 s = (n, r)" and "dropWhile isspace s = s" "peek s \<noteq> CHR ''-''" "peek s \<noteq> CHR ''+''"
    and "is_digit base (peek s)" and "base = 16"
  shows "strtoul s base = (n, r)"
  using assms by (auto simp: strtoul_def Let_def)

lemma strtoul16:
  assumes "n \<le> ulong_max" and "\<not> is_digit 36 (peek r)"
  shows "strtoul (print_nat 16 n @ r) 16 = (n, r)"
proof -
  let ?s = "print_nat 16 n @ r"
  have d: "is_digit 16 (peek ?s)" by (rule peek_print_nat) simp_all
  have r: "\<not> is_digit 16 (peek r)" "peek r \<noteq> CHR ''x''" "peek r \<noteq> CHR ''X''"
    using assms(2) by (auto simp: is_digit_def digit_val_def Let_def dest: is_digit_mono split: option.splits if_splits)
  obtain a as where a: "print_nat 16 n = digit_char a # as" "a < 16" "a = 0 \<longrightarrow> as = []"
    using print_nat_first [of 16 n] by auto
  have "\<not> (peek ?s = CHR ''0'' \<and> (peek (drop 1 ?s) = CHR ''x'' \<or> peek (drop 1 ?s) = CHR ''X''))"
  proof (cases "a = 0")
    case True
    then show ?thesis using a r by simp
  next
    case False
    have "digit_val (digit_char a) = Some a" using a by (simp add: digit_val_char)
    then have "digit_char a \<noteq> CHR ''0''" using False by auto
    then show ?thesis using a by simp
  qed
  moreover have "read_digits 16 0 ?s = (n, r)"
    using read_digits_print_nat [of 16 0 n r] read_digits_stop [OF r(1)] by simp
  moreover note strtoul_prefix [OF d] d
  ultimately show ?thesis
    using assms(1) by (intro strtoul_plain) simp_all
qed

lemma strtoul10:
  assumes "n \<le> ulong_max" and "\<not> is_digit 36 (peek r)"
  shows "strtoul (print_nat 10 n @ r) 0 = (n, r)"
proof -
  let ?s = "print_nat 10 n @ r"
  have d10: "is_digit 10 (peek ?s)" by (rule peek_print_nat) simp_all
  then have d: "is_digit 16 (peek ?s)" by (rule is_digit_mono) simp
  have r: "\<not> is_digit 10 (peek r)" "\<not> is_digit 8 (peek r)" "peek r \<noteq> CHR ''x''" "peek r \<noteq> CHR ''X''"
    using assms(2) by (auto simp: is_digit_def digit_val_def Let_def dest: is_digit_mono split: option.splits if_splits)
  obtain a as where a: "print_nat 10 n = digit_char a # as" "a < 10" "a = 0 \<longrightarrow> n = 0 \<and> as = []"
    using print_nat_first [of 10 n] by auto
  have v: "digit_val (digit_char a) = Some a" using a by (simp add: digit_val_char)
  show ?thesis
  proof (cases "a = 0")
    case True
    then have s: "print_nat 10 n = ''0''" "n = 0" using a by simp_all
    show ?thesis
      using r read_digits_stop [OF r(2)] strtoul_prefix [OF d] unfolding s(1)
      by (simp add: strtoul_def Let_def s(2))
  next
    case False
    then have "peek ?s \<noteq> CHR ''0''" using a v by auto
    then show ?thesis
      using assms(1) strtoul_prefix [OF d] d10 read_digits_print_nat [of 10 0 n r] read_digits_stop [OF r(1)]
      by (simp add: strtoul_def Let_def)
  qed
qed

section \<open>IPv4\<close>

lemma aton_step:
  assumes "i < 4" and "x < 256"
  shows "aton_loop i (print_nat 10 x @ ''.'' @ s) to = aton_loop (i + 1) s (to[i := of_nat x])"
    and "aton_loop i (print_nat 10 x) to = aton_loop (i + 1) [] (to[i := of_nat x])"
proof -
  have p: "peek (print_nat 10 x @ r) \<noteq> NUL" for r using is_digit_not [OF peek_print_nat [of 10 x r]] by simp
  have u: "x \<le> ulong_max" using assms by (simp add: ulong_max_def)
  have d: "\<not> is_digit 36 (CHR ''.'')" by (simp add: is_digit_def digit_val_def)
  show "aton_loop i (print_nat 10 x @ ''.'' @ s) to = aton_loop (i + 1) s (to[i := of_nat x])"
    using assms p [of "''.'' @ s"] strtoul10 [OF u, of "''.'' @ s"] d
    by (subst aton_loop.simps) (auto simp: Let_def dest: arg_cong [of _ _ length])
  show "aton_loop i (print_nat 10 x) to = aton_loop (i + 1) [] (to[i := of_nat x])"
    using assms p [of "[]"] strtoul10 [OF u, of "[]"]
    by (subst aton_loop.simps) (auto simp: Let_def)
qed

lemma list4: "length p = 4 \<Longrightarrow> p = [p ! 0, p ! 1, p ! 2, p ! 3]"
  by (rule nth_equalityI) (auto simp: less_Suc_eq numeral_eq_Suc)

lemma inet_aton_ntop:
  assumes "length p = 4" and "length to = 16"
  shows "inet_aton (inet_ntop4 p) to = (True, overwrite to p)"
proof -
  have u: "unat (w :: uint8) < 256" for w using unat_lt2p [of w] by simp
  let ?t = "overwrite to [0, 0, 0, 0]"
  have l: "length ?t = 16" using assms(2) by (simp add: overwrite_def)
  have "aton_loop 0 (inet_ntop4 p) ?t = (True, 4, ?t[0 := p ! 0, 1 := p ! 1, 2 := p ! 2, 3 := p ! 3])"
    unfolding inet_ntop4_def
    by (subst aton_step(1) [OF _ u], simp, subst aton_step(1) [OF _ u], simp, subst aton_step(1) [OF _ u], simp,
        subst aton_step(2) [OF _ u], simp, subst aton_loop.simps) (simp add: numeral_2_eq_2 numeral_3_eq_3)
  also have "?t[0 := p ! 0, 1 := p ! 1, 2 := p ! 2, 3 := p ! 3] = overwrite to p"
  proof -
    obtain a b c d where "p = [a, b, c, d]" using list4 [OF assms(1)] by blast
    then show ?thesis by (simp add: overwrite_def)
  qed
  finally have "aton_loop 0 (inet_ntop4 p) ?t = (True, 4, overwrite to p)" .
  moreover have "peek (inet_ntop4 p) \<noteq> NUL"
    unfolding inet_ntop4_def using is_digit_not [OF peek_print_nat] by simp
  ultimately show ?thesis by (simp add: inet_aton_def Let_def)
qed

section \<open>IPv6\<close>

lemma pton_step:
  assumes "i < 16" and "x < 65536"
  shows "peek s \<noteq> CHR '':'' \<Longrightarrow>
      pton_loop i (print_nat 16 x @ '':'' @ s) e to = pton_loop (i + 2) s e (to[i := of_nat (x div 256), i + 1 := of_nat x])"
    and "pton_loop i (print_nat 16 x) e to = pton_loop (i + 2) [] e (to[i := of_nat (x div 256), i + 1 := of_nat x])"
proof -
  have p: "ipcharok (peek (print_nat 16 x @ r))" for r using peek_print_nat [of 16 x r] by (simp add: ipcharok_def)
  have u: "x \<le> ulong_max" using assms by (simp add: ulong_max_def)
  have d: "\<not> is_digit 36 (CHR '':'')" by (simp add: is_digit_def digit_val_def)
  show "peek s \<noteq> CHR '':'' \<Longrightarrow>
      pton_loop i (print_nat 16 x @ '':'' @ s) e to = pton_loop (i + 2) s e (to[i := of_nat (x div 256), i + 1 := of_nat x])"
    using assms p [of "'':'' @ s"] strtoul16 [OF u, of "'':'' @ s"] d
    by (subst pton_loop.simps) (simp add: Let_def)
  show "pton_loop i (print_nat 16 x) e to = pton_loop (i + 2) [] e (to[i := of_nat (x div 256), i + 1 := of_nat x])"
    using assms p [of "[]"] strtoul16 [OF u, of "[]"]
    by (subst pton_loop.simps) (auto simp: Let_def delimchar_def)
qed


text \<open>Bytes \<open>i\<close> and \<open>i + 1\<close> as a number and back.\<close>

lemma byte_pair:
  fixes a b :: uint8
  shows "of_nat ((unat a * 256 + unat b) div 256) = a" "of_nat (unat a * 256 + unat b) = b" "unat a * 256 + unat b < 65536"
proof -
  have l: "unat a < 256" "unat b < 256" using unat_lt2p [of a] unat_lt2p [of b] by simp_all
  then have "(unat a * 256 + unat b) div 256 = unat a" by simp
  then show "of_nat ((unat a * 256 + unat b) div 256) = a" by simp
  have "unat (of_nat (unat a * 256 + unat b) :: uint8) = unat b"
    using l(2) by (simp only: unat_of_nat) simp
  then show "of_nat (unat a * 256 + unat b) = b" by (simp only: word_unat_eq_iff)
  show "unat a * 256 + unat b < 65536" using l by simp
qed

lemma list16: "length p = 16 \<Longrightarrow> p = [p ! 0, p ! 1, p ! 2, p ! 3, p ! 4, p ! 5, p ! 6, p ! 7, p ! 8, p ! 9, p ! 10,
    p ! 11, p ! 12, p ! 13, p ! 14, p ! 15]"
  by (rule nth_equalityI) (auto simp: less_Suc_eq numeral_eq_Suc)

lemma pton_group:
  assumes "i < 16"
  shows "pton_loop i (print_nat 16 (unat a * 256 + unat b) @ '':'' @ print_nat 16 n @ s) e to
      = pton_loop (i + 2) (print_nat 16 n @ s) e (to[i := a, i + 1 := b])"
    and "pton_loop i (print_nat 16 (unat a * 256 + unat b)) e to = pton_loop (i + 2) [] e (to[i := a, i + 1 := b])"
proof -
  have "peek (print_nat 16 n @ s) \<noteq> CHR '':''" using is_digit_not [OF peek_print_nat [of 16 n s]] by simp
  then show "pton_loop i (print_nat 16 (unat a * 256 + unat b) @ '':'' @ print_nat 16 n @ s) e to
      = pton_loop (i + 2) (print_nat 16 n @ s) e (to[i := a, i + 1 := b])"
      "pton_loop i (print_nat 16 (unat a * 256 + unat b)) e to = pton_loop (i + 2) [] e (to[i := a, i + 1 := b])"
    using pton_step [OF assms byte_pair(3) [of a b]] by (simp_all only: byte_pair)
qed

lemma inet_pton_ntop6:
  assumes "length p = 16"
  shows "inet_pton6 (inet_ntop IPv6 p) = Some (True, p)"
proof -
  obtain a b c d e f g h i j k l m n q r where p: "p = [a, b, c, d, e, f, g, h, i, j, k, l, m, n, q, r]"
    using list16 [OF assms] by blast
  let ?g = "\<lambda>x y. print_nat 16 (unat x * 256 + unat y)"
  have s: "inet_ntop IPv6 p = ?g a b @ '':'' @ ?g c d @ '':'' @ ?g e f @ '':'' @ ?g g h @ '':'' @ ?g i j @ '':'' @ ?g k l
      @ '':'' @ ?g m n @ '':'' @ ?g q r"
    unfolding p inet_ntop_def by simp
  have "pton_loop 0 (inet_ntop IPv6 p) 0 (replicate 16 0) = (True, [], 16, 0, [a, b, c, d, e, f, g, h, i, j, k, l, m, n, q, r])"
    unfolding s
    by (subst pton_group(1), simp, subst pton_group(1), simp, subst pton_group(1), simp, subst pton_group(1), simp,
        subst pton_group(1), simp, subst pton_group(1), simp,
        subst pton_group(1) [where s = "[]", unfolded append_Nil2], simp, subst pton_group(2), simp, subst pton_loop.simps)
      (simp add: numeral_eq_Suc)
  moreover have "inet_ntop IPv6 p \<noteq> []" unfolding s by simp
  ultimately show ?thesis using p by (simp add: inet_pton6_def delimchar_def)
qed

section \<open>The parser stays inside of the address\<close>

lemma pton_loop_bounds:
  "pton_loop i p e to = (ok, p', i', e', to') \<Longrightarrow> e \<le> i \<Longrightarrow> i \<le> 16 \<Longrightarrow> even i \<Longrightarrow> length to = 16 \<Longrightarrow>
     e' \<le> i' \<and> i' \<le> 16 \<and> length to' = 16"
proof (induction i p e to arbitrary: ok p' i' e' to' rule: pton_loop.induct)
  case (1 i p e to)
  show ?case
  proof (cases "i < 16 \<and> ipcharok (peek p)")
    case False
    then show ?thesis using "1.prems" by (subst (asm) pton_loop.simps) auto
  next
    case True
    have i: "i + 2 \<le> 16" using True \<open>even i\<close> by (auto elim!: evenE)
    obtain x q where s: "strtoul p 16 = (x, q)" by fastforce
    let ?to = "to[i := of_nat (x div 256), i + 1 := of_nat x]"
    let ?q = "drop 1 q"
    note IH = "1.IH" [OF True refl s [symmetric]]
    have l: "pton_loop i p e to = (if x > 65535 \<or> peek q \<noteq> CHR '':'' \<and> \<not> delimchar (peek q) then (False, q, i, e, to)
        else if peek q = CHR '':'' then
               (if peek ?q = CHR '':'' then
                  (if e \<noteq> 0 then (False, ?q, i, e, ?to) else pton_loop (i + 2) (drop 1 ?q) (i + 2) ?to)
                else pton_loop (i + 2) ?q e ?to)
             else if q = p then (True, q, i, e, ?to)
             else pton_loop (i + 2) q e ?to)"
      by (subst pton_loop.simps) (simp only: True if_True Let_def s prod.case simp_thms)
    have t: "length ?to = 16" using "1.prems" by simp
    consider "(i', e') = (i, e)" "length to' = 16"
      | "\<not> (x > 65535 \<or> peek q \<noteq> CHR '':'' \<and> \<not> delimchar (peek q))" "peek q = CHR '':''" "peek ?q = CHR '':''" "\<not> e \<noteq> 0"
          "pton_loop (i + 2) (drop 1 ?q) (i + 2) ?to = (ok, p', i', e', to')"
      | "\<not> (x > 65535 \<or> peek q \<noteq> CHR '':'' \<and> \<not> delimchar (peek q))" "peek q = CHR '':''" "peek ?q \<noteq> CHR '':''"
          "pton_loop (i + 2) ?q e ?to = (ok, p', i', e', to')"
      | "\<not> (x > 65535 \<or> peek q \<noteq> CHR '':'' \<and> \<not> delimchar (peek q))" "peek q \<noteq> CHR '':''" "q \<noteq> p"
          "pton_loop (i + 2) q e ?to = (ok, p', i', e', to')"
      using "1.prems"(1) t "1.prems"(5) unfolding l by (auto split: if_split_asm)
    then show ?thesis
    proof cases
      case 1
      then show ?thesis using "1.prems" by simp
    next
      case 2
      then show ?thesis using IH(1) [OF 2(1) refl 2(2) refl 2(3,4,5)] t i "1.prems" by simp
    next
      case 3
      then show ?thesis using IH(2) [OF 3(1) refl 3(2) refl 3(3,4)] t i "1.prems" by simp
    next
      case 4
      then show ?thesis using IH(3) [OF 4(1) refl 4(2,3,4)] t i "1.prems" by simp
    qed
  qed
qed

lemma inet_pton6_total: "\<exists>ok ip. inet_pton6 s = Some (ok, ip) \<and> length ip = 16"
proof -
  obtain ok p i e to where l: "pton_loop 0 s 0 (replicate 16 0) = (ok, p, i, e, to)" by (metis prod.exhaust)
  then have b: "e \<le> i" "i \<le> 16" "length to = 16" using pton_loop_bounds [OF l] by simp_all
  then show ?thesis
    by (auto simp: inet_pton6_def l move_bytes_def mem_set0_def)
qed

section \<open>Elided groups\<close>

fun groups :: "nat list \<Rightarrow> string" where
  "groups [] = []"
| "groups [x] = print_nat 16 x"
| "groups (x # y # xs) = print_nat 16 x @ '':'' @ groups (y # xs)"

definition be16 :: "nat list \<Rightarrow> bytes" where
  "be16 xs = concat (map (\<lambda>x. [of_nat (x div 256), of_nat x]) xs)"

lemma be16_simps [simp]: "be16 [] = []" "be16 (x # xs) = of_nat (x div 256) # of_nat x # be16 xs" "length (be16 xs) = 2 * length xs"
  by (simp_all add: be16_def) (induction xs; simp)

definition put :: "bytes \<Rightarrow> nat \<Rightarrow> bytes \<Rightarrow> bytes" where
  "put to i b = take i to @ b @ drop (i + length b) to"

lemma put_put:
  "i + 2 \<le> length to \<Longrightarrow> put (to[i := a, i + 1 := b]) (i + 2) c = put to i (a # b # c)"
  by (rule nth_equalityI) (auto simp: put_def nth_append nth_Cons' nth_list_update)

lemma put_two: "i + 2 \<le> length to \<Longrightarrow> to[i := a, i + 1 := b] = put to i [a, b]"
  by (rule nth_equalityI) (auto simp: put_def nth_append nth_Cons' nth_list_update intro!: arg_cong [of _ _ "nth to"])

lemma peek_groups: "xs \<noteq> [] \<Longrightarrow> peek (groups xs @ r) \<noteq> CHR '':''"
  by (cases xs rule: groups.cases) (use is_digit_not [OF peek_print_nat] in auto)

lemma pton_double_colon:
  assumes "i < 16" and "x < 65536"
  shows "pton_loop i (print_nat 16 x @ ''::'' @ s) 0 to = pton_loop (i + 2) s (i + 2) (to[i := of_nat (x div 256), i + 1 := of_nat x])"
proof -
  have p: "ipcharok (peek (print_nat 16 x @ r))" for r using peek_print_nat [of 16 x r] by (simp add: ipcharok_def)
  have u: "x \<le> ulong_max" using assms by (simp add: ulong_max_def)
  have d: "\<not> is_digit 36 (CHR '':'')" by (simp add: is_digit_def digit_val_def)
  show ?thesis
    using assms p [of "''::'' @ s"] strtoul16 [OF u, of "''::'' @ s"] d
    by (subst pton_loop.simps) (simp add: Let_def)
qed

lemma pton_groups:
  assumes "\<forall>x \<in> set xs. x < 65536" and "xs \<noteq> []" and "i + 2 * length xs \<le> 16" and "length to = 16"
  shows "pton_loop i (groups xs) e to = pton_loop (i + 2 * length xs) [] e (put to i (be16 xs))"
    and "pton_loop i (groups xs @ ''::'' @ s) 0 to = pton_loop (i + 2 * length xs) s (i + 2 * length xs) (put to i (be16 xs))"
  using assms
proof (induction xs arbitrary: i to rule: groups.induct)
  case (2 x)
  { case 1
    then show ?case using pton_step(2) [of i x e to] put_two [of i to "of_nat (x div 256)" "of_nat x"] by simp
  next
    case 2
    then show ?case using pton_double_colon [of i x s to] put_two [of i to "of_nat (x div 256)" "of_nat x"] by simp
  }
next
  case (3 x y xs)
  { case 1
    then show ?case
      using pton_step(1) [of i x "groups (y # xs)" e to] peek_groups [of "y # xs" "[]"]
        "3.IH"(1) [of "i + 2" "to[i := of_nat (x div 256), i + 1 := of_nat x]"] put_put [of i to]
      by (simp add: add.commute)
  next
    case 2
    then show ?case
      using pton_step(1) [of i x "groups (y # xs) @ ''::'' @ s" 0 to] peek_groups [of "y # xs" "''::'' @ s"]
        "3.IH"(2) [of "i + 2" "to[i := of_nat (x div 256), i + 1 := of_nat x]"] put_put [of i to]
      by (simp add: add.commute)
  }
qed simp_all

lemma pton_leading: "pton_loop 0 (''::'' @ s) 0 (replicate 16 0) = pton_loop 2 s 2 (replicate 16 0)"
proof -
  have "strtoul (''::'' @ s) 16 = (0, ''::'' @ s)"
    by (simp add: strtoul_def isspace_def is_digit_def digit_val_def)
  moreover have "(replicate 16 0)[0 := 0, 1 := (0 :: uint8)] = replicate 16 0" by (simp add: numeral_eq_Suc)
  ultimately show ?thesis
    by (subst pton_loop.simps) (simp add: Let_def ipcharok_def numeral_2_eq_2)
qed

lemma pton_elided:
  assumes "\<forall>x \<in> set (xs @ ys). x < 65536" and "length xs + length ys \<le> 7"
  shows "inet_pton6 (groups xs @ ''::'' @ groups ys)
    = Some (True, be16 xs @ replicate (16 - 2 * (length xs + length ys)) 0 @ be16 ys)"
proof -
  let ?z = "replicate 16 (0 :: uint8)"
  let ?src = "groups xs @ ''::'' @ groups ys"
  define e where "e = (if xs = [] then 2 else 2 * length xs)"
  define to where "to = put ?z 0 (be16 xs)"
  have e: "2 * length xs \<le> e" "e + 2 * length ys \<le> 16" using assms(2) by (auto simp: e_def)
  have to: "length to = 16" "to = be16 xs @ replicate (16 - 2 * length xs) 0"
    using assms(2) by (simp_all add: to_def put_def)
  have "pton_loop 0 ?src 0 ?z = pton_loop e (groups ys) e to"
  proof (cases "xs = []")
    case True
    then show ?thesis using pton_leading [of "groups ys"] by (simp add: e_def to_def put_def)
  next
    case False
    then show ?thesis using pton_groups(2) [of xs 0 ?z "groups ys"] assms by (simp add: e_def to_def)
  qed
  also have "\<dots> = pton_loop (e + 2 * length ys) [] e (put to e (be16 ys))"
  proof (cases "ys = []")
    case True
    then show ?thesis by (simp add: put_def)
  next
    case False
    then show ?thesis using pton_groups(1) [of ys e to e] assms e to by simp
  qed
  also have "\<dots> = (True, [], e + 2 * length ys, e, put to e (be16 ys))"
    by (subst pton_loop.simps) (simp add: ipcharok_def)
  finally have l: "pton_loop 0 ?src 0 ?z = (True, [], e + 2 * length ys, e, put to e (be16 ys))" .
  let ?b = "put to e (be16 ys)"
  have b: "?b = be16 xs @ replicate (e - 2 * length xs) 0 @ be16 ys @ replicate (16 - e - 2 * length ys) 0"
    using e to by (simp add: put_def drop_append)
  have r: "be16 xs @ replicate (e - 2 * length xs) 0 @ replicate (16 - e - 2 * length ys) 0 @ be16 ys
      = be16 xs @ replicate (16 - 2 * (length xs + length ys)) (0 :: uint8) @ be16 ys"
    using e by (simp flip: replicate_add append_assoc)
  have "?src \<noteq> []" by simp
  show ?thesis
  proof (cases "e + 2 * length ys < 16")
    case False
    then have "e + 2 * length ys = 16" using e by simp
    then show ?thesis using r b \<open>?src \<noteq> []\<close> unfolding inet_pton6_def l prod.case by (simp add: delimchar_def)
  next
    case True
    have lb: "length ?b = 16" using e to by (simp add: put_def)
    have d: "e + 16 - (e + 2 * length ys) = 16 - 2 * length ys" by simp
    have "take (16 - 2 * length ys) ?b @ take (2 * length ys) (drop e ?b) = take (16 - 2 * length ys) ?b @ be16 ys"
      using e unfolding b by simp
    then have "move_bytes ?b (e + 16 - (e + 2 * length ys)) e (e + 2 * length ys - e) = Some (take (16 - 2 * length ys) ?b @ be16 ys)"
      using lb e unfolding d by (simp add: move_bytes_def)
    moreover have "mem_set0 (take (16 - 2 * length ys) ?b @ be16 ys) e (16 - (e + 2 * length ys))
        = Some (be16 xs @ replicate (e - 2 * length xs) 0 @ replicate (16 - e - 2 * length ys) 0 @ be16 ys)"
    proof -
      have t: "take (16 - 2 * length ys) ?b = be16 xs @ replicate (e - 2 * length xs) 0 @
          take (16 - 2 * length ys - e) (be16 ys @ replicate (16 - e - 2 * length ys) 0)"
        using e unfolding b by simp
      have lt: "length (take (16 - 2 * length ys) ?b) = 16 - 2 * length ys" using lb by simp
      have "drop (16 - 2 * length ys) (take (16 - 2 * length ys) ?b @ be16 ys) = be16 ys" using lt by simp
      moreover have "take e (take (16 - 2 * length ys) ?b @ be16 ys) = be16 xs @ replicate (e - 2 * length xs) 0"
        using e unfolding t by simp
      ultimately show ?thesis using lt e by (simp add: mem_set0_def)
    qed
    ultimately show ?thesis using True r \<open>?src \<noteq> []\<close> unfolding inet_pton6_def l prod.case by (simp add: delimchar_def)
  qed
qed


section \<open>Round trips\<close>

lemma set_print_nat: "2 \<le> base \<Longrightarrow> base \<le> 36 \<Longrightarrow> c \<in> set (print_nat base n) \<Longrightarrow> is_digit base c"
proof (induction base n rule: print_nat.induct)
  case (1 base n)
  have "n mod base < base" using 1 by simp
  then show ?case
    using "1.prems" "1.IH" is_digit_char [of n base] is_digit_char [of "n mod base" base]
    unfolding print_nat.simps [of base n] by (auto split: if_split_asm)
qed

lemma ntop_chars:
  "c \<in> set (inet_ntop4 p) \<Longrightarrow> is_digit 10 c \<or> c = CHR ''.''"
  "c \<in> set (ntop6_loop p is) \<Longrightarrow> is_digit 16 c \<or> c = CHR '':''"
proof -
  show "c \<in> set (inet_ntop4 p) \<Longrightarrow> is_digit 10 c \<or> c = CHR ''.''"
    using set_print_nat [of 10] by (auto simp: inet_ntop4_def)
  show "c \<in> set (ntop6_loop p is) \<Longrightarrow> is_digit 16 c \<or> c = CHR '':''"
    using set_print_nat [of 16] by (induction "is") (auto split: if_split_asm)
qed

lemma c_str_id: "NUL \<notin> set s \<Longrightarrow> c_str s = s"
  by (auto simp: c_str_def takeWhile_eq_all_conv)

lemma not_is_digit_delim [simp]: "\<not> is_digit b (CHR ''.'')" "\<not> is_digit b (CHR '':'')"
  by (simp_all add: is_digit_def digit_val_def)

lemma address_text_roundtrip:
  assumes "length (m_IP a) = 16" and "length (m_IP b) = 16" and "m_eAF a \<noteq> AF_None"
  shows "FromString_address (ToString_address a) b
    = Some (True, b\<lparr>m_eAF := m_eAF a, m_IP := overwrite (m_IP b) (take (Len (m_eAF a)) (m_IP a))\<rparr>)"
proof (cases "m_eAF a")
  case AF_None
  then show ?thesis using assms by simp
next
  case IPv4
  let ?p = "take 4 (m_IP a)"
  have "inet_ntop4 (m_IP a) = inet_ntop4 ?p" using assms by (simp add: inet_ntop4_def)
  moreover have "CHR ''.'' \<in> set (inet_ntop4 ?p)" by (simp add: inet_ntop4_def)
  moreover have "NUL \<notin> set (inet_ntop4 ?p)" using ntop_chars(1) [of NUL] by auto
  moreover have "inet_aton (inet_ntop4 ?p) (m_IP b) = (True, overwrite (m_IP b) ?p)"
    using assms by (intro inet_aton_ntop) simp_all
  ultimately show ?thesis
    using IPv4 assms(1)
    by (simp add: FromString_address_def ToString_address_def inet_ntop_def inet_pton_def AF_def c_str_id Len_def)
next
  case IPv6
  let ?s = "inet_ntop IPv6 (m_IP a)"
  have c: "c \<in> set ?s \<Longrightarrow> is_digit 16 c \<or> c = CHR '':''" for c using ntop_chars(2) by (simp add: inet_ntop_def del: ntop6_loop.simps)
  have "CHR ''.'' \<notin> set ?s" "NUL \<notin> set ?s" using c [of "CHR ''.''"] c [of NUL] by auto
  moreover have "CHR '':'' \<in> set ?s" by (simp add: inet_ntop_def)
  ultimately show ?thesis
    using IPv6 assms inet_pton_ntop6 [OF assms(1)]
    by (simp add: FromString_address_def ToString_address_def inet_pton_def AF_def c_str_id Len_def overwrite_def)
qed

lemma mem32_of_mem32: "length b = 4 \<Longrightarrow> mem32 (of_mem32 b) = b"
proof -
  assume "length b = 4"
  then obtain p q r s where b: "b = [p, q, r, s]" using list4 by blast
  have "(ucast (of_mem32 b) :: uint8) = p" "(ucast (drop_bit 8 (of_mem32 b)) :: uint8) = q"
    "(ucast (drop_bit 16 (of_mem32 b)) :: uint8) = r" "(ucast (drop_bit 24 (of_mem32 b)) :: uint8) = s"
    unfolding b by (rule bit_word_eqI, auto simp: of_mem32_def bit_ucast_iff bit_drop_bit_eq bit_or_iff bit_push_bit_iff
        dest: bit_imp_le_length)+
  then show "mem32 (of_mem32 b) = b" by (simp add: mem32_def b)
qed

lemma of_mem32_mem32: "of_mem32 (mem32 w) = w"
proof (rule bit_word_eqI)
  fix n assume "n < LENGTH(32)"
  then consider "n < 8" | "8 \<le> n" "n < 16" | "16 \<le> n" "n < 24" | "24 \<le> n" "n < 32" by fastforce
  then show "bit (of_mem32 (mem32 w)) n = bit w n"
    by cases (auto simp: of_mem32_def mem32_def bit_or_iff bit_ucast_iff bit_push_bit_iff bit_drop_bit_eq less_diff_conv2)
qed

lemma length_mem32 [simp]: "length (mem32 w) = 4"
  by (simp add: mem32_def)

lemma ntohl_ntohl [simp]: "ntohl (ntohl w) = w"
  using list4 [of "mem32 w"] of_mem32_mem32 [of w] by (simp add: ntohl_def Let_def mem32_of_mem32)

lemma ntohs_ntohs [simp]: "ntohs (ntohs w) = w"
proof (rule bit_word_eqI)
  fix n assume "n < LENGTH(16)"
  then consider "n < 8" | "8 \<le> n" "n < 16" by fastforce
  then show "bit (ntohs (ntohs w)) n = bit w n"
    by cases (auto simp: ntohs_def Let_def of_mem16_def mem16_def bit_or_iff bit_ucast_iff bit_push_bit_iff bit_drop_bit_eq less_diff_conv2)
qed

lemma ToIPv4_address_v4: "length rest = 12 \<Longrightarrow> ToIPv4 (address_v4 IP rest) = IP"
proof -
  have "of_mem32 (mem32 (ntohl IP) @ rest) = of_mem32 (mem32 (ntohl IP))"
    by (simp add: of_mem32_def nth_append)
  then show ?thesis by (simp add: ToIPv4_def address_v4_def of_mem32_mem32)
qed

lemma FromSA_ToSA:
  assumes "length (m_IP a) = 16" and "length (m_IP b) = 16" and "ToSA a port = Some sa"
  shows "equal_address (fst (FromSA sa (b, q))) a \<and> snd (FromSA sa (b, q)) = port"
  using assms by (auto simp: ToSA_def FromSA_def equal_address_def overwrite_def Len_def split: EAF.splits)

lemma Convert_back:
  assumes "length (m_IP a) = 16" and "m_eAF a = IPv4"
  shows "\<exists>b c. Convert IPv6 a = (True, b) \<and> IsMappedIPv4 b \<and> Convert IPv4 b = (True, c) \<and> equal_address c a"
proof -
  obtain p0 p1 p2 p3 p4 p5 p6 p7 p8 p9 p10 p11 p12 p13 p14 p15
    where ip: "m_IP a = [p0, p1, p2, p3, p4, p5, p6, p7, p8, p9, p10, p11, p12, p13, p14, p15]"
    using list16 [OF assms(1)] by blast
  show ?thesis
    using assms(2) by (simp add: Convert_def ip IsMappedIPv4_def equal_address_def Len_def numeral_eq_Suc)
qed

section \<open>Text that is accepted although it is no address\<close>

text \<open>Whatever follows a fourth dot is not looked at.\<close>

lemma aton_trailing:
  assumes "length p = 4" and "length to = 16"
  shows "inet_aton (inet_ntop4 p @ ''.'' @ s) to = (True, overwrite to p)"
proof -
  have u: "unat (w :: uint8) < 256" for w using unat_lt2p [of w] by simp
  let ?t = "overwrite to [0, 0, 0, 0]"
  obtain a b c d where p: "p = [a, b, c, d]" using list4 [OF assms(1)] by blast
  have "aton_loop 0 (inet_ntop4 p @ ''.'' @ s) ?t = (True, 4, ?t[0 := p ! 0, 1 := p ! 1, 2 := p ! 2, 3 := p ! 3])"
    unfolding inet_ntop4_def append_assoc
    by (subst aton_step(1) [OF _ u], simp, subst aton_step(1) [OF _ u], simp, subst aton_step(1) [OF _ u], simp,
        subst aton_step(1) [OF _ u], simp, subst aton_loop.simps) (simp add: numeral_2_eq_2 numeral_3_eq_3)
  also have "?t[0 := p ! 0, 1 := p ! 1, 2 := p ! 2, 3 := p ! 3] = overwrite to p"
    by (simp add: overwrite_def p)
  finally have "aton_loop 0 (inet_ntop4 p @ ''.'' @ s) ?t = (True, 4, overwrite to p)" .
  moreover have "peek (inet_ntop4 p @ ''.'' @ s) \<noteq> NUL"
    unfolding inet_ntop4_def using is_digit_not [OF peek_print_nat] by simp
  ultimately show ?thesis by (simp add: inet_aton_def Let_def)
qed

text \<open>Fewer than eight groups without an elision are the last ones.\<close>

lemma pton_few_groups:
  assumes "\<forall>x \<in> set xs. x < 65536" and "xs \<noteq> []" and "length xs \<le> 8"
  shows "inet_pton6 (groups xs) = Some (True, replicate (16 - 2 * length xs) 0 @ be16 xs)"
proof -
  let ?z = "replicate 16 (0 :: uint8)"
  let ?n = "2 * length xs"
  have b: "put ?z 0 (be16 xs) = be16 xs @ replicate (16 - ?n) 0" by (simp add: put_def)
  have "pton_loop 0 (groups xs) 0 ?z = pton_loop ?n [] 0 (put ?z 0 (be16 xs))"
    using pton_groups(1) [of xs 0 ?z 0] assms by simp
  also have "\<dots> = (True, [], ?n, 0, be16 xs @ replicate (16 - ?n) 0)"
    unfolding b by (subst pton_loop.simps) (simp add: ipcharok_def)
  finally have l: "pton_loop 0 (groups xs) 0 ?z = (True, [], ?n, 0, be16 xs @ replicate (16 - ?n) 0)" .
  have "groups xs \<noteq> []" using assms(2) by (cases xs rule: groups.cases) simp_all
  moreover have "mem_set0 (take (16 - ?n) (be16 xs @ replicate (16 - ?n) 0) @ be16 xs) 0 (16 - ?n)
      = Some (replicate (16 - ?n) 0 @ be16 xs)"
    using assms(3) by (simp add: mem_set0_def)
  moreover have "move_bytes (be16 xs @ replicate (16 - ?n) 0) (16 - ?n) 0 ?n
      = Some (take (16 - ?n) (be16 xs @ replicate (16 - ?n) 0) @ be16 xs)"
    using assms(3) by (simp add: move_bytes_def)
  ultimately show ?thesis using assms(3) unfolding inet_pton6_def l prod.case by (auto simp: delimchar_def)
qed

section \<open>Properties\<close>

text \<open>
  C22. \<open>_inet_pton\<close> of an IPv6 text comes back for every text, moves and clears memory only inside of the
  sixteen bytes of the address, and leaves sixteen bytes.
\<close>

theorem pton_stays_inside: "\<exists>ok ip. inet_pton6 s = Some (ok, ip) \<and> length ip = 16"
  by (rule inet_pton6_total)

text \<open>
  An IPv6 text with an elision is read as its groups with as many zero groups between them as are
  missing from eight, with any number of groups, also none, on either side.
\<close>

theorem elided_groups:
  "\<forall>x \<in> set (xs @ ys). x < 65536 \<Longrightarrow> length xs + length ys \<le> 7 \<Longrightarrow>
     inet_pton6 (groups xs @ ''::'' @ groups ys)
     = Some (True, be16 xs @ replicate (16 - 2 * (length xs + length ys)) 0 @ be16 ys)"
  by (rule pton_elided)

lemma elided_groups_witness:
  "inet_pton6 (groups [0xFE80] @ ''::'' @ groups [1, 0xAB])
     = Some (True, [0xFE, 0x80] @ replicate 10 0 @ [0, 1, 0, 0xAB])"
  using elided_groups [of "[0xFE80]" "[1, 0xAB]"] by simp

end
