(* ===== verification/SafeAddress.thy ===== *)
theory SafeAddress
  imports Address
begin

text \<open>
  Addresses with a transport protocol and a port, \<open>CSafeAddress\<close> (NeoKad/Networking/SafeAddress.cpp,
  SafeAddress.h). The conversions between UTF-8 and wide strings around the text form are left out.
\<close>

section \<open>Transport protocols\<close>

datatype protocol = eInvalid | eUDT_IP4 | eUDT_IP6 | eUTP_IP4 | eUTP_IP6 | eTCP_IP4 | eTCP_IP6

definition protocol_num :: "protocol \<Rightarrow> nat" where
  "protocol_num p =
     (case p of eInvalid \<Rightarrow> 0 | eUDT_IP4 \<Rightarrow> 1 | eUDT_IP6 \<Rightarrow> 2 | eUTP_IP4 \<Rightarrow> 3 | eUTP_IP6 \<Rightarrow> 4 | eTCP_IP4 \<Rightarrow> 5 | eTCP_IP6 \<Rightarrow> 6)"

lemma protocol_num_inj: "protocol_num p = protocol_num q \<longleftrightarrow> p = q"
  by (cases p; cases q) (simp_all add: protocol_num_def)

instantiation protocol :: linorder
begin

definition less_eq_protocol :: "protocol \<Rightarrow> protocol \<Rightarrow> bool" where
  "less_eq_protocol p q = (protocol_num p \<le> protocol_num q)"

definition less_protocol :: "protocol \<Rightarrow> protocol \<Rightarrow> bool" where
  "less_protocol p q = (protocol_num p < protocol_num q)"

instance
  by standard (auto simp: less_eq_protocol_def less_protocol_def protocol_num_inj)

end

section \<open>Addresses\<close>

record safe_address = address +
  m_Protocol :: protocol
  m_Port :: uint16
  m_PassKey :: uint64

definition new_safe_address :: safe_address where
  "new_safe_address = address.extend (new_address AF_None) \<lparr>m_Protocol = eInvalid, m_Port = 0, m_PassKey = 0\<rparr>"

definition IsValid_safe :: "'a safe_address_scheme \<Rightarrow> bool" where
  "IsValid_safe a = (m_Protocol a \<noteq> eInvalid \<and> \<not> IsNull_address a)"

text \<open>Only the bytes of the address family are copied; the rest of the array stays.\<close>

definition Set_safe :: "'a safe_address_scheme \<Rightarrow> 'b safe_address_scheme \<Rightarrow> 'a safe_address_scheme" where
  "Set_safe a b = a\<lparr>m_Protocol := m_Protocol b, m_eAF := m_eAF b, m_IP := overwrite (m_IP a) (take (Len (m_eAF b)) (m_IP b)),
     m_Port := m_Port b, m_PassKey := m_PassKey b\<rparr>"

definition memcmp_ip :: "bytes \<Rightarrow> bytes \<Rightarrow> int" where
  "memcmp_ip a b = (if a = b then 0 else if lexordp (<) a b then - 1 else 1)"

definition Compare_safe :: "'a safe_address_scheme \<Rightarrow> 'b safe_address_scheme \<Rightarrow> bool \<Rightarrow> int" where
  "Compare_safe a R IgnorePort =
     (if m_Protocol a < m_Protocol R then 1
      else if m_Protocol a > m_Protocol R then - 1
      else if \<not> IgnorePort \<and> m_Port a < m_Port R then 1
      else if \<not> IgnorePort \<and> m_Port a > m_Port R then - 1
      else memcmp_ip (take (Len (m_eAF a)) (m_IP a)) (take (Len (m_eAF a)) (m_IP R)))"

definition CompareTo_safe :: "'a safe_address_scheme \<Rightarrow> 'b safe_address_scheme \<Rightarrow> bool" where
  "CompareTo_safe a b = (Compare_safe a b False = 0)"

section \<open>Text\<close>

text \<open>\<open>find\<close> and \<open>rfind\<close> of \<open>std::string\<close>; \<open>None\<close> is \<open>npos\<close>.\<close>

definition find_from :: "string \<Rightarrow> string \<Rightarrow> nat \<Rightarrow> nat option" where
  "find_from pat s pos = List.find (\<lambda>i. take (length pat) (drop i s) = pat) [pos..<length s]"

definition rfind_char :: "char \<Rightarrow> string \<Rightarrow> nat option \<Rightarrow> nat option" where
  "rfind_char c s pos =
     List.find (\<lambda>i. s ! i = c) (rev [0..<(case pos of None \<Rightarrow> length s | Some p \<Rightarrow> min (Suc p) (length s))])"

text \<open>\<open>atoi\<close>: the number, zero when there is none.\<close>

definition atoi :: "string \<Rightarrow> int" where
  "atoi s =
     (let t = dropWhile isspace s;
          neg = (peek t = CHR ''-'');
          t = (if peek t = CHR ''-'' \<or> peek t = CHR ''+'' then drop 1 t else t);
          v = int (fst (read_digits 10 0 t))
      in if neg then - v else v)"

definition prot_of_text :: "string \<Rightarrow> bool \<Rightarrow> protocol" where
  "prot_of_text Prot v6 =
     (if Prot = ''udt'' \<or> Prot = ''UDT'' then (if v6 then eUDT_IP6 else eUDT_IP4)
      else if Prot = ''utp'' \<or> Prot = ''UTP'' then (if v6 then eUTP_IP6 else eUTP_IP4)
      else if Prot = ''tcp'' \<or> Prot = ''TCP'' then (if v6 then eTCP_IP6 else eTCP_IP4)
      else eInvalid)"

text \<open>The constructor from a text; \<open>None\<close> only where the parser of addresses would leave its array.\<close>

definition safe_of_text :: "string \<Rightarrow> safe_address option" where
  "safe_of_text str =
     (case find_from ''://'' str 0 of
        None \<Rightarrow> Some new_safe_address
      | Some pos1 \<Rightarrow>
          let pos3 = find_from ''/'' str (pos1 + 3);
              pos2 = rfind_char (CHR '':'') str pos3;
              pos2 = (case pos2 of None \<Rightarrow> None | Some p \<Rightarrow> if p < pos1 + 3 then None else Some p);
              Prot = take pos1 str;
              end3 = (case pos3 of None \<Rightarrow> length str | Some p \<Rightarrow> p);
              Addr = (let e = (case pos2 of None \<Rightarrow> end3 | Some p \<Rightarrow> p) in take (e - (pos1 + 3)) (drop (pos1 + 3) str));
              Port = (case pos2 of None \<Rightarrow> [] | Some p \<Rightarrow> take (end3 - (p + 1)) (drop (p + 1) str));
              v6 = (take 1 Addr = ''['' \<and> length Addr > 2);
              prot = prot_of_text Prot v6;
              Addr = (if v6 then butlast (drop 1 Addr) else Addr)
          in map_option (\<lambda>(_, a). a\<lparr>m_Port := of_int (atoi Port)\<rparr>)
               (FromString_address (c_str Addr) (new_safe_address\<lparr>m_Protocol := prot\<rparr>)))"

definition prot_text :: "protocol \<Rightarrow> string" where
  "prot_text p =
     (if p = eUDT_IP4 \<or> p = eUDT_IP6 then ''udt'' else if p = eUTP_IP4 \<or> p = eUTP_IP6 then ''utp''
      else if p = eTCP_IP4 \<or> p = eTCP_IP6 then ''tcp'' else ''invalid'')"

definition safe_to_text :: "'a safe_address_scheme \<Rightarrow> string" where
  "safe_to_text a = prot_text (m_Protocol a) @ ''://'' @
     (case m_eAF a of
        IPv6 \<Rightarrow> ''['' @ ToString_address a @ '']'' @ '':'' @ print_nat 10 (unat (m_Port a))
      | IPv4 \<Rightarrow> ToString_address a @ '':'' @ print_nat 10 (unat (m_Port a))
      | AF_None \<Rightarrow> []) @ ''/''"

section \<open>The text form is read back\<close>

lemma upt_split: "i \<le> j \<Longrightarrow> j \<le> k \<Longrightarrow> [i..<k] = [i..<j] @ [j..<k]"
  using upt_add_eq_append [of i j "k - j"] by simp

lemma upt_around:
  assumes "i \<le> j" and "j < k"
  shows "[i..<k] = [i..<j] @ j # [Suc j..<k]"
  unfolding upt_split [OF assms(1) less_imp_le [OF assms(2)]] upt_conv_Cons [OF assms(2)] ..

lemma take_1_drop: "j < length s \<Longrightarrow> take 1 (drop j s) = [s ! j]"
  by (simp add: take_Suc hd_drop_conv_nth)

lemma find_in_append: "List.find P (xs @ ys) = (case List.find P xs of None \<Rightarrow> List.find P ys | Some x \<Rightarrow> Some x)"
  by (induction xs) simp_all

lemma cut_append: "s = xs @ ys \<Longrightarrow> n = length xs \<Longrightarrow> take n s = xs \<and> drop n s = ys"
  by simp

lemma find_from_Some:
  assumes "pos \<le> i" and "i < length s" and "take (length pat) (drop i s) = pat"
    and "\<And>j. pos \<le> j \<Longrightarrow> j < i \<Longrightarrow> take (length pat) (drop j s) \<noteq> pat"
  shows "find_from pat s pos = Some i"
proof -
  have "[pos..<length s] = [pos..<i] @ i # [Suc i..<length s]"
    by (rule upt_around [OF assms(1,2)])
  moreover have "List.find (\<lambda>i. take (length pat) (drop i s) = pat) [pos..<i] = None"
    using assms(4) by (auto simp: find_None_iff)
  ultimately show ?thesis
    using assms(3) by (simp add: find_from_def find_in_append)
qed

lemma rfind_char_Some:
  assumes "i < n" and "n = (case pos of None \<Rightarrow> length s | Some p \<Rightarrow> min (Suc p) (length s))" and "s ! i = c"
    and "\<And>j. i < j \<Longrightarrow> j < n \<Longrightarrow> s ! j \<noteq> c"
  shows "rfind_char c s pos = Some i"
proof -
  have "rev [0..<n] = rev [Suc i..<n] @ i # rev [0..<i]"
    unfolding upt_around [OF le0 assms(1)] by (simp only: rev_append rev.simps append_assoc append.simps)
  moreover have "List.find (\<lambda>i. s ! i = c) (rev [Suc i..<n]) = None" using assms(4) by (auto simp: find_None_iff)
  ultimately show ?thesis using assms(3) unfolding rfind_char_def assms(2) [symmetric] by (simp add: find_in_append)
qed

lemma atoi_print_nat: "atoi (print_nat 10 n) = int n"
proof -
  have d: "is_digit 10 (peek (print_nat 10 n))" using peek_print_nat [of 10 n "[]"] by simp
  then have d16: "is_digit 16 (peek (print_nat 10 n))" by (rule is_digit_mono) simp
  have "read_digits 10 0 (print_nat 10 n) = (n, [])" using read_digits_print_nat [of 10 0 n "[]"] by simp
  then show ?thesis using strtoul_prefix [OF d16] by (simp add: atoi_def Let_def)
qed

lemma safe_of_text_cut:
  assumes "find_from ''://'' s 0 = Some 3" and "find_from ''/'' s 6 = Some e" and "rfind_char (CHR '':'') s (Some e) = Some q"
    and "\<not> q < 6" and "take 3 s = Prot" and "take (q - 6) (drop 6 s) = Addr" and "take (e - (q + 1)) (drop (q + 1) s) = Port"
  shows "safe_of_text s = (let v6 = (take 1 Addr = ''['' \<and> length Addr > 2)
      in map_option (\<lambda>(_, a). a\<lparr>m_Port := of_int (atoi Port)\<rparr>)
           (FromString_address (c_str (if v6 then butlast (drop 1 Addr) else Addr))
             (new_safe_address\<lparr>m_Protocol := prot_of_text Prot v6\<rparr>)))"
proof -
  have "(3 :: nat) + 3 = 6" by simp
  then show ?thesis
    unfolding safe_of_text_def assms(1) option.case Let_def by (simp only: assms option.case if_False)
qed

text \<open>A text of the form protocol, address, port is cut at the right places.\<close>

lemma safe_of_text_parts:
  assumes P: "Prot \<in> {''udt'', ''utp'', ''tcp''}" and A: "CHR ''/'' \<notin> set Addr"
    and Q: "CHR ''/'' \<notin> set Port" "CHR '':'' \<notin> set Port"
  shows "safe_of_text (Prot @ ''://'' @ Addr @ '':'' @ Port @ ''/'') =
     (let v6 = (take 1 Addr = ''['' \<and> length Addr > 2)
      in map_option (\<lambda>(_, a). a\<lparr>m_Port := of_int (atoi Port)\<rparr>)
           (FromString_address (c_str (if v6 then butlast (drop 1 Addr) else Addr))
             (new_safe_address\<lparr>m_Protocol := prot_of_text Prot v6\<rparr>)))"
proof -
  let ?s = "Prot @ ''://'' @ Addr @ '':'' @ Port @ ''/''"
  have l: "length Prot = 3" using P by auto
  have p1: "find_from ''://'' ?s 0 = Some 3"
  proof (rule find_from_Some)
    fix j :: nat assume "j < 3"
    then have "j = 0 \<or> j = 1 \<or> j = 2" by auto
    then show "take (length ''://'') (drop j ?s) \<noteq> ''://''" using P by auto
  qed (use l in auto)
  define q where "q = 6 + length Addr"
  define e where "e = q + 1 + length Port"
  have p3: "find_from ''/'' ?s 6 = Some e"
  proof (rule find_from_Some)
    have "?s = (Prot @ ''://'' @ Addr @ '':'' @ Port) @ ''/''" "e = length (Prot @ ''://'' @ Addr @ '':'' @ Port)"
      using l by (simp_all add: e_def q_def)
    then show "take (length ''/'') (drop e ?s) = ''/''" by (metis append_eq_conv_conj take_all_iff le_refl)
    fix j assume j: "6 \<le> j" "j < e"
    then have "?s ! j \<in> set (Addr @ '':'' @ Port)"
      using l by (auto simp: nth_append nth_Cons' e_def q_def in_set_conv_nth)
    then have "?s ! j \<noteq> CHR ''/''" using A Q by auto
    moreover have "j < length ?s" using j l by (simp add: e_def q_def)
    then have "take 1 (drop j ?s) = [?s ! j]" by (rule take_1_drop)
    ultimately show "take (length ''/'') (drop j ?s) \<noteq> ''/''" by simp
  qed (use l in \<open>simp_all add: e_def q_def\<close>)
  have p2: "rfind_char (CHR '':'') ?s (Some e) = Some q"
  proof (rule rfind_char_Some [where n = "Suc e"])
    show "?s ! q = CHR '':''" using l by (simp add: q_def nth_append)
    fix j assume j: "q < j" "j < Suc e"
    then have "?s ! j \<in> set (Port @ ''/'')"
      using l by (auto simp: nth_append nth_Cons' e_def q_def in_set_conv_nth)
    then show "?s ! j \<noteq> CHR '':''" using Q by auto
  qed (use l in \<open>simp_all add: e_def q_def\<close>)
  have "drop 6 ?s = Addr @ '':'' @ Port @ ''/''"
    using cut_append [of ?s "Prot @ ''://''" "Addr @ '':'' @ Port @ ''/''" 6] l by simp
  then have tA: "take (q - 6) (drop 6 ?s) = Addr" by (simp add: q_def)
  have "drop (q + 1) ?s = Port @ ''/''"
    using cut_append [of ?s "Prot @ ''://'' @ Addr @ '':''" "Port @ ''/''" "q + 1"] l by (simp add: q_def)
  then have tP: "take (e - (q + 1)) (drop (q + 1) ?s) = Port" by (simp add: e_def)
  have t3: "take 3 ?s = Prot" "\<not> q < 6" using cut_append [of ?s Prot _ 3] l by (simp_all add: q_def)
  show ?thesis by (rule safe_of_text_cut [OF p1 p3 p2 t3(2,1) tA tP])
qed

text \<open>The text of a valid address and port is read back as the same address, port and protocol.\<close>

definition family_of :: "protocol \<Rightarrow> EAF" where
  "family_of p = (if p = eInvalid then AF_None else if p \<in> {eUDT_IP4, eUTP_IP4, eTCP_IP4} then IPv4 else IPv6)"

lemma digit_not_slash: "is_digit b c \<Longrightarrow> c \<noteq> CHR ''/'' \<and> c \<noteq> CHR '':'' \<and> c \<noteq> CHR ''[''"
  by (auto simp: is_digit_def digit_val_def)

lemma safe_text_roundtrip:
  assumes "length (m_IP a) = 16" and "m_Protocol a \<noteq> eInvalid" and "m_eAF a = family_of (m_Protocol a)"
  shows "\<exists>b. safe_of_text (safe_to_text a) = Some b \<and> m_Protocol b = m_Protocol a \<and> m_Port b = m_Port a \<and> equal_address b a"
proof -
  let ?P = "print_nat 10 (unat (m_Port a))" and ?T = "ToString_address a"
  have v6: "m_eAF a = IPv6 \<or> m_eAF a = IPv4" using assms(2,3) by (auto simp: family_of_def)
  let ?A = "if m_eAF a = IPv6 then ''['' @ ?T @ '']'' else ?T"
  have tx: "safe_to_text a = prot_text (m_Protocol a) @ ''://'' @ ?A @ '':'' @ ?P @ ''/''"
    using v6 by (auto simp: safe_to_text_def)
  have T: "c \<in> set ?T \<Longrightarrow> is_digit 16 c \<or> c = CHR '':'' \<or> c = CHR ''.''" for c
    using v6 ntop_chars(1) [of c "m_IP a"] ntop_chars(2) [of c "m_IP a" "[0, 2, 4, 6, 8, 10, 12, 14]"] is_digit_mono [of 10 c 16]
    by (auto simp: ToString_address_def inet_ntop_def AF_def simp del: ntop6_loop.simps)
  have "?T \<noteq> []" using v6 by (auto simp: ToString_address_def inet_ntop_def AF_def inet_ntop4_def)
  have P: "c \<in> set ?P \<Longrightarrow> c \<noteq> CHR ''/'' \<and> c \<noteq> CHR '':''" for c
    using set_print_nat [of 10 c] digit_not_slash [of 10 c] by auto
  have prot: "prot_text (m_Protocol a) \<in> {''udt'', ''utp'', ''tcp''}"
    using assms(2) by (cases "m_Protocol a") (simp_all add: prot_text_def)
  have slash: "CHR ''/'' \<notin> set ?A" using T [of "CHR ''/''"] digit_not_slash [of 16 "CHR ''/''"] by auto
  have b6: "(take 1 ?A = ''['' \<and> length ?A > 2) = (m_eAF a = IPv6)"
    using T [of "CHR ''[''"] digit_not_slash [of 16 "CHR ''[''"] \<open>?T \<noteq> []\<close> by (cases ?T) auto
  have pt: "prot_of_text (prot_text (m_Protocol a)) (m_eAF a = IPv6) = m_Protocol a"
    using assms(2,3) by (cases "m_Protocol a") (simp_all add: prot_of_text_def prot_text_def family_of_def)
  have A: "(if m_eAF a = IPv6 then butlast (drop 1 ?A) else ?A) = ?T" by simp
  have "NUL \<notin> set ?T" using T [of NUL] by auto
  then have c: "c_str ?T = ?T" by (rule c_str_id)
  let ?b = "new_safe_address\<lparr>m_Protocol := m_Protocol a\<rparr>"
  have l: "length (m_IP ?b) = 16" by (simp add: new_safe_address_def new_address_def address.extend_def)
  have pc: "CHR ''/'' \<notin> set ?P" "CHR '':'' \<notin> set ?P" using P by blast+
  have "safe_of_text (safe_to_text a) = map_option (\<lambda>(_, a). a\<lparr>m_Port := of_int (atoi ?P)\<rparr>) (FromString_address ?T ?b)"
    unfolding tx safe_of_text_parts [OF prot slash pc] Let_def b6 pt A c ..
  also have "\<dots> = Some (?b\<lparr>m_eAF := m_eAF a, m_IP := overwrite (m_IP ?b) (take (Len (m_eAF a)) (m_IP a)), m_Port := m_Port a\<rparr>)"
    using v6 by (subst address_text_roundtrip [OF assms(1) l]) (auto simp: atoi_print_nat)
  finally show ?thesis
    using assms(1) v6 by (auto simp: equal_address_def overwrite_def Len_def)
qed

section \<open>Properties\<close>

text \<open>
  C23. The text of an address, \<open>utp://[..]:port/\<close> or \<open>utp://..:port/\<close>, is read back as an address with
  the same protocol, port and IP, for every protocol and every IPv4 or IPv6 address that fits to it.
\<close>

theorem safe_text:
  "length (m_IP a) = 16 \<Longrightarrow> m_Protocol a \<noteq> eInvalid \<Longrightarrow> m_eAF a = family_of (m_Protocol a) \<Longrightarrow>
     \<exists>b. safe_of_text (safe_to_text a) = Some b \<and> m_Protocol b = m_Protocol a \<and> m_Port b = m_Port a \<and> equal_address b a"
  by (rule safe_text_roundtrip)

definition sample_address :: safe_address where
  "sample_address = address.extend (address_v6 ([0x20, 0x01] @ replicate 12 0 @ [0x12, 0x34]))
     \<lparr>m_Protocol = eUTP_IP6, m_Port = 4672, m_PassKey = 0\<rparr>"

lemma safe_text_witness:
  "\<exists>b. safe_of_text (safe_to_text sample_address) = Some b \<and> m_Protocol b = eUTP_IP6 \<and> m_Port b = 4672"
  using safe_text [of sample_address]
  by (simp add: sample_address_def address.extend_def address_v6_def family_of_def) blast

end
