(* ===== verification/KadNode.thy ===== *)
theory KadNode
  imports UIntX SafeAddress
begin

text \<open>
  The nodes of the Kademlia network, \<open>CKadNode\<close> (NeoKad/Kad/KadNode.cpp, KadNode.h), and their addresses,
  \<open>CNodeAddress\<close> (NodeAddress.h). \<open>GetTime()\<close> is the parameter \<open>now\<close>. The multimap of addresses is
  the list of the addresses of each protocol, in its order; \<open>find\<close> gives the first one of a protocol.
  The settings of \<open>CKadConfig\<close> that the nodes and the routing table read are a record.
\<close>

record kad_config =
  BucketSize :: nat
  ZoneLimit :: int
  LevelLimit :: int
  Age1stClass :: int
  Age2ndClass :: int
  RetentionTime :: int
  KeepZeroClass :: int
  Keep1ndClass :: int
  Keep2ndClass :: int
  KeepDefaultClass :: int
  HelloInterval :: int

definition default_config :: kad_config where
  "default_config = \<lparr>BucketSize = 10, ZoneLimit = 5, LevelLimit = 4, Age1stClass = 7200, Age2ndClass = 3600,
     RetentionTime = 1800, KeepZeroClass = 7200, Keep1ndClass = 5400, Keep2ndClass = 3600, KeepDefaultClass = 300,
     HelloInterval = 600\<rparr>"

definition NODE_ZERO_CLASS :: int where "NODE_ZERO_CLASS = 0"
definition NODE_1ST_CLASS :: int where "NODE_1ST_CLASS = 1"
definition NODE_2ND_CLASS :: int where "NODE_2ND_CLASS = 2"
definition NODE_DEFAULT_CLASS :: int where "NODE_DEFAULT_CLASS = 3"
definition NODE_OFFLINE_CLASS :: int where "NODE_OFFLINE_CLASS = 4"

lemmas class_defs = NODE_ZERO_CLASS_def NODE_1ST_CLASS_def NODE_2ND_CLASS_def NODE_DEFAULT_CLASS_def NODE_OFFLINE_CLASS_def

section \<open>Node addresses\<close>

record node_address = safe_address +
  m_bVerifyed :: bool
  m_iClass :: int
  m_uLastSeen :: int
  m_uFirstSeen :: int
  m_AuxPort :: uint16
  m_pAssistent :: "safe_address option"

definition node_init :: "int \<Rightarrow> bool \<Rightarrow> safe_address \<Rightarrow> node_address" where
  "node_init now bVerifyed a = safe_address.extend a
     \<lparr>m_bVerifyed = bVerifyed, m_iClass = NODE_DEFAULT_CLASS, m_uLastSeen = now, m_uFirstSeen = now, m_AuxPort = 0, m_pAssistent = None\<rparr>"

definition copy_safe :: "'a safe_address_scheme \<Rightarrow> safe_address" where
  "copy_safe a = Set_safe new_safe_address a"

text \<open>The copy constructor initialises the class, the times and the auxiliary port anew.\<close>

definition copy_node_address :: "int \<Rightarrow> node_address \<Rightarrow> bool \<Rightarrow> node_address" where
  "copy_node_address now a bVerifyed =
     (node_init now (m_bVerifyed a \<or> bVerifyed) (copy_safe a))\<lparr>m_pAssistent := map_option copy_safe (m_pAssistent a)\<rparr>"

definition assign_node_address :: "node_address \<Rightarrow> node_address \<Rightarrow> node_address" where
  "assign_node_address this a =
     (let this = Set_safe this a;
          this = (if m_bVerifyed a then this\<lparr>m_bVerifyed := True\<rparr> else this)
      in case m_pAssistent a of None \<Rightarrow> this | Some p \<Rightarrow> this\<lparr>m_pAssistent := Some (copy_safe p)\<rparr>)"

definition IsBlocked :: "node_address \<Rightarrow> bool" where
  "IsBlocked a = (m_Port a = 0 \<or> (case m_pAssistent a of None \<Rightarrow> False | Some p \<Rightarrow> \<not> IsValid_safe p))"

section \<open>Nodes\<close>

type_synonym address_map = "protocol \<Rightarrow> node_address list"

definition protocols :: "protocol list" where
  "protocols = [eInvalid, eUDT_IP4, eUDT_IP6, eUTP_IP4, eUTP_IP6, eTCP_IP4, eTCP_IP6]"

record kad_node =
  m_Version :: string
  m_NodeProtocol :: uint32
  m_ID :: bytes
  m_AddressMap :: address_map
  m_iFailed :: int
  m_NodeFirstSeen :: int
  m_NodeLastSeen :: int
  m_uLastHello :: int

definition all_addresses :: "address_map \<Rightarrow> node_address list" where
  "all_addresses m = concat (map m protocols)"

definition new_kad_node :: "int \<Rightarrow> bytes \<Rightarrow> kad_node" where
  "new_kad_node now ID = \<lparr>m_Version = [], m_NodeProtocol = 0, m_ID = ID, m_AddressMap = (\<lambda>_. []), m_iFailed = 0,
     m_NodeFirstSeen = now, m_NodeLastSeen = now, m_uLastHello = 0\<rparr>"

text \<open>\<open>CAbstractKey::Fold\<close> (Framework/Cryptography/AbstractKey.cpp): the blocks of the key are xored.\<close>

definition Fold :: "bytes \<Rightarrow> nat \<Rightarrow> bytes" where
  "Fold k n = fold (\<lambda>i out. out[i mod n := out ! (i mod n) XOR k ! i]) [0..<length k] (replicate n 0)"

definition GetPassKey :: "kad_node \<Rightarrow> uint64" where
  "GetPassKey n = from_le (Fold (m_ID n) 8)"

definition set_pass_key :: "kad_node \<Rightarrow> node_address \<Rightarrow> node_address" where
  "set_pass_key n a = (if m_PassKey a = 0 then a\<lparr>m_PassKey := GetPassKey n\<rparr> else a)"

text \<open>A new element goes behind those of its key.\<close>

definition InsertAddress :: "int \<Rightarrow> node_address \<Rightarrow> kad_node \<Rightarrow> kad_node" where
  "InsertAddress now a n =
     (let P = m_Protocol a; e = set_pass_key n (copy_node_address now a False)
      in n\<lparr>m_AddressMap := (m_AddressMap n)(P := m_AddressMap n P @ [e])\<rparr>)"

definition same_address :: "node_address \<Rightarrow> node_address \<Rightarrow> bool" where
  "same_address A a = (Compare_safe A a False = 0 \<or> Compare_safe A a True = 0)"

definition merge_address :: "node_address \<Rightarrow> node_address \<Rightarrow> node_address" where
  "merge_address A a =
     (let bAux = (Compare_safe A a False \<noteq> 0);
          a = (if m_bVerifyed A then a\<lparr>m_bVerifyed := True, m_pAssistent := map_option copy_safe (m_pAssistent A)\<rparr> else a);
          a = (if m_uFirstSeen A < m_uFirstSeen a then a\<lparr>m_uFirstSeen := m_uFirstSeen A\<rparr> else a);
          a = (if m_uLastSeen A > m_uLastSeen a then a\<lparr>m_uLastSeen := m_uLastSeen A\<rparr> else a);
          a = (if m_iClass A < m_iClass a then a\<lparr>m_iClass := m_iClass A\<rparr> else a)
      in if bAux then
           (if m_bVerifyed A then a\<lparr>m_AuxPort := m_Port a, m_Port := m_Port A\<rparr>
            else a\<lparr>m_AuxPort := m_Port A\<rparr>)
         else a)"

text \<open>The loop of \<open>UpdateAddress\<close>: \<open>bAdd\<close> and the addresses left.\<close>

fun update_loop :: "node_address \<Rightarrow> node_address list \<Rightarrow> bool \<times> node_address list" where
  "update_loop A [] = (True, [])"
| "update_loop A (a # as) =
     (if same_address A a then (False, merge_address A a # as)
      else if \<not> m_bVerifyed a then update_loop A as
      else case update_loop A as of (bAdd, r) \<Rightarrow> (bAdd, a # r))"

definition UpdateAddress :: "int \<Rightarrow> node_address \<Rightarrow> kad_node \<Rightarrow> kad_node" where
  "UpdateAddress now A n =
     (if m_Protocol A = eInvalid then n
      else
        let n = n\<lparr>m_NodeLastSeen := now\<rparr>;
            P = m_Protocol A;
            (bAdd, l) = update_loop A (m_AddressMap n P);
            l = (if bAdd then set_pass_key n (copy_node_address now A False) # l else l);
            l = (if m_bVerifyed A then take 1 l else l)
        in n\<lparr>m_AddressMap := (m_AddressMap n)(P := l)\<rparr>)"

definition MergeNode :: "int \<Rightarrow> kad_node \<Rightarrow> kad_node \<Rightarrow> kad_node" where
  "MergeNode now pNode n =
     (let n = fold (UpdateAddress now) (all_addresses (m_AddressMap pNode)) n
      in if m_NodeFirstSeen pNode < m_NodeFirstSeen n then n\<lparr>m_NodeFirstSeen := m_NodeFirstSeen pNode\<rparr> else n)"

fun remove_first :: "('a \<Rightarrow> bool) \<Rightarrow> 'a list \<Rightarrow> 'a list" where
  "remove_first P [] = []"
| "remove_first P (x # xs) = (if P x then xs else x # remove_first P xs)"

definition RemoveAddress :: "node_address \<Rightarrow> kad_node \<Rightarrow> kad_node" where
  "RemoveAddress A n =
     (let P = m_Protocol A
      in n\<lparr>m_AddressMap := (m_AddressMap n)(P := remove_first (\<lambda>a. CompareTo_safe a A) (m_AddressMap n P))\<rparr>)"

text \<open>The result is a copy; \<open>CNodeAddress()\<close> when there is none.\<close>

definition GetAddress :: "int \<Rightarrow> kad_node \<Rightarrow> protocol \<Rightarrow> node_address" where
  "GetAddress now n P =
     (case m_AddressMap n P of
        [] \<Rightarrow> node_init now False new_safe_address
      | a # _ \<Rightarrow> assign_node_address (node_init now False new_safe_address) a)"

definition CheckAddress :: "kad_node \<Rightarrow> node_address \<Rightarrow> bool" where
  "CheckAddress n A =
     (case List.find (\<lambda>a. CompareTo_safe a A) (m_AddressMap n (m_Protocol A)) of
        None \<Rightarrow> False
      | Some a \<Rightarrow> m_bVerifyed a)"

definition class_by_age :: "kad_config \<Rightarrow> int \<Rightarrow> int" where
  "class_by_age c uAge = (if uAge \<le> Age2ndClass c then NODE_2ND_CLASS else if uAge \<le> Age1stClass c then NODE_1ST_CLASS else NODE_ZERO_CLASS)"

definition address_ok :: "kad_config \<Rightarrow> int \<Rightarrow> node_address \<Rightarrow> node_address" where
  "address_ok c now a =
     (let a = a\<lparr>m_uLastSeen := now\<rparr>
      in if m_iClass a > NODE_ZERO_CLASS then a\<lparr>m_iClass := class_by_age c (now - m_uFirstSeen a)\<rparr> else a)"

fun class_loop :: "kad_config \<Rightarrow> int \<Rightarrow> bool \<Rightarrow> node_address \<Rightarrow> node_address list \<Rightarrow> bool \<times> node_address list" where
  "class_loop c now bOk A [] = (False, [])"
| "class_loop c now bOk A (a # as) =
     (if CompareTo_safe a A then
        (True,
         if bOk then address_ok c now a # as
         else
           let a = a\<lparr>m_iClass := m_iClass a + 1\<rparr>
           in if m_iClass a \<ge> NODE_OFFLINE_CLASS then as else a # as)
      else case class_loop c now bOk A as of (found, r) \<Rightarrow> (found, a # r))"

definition UpdateClass :: "kad_config \<Rightarrow> int \<Rightarrow> bool \<Rightarrow> node_address \<Rightarrow> kad_node \<Rightarrow> kad_node" where
  "UpdateClass c now bOk A n =
     (let n = (if bOk then n\<lparr>m_iFailed := 0\<rparr> else n);
          P = m_Protocol A;
          (found, l) = class_loop c now bOk A (m_AddressMap n P);
          n = (if found \<and> bOk then n\<lparr>m_NodeLastSeen := now\<rparr> else n)
      in n\<lparr>m_AddressMap := (m_AddressMap n)(P := l)\<rparr>)"

definition GetClass :: "kad_node \<Rightarrow> int" where
  "GetClass n = fold (\<lambda>a iClass. if IsBlocked a then iClass else if m_iClass a < iClass then m_iClass a else iClass)
     (all_addresses (m_AddressMap n)) NODE_OFFLINE_CLASS"

definition IsNeeded :: "kad_config \<Rightarrow> int \<Rightarrow> kad_node \<Rightarrow> bool" where
  "IsNeeded c now n = (m_NodeLastSeen n + RetentionTime c > now)"

definition GetTimeToKeep :: "kad_config \<Rightarrow> kad_node \<Rightarrow> int" where
  "GetTimeToKeep c n =
     (let k = GetClass n
      in if k = NODE_ZERO_CLASS then KeepZeroClass c else if k = NODE_1ST_CLASS then Keep1ndClass c
         else if k = NODE_2ND_CLASS then Keep2ndClass c else if k = NODE_DEFAULT_CLASS then KeepDefaultClass c else 0)"

definition IsFading :: "kad_config \<Rightarrow> int \<Rightarrow> bool \<Rightarrow> kad_node \<Rightarrow> bool" where
  "IsFading c now bHalf n =
     (let Keep = GetTimeToKeep c n; Keep = (if bHalf then cdiv Keep 2 else Keep)
      in m_NodeLastSeen n + Keep < now)"

definition IncrFailed :: "kad_node \<Rightarrow> kad_node" where
  "IncrFailed n = n\<lparr>m_iFailed := m_iFailed n + 1\<rparr>"

definition HasFailed :: "kad_node \<Rightarrow> bool" where
  "HasFailed n = (m_iFailed n > 3)"

text \<open>\<open>Load\<close>, of the values the variant holds; \<open>full\<close> are the version and the times of a full one.\<close>

definition LoadNode :: "kad_config \<Rightarrow> int \<Rightarrow> uint32 \<Rightarrow> bytes \<Rightarrow> node_address list \<Rightarrow> (string \<times> int \<times> int) option \<Rightarrow> kad_node \<Rightarrow> kad_node" where
  "LoadNode c now Prot ID addrs full n =
     (let n = n\<lparr>m_NodeProtocol := Prot, m_ID := ID\<rparr>;
          n = fold (InsertAddress now) addrs n
      in case full of
           None \<Rightarrow> n
         | Some (ver, fsen, lsen) \<Rightarrow>
             let n = n\<lparr>m_Version := ver, m_NodeFirstSeen := fsen, m_NodeLastSeen := lsen\<rparr>
             in if IsFading c now False n then
                  n\<lparr>m_AddressMap := map (\<lambda>a. a\<lparr>m_iClass := NODE_DEFAULT_CLASS\<rparr>) \<circ> m_AddressMap n, m_NodeLastSeen := now\<rparr>
                else n)"

section \<open>The addresses of a node\<close>

text \<open>
  For each protocol at most one unverified address, in front, and at most one verified address; the
  addresses stand under their protocol, none under \<open>eInvalid\<close>.
\<close>

fun slot_ok :: "node_address list \<Rightarrow> bool" where
  "slot_ok [] = True"
| "slot_ok [a] = True"
| "slot_ok [a, b] = (\<not> m_bVerifyed a \<and> m_bVerifyed b)"
| "slot_ok _ = False"

definition addresses_ok :: "address_map \<Rightarrow> bool" where
  "addresses_ok m = ((\<forall>P. slot_ok (m P) \<and> (\<forall>a \<in> set (m P). m_Protocol a = P)) \<and> m eInvalid = [])"

lemma slot_ok_cases [consumes 1, case_names empty one two]:
  "slot_ok l \<Longrightarrow> (l = [] \<Longrightarrow> Q) \<Longrightarrow> (\<And>a. l = [a] \<Longrightarrow> Q)
     \<Longrightarrow> (\<And>a b. l = [a, b] \<Longrightarrow> \<not> m_bVerifyed a \<Longrightarrow> m_bVerifyed b \<Longrightarrow> Q) \<Longrightarrow> Q"
  by (cases l rule: slot_ok.cases) auto

lemma merge_address_simps [simp]:
  "m_Protocol (merge_address A a) = m_Protocol a" "m_IP (merge_address A a) = m_IP a" "m_eAF (merge_address A a) = m_eAF a"
  "m_bVerifyed (merge_address A a) = (m_bVerifyed A \<or> m_bVerifyed a)"
  "m_Port (merge_address A a) = (if m_bVerifyed A \<and> Compare_safe A a False \<noteq> 0 then m_Port A else m_Port a)"
  by (simp_all add: merge_address_def Let_def)

lemma set_pass_key_simps [simp]:
  "m_Protocol (set_pass_key n a) = m_Protocol a" "m_bVerifyed (set_pass_key n a) = m_bVerifyed a"
  "m_Port (set_pass_key n a) = m_Port a" "m_IP (set_pass_key n a) = m_IP a" "m_eAF (set_pass_key n a) = m_eAF a"
  "m_iClass (set_pass_key n a) = m_iClass a"
  by (simp_all add: set_pass_key_def)

lemma copy_node_address_simps [simp]:
  "m_Protocol (copy_node_address now a b) = m_Protocol a" "m_bVerifyed (copy_node_address now a b) = (m_bVerifyed a \<or> b)"
  "m_Port (copy_node_address now a b) = m_Port a" "m_eAF (copy_node_address now a b) = m_eAF a"
  "m_IP (copy_node_address now a b) = overwrite (replicate 16 0) (take (Len (m_eAF a)) (m_IP a))"
  "m_iClass (copy_node_address now a b) = NODE_DEFAULT_CLASS"
  by (simp_all add: copy_node_address_def node_init_def copy_safe_def Set_safe_def new_safe_address_def new_address_def
      safe_address.extend_def address.extend_def)

lemma same_address_protocol: "same_address A a \<Longrightarrow> m_Protocol A = m_Protocol a"
  by (auto simp: same_address_def Compare_safe_def split: if_split_asm)

lemma memcmp_ip_0: "memcmp_ip a b = 0 \<longleftrightarrow> a = b"
  by (simp add: memcmp_ip_def)

lemma Compare_safe_0:
  "Compare_safe A a ip = 0 \<longleftrightarrow> m_Protocol A = m_Protocol a \<and> (ip \<or> m_Port A = m_Port a)
     \<and> take (Len (m_eAF A)) (m_IP A) = take (Len (m_eAF A)) (m_IP a)"
  by (auto simp: Compare_safe_def memcmp_ip_0)

lemma update_loop_slot:
  assumes "slot_ok l" and "update_loop A l = (bAdd, r)"
  shows "if bAdd then r = filter m_bVerifyed l \<and> (\<forall>a \<in> set l. \<not> same_address A a)
         else (\<exists>a b. a \<in> set l \<and> same_address A a \<and>
            (r = [merge_address A a] \<or> r = [merge_address A a, b] \<and> l = [a, b]))"
  using assms(1)
  by (cases rule: slot_ok_cases) (use assms(2) in \<open>auto split: if_split_asm\<close>)

lemma filter_slot: "slot_ok l \<Longrightarrow> length (filter m_bVerifyed l) \<le> 1"
  by (erule slot_ok_cases) auto

lemma update_slot:
  assumes "slot_ok l" and "update_loop A l = (bAdd, r)" and "m_bVerifyed e = m_bVerifyed A"
  shows "slot_ok (let l = (if bAdd then e # r else r) in if m_bVerifyed A then take 1 l else l)"
proof (cases bAdd)
  case True
  then have r: "r = filter m_bVerifyed l" using update_loop_slot [OF assms(1,2)] by simp
  from assms(1) show ?thesis by (cases rule: slot_ok_cases) (use True assms(3) r in auto)
next
  case False
  then show ?thesis using update_loop_slot [OF assms(1,2)] assms(1) by auto
qed

lemma set_update_loop: "update_loop A l = (bAdd, r) \<Longrightarrow> x \<in> set r \<Longrightarrow> x \<in> set l \<or> (\<exists>a \<in> set l. x = merge_address A a)"
  by (induction l arbitrary: bAdd r) (auto split: if_split_asm prod.splits)

lemma UpdateAddress_ok:
  assumes "addresses_ok (m_AddressMap n)"
  shows "addresses_ok (m_AddressMap (UpdateAddress now A n))"
proof (cases "m_Protocol A = eInvalid")
  case True
  then show ?thesis using assms by (simp add: UpdateAddress_def)
next
  case False
  let ?P = "m_Protocol A"
  let ?e = "set_pass_key (n\<lparr>m_NodeLastSeen := now\<rparr>) (copy_node_address now A False)"
  obtain bAdd r where u: "update_loop A (m_AddressMap n ?P) = (bAdd, r)" by fastforce
  let ?l = "let l = (if bAdd then ?e # r else r) in if m_bVerifyed A then take 1 l else l"
  have m: "m_AddressMap (UpdateAddress now A n) = (m_AddressMap n)(?P := ?l)"
    using False by (simp add: UpdateAddress_def Let_def u)
  have "slot_ok (m_AddressMap n ?P)" using assms by (simp add: addresses_ok_def)
  then have "slot_ok ?l" using u by (intro update_slot) simp_all
  moreover have "x \<in> set ?l \<Longrightarrow> x = ?e \<or> x \<in> set r" for x by (auto simp: Let_def split: if_split_asm dest: in_set_takeD)
  then have "x \<in> set ?l \<Longrightarrow> m_Protocol x = ?P" for x
    using set_update_loop [OF u] assms by (fastforce simp: addresses_ok_def)
  ultimately show ?thesis using assms False unfolding m addresses_ok_def by auto
qed

lemma MergeNode_ok: "addresses_ok (m_AddressMap n) \<Longrightarrow> addresses_ok (m_AddressMap (MergeNode now p n))"
proof -
  assume "addresses_ok (m_AddressMap n)"
  then have "addresses_ok (m_AddressMap (fold (UpdateAddress now) l n))" for l
    by (induction l arbitrary: n) (simp_all add: UpdateAddress_ok)
  then show ?thesis by (simp add: MergeNode_def Let_def)
qed

text \<open>Sublists of a slot, and slots with the same verification, are slots.\<close>

lemma slot_remove_first: "slot_ok l \<Longrightarrow> slot_ok (remove_first Q l)"
  by (erule slot_ok_cases) auto

lemma set_remove_first: "x \<in> set (remove_first Q l) \<Longrightarrow> x \<in> set l"
  by (induction l) (auto split: if_split_asm)

lemma RemoveAddress_ok: "addresses_ok (m_AddressMap n) \<Longrightarrow> addresses_ok (m_AddressMap (RemoveAddress A n))"
  by (auto simp: RemoveAddress_def addresses_ok_def Let_def slot_remove_first dest: set_remove_first)

lemma class_loop_slot:
  assumes "slot_ok l" and "class_loop c now bOk A l = (found, r)"
  shows "slot_ok r"
  using assms(1)
  by (cases rule: slot_ok_cases) (use assms(2) in \<open>auto simp: Let_def address_ok_def split: if_split_asm\<close>)

lemma class_loop_protocol:
  "class_loop c now bOk A l = (found, r) \<Longrightarrow> \<forall>a \<in> set l. m_Protocol a = P \<Longrightarrow> \<forall>a \<in> set r. m_Protocol a = P"
  by (induction l arbitrary: found r) (auto simp: Let_def address_ok_def split: if_split_asm prod.splits)

lemma UpdateClass_ok:
  assumes "addresses_ok (m_AddressMap n)"
  shows "addresses_ok (m_AddressMap (UpdateClass c now bOk A n))"
proof -
  let ?P = "m_Protocol A"
  obtain found r where u: "class_loop c now bOk A (m_AddressMap n ?P) = (found, r)" by fastforce
  have "m_AddressMap (UpdateClass c now bOk A n) = (m_AddressMap n)(?P := snd (class_loop c now bOk A (m_AddressMap n ?P)))"
    by (auto simp: UpdateClass_def Let_def split: prod.split)
  then have "m_AddressMap (UpdateClass c now bOk A n) = (m_AddressMap n)(?P := r)" by (simp only: u snd_conv)
  moreover have "slot_ok r" by (rule class_loop_slot [OF _ u]) (use assms in \<open>simp add: addresses_ok_def\<close>)
  moreover have "\<forall>a \<in> set r. m_Protocol a = ?P"
    by (rule class_loop_protocol [OF u]) (use assms in \<open>simp add: addresses_ok_def\<close>)
  moreover have "r = []" if "?P = eInvalid" using u that assms by (simp add: addresses_ok_def)
  ultimately show ?thesis using assms by (auto simp: addresses_ok_def)
qed

text \<open>What may happen to a node after it was created, apart from \<open>Load\<close>.\<close>

inductive node_step :: "kad_config \<Rightarrow> kad_node \<Rightarrow> kad_node \<Rightarrow> bool" for c :: kad_config where
  update: "node_step c n (UpdateAddress now A n)"
| merge: "node_step c n (MergeNode now p n)"
| remove: "node_step c n (RemoveAddress A n)"
| classify: "node_step c n (UpdateClass c now bOk A n)"
| failed: "node_step c n (IncrFailed n)"

inductive_cases node_stepE: "node_step c n n'"

inductive node_reachable :: "kad_config \<Rightarrow> kad_node \<Rightarrow> bool" for c :: kad_config where
  new: "node_reachable c (new_kad_node now ID)"
| step: "node_reachable c n \<Longrightarrow> node_step c n n' \<Longrightarrow> node_reachable c n'"

lemma node_step_ok: "node_step c n n' \<Longrightarrow> addresses_ok (m_AddressMap n) \<Longrightarrow> addresses_ok (m_AddressMap n')"
  by (erule node_stepE) (simp_all add: UpdateAddress_ok MergeNode_ok RemoveAddress_ok UpdateClass_ok IncrFailed_def)

lemma node_reachable_addresses: "node_reachable c n \<Longrightarrow> addresses_ok (m_AddressMap n)"
proof (induction rule: node_reachable.induct)
  case (new now ID)
  then show ?case by (simp add: new_kad_node_def addresses_ok_def)
next
  case (step n n')
  then show ?case by (blast intro: node_step_ok)
qed

lemma slot_length: "slot_ok l \<Longrightarrow> length l \<le> 2"
  by (erule slot_ok_cases) simp_all

section \<open>What an update does\<close>

lemma update_verified:
  assumes "slot_ok l" and "update_loop A l = (bAdd, r)" and "m_bVerifyed A" and "\<forall>a \<in> set l. m_Protocol a = m_Protocol A"
    and e: "m_bVerifyed e" "m_Protocol e = m_Protocol A" "m_Port e = m_Port A"
      "take (Len (m_eAF A)) (m_IP e) = take (Len (m_eAF A)) (m_IP A)"
  shows "\<exists>a. take 1 (if bAdd then e # r else r) = [a] \<and> m_bVerifyed a \<and> Compare_safe A a False = 0"
proof (cases bAdd)
  case True
  then show ?thesis using e by (simp add: Compare_safe_0)
next
  case False
  then obtain a where a: "a \<in> set l" "same_address A a" "take 1 r = [merge_address A a]"
  proof -
    obtain a b where "a \<in> set l \<and> same_address A a \<and> (r = [merge_address A a] \<or> r = [merge_address A a, b])"
      using update_loop_slot [OF assms(1,2)] False by auto
    then show ?thesis using that [of a] by auto
  qed
  have "Compare_safe A (merge_address A a) False = 0"
    using a(2) assms(3) by (auto simp: same_address_def Compare_safe_0)
  then show ?thesis using a assms(3) False by simp
qed

lemma update_keeps_verified:
  assumes "slot_ok l" and "update_loop A l = (bAdd, r)" and "\<not> m_bVerifyed A" and "v \<in> set l" and "m_bVerifyed v"
  shows "\<exists>w \<in> set r. m_bVerifyed w \<and> m_Port w = m_Port v \<and> m_IP w = m_IP v \<and> m_eAF w = m_eAF v"
proof (cases bAdd)
  case True
  then show ?thesis using update_loop_slot [OF assms(1,2)] assms(4,5) by auto
next
  case False
  from assms(1) show ?thesis
    by (cases rule: slot_ok_cases) (use assms(2-5) False in \<open>auto split: if_split_asm\<close>)
qed


section \<open>Properties\<close>


definition sample_node_address :: "uint16 \<Rightarrow> bool \<Rightarrow> node_address" where
  "sample_node_address port verifyed = node_init 0 verifyed
     (address.extend (address_v6 (replicate 15 0 @ [1])) \<lparr>m_Protocol = eUTP_IP6, m_Port = port, m_PassKey = 7\<rparr>)"


text \<open>
  After a verified address has been reported, it is the only address of its protocol: the one left is
  verified and has its IP and port.
\<close>

theorem UpdateAddress_verified:
  "addresses_ok (m_AddressMap n) \<Longrightarrow> m_Protocol A \<noteq> eInvalid \<Longrightarrow> m_bVerifyed A \<Longrightarrow> length (m_IP A) = 16 \<Longrightarrow>
     \<exists>a. m_AddressMap (UpdateAddress now A n) (m_Protocol A) = [a] \<and> m_bVerifyed a \<and> Compare_safe A a False = 0"
proof -
  assume asm: "addresses_ok (m_AddressMap n)" "m_Protocol A \<noteq> eInvalid" "m_bVerifyed A" "length (m_IP A) = 16"
  let ?P = "m_Protocol A"
  let ?e = "set_pass_key (n\<lparr>m_NodeLastSeen := now\<rparr>) (copy_node_address now A False)"
  obtain bAdd r where u: "update_loop A (m_AddressMap n ?P) = (bAdd, r)" by fastforce
  have "m_AddressMap (UpdateAddress now A n) ?P = take 1 (if bAdd then ?e # r else r)"
    using asm by (simp add: UpdateAddress_def Let_def u)
  moreover have "take (Len (m_eAF A)) (m_IP ?e) = take (Len (m_eAF A)) (m_IP A)"
    using asm(4) by (simp add: overwrite_def Len_def)
  ultimately show ?thesis
    using update_verified [OF _ u asm(3), of ?e] asm by (simp add: addresses_ok_def)
qed

lemma UpdateAddress_verified_witness:
  "\<exists>a. m_AddressMap (UpdateAddress 9 (sample_node_address 4001 True)
       (UpdateAddress 5 (sample_node_address 4000 False) (new_kad_node 0 (replicate 16 1)))) eUTP_IP6 = [a] \<and> m_bVerifyed a"
  using UpdateAddress_verified [of "UpdateAddress 5 (sample_node_address 4000 False) (new_kad_node 0 (replicate 16 1))"
      "sample_node_address 4001 True" 9]
    UpdateAddress_ok [of "new_kad_node 0 (replicate 16 1)" 5 "sample_node_address 4000 False"]
  by (auto simp: sample_node_address_def node_init_def safe_address.extend_def address.extend_def address_v6_def
      addresses_ok_def new_kad_node_def)

text \<open>
  A report that is not verified does not take a verified address from a node: it keeps one with the
  same IP and port.
\<close>

theorem UpdateAddress_unverified:
  "addresses_ok (m_AddressMap n) \<Longrightarrow> \<not> m_bVerifyed A \<Longrightarrow> v \<in> set (m_AddressMap n P) \<Longrightarrow> m_bVerifyed v \<Longrightarrow>
     \<exists>w \<in> set (m_AddressMap (UpdateAddress now A n) P). m_bVerifyed w \<and> m_Port w = m_Port v \<and> m_IP w = m_IP v \<and> m_eAF w = m_eAF v"
proof -
  assume asm: "addresses_ok (m_AddressMap n)" "\<not> m_bVerifyed A" "v \<in> set (m_AddressMap n P)" "m_bVerifyed v"
  show ?thesis
  proof (cases "m_Protocol A = P \<and> m_Protocol A \<noteq> eInvalid")
    case False
    then have "m_AddressMap (UpdateAddress now A n) P = m_AddressMap n P"
      by (auto simp: UpdateAddress_def Let_def split: prod.split)
    then show ?thesis using asm by auto
  next
    case True
    obtain bAdd r where u: "update_loop A (m_AddressMap n P) = (bAdd, r)" by fastforce
    have "set r \<subseteq> set (m_AddressMap (UpdateAddress now A n) P)"
      using True asm(2) by (auto simp: UpdateAddress_def Let_def u)
    then show ?thesis
      using update_keeps_verified [OF _ u asm(2-4)] asm(1) by (auto simp: addresses_ok_def)
  qed
qed

lemma addresses_ok_single: "m_Protocol a = P \<Longrightarrow> P \<noteq> eInvalid \<Longrightarrow> addresses_ok ((\<lambda>_. [])(P := [a]))"
  by (simp add: addresses_ok_def)

lemma UpdateAddress_unverified_witness:
  "\<exists>w \<in> set (m_AddressMap (UpdateAddress 9 (sample_node_address 4001 False)
       ((new_kad_node 0 (replicate 16 1))\<lparr>m_AddressMap := (\<lambda>_. [])(eUTP_IP6 := [sample_node_address 4000 True])\<rparr>)) eUTP_IP6).
     m_bVerifyed w \<and> m_Port w = 4000"
  using UpdateAddress_unverified [of "(new_kad_node 0 (replicate 16 1))\<lparr>m_AddressMap := (\<lambda>_. [])(eUTP_IP6 := [sample_node_address 4000 True])\<rparr>"
      "sample_node_address 4001 False" "sample_node_address 4000 True" eUTP_IP6 9]
    addresses_ok_single [of "sample_node_address 4000 True" eUTP_IP6]
  by (auto simp: sample_node_address_def node_init_def safe_address.extend_def address.extend_def address_v6_def)

text \<open>
  \<open>Load\<close> does not keep to this: it adds every address of the variant. And an address that is put into
  the map is a copy, which has the default class and the present time, whatever the variant held.
\<close>

lemma LoadNode_three:
  "length (m_AddressMap (LoadNode c now Prot ID [a, b, d] None (new_kad_node now ID)) eUTP_IP6) = 3"
  if "m_Protocol a = eUTP_IP6" "m_Protocol b = eUTP_IP6" "m_Protocol d = eUTP_IP6"
  using that by (simp add: LoadNode_def Let_def InsertAddress_def new_kad_node_def)

lemma InsertAddress_default_class:
  "\<forall>P. \<forall>a \<in> set (m_AddressMap n P). m_iClass a = NODE_DEFAULT_CLASS \<Longrightarrow>
     \<forall>P. \<forall>a \<in> set (m_AddressMap (fold (InsertAddress now) l n) P). m_iClass a = NODE_DEFAULT_CLASS"
proof (induction l arbitrary: n)
  case (Cons a l)
  have "\<forall>P. \<forall>a \<in> set (m_AddressMap (InsertAddress now a n) P). m_iClass a = NODE_DEFAULT_CLASS"
    using Cons.prems by (simp add: InsertAddress_def Let_def)
  then show ?case using Cons.IH by simp
qed simp

end
