(* ===== verification/Routing.thy ===== *)
theory Routing
  imports KadNode QMap
begin

text \<open>
  The routing table of the Kademlia network (NeoKad/Kad/RoutingZone.cpp, RoutingBin.cpp, RoutingFork.cpp,
  RoutingRoot.cpp and their headers): a binary tree over the bits of the distance to the own identifier, whose
  leaves (bins) hold nodes. A zone is a value, the pointer to the super zone is the place of a zone in the
  tree, and \<open>Replace\<close> is the new value at this place. The own identifier is the parameter \<open>me\<close>,
  \<open>GetTime()\<close> is \<open>now\<close>, \<open>GetCurTick()\<close> is \<open>tick\<close>, and what \<open>rand()\<close> returns is a parameter. A random
  lookup is represented by its identifier. The keys of a \<open>NodeMap\<close> are the values of the identifiers.
\<close>

datatype zone =
  Bin (z_level: nat) (z_index: bytes) (z_nodes: "kad_node list") (z_lookup: "bytes option") (z_next: int)
| Fork (z_level: nat) (z_index: bytes) (z_left: zone) (z_right: zone)

type_synonym node_map = "(uint128, kad_node) qmap"

section \<open>Identifiers\<close>

definition id_distance :: "bytes \<Rightarrow> bytes \<Rightarrow> uint128" where
  "id_distance a b = idw (XorX a b)"

definition same_id :: "bytes \<Rightarrow> bytes \<Rightarrow> bool" where
  "same_id a b = (CompareTo a b = 0)"

definition goes_left :: "bytes \<Rightarrow> nat \<Rightarrow> bytes \<Rightarrow> bool" where
  "goes_left me L ID = GetBit (XorX ID me) L True"

definition index_shl :: "bytes \<Rightarrow> bytes" where
  "index_shl i = the (ShiftLeft i 1)"

definition uint_1 :: bytes where
  "uint_1 = Init_value (replicate 16 0) 1"

definition GetPrefix :: "nat \<Rightarrow> bytes \<Rightarrow> bytes option" where
  "GetPrefix L i = ShiftLeft i (GetBitSize i - L)"

definition IsDistantZone :: "kad_config \<Rightarrow> nat \<Rightarrow> bytes \<Rightarrow> bool" where
  "IsDistantZone c L i = (CompareTo i (Init_value (replicate 16 0) (of_int (ZoneLimit c))) \<ge> 0 \<and> int L \<ge> LevelLimit c)"

section \<open>Bins\<close>

definition new_bin :: "int \<Rightarrow> nat \<Rightarrow> bytes \<Rightarrow> zone" where
  "new_bin tick L i = Bin L i [] None tick"

definition GetNode_bin :: "kad_node list \<Rightarrow> bytes \<Rightarrow> kad_node option" where
  "GetNode_bin ns ID = List.find (\<lambda>n. same_id (m_ID n) ID) ns"

text \<open>The first node with the identifier is changed in place.\<close>

fun update_first :: "('a \<Rightarrow> bool) \<Rightarrow> ('a \<Rightarrow> 'a) \<Rightarrow> 'a list \<Rightarrow> 'a list" where
  "update_first P f [] = []"
| "update_first P f (x # xs) = (if P x then f x # xs else x # update_first P f xs)"

definition RemoveNode_bin :: "kad_node list \<Rightarrow> bytes \<Rightarrow> bool \<times> kad_node list" where
  "RemoveNode_bin ns ID =
     (case GetNode_bin ns ID of
        None \<Rightarrow> (False, ns)
      | Some _ \<Rightarrow> (True, remove_first (\<lambda>n. same_id (m_ID n) ID) ns))"

section \<open>Forks\<close>

definition new_fork :: "int \<Rightarrow> nat \<Rightarrow> bytes \<Rightarrow> zone" where
  "new_fork tick L i =
     (let uNewIndex = index_shl i
      in Fork L i (new_bin tick (L + 1) (AddX uNewIndex uint_1)) (new_bin tick (L + 1) uNewIndex))"

fun SetLookup :: "bytes \<Rightarrow> bytes \<Rightarrow> zone \<Rightarrow> zone" where
  "SetLookup me lk (Bin L i ns _ nx) = Bin L i ns (Some lk) nx"
| "SetLookup me lk (Fork L i l r) =
     (if goes_left me L lk then Fork L i (SetLookup me lk l) r else Fork L i l (SetLookup me lk r))"

fun CanAdd :: "kad_config \<Rightarrow> bytes \<Rightarrow> bytes \<Rightarrow> zone \<Rightarrow> bool" where
  "CanAdd c me ID (Bin L i ns lk nx) = True"
| "CanAdd c me ID (Fork L i l r) =
     (if IsDistantZone c L i then False else CanAdd c me ID (if goes_left me L ID then l else r))"

text \<open>
  \<open>AddNode\<close> and the loop over nodes of \<open>Split\<close>; \<open>None\<close> when more than \<open>f\<close> bins would be split one
  inside of the other. The result says whether the node is new.
\<close>

function AddNode :: "kad_config \<Rightarrow> int \<Rightarrow> int \<Rightarrow> bytes \<Rightarrow> nat \<Rightarrow> kad_node \<Rightarrow> zone \<Rightarrow> (bool \<times> zone) option"
and AddNodes :: "kad_config \<Rightarrow> int \<Rightarrow> int \<Rightarrow> bytes \<Rightarrow> nat \<Rightarrow> kad_node list \<Rightarrow> zone \<Rightarrow> zone option" where
  "AddNode c now tick me f n (Fork L i l r) =
     (if goes_left me L (m_ID n) then map_option (\<lambda>(b, z). (b, Fork L i z r)) (AddNode c now tick me f n l)
      else map_option (\<lambda>(b, z). (b, Fork L i l z)) (AddNode c now tick me f n r))"
| "AddNode c now tick me f n (Bin L i ns lk nx) =
     (case GetNode_bin ns (m_ID n) of
        Some _ \<Rightarrow> Some (False, Bin L i (update_first (\<lambda>m. same_id (m_ID m) (m_ID n)) (MergeNode now n) ns) lk nx)
      | None \<Rightarrow>
          if length (ns @ [n]) > BucketSize c then
            (case f of
               0 \<Rightarrow> None
             | Suc f \<Rightarrow>
                 map_option (\<lambda>z. (True, case lk of None \<Rightarrow> z | Some k \<Rightarrow> SetLookup me k z))
                   (AddNodes c now tick me f (ns @ [n]) (new_fork tick L i)))
          else Some (True, Bin L i (ns @ [n]) lk nx))"
| "AddNodes c now tick me f [] z = Some z"
| "AddNodes c now tick me f (n # ns) z =
     (case AddNode c now tick me f n z of None \<Rightarrow> None | Some (_, z) \<Rightarrow> AddNodes c now tick me f ns z)"
  by pat_completeness auto
termination
  by (relation "measures [\<lambda>x. case x of Inl (_, _, _, _, f, _) \<Rightarrow> f | Inr (_, _, _, _, f, _) \<Rightarrow> f,
      \<lambda>x. case x of Inl _ \<Rightarrow> 0 | Inr (_, _, _, _, _, ns, _) \<Rightarrow> Suc (length ns),
      \<lambda>x. case x of Inl (_, _, _, _, _, _, z) \<Rightarrow> size z | Inr _ \<Rightarrow> 0]") auto

fun RemoveNode :: "bytes \<Rightarrow> bytes \<Rightarrow> zone \<Rightarrow> bool \<times> zone" where
  "RemoveNode me ID (Fork L i l r) =
     (if goes_left me L ID then (case RemoveNode me ID l of (b, z) \<Rightarrow> (b, Fork L i z r))
      else (case RemoveNode me ID r of (b, z) \<Rightarrow> (b, Fork L i l z)))"
| "RemoveNode me ID (Bin L i ns lk nx) = (case RemoveNode_bin ns ID of (b, ns) \<Rightarrow> (b, Bin L i ns lk nx))"

fun GetNode :: "bytes \<Rightarrow> bytes \<Rightarrow> zone \<Rightarrow> kad_node option" where
  "GetNode me ID (Fork L i l r) = GetNode me ID (if goes_left me L ID then l else r)"
| "GetNode me ID (Bin L i ns lk nx) = GetNode_bin ns ID"

section \<open>The closest nodes\<close>

definition is_valid_address :: "kad_node \<Rightarrow> protocol \<Rightarrow> bool" where
  "is_valid_address n P = IsValid_safe (GetAddress 0 n P)"

definition eligible :: "protocol \<Rightarrow> int \<Rightarrow> kad_node \<Rightarrow> bool" where
  "eligible P iMaxState n =
     (if GetClass n > iMaxState then False
      else if P \<noteq> eInvalid \<and> \<not> is_valid_address n P then False
      else \<not> HasFailed n)"

definition closest_bin :: "bytes \<Rightarrow> protocol \<Rightarrow> int \<Rightarrow> nat \<Rightarrow> kad_node list \<Rightarrow> node_map \<Rightarrow> node_map" where
  "closest_bin target P iMaxState k ns results =
     take k (fold (\<lambda>n m. if eligible P iMaxState n then qm_insert (id_distance target (m_ID n)) n m else m) ns results)"

fun GetClosestNodes :: "bytes \<Rightarrow> bytes \<Rightarrow> protocol \<Rightarrow> int \<Rightarrow> nat \<Rightarrow> zone \<Rightarrow> node_map \<Rightarrow> node_map" where
  "GetClosestNodes me target P iMaxState k (Bin L i ns lk nx) results = closest_bin target P iMaxState k ns results"
| "GetClosestNodes me target P iMaxState k (Fork L i l r) results =
     (let Left = goes_left me L target;
          results = GetClosestNodes me target P iMaxState k (if Left then l else r) results
      in if length results < k then GetClosestNodes me target P iMaxState k (if Left then r else l) results
         else results)"

text \<open>\<open>Rand\<close> is the value of \<open>rand()\<close> in a bin, \<open>rnd\<close> gives it by the level and index of a zone.\<close>

definition GetRandomNode_bin :: "nat \<Rightarrow> protocol \<Rightarrow> int \<Rightarrow> kad_node list \<Rightarrow> kad_node option" where
  "GetRandomNode_bin Rand P iMaxState ns =
     map_option (\<lambda>i. ns ! ((Rand + i) mod length ns))
       (List.find (\<lambda>i. eligible P iMaxState (ns ! ((Rand + i) mod length ns))) [0..<length ns])"

fun GetRandomNode :: "(nat \<Rightarrow> bytes \<Rightarrow> nat) \<Rightarrow> protocol \<Rightarrow> int \<Rightarrow> zone \<Rightarrow> kad_node option" where
  "GetRandomNode rnd P iMaxState (Bin L i ns lk nx) = GetRandomNode_bin (rnd L i) P iMaxState ns"
| "GetRandomNode rnd P iMaxState (Fork L i l r) =
     (let Left = (rnd L i mod 2 \<noteq> 0)
      in case GetRandomNode rnd P iMaxState (if Left then l else r) of
           Some n \<Rightarrow> Some n
         | None \<Rightarrow> GetRandomNode rnd P iMaxState (if Left then r else l))"

definition GetBootstrapNodes :: "(nat \<Rightarrow> nat \<Rightarrow> bytes \<Rightarrow> nat) \<Rightarrow> bytes \<Rightarrow> protocol \<Rightarrow> nat \<Rightarrow> zone \<Rightarrow> node_map \<Rightarrow> node_map" where
  "GetBootstrapNodes rnds target P uDesiredCount z results =
     fold (\<lambda>j m. case GetRandomNode (rnds j) P NODE_DEFAULT_CLASS z of
            None \<Rightarrow> m | Some n \<Rightarrow> qm_insert (id_distance target (m_ID n)) n m) [0..<uDesiredCount] results"

section \<open>Consolidation\<close>

text \<open>The loop over a bin: \<open>MaxPurge\<close> and the nodes.\<close>

fun purge :: "(kad_node \<Rightarrow> bool) \<Rightarrow> nat \<Rightarrow> kad_node list \<Rightarrow> kad_node list" where
  "purge drops m [] = []"
| "purge drops m (n # ns) =
     (if \<not> m > 1 then n # ns
      else if drops n then purge drops (m - 1) ns
      else n # purge drops m ns)"

definition Consolidate_bin :: "kad_config \<Rightarrow> int \<Rightarrow> bool \<Rightarrow> nat \<Rightarrow> bytes \<Rightarrow> kad_node list \<Rightarrow> kad_node list" where
  "Consolidate_bin c now bCleanUp L i ns =
     purge (\<lambda>n. IsFading c now False n \<or> (IsDistantZone c L i \<and> (bCleanUp \<or> \<not> IsNeeded c now n))) ((length ns + 1) div 2) ns"

text \<open>\<open>AddNode\<close> of a bin that is not yet in the tree; it is only filled below the size of a bucket.\<close>

definition AddNode_bin :: "int \<Rightarrow> kad_node \<Rightarrow> kad_node list \<Rightarrow> kad_node list" where
  "AddNode_bin now n ns =
     (case GetNode_bin ns (m_ID n) of
        Some _ \<Rightarrow> update_first (\<lambda>m. same_id (m_ID m) (m_ID n)) (MergeNode now n) ns
      | None \<Rightarrow> ns @ [n])"

text \<open>\<open>root\<close> says that the zone has no super zone. The result is the count and the zone now at its place.\<close>

fun Consolidate :: "kad_config \<Rightarrow> int \<Rightarrow> int \<Rightarrow> bool \<Rightarrow> bool \<Rightarrow> zone \<Rightarrow> nat \<times> zone" where
  "Consolidate c now tick bCleanUp root (Bin L i ns lk nx) =
     (let ns = Consolidate_bin c now bCleanUp L i ns in (length ns, Bin L i ns lk nx))"
| "Consolidate c now tick bCleanUp root (Fork L i l r) =
     (let (lc, l) = Consolidate c now tick bCleanUp False l;
          (rc, r) = Consolidate c now tick bCleanUp False r;
          uCount = lc + rc
      in if root \<or> uCount \<ge> BucketSize c then (uCount, Fork L i l r)
         else case (l, r) of
           (Bin _ _ ln None _, Bin _ _ rn None _) \<Rightarrow>
             (uCount, Bin L i (fold (AddNode_bin now) rn (fold (AddNode_bin now) ln [])) None tick)
         | _ \<Rightarrow> (uCount, Fork L i l r))"

section \<open>The root\<close>

record routing_root =
  r_zone :: zone
  m_NodeCount :: nat

definition new_root :: "int \<Rightarrow> routing_root" where
  "new_root tick = \<lparr>r_zone = new_fork tick 0 (replicate 16 0), m_NodeCount = 0\<rparr>"

definition AddNode_root :: "kad_config \<Rightarrow> int \<Rightarrow> int \<Rightarrow> bytes \<Rightarrow> nat \<Rightarrow> kad_node \<Rightarrow> routing_root \<Rightarrow> (bool \<times> routing_root) option" where
  "AddNode_root c now tick me f n s =
     (if same_id (m_ID n) me then Some (False, s)
      else case AddNode c now tick me f n (r_zone s) of
        None \<Rightarrow> None
      | Some (new, z) \<Rightarrow> Some (True, s\<lparr>r_zone := z, m_NodeCount := m_NodeCount s + (if new then 1 else 0)\<rparr>))"

definition RemoveNode_root :: "bytes \<Rightarrow> bytes \<Rightarrow> routing_root \<Rightarrow> bool \<times> routing_root" where
  "RemoveNode_root me ID s =
     (case RemoveNode me ID (r_zone s) of
        (False, z) \<Rightarrow> (False, s\<lparr>r_zone := z\<rparr>)
      | (True, z) \<Rightarrow> (True, s\<lparr>r_zone := z, m_NodeCount := m_NodeCount s - 1\<rparr>))"

definition Consolidate_root :: "kad_config \<Rightarrow> int \<Rightarrow> int \<Rightarrow> bool \<Rightarrow> routing_root \<Rightarrow> nat \<times> routing_root" where
  "Consolidate_root c now tick bCleanUp s =
     (case Consolidate c now tick bCleanUp True (r_zone s) of (n, z) \<Rightarrow> (n, s\<lparr>r_zone := z, m_NodeCount := n\<rparr>))"

end
