(* ===== verification/RoutingSpec.thy ===== *)
theory RoutingSpec
  imports Routing "HOL-Library.Multiset"
begin

text \<open>
  Correctness of the routing tree (theory Routing): the well-formedness of a tree (\<open>zone_ok\<close>, \<open>root_ok\<close>) and the
  effect of each operation on it and on the nodes of the tree. Distances are 128 bit words, the zone of level \<open>L\<close>
  and index \<open>i\<close> holds the identifiers whose distance to the own one starts with the \<open>L\<close> bits of \<open>i\<close>.
\<close>

section \<open>Identifiers as words\<close>

lemma idw_inj: "length a = 16 \<Longrightarrow> length b = 16 \<Longrightarrow> idw a = idw b \<longleftrightarrow> a = b"
proof
  assume l: "length a = 16" "length b = 16" and e: "idw a = idw b"
  have "bit (a ! j) k = bit (b ! j) k" if "j < 16" "k < 8" for j k
  proof -
    have "(8 * j + k) div 8 = j" "(8 * j + k) mod 8 = k" "8 * j + k < 128" using that by simp_all
    then show ?thesis using arg_cong [OF e, of "\<lambda>w. bit w (8 * j + k)"] by (simp add: bit_idw l)
  qed
  then have "a ! j = b ! j" if "j < 16" for j using that by (intro bit_word_eqI) simp
  then show "a = b" using l by (intro nth_equalityI) simp_all
qed simp

lemma same_id_iff: "length a = 16 \<Longrightarrow> length b = 16 \<Longrightarrow> same_id a b \<longleftrightarrow> a = b"
  by (auto simp: same_id_def CompareTo_idw idw_inj [symmetric])

lemma id_distance_idw: "length a = 16 \<Longrightarrow> length b = 16 \<Longrightarrow> id_distance a b = idw a XOR idw b"
  by (simp add: id_distance_def bitwise_idw)

lemma length_XorX: "length a = 16 \<Longrightarrow> length (XorX a b) = 16"
  unfolding XorX_def by (rule dword_loop_words(1))

lemma goes_left_idw:
  "length me = 16 \<Longrightarrow> length ID = 16 \<Longrightarrow> goes_left me L ID = (L < 128 \<and> bit (idw ID XOR idw me) (127 - L))"
  unfolding goes_left_def GetBit_idw [OF length_XorX] by (simp add: bitwise_idw)

lemma index_shl_idw: "length i = 16 \<Longrightarrow> length (index_shl i) = 16 \<and> idw (index_shl i) = 2 * idw i"
proof -
  assume l: "length i = 16"
  obtain e where "ShiftLeft i 1 = Some e" "length e = 16" "idw e = push_bit 1 (idw i)"
    using ShiftLeft_idw [OF l, of 1] by auto
  then show ?thesis by (simp add: index_shl_def)
qed

lemma uint_1_bytes: "uint_1 = 1 # replicate 15 0"
  by code_simp

lemma uint_1_idw: "length uint_1 = 16" "idw uint_1 = 1"
proof -
  show "length uint_1 = 16" by (simp add: uint_1_bytes)
  show "idw uint_1 = 1"
  proof (rule bit_word_eqI)
    fix n assume "n < LENGTH(128)"
    then have "bit (idw uint_1) n = bit ((1 # replicate 15 0 :: bytes) ! (n div 8)) (n mod 8)"
      by (simp add: bit_idw uint_1_bytes)
    also have "\<dots> = (n = 0)"
    proof (cases "n div 8 = 0")
      case True
      then show ?thesis by (auto simp: bit_1_iff)
    next
      case False
      moreover have "n div 8 - 1 < 15" using \<open>n < LENGTH(128)\<close> by auto
      ultimately show ?thesis by (auto simp: nth_Cons')
    qed
    finally show "bit (idw uint_1) n = bit (1 :: uint128) n" by (simp add: bit_1_iff)
  qed
qed

section \<open>Zones\<close>

definition dist :: "bytes \<Rightarrow> bytes \<Rightarrow> nat" where
  "dist me ID = unat (idw ID XOR idw me)"

definition ix :: "bytes \<Rightarrow> nat" where
  "ix i = unat (idw i)"

definition in_zone :: "bytes \<Rightarrow> nat \<Rightarrow> bytes \<Rightarrow> bytes \<Rightarrow> bool" where
  "in_zone me L i ID = (length ID = 16 \<and> dist me ID div 2 ^ (128 - L) = ix i)"

lemma dist_less: "dist me ID < 2 ^ 128"
  using unat_lt2p [of "idw ID XOR idw me"] by (simp add: dist_def)

lemma goes_left_dist:
  "length me = 16 \<Longrightarrow> length ID = 16 \<Longrightarrow> L < 128 \<Longrightarrow> goes_left me L ID = odd (dist me ID div 2 ^ (127 - L))"
  unfolding goes_left_idw dist_def by (simp add: bit_unsigned_iff flip: bit_iff_odd)

lemma div_next: "(D :: nat) div 2 ^ n = 2 * (D div 2 ^ Suc n) + of_bool (odd (D div 2 ^ n))"
proof -
  have "D div 2 ^ Suc n = D div 2 ^ n div 2" by (simp only: power_Suc2 div_mult2_eq)
  then show ?thesis unfolding mod_2_eq_odd [symmetric] by (simp only: mult_div_mod_eq)
qed

lemma in_zone_child:
  assumes "length me = 16" and "in_zone me L i ID" and "L < 128"
    and "ix r = 2 * ix i" and "ix l = 2 * ix i + 1"
  shows "in_zone me (L + 1) (if goes_left me L ID then l else r) ID"
proof -
  have s: "128 - L = Suc (127 - L)" "128 - (L + 1) = 127 - L" using assms(3) by simp_all
  have ID: "length ID = 16" "dist me ID div 2 ^ Suc (127 - L) = ix i"
    using assms(2) unfolding in_zone_def s by simp_all
  have "dist me ID div 2 ^ (127 - L) = 2 * ix i + of_bool (goes_left me L ID)"
    unfolding goes_left_dist [OF assms(1) ID(1) assms(3)] ID(2) [symmetric] by (rule div_next)
  then show ?thesis using ID(1) assms(4,5) unfolding in_zone_def s by simp
qed

lemma in_zone_parent:
  assumes "in_zone me (L + 1) j ID" and "L < 128" and "ix j = 2 * ix i \<or> ix j = 2 * ix i + 1"
  shows "in_zone me L i ID"
proof -
  have s: "128 - L = Suc (127 - L)" "128 - (L + 1) = 127 - L" using assms(2) by simp_all
  have "length ID = 16" "dist me ID div 2 ^ (127 - L) = ix j" using assms(1) unfolding in_zone_def s by simp_all
  moreover have "dist me ID div 2 ^ Suc (127 - L) = dist me ID div 2 ^ (127 - L) div 2"
    by (simp only: power_Suc2 div_mult2_eq)
  ultimately show ?thesis using assms(3) unfolding in_zone_def s by auto
qed

lemma in_zone_0: "in_zone me 0 i ID = (length ID = 16 \<and> ix i = 0)"
  using dist_less [of me ID] by (auto simp: in_zone_def)

lemma in_zone_full:
  assumes "in_zone me 128 i a" and "in_zone me 128 i b"
  shows "a = b"
proof -
  have "dist me a = dist me b" and l: "length a = 16" "length b = 16" using assms by (simp_all add: in_zone_def)
  then have "idw a XOR idw me = idw b XOR idw me" by (simp only: dist_def word_unat_eq_iff)
  then have "(idw a XOR idw me) XOR idw me = (idw b XOR idw me) XOR idw me" by (rule arg_cong)
  then have "idw a = idw b" by (simp only: xor.assoc xor_self_eq xor.right_neutral)
  then show ?thesis using idw_inj [OF l] by (simp only:)
qed

fun nodes :: "zone \<Rightarrow> kad_node list" where
  "nodes (Bin L i ns lk nx) = ns"
| "nodes (Fork L i l r) = nodes l @ nodes r"

text \<open>
  The invariant: the zones have their level and index, every node is in the zone of its bin, no identifier
  occurs twice, and no bin is larger than a bucket.
\<close>

definition zone_id :: "nat \<Rightarrow> bytes \<Rightarrow> bool" where
  "zone_id L i = (L \<le> 128 \<and> length i = 16 \<and> ix i < 2 ^ L)"

fun zone_ok :: "kad_config \<Rightarrow> bytes \<Rightarrow> zone \<Rightarrow> bool" where
  "zone_ok c me (Bin L i ns lk nx) =
     (zone_id L i \<and> (\<forall>n \<in> set ns. in_zone me L i (m_ID n)) \<and> distinct (map m_ID ns) \<and> length ns \<le> BucketSize c)"
| "zone_ok c me (Fork L i l r) =
     (L < 128 \<and> zone_id L i \<and> z_level l = L + 1 \<and> z_level r = L + 1 \<and> ix (z_index r) = 2 * ix i
      \<and> ix (z_index l) = 2 * ix i + 1 \<and> zone_ok c me l \<and> zone_ok c me r)"

lemma zone_ok_id: "zone_ok c me z \<Longrightarrow> zone_id (z_level z) (z_index z)"
  by (cases z) auto

lemma nodes_in_zone: "zone_ok c me z \<Longrightarrow> n \<in> set (nodes z) \<Longrightarrow> in_zone me (z_level z) (z_index z) (m_ID n)"
proof (induction z)
  case (Fork L i l r)
  then show ?case using in_zone_parent [of me L "z_index l" "m_ID n" i] in_zone_parent [of me L "z_index r" "m_ID n" i] by auto
qed auto

lemma in_zone_unique: "in_zone me L i ID \<Longrightarrow> in_zone me L j ID \<Longrightarrow> ix i = ix j"
  by (simp add: in_zone_def)

lemma nodes_distinct: "zone_ok c me z \<Longrightarrow> distinct (map m_ID (nodes z))"
proof (induction z)
  case (Fork L i l r)
  have "m_ID a \<noteq> m_ID b" if "a \<in> set (nodes l)" "b \<in> set (nodes r)" for a b
  proof
    assume "m_ID a = m_ID b"
    moreover have "in_zone me (L + 1) (z_index l) (m_ID a)" using nodes_in_zone [of c me l a] Fork.prems that by simp
    moreover have "in_zone me (L + 1) (z_index r) (m_ID b)" using nodes_in_zone [of c me r b] Fork.prems that by simp
    ultimately have "ix (z_index l) = ix (z_index r)" using in_zone_unique [of me "L + 1" "z_index l" "m_ID a" "z_index r"] by metis
    then show False using Fork.prems by auto
  qed
  then show ?case using Fork by (auto simp: image_iff)
qed auto

lemma index_children:
  assumes "zone_id L i" and "L < 128"
  shows "zone_id (L + 1) (index_shl i)" "ix (index_shl i) = 2 * ix i"
    and "zone_id (L + 1) (AddX (index_shl i) uint_1)" "ix (AddX (index_shl i) uint_1) = 2 * ix i + 1"
proof -
  have i: "length i = 16" "ix i < 2 ^ L" using assms(1) by (simp_all add: zone_id_def)
  have "(2 :: nat) ^ L \<le> 2 ^ 127" by (rule power_increasing) (use assms(2) in simp_all)
  with i(2) have "ix i < 2 ^ 127" by (rule less_le_trans)
  then have "2 * ix i + 1 < 2 * 2 ^ 127" by linarith
  also have "2 * 2 ^ 127 = (2 :: nat) ^ LENGTH(128)" by (simp flip: power_Suc)
  finally have b: "2 * ix i + 1 < 2 ^ LENGTH(128)" .
  then have b': "2 * ix i < 2 ^ LENGTH(128)" by (rule le_less_trans [rotated]) (rule le_add1)
  have s: "length (index_shl i) = 16" "idw (index_shl i) = 2 * idw i" using index_shl_idw [OF i(1)] by simp_all
  have e: "2 * idw i = of_nat (2 * ix i)" "2 * idw i + 1 = of_nat (2 * ix i + 1)" by (simp_all add: ix_def)
  show r: "ix (index_shl i) = 2 * ix i"
    unfolding ix_def [of "index_shl i"] s(2) e(1) by (rule unat_of_nat_eq [OF b'])
  have a: "idw (AddX (index_shl i) uint_1) = 2 * idw i + 1" "length (AddX (index_shl i) uint_1) = 16"
    using AddX_idw [OF s(1) uint_1_idw(1)] s(2) uint_1_idw(2) by simp_all
  show l: "ix (AddX (index_shl i) uint_1) = 2 * ix i + 1"
    unfolding ix_def [of "AddX (index_shl i) uint_1"] a(1) e(2) by (rule unat_of_nat_eq [OF b])
  show "zone_id (L + 1) (index_shl i)" "zone_id (L + 1) (AddX (index_shl i) uint_1)"
    using assms(2) i(2) s(1) a(2) r l by (simp_all add: zone_id_def)
qed

lemma new_fork_ok:
  "zone_id L i \<Longrightarrow> L < 128 \<Longrightarrow> zone_ok c me (new_fork tick L i) \<and> nodes (new_fork tick L i) = []
     \<and> z_level (new_fork tick L i) = L \<and> z_index (new_fork tick L i) = i"
  using index_children [of L i] by (simp add: new_fork_def new_bin_def Let_def)

section \<open>Looking up\<close>

fun is_fork :: "zone \<Rightarrow> bool" where
  "is_fork (Bin L i ns lk nx) = False"
| "is_fork (Fork L i l r) = True"

definition known :: "bytes \<Rightarrow> kad_node set \<Rightarrow> bool" where
  "known ID S = (\<exists>m \<in> S. m_ID m = ID)"

lemma known_image: "known ID S \<longleftrightarrow> ID \<in> m_ID ` S"
  by (auto simp: known_def)

lemma known_simps [simp]:
  "\<not> known ID {}" "known ID (insert m S) = (m_ID m = ID \<or> known ID S)" "known ID (S \<union> T) = (known ID S \<or> known ID T)"
  by (auto simp: known_def)

definition ids_ok :: "kad_node list \<Rightarrow> bool" where
  "ids_ok ns = ((\<forall>n \<in> set ns. length (m_ID n) = 16) \<and> distinct (map m_ID ns))"

lemma ids_ok_Cons: "ids_ok (a # ns) \<longleftrightarrow> length (m_ID a) = 16 \<and> \<not> known (m_ID a) (set ns) \<and> ids_ok ns"
  by (auto simp: ids_ok_def known_image)

lemma zone_ok_ids: "zone_ok c me z \<Longrightarrow> ids_ok (nodes z)"
  using nodes_in_zone [of c me z] nodes_distinct [of c me z] by (auto simp: ids_ok_def in_zone_def)

lemma GetNode_bin_Some:
  "ids_ok ns \<Longrightarrow> length ID = 16 \<Longrightarrow> GetNode_bin ns ID = Some m \<longleftrightarrow> m \<in> set ns \<and> m_ID m = ID"
  by (induction ns) (auto simp: GetNode_bin_def ids_ok_def same_id_iff image_iff)

lemma GetNode_bin_None:
  "ids_ok ns \<Longrightarrow> length ID = 16 \<Longrightarrow> GetNode_bin ns ID = None \<longleftrightarrow> \<not> known ID (set ns)"
  using GetNode_bin_Some [of ns ID] by (cases "GetNode_bin ns ID") (auto simp: known_def)

lemma update_first_map:
  "ids_ok ns \<Longrightarrow> length ID = 16 \<Longrightarrow>
     update_first (\<lambda>m. same_id (m_ID m) ID) f ns = map (\<lambda>m. if m_ID m = ID then f m else m) ns"
proof (induction ns)
  case (Cons a ns)
  have "map (\<lambda>m. if m_ID m = ID then f m else m) ns = ns" if "m_ID a = ID"
  proof (rule map_idI)
    fix x assume "x \<in> set ns"
    then have "m_ID x \<noteq> ID" using Cons.prems that by (auto simp: ids_ok_Cons known_def)
    then show "(if m_ID x = ID then f x else x) = x" by simp
  qed
  then show ?case using Cons by (auto simp: ids_ok_def same_id_iff)
qed simp

lemma remove_first_filter:
  "ids_ok ns \<Longrightarrow> length ID = 16 \<Longrightarrow> remove_first (\<lambda>m. same_id (m_ID m) ID) ns = filter (\<lambda>m. m_ID m \<noteq> ID) ns"
proof (induction ns)
  case (Cons a ns)
  have "filter (\<lambda>m. m_ID m \<noteq> ID) ns = ns" if "m_ID a = ID"
    unfolding filter_id_conv using Cons.prems that by (auto simp: ids_ok_Cons known_def)
  then show ?case using Cons by (auto simp: ids_ok_def same_id_iff)
qed simp

lemma zone_ok_child:
  assumes "zone_ok c me (Fork L i l r)" and "length me = 16" and "in_zone me L i ID"
  shows "in_zone me (z_level (if goes_left me L ID then l else r)) (z_index (if goes_left me L ID then l else r)) ID"
    and "\<And>m. m \<in> set (nodes (if goes_left me L ID then r else l)) \<Longrightarrow> m_ID m \<noteq> ID"
proof -
  have L: "L < 128" "ix (z_index r) = 2 * ix i" "ix (z_index l) = 2 * ix i + 1" using assms(1) by simp_all
  note ch = in_zone_child [OF assms(2,3) L]
  then show z: "in_zone me (z_level (if goes_left me L ID then l else r)) (z_index (if goes_left me L ID then l else r)) ID"
    using assms(1) by (auto split: if_split_asm)
  fix m assume m: "m \<in> set (nodes (if goes_left me L ID then r else l))"
  show "m_ID m \<noteq> ID"
  proof
    assume "m_ID m = ID"
    moreover have "in_zone me (L + 1) (z_index (if goes_left me L ID then r else l)) (m_ID m)"
      using m nodes_in_zone [of c me l m] nodes_in_zone [of c me r m] assms(1) by (auto split: if_split_asm)
    ultimately have "ix (z_index (if goes_left me L ID then r else l)) = ix (if goes_left me L ID then z_index l else z_index r)"
      using ch in_zone_unique by metis
    then show False using L by (auto split: if_split_asm)
  qed
qed

lemma GetNode_Some:
  "zone_ok c me z \<Longrightarrow> length me = 16 \<Longrightarrow> in_zone me (z_level z) (z_index z) ID \<Longrightarrow>
     GetNode me ID z = Some m \<longleftrightarrow> m \<in> set (nodes z) \<and> m_ID m = ID"
proof (induction z)
  case (Bin L i ns lk nx)
  then show ?case using GetNode_bin_Some [of ns ID m] zone_ok_ids [OF Bin.prems(1)] by (simp add: in_zone_def)
next
  case (Fork L i l r)
  have z: "in_zone me L i ID" using Fork.prems by simp
  note ch = zone_ok_child [OF Fork.prems(1,2) z]
  show ?case using Fork ch by (cases "goes_left me L ID") auto
qed

lemma GetNode_None:
  "zone_ok c me z \<Longrightarrow> length me = 16 \<Longrightarrow> in_zone me (z_level z) (z_index z) ID \<Longrightarrow>
     GetNode me ID z = None \<longleftrightarrow> \<not> known ID (set (nodes z))"
  using GetNode_Some [of c me z ID] by (cases "GetNode me ID z") (auto simp: known_def)

section \<open>Adding\<close>

lemma SetLookup_simps [simp]:
  "nodes (SetLookup me lk z) = nodes z" "z_level (SetLookup me lk z) = z_level z" "z_index (SetLookup me lk z) = z_index z"
  "zone_ok c me' (SetLookup me lk z) = zone_ok c me' z" "is_fork (SetLookup me lk z) = is_fork z"
  by (induction z) auto

lemma MergeNode_ID [simp]: "m_ID (MergeNode now p n) = m_ID n"
proof -
  have "m_ID (fold (UpdateAddress now) l n) = m_ID n" for l
    by (induction l arbitrary: n) (simp_all add: UpdateAddress_def Let_def split: prod.split)
  then show ?thesis by (simp add: MergeNode_def Let_def)
qed

text \<open>The nodes after \<open>AddNode\<close>: an equal identifier is merged_node, else the node is added.\<close>

definition merged_node :: "int \<Rightarrow> kad_node \<Rightarrow> kad_node \<Rightarrow> kad_node" where
  "merged_node now n m = (if m_ID m = m_ID n then MergeNode now n m else m)"

lemma merged_ID [simp]: "m_ID (merged_node now n m) = m_ID m"
  by (simp add: merged_node_def)

definition added :: "int \<Rightarrow> kad_node \<Rightarrow> kad_node multiset \<Rightarrow> kad_node multiset" where
  "added now n M = (if known (m_ID n) (set_mset M) then image_mset (merged_node now n) M else M + {#n#})"

definition depth :: "zone \<Rightarrow> nat" where
  "depth z = (case z of Bin L _ _ _ _ \<Rightarrow> L | Fork L _ _ _ \<Rightarrow> Suc L)"

definition same_place :: "zone \<Rightarrow> zone \<Rightarrow> bool" where
  "same_place z z' = (z_level z = z_level z' \<and> z_index z = z_index z')"

lemma image_merged_id: "\<not> known (m_ID n) (set_mset M) \<Longrightarrow> image_mset (merged_node now n) M = M"
proof -
  assume "\<not> known (m_ID n) (set_mset M)"
  then have "image_mset (merged_node now n) M = image_mset id M"
    by (intro image_mset_cong) (auto simp: merged_node_def known_def)
  then show ?thesis by simp
qed

lemma AddNode_AddNodes:
  "length me = 16 \<Longrightarrow> 1 \<le> BucketSize c \<Longrightarrow> zone_ok c me z \<Longrightarrow> in_zone me (z_level z) (z_index z) (m_ID n) \<Longrightarrow>
     128 \<le> f + depth z \<Longrightarrow>
     \<exists>z'. AddNode c now tick me f n z = Some (\<not> known (m_ID n) (set (nodes z)), z') \<and> zone_ok c me z' \<and> same_place z z'
       \<and> mset (nodes z') = added now n (mset (nodes z)) \<and> (is_fork z \<longrightarrow> is_fork z')"
  "length me = 16 \<Longrightarrow> 1 \<le> BucketSize c \<Longrightarrow> zone_ok c me z \<Longrightarrow>
     (\<forall>n \<in> set ns. in_zone me (z_level z) (z_index z) (m_ID n)) \<Longrightarrow> is_fork z \<Longrightarrow>
     distinct (map m_ID ns) \<Longrightarrow> (\<forall>n \<in> set ns. \<not> known (m_ID n) (set (nodes z))) \<Longrightarrow> 128 \<le> f + depth z \<Longrightarrow>
     \<exists>z'. AddNodes c now tick me f ns z = Some z' \<and> zone_ok c me z' \<and> same_place z z'
       \<and> mset (nodes z') = mset (nodes z) + mset ns \<and> is_fork z'"
proof (induction c now tick me f n z and c now tick me f ns z rule: AddNode_AddNodes.induct)
  case (1 c now tick me f n L i l r)
  have z: "in_zone me L i (m_ID n)" using "1.prems" by simp
  note ch = zone_ok_child [OF "1.prems"(3,1) z]
  have d: "128 \<le> f + depth l" "128 \<le> f + depth r"
    using "1.prems" by (auto simp: depth_def split: zone.split)
  show ?case
  proof (cases "goes_left me L (m_ID n)")
    case True
    obtain z' where z': "AddNode c now tick me f n l = Some (\<not> known (m_ID n) (set (nodes l)), z')" "zone_ok c me z'" "same_place l z'"
      "mset (nodes z') = added now n (mset (nodes l))"
      using "1.IH"(1) [OF True] "1.prems" ch d True by auto
    have r: "\<not> known (m_ID n) (set (nodes r))" using ch(2) True by (auto simp: known_def)
    have "AddNode c now tick me f n (Fork L i l r) = Some (\<not> known (m_ID n) (set (nodes (Fork L i l r))), Fork L i z' r)"
      using True z'(1) r by simp
    moreover have "zone_ok c me (Fork L i z' r)" using z' "1.prems" by (auto simp: same_place_def)
    moreover have "mset (nodes (Fork L i z' r)) = added now n (mset (nodes (Fork L i l r)))"
      using z'(4) r image_merged_id [of n "mset (nodes r)" now] by (auto simp: added_def)
    ultimately show ?thesis by (auto simp: same_place_def)
  next
    case False
    obtain z' where z': "AddNode c now tick me f n r = Some (\<not> known (m_ID n) (set (nodes r)), z')" "zone_ok c me z'" "same_place r z'"
      "mset (nodes z') = added now n (mset (nodes r))"
      using "1.IH"(2) [OF False] "1.prems" ch d False by auto
    have l: "\<not> known (m_ID n) (set (nodes l))" using ch(2) False by (auto simp: known_def)
    have "AddNode c now tick me f n (Fork L i l r) = Some (\<not> known (m_ID n) (set (nodes (Fork L i l r))), Fork L i l z')"
      using False z'(1) l by simp
    moreover have "zone_ok c me (Fork L i l z')" using z' "1.prems" by (auto simp: same_place_def)
    moreover have "mset (nodes (Fork L i l z')) = added now n (mset (nodes (Fork L i l r)))"
      using z'(4) l image_merged_id [of n "mset (nodes l)" now] by (auto simp: added_def)
    ultimately show ?thesis by (auto simp: same_place_def)
  qed
next
  case (2 c now tick me f n L i ns lk nx)
  have l16: "length (m_ID n) = 16" using "2.prems" by (simp add: in_zone_def)
  have ok: "ids_ok ns" using zone_ok_ids [OF "2.prems"(3)] by simp
  show ?case
  proof (cases "GetNode_bin ns (m_ID n)")
    case (Some m)
    then have m: "known (m_ID n) (set ns)" using GetNode_bin_Some [OF ok l16] by (auto simp: known_def)
    have u: "update_first (\<lambda>m. same_id (m_ID m) (m_ID n)) (MergeNode now n) ns = map (merged_node now n) ns"
      unfolding update_first_map [OF ok l16] merged_node_def ..
    have "map m_ID (map (merged_node now n) ns) = map m_ID ns" by simp
    then show ?thesis
      using Some m "2.prems" by (auto simp: u same_place_def added_def simp del: map_map)
  next
    case None
    then have m: "\<not> known (m_ID n) (set ns)" using GetNode_bin_None [OF ok l16] by simp
    have ids: "ids_ok (ns @ [n])" using ok l16 m by (auto simp: ids_ok_def known_image)
    have inz: "\<forall>x \<in> set (ns @ [n]). in_zone me L i (m_ID x)" using "2.prems" by auto
    show ?thesis
    proof (cases "length (ns @ [n]) > BucketSize c")
      case False
      then show ?thesis
        using None m "2.prems" ids inz by (auto simp: same_place_def added_def ids_ok_def)
    next
      case True
      have "L < 128"
      proof (rule ccontr)
        assume "\<not> L < 128"
        then have L: "L = 128" using "2.prems" by (simp add: zone_id_def)
        have "ns \<noteq> []" using True "2.prems" by auto
        then obtain x where x: "x \<in> set ns" by (cases ns) auto
        have "m_ID x = m_ID n" by (rule in_zone_full) (use inz x L in auto)
        then show False using m x by (auto simp: known_def)
      qed
      then obtain f' where f: "f = Suc f'" using "2.prems" by (cases f) (auto simp: depth_def)
      have zi: "zone_id L i" using "2.prems" by simp
      note nf = new_fork_ok [OF zi \<open>L < 128\<close>, of c me tick]
      have "is_fork (new_fork tick L i)" by (simp add: new_fork_def Let_def)
      moreover have "128 \<le> f' + depth (new_fork tick L i)"
        using "2.prems" f by (simp add: new_fork_def Let_def depth_def)
      ultimately obtain z' where z': "AddNodes c now tick me f' (ns @ [n]) (new_fork tick L i) = Some z'" "zone_ok c me z'"
        "same_place (new_fork tick L i) z'" "mset (nodes z') = mset (ns @ [n])"
        using "2.IH" [OF None True f] nf "2.prems" inz ids by (auto simp: ids_ok_def)
      let ?z = "case lk of None \<Rightarrow> z' | Some k \<Rightarrow> SetLookup me k z'"
      have "AddNode c now tick me f n (Bin L i ns lk nx) = Some (True, ?z)"
        using None True z'(1) f by simp
      moreover have "zone_ok c me ?z" "same_place (Bin L i ns lk nx) ?z" "mset (nodes ?z) = mset ns + {#n#}"
        using z' nf by (auto simp: same_place_def split: option.split)
      ultimately show ?thesis using m by (auto simp: added_def)
    qed
  qed
next
  case (3 c now tick me f z)
  then show ?case by (simp add: same_place_def)
next
  case (4 c now tick me f n ns z)
  obtain z1 where z1: "AddNode c now tick me f n z = Some (True, z1)" "zone_ok c me z1" "same_place z z1"
    "mset (nodes z1) = mset (nodes z) + {#n#}" "is_fork z1"
    using "4.IH"(1) "4.prems" by (auto simp: added_def)
  have "set (nodes z1) = insert n (set (nodes z))" using z1(4) by (metis add_mset_add_single set_mset_add_mset_insert set_mset_mset)
  moreover have "depth z1 = depth z" using z1(3,5) "4.prems"(5) by (cases z; cases z1) (simp_all add: depth_def same_place_def)
  ultimately obtain z2 where "AddNodes c now tick me f ns z1 = Some z2" "zone_ok c me z2" "same_place z1 z2"
    "mset (nodes z2) = mset (nodes z1) + mset ns" "is_fork z2"
    using "4.IH"(2) [OF z1(1), of True z1] "4.prems" z1 by (auto simp: same_place_def)
  then show ?case using z1 by (auto simp: same_place_def)
qed

section \<open>Removing\<close>

lemma zone_ok_filter:
  "zone_ok c me (Bin L i ns lk nx) \<Longrightarrow> zone_ok c me (Bin L i (filter Q ns) lk nx)"
  by (auto simp: distinct_map_filter intro: order.trans [OF length_filter_le])

lemma RemoveNode_spec:
  "zone_ok c me z \<Longrightarrow> length me = 16 \<Longrightarrow> in_zone me (z_level z) (z_index z) ID \<Longrightarrow>
     \<exists>z'. RemoveNode me ID z = (known ID (set (nodes z)), z') \<and> zone_ok c me z' \<and> same_place z z' \<and> is_fork z' = is_fork z
       \<and> nodes z' = filter (\<lambda>m. m_ID m \<noteq> ID) (nodes z)"
proof (induction z)
  case (Bin L i ns lk nx)
  have ok: "ids_ok ns" "length ID = 16" using zone_ok_ids [OF Bin.prems(1)] Bin.prems by (simp_all add: in_zone_def)
  show ?case
  proof (cases "GetNode_bin ns ID")
    case None
    then have k: "\<not> known ID (set ns)" using GetNode_bin_None [OF ok] by simp
    then have "filter (\<lambda>m. m_ID m \<noteq> ID) ns = ns" by (auto simp: known_def filter_id_conv)
    then show ?thesis using None k Bin.prems by (simp add: RemoveNode_bin_def same_place_def)
  next
    case (Some m)
    then have k: "known ID (set ns)" using GetNode_bin_Some [OF ok] by (auto simp: known_def)
    show ?thesis
      using Some k zone_ok_filter [OF Bin.prems(1), of "\<lambda>m. m_ID m \<noteq> ID"]
      by (simp add: RemoveNode_bin_def remove_first_filter [OF ok] same_place_def)
  qed
next
  case (Fork L i l r)
  have z: "in_zone me L i ID" using Fork.prems by simp
  note ch = zone_ok_child [OF Fork.prems(1,2) z]
  show ?case
  proof (cases "goes_left me L ID")
    case True
    obtain z' where z': "RemoveNode me ID l = (known ID (set (nodes l)), z')" "zone_ok c me z'" "same_place l z'"
      "nodes z' = filter (\<lambda>m. m_ID m \<noteq> ID) (nodes l)"
      using Fork True ch by auto
    have "filter (\<lambda>m. m_ID m \<noteq> ID) (nodes r) = nodes r" "\<not> known ID (set (nodes r))"
      using ch(2) True by (auto simp: known_def filter_id_conv)
    then show ?thesis using z' True Fork.prems by (auto simp: same_place_def)
  next
    case False
    obtain z' where z': "RemoveNode me ID r = (known ID (set (nodes r)), z')" "zone_ok c me z'" "same_place r z'"
      "nodes z' = filter (\<lambda>m. m_ID m \<noteq> ID) (nodes r)"
      using Fork False ch by auto
    have "filter (\<lambda>m. m_ID m \<noteq> ID) (nodes l) = nodes l" "\<not> known ID (set (nodes l))"
      using ch(2) False by (auto simp: known_def filter_id_conv)
    then show ?thesis using z' False Fork.prems by (auto simp: same_place_def)
  qed
qed

section \<open>Consolidating\<close>

text \<open>\<open>purge\<close> leaves out nodes that are to be dropped, and keeps the others in their order.\<close>

lemma purge_subset: "set (purge d m ns) \<subseteq> set ns" "length (purge d m ns) \<le> length ns"
  "distinct (map m_ID ns) \<Longrightarrow> distinct (map m_ID (purge d m ns))" "x \<in> set ns \<Longrightarrow> \<not> d x \<Longrightarrow> x \<in> set (purge d m ns)"
proof -
  show s: "set (purge d m ns) \<subseteq> set ns" for ns m by (induction ns arbitrary: m) (auto split: if_split_asm)
  show "length (purge d m ns) \<le> length ns" by (induction ns arbitrary: m) (auto intro: le_SucI)
  show "x \<in> set ns \<Longrightarrow> \<not> d x \<Longrightarrow> x \<in> set (purge d m ns)" by (induction ns arbitrary: m) auto
  show "distinct (map m_ID ns) \<Longrightarrow> distinct (map m_ID (purge d m ns))"
  proof (induction ns arbitrary: m)
    case (Cons a ns)
    then show ?case using s [of _ ns] by (auto dest: subsetD)
  qed simp
qed

lemma fold_AddNode_bin:
  "ids_ok (ms @ ns) \<Longrightarrow> fold (AddNode_bin now) ns ms = ms @ ns"
proof (induction ns arbitrary: ms)
  case (Cons n ns)
  have "ids_ok ms" "length (m_ID n) = 16" "\<not> known (m_ID n) (set ms)"
    using Cons.prems by (auto simp: ids_ok_def known_image)
  then have "AddNode_bin now n ms = ms @ [n]" using GetNode_bin_None [of ms "m_ID n"] by (simp add: AddNode_bin_def)
  then show ?case using Cons by simp
qed simp

lemma Consolidate_bin_props:
  "set (Consolidate_bin c now b L i ns) \<subseteq> set ns" "length (Consolidate_bin c now b L i ns) \<le> length ns"
  "distinct (map m_ID ns) \<Longrightarrow> distinct (map m_ID (Consolidate_bin c now b L i ns))"
  "x \<in> set ns \<Longrightarrow> \<not> IsFading c now False x \<Longrightarrow> IsNeeded c now x \<Longrightarrow> \<not> b \<Longrightarrow> x \<in> set (Consolidate_bin c now b L i ns)"
  unfolding Consolidate_bin_def by (rule purge_subset | simp add: purge_subset)+

lemma Consolidate_Fork:
  assumes "Consolidate c now tick b rt (Fork L i l r) = (n, z')"
    and "Consolidate c now tick b False l = (lc, l')" and "Consolidate c now tick b False r = (rc, r')"
  obtains "n = lc + rc" "z' = Fork L i l' r'"
    | "n = lc + rc" "\<not> rt" "lc + rc < BucketSize c"
      "z' = Bin L i (fold (AddNode_bin now) (nodes r') (fold (AddNode_bin now) (nodes l') [])) None tick"
proof (cases "rt \<or> BucketSize c \<le> lc + rc")
  case True
  then show thesis using that(1) assms(1) unfolding Consolidate.simps Let_def assms(2,3) prod.case by simp
next
  case False
  have "(n, z') = (case (l', r') of (Bin _ _ ln None _, Bin _ _ rn None _) \<Rightarrow>
             (lc + rc, Bin L i (fold (AddNode_bin now) rn (fold (AddNode_bin now) ln [])) None tick)
         | _ \<Rightarrow> (lc + rc, Fork L i l' r'))"
    using False assms(1) unfolding Consolidate.simps Let_def assms(2,3) prod.case by simp
  then show thesis using that False by (cases l'; cases r') (simp_all split: option.split_asm)
qed

lemma Consolidate_spec:
  assumes "zone_ok c me z" and "Consolidate c now tick b rt z = (n, z')"
  shows "zone_ok c me z' \<and> same_place z z' \<and> n = length (nodes z') \<and> set (nodes z') \<subseteq> set (nodes z) \<and> (rt \<longrightarrow> is_fork z' = is_fork z)
     \<and> (\<forall>x \<in> set (nodes z). \<not> b \<and> \<not> IsFading c now False x \<and> IsNeeded c now x \<longrightarrow> x \<in> set (nodes z'))"
  using assms
proof (induction z arbitrary: n z' rt)
  case (Bin L i ns lk nx)
  let ?r = "Consolidate_bin c now b L i ns"
  note p = Consolidate_bin_props [where c = c and ns = ns and now = now and b = b and L = L and i = i]
  have "\<forall>n \<in> set ?r. in_zone me L i (m_ID n)" using subsetD [OF p(1)] Bin.prems(1) by simp
  then have "zone_ok c me (Bin L i ?r lk nx)" using Bin.prems(1) p(2,3) by simp
  moreover have "n = length ?r" "z' = Bin L i ?r lk nx" using Bin.prems(2) by (simp_all add: Let_def)
  moreover have "\<forall>x \<in> set ns. \<not> b \<and> \<not> IsFading c now False x \<and> IsNeeded c now x \<longrightarrow> x \<in> set ?r"
    using p(4) by blast
  ultimately show ?case using p(1) by (simp add: same_place_def)
next
  case (Fork L i l r)
  obtain lc l' where l: "Consolidate c now tick b False l = (lc, l')" by fastforce
  obtain rc r' where r: "Consolidate c now tick b False r = (rc, r')" by fastforce
  have L: "zone_ok c me l' \<and> same_place l l' \<and> lc = length (nodes l') \<and> set (nodes l') \<subseteq> set (nodes l)
     \<and> (\<forall>x \<in> set (nodes l). \<not> b \<and> \<not> IsFading c now False x \<and> IsNeeded c now x \<longrightarrow> x \<in> set (nodes l'))"
    using Fork.IH(1) [OF _ l] Fork.prems(1) by simp
  have R: "zone_ok c me r' \<and> same_place r r' \<and> rc = length (nodes r') \<and> set (nodes r') \<subseteq> set (nodes r)
     \<and> (\<forall>x \<in> set (nodes r). \<not> b \<and> \<not> IsFading c now False x \<and> IsNeeded c now x \<longrightarrow> x \<in> set (nodes r'))"
    using Fork.IH(2) [OF _ r] Fork.prems(1) by simp
  have F: "zone_ok c me (Fork L i l' r')" using L R Fork.prems(1) by (simp add: same_place_def)
  show ?case
    using Fork.prems(2) l r
  proof (cases rule: Consolidate_Fork)
    case 1
    then show ?thesis using L R F by (auto simp only: same_place_def zone.sel nodes.simps is_fork.simps set_append length_append)
  next
    case 2
    let ?ln = "nodes l'" and ?rn = "nodes r'"
    have ids: "ids_ok (?ln @ ?rn)" using zone_ok_ids [OF F] by simp
    then have "ids_ok ?ln" by (auto simp: ids_ok_def)
    then have m: "fold (AddNode_bin now) ?rn (fold (AddNode_bin now) ?ln []) = ?ln @ ?rn"
      using fold_AddNode_bin [of "[]" ?ln] fold_AddNode_bin [OF ids] by simp
    have "in_zone me L i (m_ID x)" if "x \<in> set (?ln @ ?rn)" for x
      using nodes_in_zone [OF F, of x] that by simp
    then have "zone_ok c me (Bin L i (?ln @ ?rn) None tick)"
      using ids F 2 L R by (auto simp: ids_ok_def)
    then show ?thesis using 2 L R unfolding m by (auto simp only: same_place_def zone.sel nodes.simps is_fork.simps set_append length_append)
  qed
qed

section \<open>The root\<close>

definition root_ok :: "kad_config \<Rightarrow> bytes \<Rightarrow> routing_root \<Rightarrow> bool" where
  "root_ok c me s =
     (length me = 16 \<and> 1 \<le> BucketSize c \<and> zone_ok c me (r_zone s) \<and> is_fork (r_zone s) \<and> z_level (r_zone s) = 0
      \<and> ix (z_index (r_zone s)) = 0 \<and> \<not> known me (set (nodes (r_zone s))) \<and> m_NodeCount s = length (nodes (r_zone s)))"

lemma root_in_zone: "root_ok c me s \<Longrightarrow> length ID = 16 \<Longrightarrow> in_zone me (z_level (r_zone s)) (z_index (r_zone s)) ID"
  by (simp add: root_ok_def in_zone_0)

lemma root_depth: "root_ok c me s \<Longrightarrow> depth (r_zone s) = 1"
  by (cases "r_zone s") (auto simp: root_ok_def depth_def)

lemma new_root_ok: "length me = 16 \<Longrightarrow> 1 \<le> BucketSize c \<Longrightarrow> root_ok c me (new_root tick)"
proof -
  assume l: "length me = 16" "1 \<le> BucketSize c"
  have "idw (replicate 16 0) = 0" by (rule bit_word_eqI) (simp add: bit_idw)
  then have "zone_id 0 (replicate 16 0)" "ix (replicate 16 0) = 0" by (simp_all add: zone_id_def ix_def)
  with new_fork_ok [of 0 "replicate 16 0" c me tick] show ?thesis
    using l by (simp add: root_ok_def new_root_def) (simp add: new_fork_def Let_def)
qed

lemma root_place: "same_place (r_zone s) z' \<Longrightarrow> root_ok c me s \<Longrightarrow> z_level z' = 0 \<and> ix (z_index z') = 0"
  by (simp add: same_place_def root_ok_def)

lemma known_set_mset: "known ID (set_mset (added now n M)) = (known ID (set_mset M) \<or> m_ID n = ID)"
  by (auto simp: added_def known_def)

lemma size_added: "size (added now n M) = size M + (if known (m_ID n) (set_mset M) then 0 else 1)"
  by (simp add: added_def)

lemma AddNode_root_spec:
  assumes "root_ok c me s" and "length (m_ID n) = 16" and "127 \<le> f"
  shows "\<exists>s'. AddNode_root c now tick me f n s = Some (m_ID n \<noteq> me, s') \<and> root_ok c me s'
     \<and> mset (nodes (r_zone s')) = (if m_ID n = me then mset (nodes (r_zone s)) else added now n (mset (nodes (r_zone s))))"
proof (cases "m_ID n = me")
  case True
  then show ?thesis using assms by (simp add: AddNode_root_def same_id_iff)
next
  case False
  note ok = assms(1) [unfolded root_ok_def]
  obtain z' where z': "AddNode c now tick me f n (r_zone s) = Some (\<not> known (m_ID n) (set (nodes (r_zone s))), z')"
    "zone_ok c me z'" "same_place (r_zone s) z'" "mset (nodes z') = added now n (mset (nodes (r_zone s)))" "is_fork z'"
    using AddNode_AddNodes(1) [of me c "r_zone s" n f now tick] ok root_in_zone [OF assms(1,2)] root_depth [OF assms(1)] assms(3)
    by auto
  have "known me (set (nodes z')) = (known me (set (nodes (r_zone s))) \<or> m_ID n = me)"
    using known_set_mset [of me now n "mset (nodes (r_zone s))"] by (simp flip: z'(4))
  moreover have "length (nodes z') = length (nodes (r_zone s)) + (if known (m_ID n) (set (nodes (r_zone s))) then 0 else 1)"
    using size_added [of now n "mset (nodes (r_zone s))"] by (simp flip: z'(4))
  ultimately show ?thesis
    using False z' ok assms(2) root_place [OF z'(3) assms(1)] by (simp add: AddNode_root_def same_id_iff root_ok_def)
qed

lemma RemoveNode_root_spec:
  assumes "root_ok c me s" and "length ID = 16"
  shows "\<exists>s'. RemoveNode_root me ID s = (known ID (set (nodes (r_zone s))), s') \<and> root_ok c me s'
     \<and> nodes (r_zone s') = filter (\<lambda>m. m_ID m \<noteq> ID) (nodes (r_zone s))"
proof -
  note ok = assms(1) [unfolded root_ok_def]
  let ?k = "known ID (set (nodes (r_zone s)))"
  obtain z' where z': "RemoveNode me ID (r_zone s) = (?k, z')" "zone_ok c me z'" "same_place (r_zone s) z'"
    "is_fork z' = is_fork (r_zone s)" "nodes z' = filter (\<lambda>m. m_ID m \<noteq> ID) (nodes (r_zone s))"
    using RemoveNode_spec [of c me "r_zone s" ID] ok root_in_zone [OF assms] by auto
  have ids: "ids_ok (nodes (r_zone s))" using zone_ok_ids [of c me "r_zone s"] ok by simp
  have len: "length (filter (\<lambda>m. m_ID m \<noteq> ID) ns) = (if known ID (set ns) then length ns - 1 else length ns)" if "ids_ok ns" for ns
    using that
  proof (induction ns)
    case (Cons a ns)
    show ?case
    proof (cases "m_ID a = ID")
      case True
      then show ?thesis using Cons by (simp add: ids_ok_Cons)
    next
      case False
      then show ?thesis using Cons by (cases ns) (auto simp: ids_ok_Cons)
    qed
  qed simp
  have "\<not> known me (set (nodes z'))" using ok z'(5) by (auto simp: known_def)
  then show ?thesis
    using z' ok len [OF ids] root_place [OF z'(3) assms(1)] by (auto simp: RemoveNode_root_def root_ok_def split: bool.split)
qed

lemma Consolidate_root_spec:
  assumes "root_ok c me s"
  shows "\<exists>s'. Consolidate_root c now tick b s = (length (nodes (r_zone s')), s') \<and> root_ok c me s'
     \<and> set (nodes (r_zone s')) \<subseteq> set (nodes (r_zone s))
     \<and> (\<forall>x \<in> set (nodes (r_zone s)). \<not> b \<and> \<not> IsFading c now False x \<and> IsNeeded c now x \<longrightarrow> x \<in> set (nodes (r_zone s')))"
proof -
  note ok = assms [unfolded root_ok_def]
  obtain n z' where z': "Consolidate c now tick b True (r_zone s) = (n, z')" by fastforce
  note sp = Consolidate_spec [OF _ z', of me]
  have "\<not> known me (set (nodes z'))" using sp ok by (auto simp: known_def)
  then show ?thesis
    using z' sp ok root_place [OF _ assms, of z'] by (simp add: Consolidate_root_def root_ok_def)
qed

end
