(* ===== verification/RoutingIter.thy ===== *)
theory RoutingIter
  imports RoutingSpec
begin

text \<open>
  The search for the closest nodes: \<open>GetClosestNodes\<close> against sorting all nodes by distance, and the iterator
  \<open>SIterator\<close> with \<open>GatherNode\<close> (RoutingFork.cpp, RoutingBin.cpp) and \<open>GetClosestNode\<close> (RoutingRoot.cpp).
\<close>

section \<open>The closest nodes\<close>

text \<open>The reference: the nodes with their distance, in ascending order of it.\<close>

definition keyed :: "bytes \<Rightarrow> kad_node list \<Rightarrow> node_map" where
  "keyed target ns = map (\<lambda>n. (id_distance target (m_ID n), n)) ns"

definition by_distance :: "bytes \<Rightarrow> kad_node list \<Rightarrow> node_map" where
  "by_distance target ns = sort_key fst (keyed target ns)"

lemma qwf_unique: "qwf m \<Longrightarrow> qwf m' \<Longrightarrow> set m = set m' \<Longrightarrow> m = m'"
proof (rule map_sorted_distinct_set_unique)
  assume w: "qwf m" "qwf m'" and s: "set m = set m'"
  show "inj_on fst (set m \<union> set m')" using qwf_distinct [OF w(1)] s by (simp add: distinct_map)
  show "sorted (map fst m)" "sorted (map fst m')" using w by (simp_all add: qwf_def strict_sorted_iff)
  show "distinct (map fst m)" "distinct (map fst m')" using w by (simp_all add: qwf_distinct)
qed

lemma set_qm_insert: "k \<notin> qkeys m \<Longrightarrow> set (qm_insert k v m) = insert (k, v) (set m)"
  by (induction k v m rule: qm_insert.induct) auto

lemma id_distance_inj:
  "length t = 16 \<Longrightarrow> length a = 16 \<Longrightarrow> length b = 16 \<Longrightarrow> id_distance t a = id_distance t b \<longleftrightarrow> a = b"
proof
  assume l: "length t = 16" "length a = 16" "length b = 16" and e: "id_distance t a = id_distance t b"
  have "idw t XOR (idw t XOR idw a) = idw t XOR (idw t XOR idw b)" using e by (simp only: id_distance_idw l)
  then have "idw a = idw b" by (simp only: xor.assoc [symmetric] xor_self_eq xor.left_neutral)
  then show "a = b" using idw_inj l by blast
qed simp

lemma keyed_distinct: "length t = 16 \<Longrightarrow> ids_ok ns \<Longrightarrow> distinct (map fst (keyed t ns))"
  by (induction ns) (auto simp: keyed_def ids_ok_Cons id_distance_inj known_def ids_ok_def)

lemma qwf_by_distance: "length t = 16 \<Longrightarrow> ids_ok ns \<Longrightarrow> qwf (by_distance t ns)"
  unfolding qwf_def strict_sorted_iff by_distance_def
  using keyed_distinct [of t ns] by (simp add: distinct_map)

lemma set_by_distance [simp]: "set (by_distance t ns) = set (keyed t ns)" "length (by_distance t ns) = length ns"
  by (simp_all add: by_distance_def keyed_def)

lemma qkeys_by_distance [simp]: "qkeys (by_distance t ns) = (\<lambda>n. id_distance t (m_ID n)) ` set ns"
  unfolding qkeys_def by (simp add: keyed_def image_image)

lemma qkeys_append: "qkeys (m @ m') = qkeys m \<union> qkeys m'"
  by (auto simp: qkeys_def)

lemma qwf_append: "qwf (m @ m') \<longleftrightarrow> qwf m \<and> qwf m' \<and> (\<forall>a \<in> qkeys m. \<forall>b \<in> qkeys m'. a < b)"
  by (induction m) (auto simp: qkeys_def)

lemma fold_closest:
  assumes "length t = 16"
  shows "ids_ok ns \<Longrightarrow> qwf R \<Longrightarrow> (\<forall>n \<in> set (filter E ns). id_distance t (m_ID n) \<notin> qkeys R) \<Longrightarrow>
    qwf (fold (\<lambda>n m. if E n then qm_insert (id_distance t (m_ID n)) n m else m) ns R)
    \<and> set (fold (\<lambda>n m. if E n then qm_insert (id_distance t (m_ID n)) n m else m) ns R) = set R \<union> set (keyed t (filter E ns))"
proof (induction ns arbitrary: R)
  case (Cons n ns)
  let ?R = "if E n then qm_insert (id_distance t (m_ID n)) n R else R"
  have "id_distance t (m_ID x) \<noteq> id_distance t (m_ID n)" if "x \<in> set ns" for x
    using id_distance_inj [OF assms, of "m_ID x" "m_ID n"] Cons.prems(1) that
    by (auto simp: ids_ok_Cons ids_ok_def known_image image_iff)
  then have "\<forall>x \<in> set (filter E ns). id_distance t (m_ID x) \<notin> qkeys ?R" using Cons.prems(3) by simp
  moreover have "qwf ?R" using Cons.prems(2) by (simp add: qwf_insert)
  moreover have "ids_ok ns" using Cons.prems(1) by (simp add: ids_ok_Cons)
  ultimately have "qwf (fold (\<lambda>n m. if E n then qm_insert (id_distance t (m_ID n)) n m else m) ns ?R)"
    "set (fold (\<lambda>n m. if E n then qm_insert (id_distance t (m_ID n)) n m else m) ns ?R) = set ?R \<union> set (keyed t (filter E ns))"
    using Cons.IH by blast+
  then show ?case using Cons.prems(3) by (auto simp: set_qm_insert keyed_def)
qed (simp add: keyed_def)

lemma ids_ok_filter: "ids_ok ns \<Longrightarrow> ids_ok (filter E ns)"
  by (auto simp: ids_ok_def distinct_map_filter)

lemma closest_bin_spec:
  assumes "length t = 16" and "ids_ok ns" and "qwf (R @ by_distance t (filter (eligible P iMaxState) ns))"
  shows "closest_bin t P iMaxState k ns R = take k (R @ by_distance t (filter (eligible P iMaxState) ns))"
proof -
  let ?E = "eligible P iMaxState"
  let ?F = "fold (\<lambda>n m. if ?E n then qm_insert (id_distance t (m_ID n)) n m else m) ns R"
  have R: "qwf R" "\<forall>a \<in> qkeys R. \<forall>n \<in> set (filter ?E ns). a < id_distance t (m_ID n)"
    using assms(3) by (simp_all add: qwf_append)
  then have "\<forall>n \<in> set (filter ?E ns). id_distance t (m_ID n) \<notin> qkeys R" by blast
  then have F: "qwf ?F \<and> set ?F = set R \<union> set (keyed t (filter ?E ns))"
    by (rule fold_closest [OF assms(1,2) R(1)])
  then have "?F = R @ by_distance t (filter ?E ns)" by (intro qwf_unique [OF _ assms(3)]) simp_all
  then show ?thesis by (simp add: closest_bin_def)
qed

text \<open>The nodes of the child on the side of the target are closer than those of the other child.\<close>

lemma distance_dist:
  assumes "length me = 16" and "length t = 16" and "length ID = 16"
  shows "unat (id_distance t ID) = dist me t XOR dist me ID"
proof -
  have "idw t XOR idw ID = (idw t XOR idw me) XOR (idw ID XOR idw me)"
    by (simp add: xor.assoc xor.left_commute [of "idw ID"] xor.commute)
  then show ?thesis by (simp add: id_distance_idw assms dist_def unsigned_xor_eq)
qed

lemma xor_last_bit: "(2 * t + of_bool b) XOR (2 * x + of_bool b) < (2 * t + of_bool b) XOR (2 * x + of_bool (\<not> b))" for t x :: nat
proof -
  have "(2 * t + of_bool b) XOR (2 * x + of_bool c) = 2 * (t XOR x) + of_bool (b \<noteq> c)" for c
    by (subst xor_rec) simp
  then show ?thesis by simp
qed

lemma near_closer:
  assumes "zone_ok c me (Fork L i l r)" and l: "length me = 16" "length t = 16"
    and n: "n \<in> set (nodes (if goes_left me L t then l else r))" and m: "m \<in> set (nodes (if goes_left me L t then r else l))"
  shows "id_distance t (m_ID n) < id_distance t (m_ID m)"
proof -
  let ?b = "goes_left me L t" and ?k = "127 - L"
  have L: "L < 128" "ix (z_index r) = 2 * ix i" "ix (z_index l) = 2 * ix i + 1" using assms(1) by simp_all
  have k: "128 - (L + 1) = ?k" "128 - L = Suc ?k" using L by simp_all
  have zn: "in_zone me (L + 1) (z_index (if ?b then l else r)) (m_ID n)" "in_zone me (L + 1) (z_index (if ?b then r else l)) (m_ID m)"
    using n m nodes_in_zone [of c me l] nodes_in_zone [of c me r] assms(1) by (auto split: if_split_asm)
  then have len: "length (m_ID n) = 16" "length (m_ID m) = 16" by (simp_all add: in_zone_def)
  have dn: "drop_bit ?k (dist me (m_ID n)) = 2 * ix i + of_bool ?b" "drop_bit ?k (dist me (m_ID m)) = 2 * ix i + of_bool (\<not> ?b)"
    using zn L unfolding in_zone_def k by (auto simp: drop_bit_eq_div)
  have T: "drop_bit ?k (dist me t) = 2 * (dist me t div 2 ^ Suc ?k) + of_bool ?b"
    unfolding goes_left_dist [OF l L(1)] drop_bit_eq_div by (rule div_next)
  have "drop_bit ?k (unat (id_distance t (m_ID n))) < drop_bit ?k (unat (id_distance t (m_ID m)))"
    unfolding distance_dist [OF l len(1)] distance_dist [OF l len(2)] drop_bit_xor dn T by (rule xor_last_bit)
  then have "unat (id_distance t (m_ID n)) < unat (id_distance t (m_ID m))"
    using div_le_mono [of _ _ "2 ^ ?k"] unfolding drop_bit_eq_div by (meson leD not_le)
  then show ?thesis by (simp add: word_less_nat_alt)
qed

lemma by_distance_fork:
  assumes "zone_ok c me (Fork L i l r)" and "length me = 16" and "length t = 16"
  shows "by_distance t (filter E (nodes (Fork L i l r))) =
    by_distance t (filter E (nodes (if goes_left me L t then l else r))) @ by_distance t (filter E (nodes (if goes_left me L t then r else l)))"
    (is "_ = by_distance t (filter E (nodes ?near)) @ by_distance t (filter E (nodes ?far))")
proof (rule qwf_unique)
  have ok: "zone_ok c me ?near" "zone_ok c me ?far" using assms(1) by simp_all
  note w = qwf_by_distance [OF assms(3) ids_ok_filter [OF zone_ok_ids]]
  show "qwf (by_distance t (filter E (nodes (Fork L i l r))))" by (rule w [OF assms(1)])
  show "qwf (by_distance t (filter E (nodes ?near)) @ by_distance t (filter E (nodes ?far)))"
    unfolding qwf_append using w [OF ok(1)] w [OF ok(2)] near_closer [OF assms] by simp
  show "set (by_distance t (filter E (nodes (Fork L i l r))))
      = set (by_distance t (filter E (nodes ?near)) @ by_distance t (filter E (nodes ?far)))"
    by (auto simp: keyed_def)
qed

lemma take_two:
  "f xs = take k (xs @ ys) \<Longrightarrow> (let q = take k xs in if length q < k then f q else q) = take k (xs @ ys)"
  by (cases "length xs < k") (simp_all add: Let_def)

lemma GetClosestNodes_spec:
  "zone_ok c me z \<Longrightarrow> length me = 16 \<Longrightarrow> length t = 16 \<Longrightarrow>
     qwf (R @ by_distance t (filter (eligible P iMaxState) (nodes z))) \<Longrightarrow>
     GetClosestNodes me t P iMaxState k z R = take k (R @ by_distance t (filter (eligible P iMaxState) (nodes z)))"
proof (induction z arbitrary: R)
  case (Bin L i ns lk nx)
  have "ids_ok ns" using zone_ok_ids [OF Bin.prems(1)] by simp
  then show ?case using closest_bin_spec [of t ns R P iMaxState k] Bin.prems by simp
next
  case (Fork L i l r)
  let ?E = "filter (eligible P iMaxState)" and ?b = "goes_left me L t"
  define near far where "near = (if ?b then l else r)" and "far = (if ?b then r else l)"
  let ?n = "by_distance t (?E (nodes near))" and ?f = "by_distance t (?E (nodes far))"
  have e: "by_distance t (?E (nodes (Fork L i l r))) = ?n @ ?f"
    using by_distance_fork [OF Fork.prems(1-3)] unfolding near_def far_def .
  note w = Fork.prems(4) [unfolded e]
  have IH: "zone_ok c me z \<Longrightarrow> qwf (R' @ by_distance t (?E (nodes z))) \<Longrightarrow>
      GetClosestNodes me t P iMaxState k z R' = take k (R' @ by_distance t (?E (nodes z)))" if "z = l \<or> z = r" for z R'
    using that Fork.IH Fork.prems(2,3) by blast
  have n: "GetClosestNodes me t P iMaxState k near R = take k (R @ ?n)"
    by (rule IH) (use Fork.prems(1) w in \<open>auto simp: near_def qwf_append qkeys_append\<close>)
  have f: "GetClosestNodes me t P iMaxState k far (R @ ?n) = take k ((R @ ?n) @ ?f)"
    by (rule IH) (use Fork.prems(1) w in \<open>auto simp: far_def\<close>)
  have "GetClosestNodes me t P iMaxState k (Fork L i l r) R =
    (let q = GetClosestNodes me t P iMaxState k near R in if length q < k then GetClosestNodes me t P iMaxState k far q else q)"
    by (simp add: Let_def near_def far_def)
  then show ?case
    using take_two [of "GetClosestNodes me t P iMaxState k far", OF f] by (simp only: n e append_assoc)
qed

section \<open>The iterator\<close>

text \<open>
  \<open>CRoutingZone::SIterator\<close>: \<open>Path\<close> holds a byte for every fork from the root down to the place reached.
  A reference to an element of it is its index: the vector reserves 31 elements and must not have more.
\<close>

definition eRight :: uint8 where "eRight = 0"
definition eLeft :: uint8 where "eLeft = 1"
definition eAux :: uint8 where "eAux = 2"

lemmas path_defs = eRight_def eLeft_def eAux_def

record iterator =
  MinNodes :: nat
  GivenNodes :: nat
  TreeDepth :: int
  Path :: "uint8 list"
  TempNodes :: node_map

definition new_route_iterator :: "nat \<Rightarrow> iterator" where
  "new_route_iterator iCount = \<lparr>MinNodes = iCount, GivenNodes = 0, TreeDepth = 0, Path = [], TempNodes = []\<rparr>"

definition goes :: "uint8 \<Rightarrow> zone \<Rightarrow> zone \<Rightarrow> zone" where
  "goes uPath l r = (if uPath AND eLeft \<noteq> 0 then l else r)"

definition wrong_path :: "uint8 \<Rightarrow> uint8" where
  "wrong_path uPath = (if uPath AND eLeft \<noteq> 0 then eRight else eLeft) OR eAux"

definition pop_path :: "iterator \<Rightarrow> bool \<times> iterator" where
  "pop_path it = (if TreeDepth it = int (length (Path it)) then (True, it\<lparr>Path := butlast (Path it)\<rparr>) else (False, it))"

text \<open>The result says whether the zone is exhausted.\<close>

fun GatherNode :: "bytes \<Rightarrow> bytes \<Rightarrow> protocol \<Rightarrow> int \<Rightarrow> zone \<Rightarrow> iterator \<Rightarrow> bool \<times> iterator" where
  "GatherNode me target P iMaxState (Bin L i ns lk nx) it =
     (True, it\<lparr>TempNodes := closest_bin target P iMaxState (2 ^ 32 - 1) ns (TempNodes it)\<rparr>)"
| "GatherNode me target P iMaxState (Fork L i l r) it =
     (let it = (if TreeDepth it = int (length (Path it))
                then it\<lparr>Path := Path it @ [if goes_left me L target then eLeft else eRight]\<rparr> else it);
          d = nat (TreeDepth it);
          uPath = Path it ! d;
          (exhausted, it) = GatherNode me target P iMaxState (if uPath AND eLeft \<noteq> 0 then l else r)
             (it\<lparr>TreeDepth := TreeDepth it + 1\<rparr>);
          (bRet, it) =
            (if \<not> exhausted then (False, it)
             else if uPath AND eAux = 0 then
               let it = it\<lparr>Path := (Path it)[d := wrong_path uPath]\<rparr>
               in if length (TempNodes it) < MinNodes it then
                    (case GatherNode me target P iMaxState (if wrong_path uPath AND eLeft \<noteq> 0 then l else r) it of
                       (exhausted, it) \<Rightarrow> if exhausted then pop_path it else (False, it))
                  else (False, it)
             else pop_path it)
      in (bRet, it\<lparr>TreeDepth := TreeDepth it - 1\<rparr>))"

text \<open>\<open>rnd\<close> is \<open>rand()\<close>, \<open>rnds\<close> that of the calls of \<open>GetRandomNode\<close>.\<close>

fun random_loop :: "(nat \<Rightarrow> nat \<Rightarrow> bytes \<Rightarrow> nat) \<Rightarrow> bytes \<Rightarrow> protocol \<Rightarrow> zone \<Rightarrow> nat list \<Rightarrow> iterator \<Rightarrow> kad_node option \<times> iterator" where
  "random_loop rnds target P z [] it = (None, it)"
| "random_loop rnds target P z (j # js) it =
     (case GetRandomNode (rnds j) P NODE_DEFAULT_CLASS z of
        None \<Rightarrow> random_loop rnds target P z js it
      | Some n \<Rightarrow>
          let uDistance = id_distance target (m_ID n)
          in if uDistance \<in> qkeys (TempNodes it) then random_loop rnds target P z js it
             else (Some n, it\<lparr>TempNodes := qm_insert uDistance n (TempNodes it)\<rparr>))"

definition GetClosestNode :: "bytes \<Rightarrow> bytes \<Rightarrow> protocol \<Rightarrow> int \<Rightarrow> nat \<Rightarrow> (nat \<Rightarrow> nat \<Rightarrow> bytes \<Rightarrow> nat) \<Rightarrow> zone \<Rightarrow> iterator
    \<Rightarrow> kad_node option \<times> iterator" where
  "GetClosestNode me target P iMaxState rnd rnds z it =
     (if MinNodes it = 0 then random_loop rnds target P z [0..<10] it
      else
        let Min = (if MinNodes it > 1 then (if MinNodes it > GivenNodes it then MinNodes it - GivenNodes it else 1)
                   else MinNodes it);
            it = (if length (TempNodes it) < MinNodes it \<and> TreeDepth it \<noteq> - 1 then
                    (let it = snd (GatherNode me target P iMaxState z it)
                     in if Path it = [] then it\<lparr>TreeDepth := - 1\<rparr> else it)
                  else it)
        in if TempNodes it = [] then (None, it)
           else
             let Index = (if Min > 1 then rnd mod length (TempNodes it) else 0)
             in (Some (snd (TempNodes it ! Index)),
                 it\<lparr>TempNodes := take Index (TempNodes it) @ drop (Suc Index) (TempNodes it), GivenNodes := GivenNodes it + 1\<rparr>))"

text \<open>Repeated calls, with the values of \<open>rand()\<close>.\<close>

fun iterate :: "(nat \<Rightarrow> iterator \<Rightarrow> 'a option \<times> iterator) \<Rightarrow> nat list \<Rightarrow> iterator \<Rightarrow> 'a option list" where
  "iterate nxt [] it = []"
| "iterate nxt (rnd # rs) it = (case nxt rnd it of (x, it) \<Rightarrow> x # iterate nxt rs it)"

section \<open>What the iterator still has to gather\<close>

fun path_ok :: "zone \<Rightarrow> uint8 list \<Rightarrow> bool" where
  "path_ok (Bin L i ns lk nx) p = (p = [])"
| "path_ok (Fork L i l r) [] = True"
| "path_ok (Fork L i l r) (b # p) = path_ok (goes b l r) p"

lemma path_ok_Nil [simp]: "path_ok z []"
  by (cases z) simp_all

lemma size_goes [simp]: "size (goes b l r) < Suc (size l + size r)"
  by (simp add: goes_def)

function todo :: "(kad_node \<Rightarrow> bool) \<Rightarrow> bytes \<Rightarrow> bytes \<Rightarrow> zone \<Rightarrow> uint8 list \<Rightarrow> node_map" where
  "todo E me t (Bin L i ns lk nx) p = by_distance t (filter E ns)"
| "todo E me t (Fork L i l r) [] =
     todo E me t (if goes_left me L t then l else r) [] @ todo E me t (if goes_left me L t then r else l) []"
| "todo E me t (Fork L i l r) (b # p) =
     todo E me t (goes b l r) p @ (if b AND eAux = 0 then todo E me t (goes (wrong_path b) l r) [] else [])"
  by pat_completeness auto
termination
  by (relation "measure (\<lambda>(E, me, t, z, p). size z)") auto

lemma todo_all:
  "zone_ok c me z \<Longrightarrow> length me = 16 \<Longrightarrow> length t = 16 \<Longrightarrow> todo E me t z [] = by_distance t (filter E (nodes z))"
proof (induction z)
  case (Fork L i l r)
  then show ?case unfolding by_distance_fork [OF Fork.prems] by simp
qed simp

lemma path_bytes: "eLeft AND eLeft \<noteq> 0" "eRight AND eLeft = 0" "eLeft AND eAux = 0" "eRight AND eAux = 0"
  "wrong_path b AND eAux \<noteq> 0" "(wrong_path b AND eLeft \<noteq> 0) = (b AND eLeft = 0)"
  unfolding wrong_path_def by (cases "b AND eLeft = 0"; simp add: path_defs)+

lemma goes_wrong: "goes (wrong_path b) l r = goes b r l"
  by (simp add: goes_def path_bytes)


lemma todo_start:
  "todo E me t (Fork L i l r) [] = todo E me t (Fork L i l r) [if goes_left me L t then eLeft else eRight]"
  by (cases "goes_left me L t") (simp_all add: goes_wrong, simp_all add: goes_def path_defs)

text \<open>The result of gathering in a zone whose path is \<open>pre\<close>: \<open>W\<close> are the nodes in stock and those left.\<close>

definition gathered :: "(kad_node \<Rightarrow> bool) \<Rightarrow> bytes \<Rightarrow> bytes \<Rightarrow> zone \<Rightarrow> uint8 list \<Rightarrow> node_map \<Rightarrow> iterator \<Rightarrow> bool \<times> iterator \<Rightarrow> bool" where
  "gathered E me t z pre W it res =
     (case res of (r, it') \<Rightarrow> MinNodes it' = MinNodes it \<and> GivenNodes it' = GivenNodes it \<and> TreeDepth it' = int (length pre) \<and>
        (if r then Path it' = pre \<and> TempNodes it' = W
         else \<exists>p. p \<noteq> [] \<and> Path it' = pre @ p \<and> path_ok z p \<and> MinNodes it \<le> length (TempNodes it')
              \<and> TempNodes it' @ todo E me t z p = W))"

lemma gathered_path: "gathered E me t z pre W (it\<lparr>Path := q\<rparr>) res = gathered E me t z pre W it res"
  by (simp add: gathered_def)

lemma gather_fork:
  fixes l r :: zone
  assumes IH: "\<And>b p pre it W. path_ok (goes b l r) p \<Longrightarrow> Path it = pre @ p \<Longrightarrow> TreeDepth it = int (length pre) \<Longrightarrow>
      W = TempNodes it @ todo (eligible P iMaxState) me t (goes b l r) p \<Longrightarrow> qwf W \<Longrightarrow> length W < 2 ^ 32 \<Longrightarrow>
      gathered (eligible P iMaxState) me t (goes b l r) pre W it (GatherNode me t P iMaxState (goes b l r) it)"
    and it: "path_ok (goes b l r) p" "Path it = pre @ b # p" "TreeDepth it = int (length pre)"
    and W: "W = TempNodes it @ todo (eligible P iMaxState) me t (Fork L i l r) (b # p)" "qwf W" "length W < 2 ^ 32"
  shows "gathered (eligible P iMaxState) me t (Fork L i l r) pre W it (GatherNode me t P iMaxState (Fork L i l r) it)"
proof -
  let ?E = "eligible P iMaxState" and ?G = "GatherNode me t P iMaxState"
  let ?w = "wrong_path b"
  define V where "V = TempNodes it @ todo ?E me t (goes b l r) p"
  have WV: "W = V @ (if b AND eAux = 0 then todo ?E me t (goes ?w l r) [] else [])" using W(1) by (simp add: V_def)
  then have V: "qwf V" "length V < 2 ^ 32" "W = V @ (if b AND eAux = 0 then todo ?E me t (goes ?w l r) [] else [])"
    using W(2,3) by (simp_all only: qwf_append length_append)
  obtain r1 it2 where g1: "?G (goes b l r) (it\<lparr>TreeDepth := TreeDepth it + 1\<rparr>) = (r1, it2)" by fastforce
  have "gathered ?E me t (goes b l r) (pre @ [b]) V (it\<lparr>TreeDepth := TreeDepth it + 1\<rparr>) (r1, it2)"
    unfolding g1 [symmetric] by (rule IH [OF it(1)]) (use it V in \<open>simp_all add: V_def\<close>)
  then have s: "MinNodes it2 = MinNodes it" "GivenNodes it2 = GivenNodes it" "TreeDepth it2 = int (length pre) + 1"
    and r1: "r1 \<Longrightarrow> Path it2 = pre @ [b] \<and> TempNodes it2 = V"
    and n1: "\<not> r1 \<Longrightarrow> \<exists>p'. Path it2 = pre @ b # p' \<and> path_ok (goes b l r) p' \<and> MinNodes it \<le> length (TempNodes it2)
       \<and> TempNodes it2 @ todo ?E me t (goes b l r) p' = V"
    by (auto simp: gathered_def)
  have G: "?G (Fork L i l r) it =
     (let (bRet, it) =
        (if \<not> r1 then (False, it2)
         else if b AND eAux = 0 then
           let it = it2\<lparr>Path := (Path it2)[length pre := ?w]\<rparr>
           in if length (TempNodes it) < MinNodes it then
                (case ?G (goes ?w l r) it of (exhausted, it) \<Rightarrow> if exhausted then pop_path it else (False, it))
              else (False, it)
         else pop_path it2)
      in (bRet, it\<lparr>TreeDepth := TreeDepth it - 1\<rparr>))"
    using it(2,3) g1 by (simp add: Let_def goes_def)
  show ?thesis
  proof (cases r1)
    case False
    then obtain p' where "Path it2 = pre @ b # p'" "path_ok (goes b l r) p'" "MinNodes it \<le> length (TempNodes it2)"
       "TempNodes it2 @ todo ?E me t (goes b l r) p' = V"
      using n1 by blast
    then show ?thesis using False s unfolding G by (auto simp: gathered_def V(3) intro!: exI [of _ "b # p'"])
  next
    case True
    note P2 = r1 [OF True]
    show ?thesis
    proof (cases "b AND eAux = 0")
      case False
      then show ?thesis using True s P2 V(3) unfolding G by (simp add: gathered_def pop_path_def)
    next
      case aux: True
      define it3 where "it3 = it2\<lparr>Path := pre @ [?w]\<rparr>"
      have P3: "it2\<lparr>Path := (Path it2)[length pre := ?w]\<rparr> = it3" using P2 by (simp add: it3_def)
      have s3: "MinNodes it3 = MinNodes it" "GivenNodes it3 = GivenNodes it" "TreeDepth it3 = int (length pre) + 1"
        "Path it3 = pre @ [?w]" "TempNodes it3 = V"
        using s P2 by (simp_all add: it3_def)
      show ?thesis
      proof (cases "length V < MinNodes it")
        case False
        then show ?thesis using True aux s3 V(3) unfolding G P3
          by (auto simp: gathered_def path_bytes intro!: exI [of _ "[?w]"])
      next
        case more: True
        obtain r2 it4 where g2: "?G (goes ?w l r) it3 = (r2, it4)" by fastforce
        have "gathered ?E me t (goes ?w l r) (pre @ [?w]) W it3 (r2, it4)"
          unfolding g2 [symmetric] by (rule IH [of ?w "[]"]) (use s3 V(3) aux W in \<open>auto simp: path_ok_Nil\<close>)
        then have m4: "MinNodes it4 = MinNodes it" "GivenNodes it4 = GivenNodes it" "TreeDepth it4 = int (length pre) + 1"
          and r2: "r2 \<Longrightarrow> Path it4 = pre @ [?w] \<and> TempNodes it4 = W"
          and n2: "\<not> r2 \<Longrightarrow> \<exists>p'. Path it4 = pre @ ?w # p' \<and> path_ok (goes ?w l r) p' \<and> MinNodes it \<le> length (TempNodes it4)
             \<and> TempNodes it4 @ todo ?E me t (goes ?w l r) p' = W"
          using s3 by (auto simp: gathered_def)
        have G2: "?G (Fork L i l r) it = (case (if r2 then pop_path it4 else (False, it4)) of (bRet, it) \<Rightarrow> (bRet, it\<lparr>TreeDepth := TreeDepth it - 1\<rparr>))"
          using True aux more s3 unfolding G P3 by (simp add: g2 Let_def)
        show ?thesis
        proof (cases r2)
          case True
          then show ?thesis using m4 r2 unfolding G2 by (simp add: gathered_def pop_path_def)
        next
          case False
          then obtain p' where "Path it4 = pre @ ?w # p'" "path_ok (goes ?w l r) p'" "MinNodes it \<le> length (TempNodes it4)"
             "TempNodes it4 @ todo ?E me t (goes ?w l r) p' = W"
            using n2 by blast
          then show ?thesis using False m4 unfolding G2 by (auto simp: gathered_def path_bytes intro!: exI [of _ "?w # p'"])
        qed
      qed
    qed
  qed
qed


lemma gather_spec:
  "zone_ok c me z \<Longrightarrow> length t = 16 \<Longrightarrow> path_ok z p \<Longrightarrow> Path it = pre @ p \<Longrightarrow> TreeDepth it = int (length pre) \<Longrightarrow>
     W = TempNodes it @ todo (eligible P iMaxState) me t z p \<Longrightarrow> qwf W \<Longrightarrow> length W < 2 ^ 32 \<Longrightarrow>
     gathered (eligible P iMaxState) me t z pre W it (GatherNode me t P iMaxState z it)"
proof (induction z arbitrary: p pre it W)
  case (Bin L i ns lk nx)
  have "ids_ok ns" using zone_ok_ids [OF Bin.prems(1)] by simp
  then have "closest_bin t P iMaxState (2 ^ 32 - 1) ns (TempNodes it) = take (2 ^ 32 - 1) W"
    using closest_bin_spec [of t ns "TempNodes it" P iMaxState "2 ^ 32 - 1"] Bin.prems by simp
  also have "\<dots> = W" using Bin.prems(8) by simp
  finally show ?case using Bin.prems by (simp add: gathered_def)
next
  case (Fork L i l r)
  let ?E = "eligible P iMaxState"
  have IH: "gathered ?E me t (goes b l r) pre W it (GatherNode me t P iMaxState (goes b l r) it)"
    if "path_ok (goes b l r) p" "Path it = pre @ p" "TreeDepth it = int (length pre)"
      "W = TempNodes it @ todo ?E me t (goes b l r) p" "qwf W" "length W < 2 ^ 32" for b p pre it W
    using Fork.IH(1) [of p it pre W] Fork.IH(2) [of p it pre W] Fork.prems(1,2) that by (cases "b AND eLeft = 0") (simp_all add: goes_def)
  show ?case
  proof (cases p)
    case (Cons b p')
    then show ?thesis using gather_fork [OF IH, where b = b and p = p' and pre = pre and it = it and W = W and L = L and i = i] Fork.prems by simp
  next
    case Nil
    let ?b = "if goes_left me L t then eLeft else eRight"
    define it' where "it' = it\<lparr>Path := Path it @ [?b]\<rparr>"
    have G: "GatherNode me t P iMaxState (Fork L i l r) it = GatherNode me t P iMaxState (Fork L i l r) it'"
      using Nil Fork.prems(4,5) by (simp add: it'_def Let_def)
    have "gathered ?E me t (Fork L i l r) pre W it' (GatherNode me t P iMaxState (Fork L i l r) it')"
      by (rule gather_fork [OF IH, where b = ?b and p = "[]"])
        (use Fork.prems Nil in \<open>simp_all add: it'_def todo_start del: todo.simps(2)\<close>)
    then show ?thesis unfolding G it'_def gathered_path .
  qed
qed

section \<open>All eligible nodes are returned\<close>

text \<open>\<open>iter_inv\<close>: the nodes in stock are followed by those left in the tree, and an ended iterator has none left.\<close>

definition iter_inv :: "(kad_node \<Rightarrow> bool) \<Rightarrow> bytes \<Rightarrow> bytes \<Rightarrow> zone \<Rightarrow> node_map \<Rightarrow> iterator \<Rightarrow> bool" where
  "iter_inv E me t z W it =
     (1 \<le> MinNodes it \<and> qwf W \<and> length W < 2 ^ 32 \<and>
      (if TreeDepth it = - 1 then W = TempNodes it
       else TreeDepth it = 0 \<and> path_ok z (Path it) \<and> W = TempNodes it @ todo E me t z (Path it)))"

lemma gather_step:
  assumes "zone_ok c me z" and "length t = 16" and "iter_inv (eligible P iMaxState) me t z W it"
  defines "it1 \<equiv> (if length (TempNodes it) < MinNodes it \<and> TreeDepth it \<noteq> - 1 then
                    (let it = snd (GatherNode me t P iMaxState z it)
                     in if Path it = [] then it\<lparr>TreeDepth := - 1\<rparr> else it)
                  else it)"
  shows "iter_inv (eligible P iMaxState) me t z W it1" "MinNodes it1 = MinNodes it" "GivenNodes it1 = GivenNodes it"
    and "TreeDepth it1 = - 1 \<or> MinNodes it \<le> length (TempNodes it1)"
proof -
  let ?E = "eligible P iMaxState"
  have "iter_inv ?E me t z W it1 \<and> MinNodes it1 = MinNodes it \<and> GivenNodes it1 = GivenNodes it
    \<and> (TreeDepth it1 = - 1 \<or> MinNodes it \<le> length (TempNodes it1))"
  proof (cases "length (TempNodes it) < MinNodes it \<and> TreeDepth it \<noteq> - 1")
    case True
    then have "TreeDepth it \<noteq> - 1" by simp
    with assms(3) have "TreeDepth it = 0 \<and> path_ok z (Path it) \<and> W = TempNodes it @ todo ?E me t z (Path it)"
      unfolding iter_inv_def by simp
    moreover have "qwf W" "length W < 2 ^ 32" "1 \<le> MinNodes it" using assms(3) unfolding iter_inv_def by blast+
    ultimately have i: "TreeDepth it = 0" "path_ok z (Path it)" "W = TempNodes it @ todo ?E me t z (Path it)" "qwf W" "length W < 2 ^ 32"
      "1 \<le> MinNodes it" by blast+
    obtain r it2 where g: "GatherNode me t P iMaxState z it = (r, it2)" by fastforce
    have "gathered ?E me t z [] W it (r, it2)"
      unfolding g [symmetric] by (rule gather_spec [OF assms(1,2) i(2) _ _ i(3,4,5)]) (use i(1) in simp_all)
    then show ?thesis using True i unfolding it1_def g by (auto simp: gathered_def iter_inv_def Let_def split: if_splits)
  next
    case False
    then show ?thesis using assms(3) unfolding it1_def by auto
  qed
  then show "iter_inv ?E me t z W it1" "MinNodes it1 = MinNodes it" "GivenNodes it1 = GivenNodes it"
    "TreeDepth it1 = - 1 \<or> MinNodes it \<le> length (TempNodes it1)" by simp_all
qed

text \<open>A call takes one of the first nodes of \<open>W\<close>, and the very first one when \<open>MinNodes\<close> is 1; it fails only when there is none.\<close>

lemma GetClosestNode_step:
  assumes "zone_ok c me z" and "length t = 16" and "iter_inv (eligible P iMaxState) me t z W it"
    and "GetClosestNode me t P iMaxState rnd rnds z it = (x, it')"
  shows "if W = [] then x = None \<and> iter_inv (eligible P iMaxState) me t z [] it' \<and> MinNodes it' = MinNodes it
    else \<exists>j < length W. (MinNodes it = 1 \<longrightarrow> j = 0) \<and> x = Some (snd (W ! j))
      \<and> iter_inv (eligible P iMaxState) me t z (take j W @ drop (Suc j) W) it' \<and> MinNodes it' = MinNodes it"
proof -
  let ?E = "eligible P iMaxState"
  define it1 where "it1 = (if length (TempNodes it) < MinNodes it \<and> TreeDepth it \<noteq> - 1 then
                    (let it = snd (GatherNode me t P iMaxState z it)
                     in if Path it = [] then it\<lparr>TreeDepth := - 1\<rparr> else it)
                  else it)"
  note st = gather_step [OF assms(1-3), folded it1_def]
  have m: "1 \<le> MinNodes it" using assms(3) by (simp add: iter_inv_def)
  define Min where "Min = (if MinNodes it > 1 then (if MinNodes it > GivenNodes it then MinNodes it - GivenNodes it else 1)
                   else MinNodes it)"
  have C: "(x, it') = (if TempNodes it1 = [] then (None, it1)
           else
             let Index = (if Min > 1 then rnd mod length (TempNodes it1) else 0)
             in (Some (snd (TempNodes it1 ! Index)),
                 it1\<lparr>TempNodes := take Index (TempNodes it1) @ drop (Suc Index) (TempNodes it1), GivenNodes := GivenNodes it1 + 1\<rparr>))"
    using assms(4) m unfolding GetClosestNode_def it1_def [symmetric] Min_def [symmetric] by (simp add: Let_def)
  show ?thesis
  proof (cases "TempNodes it1 = []")
    case True
    then have "TreeDepth it1 = - 1" using st(4) m by auto
    then have "W = []" using st(1) True by (simp add: iter_inv_def)
    then show ?thesis using C True st by simp
  next
    case False
    define j where "j = (if Min > 1 then rnd mod length (TempNodes it1) else 0)"
    have j: "j < length (TempNodes it1)" "MinNodes it = 1 \<longrightarrow> j = 0" using False by (simp_all add: j_def Min_def)
    obtain Q where Q: "W = TempNodes it1 @ Q" using st(1) by (auto simp: iter_inv_def split: if_splits)
    let ?T = "take j (TempNodes it1) @ drop (Suc j) (TempNodes it1)"
    have W': "take j W @ drop (Suc j) W = ?T @ Q" using j Q by simp
    have "qwf (?T @ Q)"
    proof -
      have "take j (TempNodes it1) @ drop j (TempNodes it1) @ Q = W" using Q by (simp flip: append_assoc)
      then have "qwf (take j (TempNodes it1) @ drop j (TempNodes it1) @ Q)" using st(1) by (simp add: iter_inv_def)
      moreover have "drop j (TempNodes it1) = (TempNodes it1 ! j) # drop (Suc j) (TempNodes it1)" using j(1) by (simp add: Cons_nth_drop_Suc)
      ultimately show ?thesis by (simp add: qwf_append qkeys_append)
    qed
    then have "iter_inv ?E me t z (?T @ Q) it'" "MinNodes it' = MinNodes it" "x = Some (snd (TempNodes it1 ! j))"
      using C False st j_def [symmetric] Q j by (auto simp: iter_inv_def Let_def split: if_splits)
    moreover have "W \<noteq> []" "j < length W" "W ! j = TempNodes it1 ! j" using Q j by (auto simp: nth_append)
    ultimately show ?thesis using j(2) W' by (auto intro!: exI [of _ j])
  qed
qed

end
