(* ===== verification/Lookup.thy ===== *)
theory Lookup
  imports RoutingIter "HOL-Library.List_Lexorder"
begin

text \<open>
  The search for nodes in the Kad network (NeoKad/Kad/KadLookup.cpp, LookupManager.cpp, the handling of an answer in
  KadHandler.cpp): a lookup asks nodes of the routing table, the closest first, for nodes closer to its target; the
  manager starts, processes and stops the lookups.
  A node is known by its object, a number for the pointer, as the map of the code is sorted by pointers; a channel is a
  number, too. The clock, the channels and the replies are arguments (\<open>lookup_env\<close>). The history of a lookup, its trace
  and its bandwidth limits are not modelled, nor are the classes derived from it.
\<close>

section \<open>Lookups\<close>

datatype lookup_state = eNoLookup | eLookupActive | eLookupFinished | eLookupClosest
datatype lookup_status = ePending | eStarted | eStopped

record node_status =
  LookupState :: lookup_state
  uTimeOut :: uint64
  pChannel :: "nat option"

record lookup =
  l_ID :: bytes
  m_TimeOut :: uint64
  m_HopLimit :: int
  m_JumpCount :: int
  m_LookupState :: lookup_state
  l_Nodes :: "(nat, node_status) qmap"
  m_ClosestNodes :: int
  m_StartTime :: uint64
  m_StopTime :: uint64
  m_Status :: lookup_status

text \<open>The configuration: times in seconds as they are stored.\<close>

record lookup_cfg =
  LookupTimeout :: int
  MaxLookupTimeout :: int
  RequestTimeOut :: int
  MaxJumpCount :: int
  MaxHopLimit :: int
  BrancheCount :: int

text \<open>
  What a call finds outside: the time, which channels are disconnected or busy, the channel \<open>PrepareChannel\<close> gives for
  a node, and whether \<open>SendNodeReq\<close> on a channel returns a number other than 0.
\<close>

record lookup_env =
  e_now :: uint64
  e_disconnected :: "nat \<Rightarrow> bool"
  e_busy :: "nat \<Rightarrow> bool"
  e_prepare :: "nat \<Rightarrow> nat option"
  e_send :: "nat \<Rightarrow> nat \<Rightarrow> bool"

definition sec2ms :: "int \<Rightarrow> int" where
  "sec2ms n = n * 1000"

definition new_lookup :: "lookup_cfg \<Rightarrow> bytes \<Rightarrow> lookup" where
  "new_lookup c ID = \<lparr>l_ID = ID, m_TimeOut = of_int (sec2ms (LookupTimeout c)), m_HopLimit = 1, m_JumpCount = 0,
     m_LookupState = eNoLookup, l_Nodes = [], m_ClosestNodes = 0, m_StartTime = 0, m_StopTime = - 1, m_Status = ePending\<rparr>"

definition new_node_status :: node_status where
  "new_node_status = \<lparr>LookupState = eNoLookup, uTimeOut = - 1, pChannel = None\<rparr>"

definition InitOperation :: "lookup \<Rightarrow> lookup" where
  "InitOperation l = (if m_HopLimit l = 1 then l\<lparr>m_LookupState := eLookupActive\<rparr> else l)"

definition Start :: "uint64 \<Rightarrow> lookup \<Rightarrow> lookup" where
  "Start now l = (InitOperation l)\<lparr>m_StartTime := now, m_Status := eStarted\<rparr>"

definition GetDuration :: "uint64 \<Rightarrow> lookup \<Rightarrow> uint64" where
  "GetDuration now l =
     (if m_StartTime l \<noteq> 0 then (if m_StopTime l \<noteq> - 1 then m_StopTime l - m_StartTime l else now - m_StartTime l) else 0)"

definition HasTimedOut :: "uint64 \<Rightarrow> lookup \<Rightarrow> bool" where
  "HasTimedOut now l = (m_TimeOut l \<noteq> - 1 \<and> GetDuration now l > m_TimeOut l)"

definition GetTimeRemaining :: "uint64 \<Rightarrow> lookup \<Rightarrow> uint64" where
  "GetTimeRemaining now l =
     (let uUpTime = GetDuration now l in if m_TimeOut l \<noteq> - 1 \<and> m_TimeOut l > uUpTime then m_TimeOut l - uUpTime else 0)"

definition StoppedSince :: "uint64 \<Rightarrow> lookup \<Rightarrow> uint64" where
  "StoppedSince now l = (if m_Status l = eStopped then now - m_StopTime l else 0)"

definition SetTimeOut_lookup :: "lookup_cfg \<Rightarrow> uint64 \<Rightarrow> int \<Rightarrow> bool \<Rightarrow> lookup \<Rightarrow> lookup" where
  "SetTimeOut_lookup c now n bFromNow l =
     (let l = l\<lparr>m_TimeOut := of_int (min n (sec2ms (MaxLookupTimeout c)))\<rparr>
      in if bFromNow then l\<lparr>m_TimeOut := m_TimeOut l + GetDuration now l\<rparr> else l)"

definition SetJumpCount :: "lookup_cfg \<Rightarrow> int \<Rightarrow> lookup \<Rightarrow> lookup" where
  "SetJumpCount c n l = l\<lparr>m_JumpCount := min n (MaxJumpCount c)\<rparr>"

definition SetHopLimit :: "lookup_cfg \<Rightarrow> int \<Rightarrow> lookup \<Rightarrow> lookup" where
  "SetHopLimit c n l = l\<lparr>m_HopLimit := min n (MaxHopLimit c)\<rparr>"

definition ReadyToStop :: "uint64 \<Rightarrow> lookup \<Rightarrow> bool" where
  "ReadyToStop now l = (HasTimedOut now l \<or> m_LookupState l \<noteq> eLookupActive)"

definition PrepareStop :: "lookup_cfg \<Rightarrow> uint64 \<Rightarrow> lookup \<Rightarrow> lookup" where
  "PrepareStop c now l = l\<lparr>m_StopTime := now + of_int (sec2ms (RequestTimeOut c))\<rparr>"

definition CachesEmpty :: "lookup_env \<Rightarrow> lookup \<Rightarrow> bool" where
  "CachesEmpty e l = list_all (\<lambda>(p, st). case pChannel st of None \<Rightarrow> True | Some ch \<Rightarrow> \<not> e_busy e ch) (l_Nodes l)"

definition CleanUpNodes :: "lookup \<Rightarrow> lookup" where
  "CleanUpNodes l = l\<lparr>l_Nodes := [], m_ClosestNodes := 0\<rparr>"

definition Stop :: "uint64 \<Rightarrow> lookup \<Rightarrow> lookup" where
  "Stop now l = (CleanUpNodes l)\<lparr>m_StopTime := now, m_Status := eStopped\<rparr>"

section \<open>Asking nodes\<close>

definition GetStatus :: "nat \<Rightarrow> lookup \<Rightarrow> node_status option" where
  "GetStatus p l = map_of (l_Nodes l) p"

definition WasNodeUsed :: "nat \<Rightarrow> lookup \<Rightarrow> bool" where
  "WasNodeUsed p l = (case GetStatus p l of None \<Rightarrow> False | Some st \<Rightarrow> LookupState st \<noteq> eNoLookup)"

definition GetChannel :: "lookup_env \<Rightarrow> nat \<Rightarrow> lookup \<Rightarrow> nat option \<times> lookup" where
  "GetChannel e p l =
     (let l = (if GetStatus p l = None then l\<lparr>l_Nodes := qm_insert p new_node_status (l_Nodes l)\<rparr> else l);
          st = qm_value (l_Nodes l) new_node_status p
      in case pChannel st of
           Some ch \<Rightarrow> (Some ch, l)
         | None \<Rightarrow> (e_prepare e p, l\<lparr>l_Nodes := qm_insert p (st\<lparr>pChannel := e_prepare e p\<rparr>) (l_Nodes l)\<rparr>))"

definition RequestNodes :: "lookup_cfg \<Rightarrow> lookup_env \<Rightarrow> nat \<Rightarrow> nat option \<Rightarrow> lookup \<Rightarrow> bool \<times> lookup" where
  "RequestNodes c e p pCh l =
     (case (GetStatus p l, pCh) of
        (Some st, Some ch) \<Rightarrow>
          if uTimeOut st \<noteq> - 1 then (False, l)
          else if \<not> e_send e p ch then (False, l)
          else (True, l\<lparr>l_Nodes := qm_insert p (st\<lparr>LookupState := eLookupActive,
                          uTimeOut := e_now e + of_int (sec2ms (RequestTimeOut c))\<rparr>) (l_Nodes l)\<rparr>)
      | _ \<Rightarrow> (False, l))"

definition OnCloserNodes :: "nat \<Rightarrow> int \<Rightarrow> lookup \<Rightarrow> bool \<times> lookup" where
  "OnCloserNodes p CloserCount l =
     (case GetStatus p l of
        None \<Rightarrow> (False, l)
      | Some st \<Rightarrow>
          let st = st\<lparr>uTimeOut := - 1\<rparr>;
              (st, l) = (if CloserCount > 0 then (st\<lparr>LookupState := eLookupFinished\<rparr>, l)
                         else if LookupState st \<noteq> eLookupClosest
                         then (st\<lparr>LookupState := eLookupClosest\<rparr>, l\<lparr>m_ClosestNodes := m_ClosestNodes l + 1\<rparr>)
                         else (st, l))
          in (CloserCount = 0, l\<lparr>l_Nodes := qm_insert p st (l_Nodes l)\<rparr>))"

text \<open>
  The first loop of \<open>Process\<close>, over the open channels: the nodes that are left, the number of active ones, the closest
  ones that are lost, and the nodes whose channel failed (\<open>IncrFailed\<close> is called for them).
\<close>

definition check_node :: "lookup_env \<Rightarrow> node_status \<Rightarrow> node_status \<times> bool \<times> bool \<times> bool" where
  "check_node e st =
     (case pChannel st of
        None \<Rightarrow> (st, False, False, False)
      | Some ch \<Rightarrow>
          if e_disconnected e ch then (st\<lparr>pChannel := None\<rparr>, False, LookupState st = eLookupClosest, True)
          else if uTimeOut st < e_now e then ((if uTimeOut st \<noteq> 0 then st\<lparr>uTimeOut := 0\<rparr> else st), False, False, False)
          else (st, LookupState st = eLookupActive, False, False))"

fun check_nodes :: "lookup_env \<Rightarrow> (nat, node_status) qmap \<Rightarrow> (nat, node_status) qmap \<times> int \<times> int \<times> nat list" where
  "check_nodes e [] = ([], 0, 0, [])"
| "check_nodes e ((p, st) # m) =
     (case (check_node e st, check_nodes e m) of
        ((st, active, lost, failed), (m, a, k, fs)) \<Rightarrow>
          ((p, st) # m, (if active then a + 1 else a), (if lost then k + 1 else k), (if failed then p # fs else fs)))"

text \<open>The second loop, over the nodes of the routing table as its iterator returns them.\<close>

fun ask_loop :: "lookup_cfg \<Rightarrow> lookup_env \<Rightarrow> nat list \<Rightarrow> int \<Rightarrow> int \<Rightarrow> lookup \<Rightarrow> int \<times> lookup" where
  "ask_loop c e [] ask active l = (active, l)"
| "ask_loop c e (p # ps) ask active l =
     (if ask > 0 then
        if WasNodeUsed p l then ask_loop c e ps ask active l
        else
          (case GetChannel e p l of
             (ch, l) \<Rightarrow>
               (case RequestNodes c e p ch l of
                  (True, l) \<Rightarrow> ask_loop c e ps (ask - 1) (active + 1) l
                | (False, l) \<Rightarrow> ask_loop c e ps ask active l))
      else (active, l))"

text \<open>A call of \<open>Process\<close> at a tick of its ten per second, with the nodes whose channel failed.\<close>

definition Process_lookup :: "lookup_cfg \<Rightarrow> lookup_env \<Rightarrow> nat list \<Rightarrow> lookup \<Rightarrow> nat list \<times> lookup" where
  "Process_lookup c e ps l =
     (case check_nodes e (l_Nodes l) of
        (m, active, lost, failed) \<Rightarrow>
          let l = l\<lparr>l_Nodes := m, m_ClosestNodes := m_ClosestNodes l - lost\<rparr>
          in if m_LookupState l \<noteq> eLookupActive then (failed, l)
             else
               let ask = BrancheCount c - min (BrancheCount c) (active + m_ClosestNodes l);
                   (active, l) = ask_loop c e ps ask active l
               in (failed, if active = 0 then l\<lparr>m_LookupState := eLookupFinished\<rparr> else l))"

text \<open>The nodes of the table in the order of the iterator of the second loop, by their objects.\<close>

definition route_order :: "(bytes \<Rightarrow> nat) \<Rightarrow> bytes \<Rightarrow> bytes \<Rightarrow> zone \<Rightarrow> nat list" where
  "route_order obj me ID z =
     map (\<lambda>x. obj (m_ID (the x)))
       (takeWhile (\<lambda>x. x \<noteq> None)
         (iterate (\<lambda>rnd. GetClosestNode me ID eInvalid NODE_DEFAULT_CLASS rnd (\<lambda>_ _ _. 0) z) (replicate (Suc (length (nodes z))) 0)
           (new_route_iterator 1)))"

section \<open>Answers\<close>

text \<open>\<open>CLookupManager::AddNodes\<close>: the nodes of an answer by their distance, and the channel of the node that answered.\<close>

fun count_closer :: "lookup_cfg \<Rightarrow> lookup_env \<Rightarrow> nat option \<Rightarrow> uint128 \<Rightarrow> (uint128 \<times> nat) list \<Rightarrow> int \<Rightarrow> lookup \<Rightarrow> int \<times> lookup" where
  "count_closer c e ch uDistance [] n l = (n, l)"
| "count_closer c e ch uDistance ((d, p) # fs) n l =
     (if d \<ge> uDistance then count_closer c e ch uDistance fs n l
      else if WasNodeUsed p l then count_closer c e ch uDistance fs n l
      else if n > 0 then count_closer c e ch uDistance fs (n + 1) l
      else
        (case RequestNodes c e p ch l of
           (True, l) \<Rightarrow> count_closer c e ch uDistance fs (n + 1) l
         | (False, l) \<Rightarrow> count_closer c e ch uDistance fs n l))"

definition AddNodes_manager :: "lookup_cfg \<Rightarrow> lookup_env \<Rightarrow> bytes \<Rightarrow> nat \<Rightarrow> nat option \<Rightarrow> (uint128 \<times> nat) list \<Rightarrow> lookup \<Rightarrow> lookup" where
  "AddNodes_manager c e ID p ch found l =
     (case count_closer c e ch (id_distance (l_ID l) ID) found 0 l of
        (n, l) \<Rightarrow> snd (OnCloserNodes p n l))"

section \<open>The manager\<close>

text \<open>\<open>CVariant\<close> identifiers of lookups are bytes. A lookup that stopped goes when no time has to pass before, as for a plain
  lookup.\<close>

record manager_state =
  lm_Map :: "(bytes, lookup) qmap"
  lm_Count :: uint16

definition new_manager :: manager_state where
  "new_manager = \<lparr>lm_Map = [], lm_Count = 0\<rparr>"

definition StartLookup_manager :: "uint64 \<Rightarrow> bytes \<Rightarrow> lookup \<Rightarrow> manager_state \<Rightarrow> manager_state" where
  "StartLookup_manager now LookupID l M =
     M\<lparr>lm_Map := (if LookupID \<in> qkeys (lm_Map M) then lm_Map M else qm_insert LookupID (Start now l) (lm_Map M)),
       lm_Count := lm_Count M + 1\<rparr>"

definition StopLookup_manager :: "bytes \<Rightarrow> manager_state \<Rightarrow> manager_state" where
  "StopLookup_manager LookupID M =
     M\<lparr>lm_Map := qm_erase LookupID (lm_Map M), lm_Count := lm_Count M - 1\<rparr>"

text \<open>A round for one lookup; \<open>None\<close>: it is erased. \<open>bTick5\<close> is every five seconds, \<open>bTick10\<close> ten times a second.\<close>

definition manage :: "lookup_cfg \<Rightarrow> lookup_env \<Rightarrow> (bytes \<Rightarrow> nat list) \<Rightarrow> bool \<Rightarrow> bool \<Rightarrow> lookup \<Rightarrow> nat list \<times> lookup option" where
  "manage c e order bTick5 bTick10 l =
     (if bTick5 \<and> StoppedSince (e_now e) l > 0 then ([], None)
      else if m_Status l \<noteq> eStarted then ([], Some l)
      else if m_StopTime l \<noteq> - 1 then ([], Some (if CachesEmpty e l then Stop (e_now e) l else l))
      else if ReadyToStop (e_now e) l then ([], Some (PrepareStop c (e_now e) l))
      else if bTick10 then (case Process_lookup c e (order (l_ID l)) l of (failed, l) \<Rightarrow> (failed, Some l))
      else ([], Some l))"

fun manage_all :: "lookup_cfg \<Rightarrow> lookup_env \<Rightarrow> (bytes \<Rightarrow> nat list) \<Rightarrow> bool \<Rightarrow> bool \<Rightarrow> (bytes, lookup) qmap \<Rightarrow> nat list \<times> (bytes, lookup) qmap" where
  "manage_all c e order bTick5 bTick10 [] = ([], [])"
| "manage_all c e order bTick5 bTick10 ((i, l) # m) =
     (case (manage c e order bTick5 bTick10 l, manage_all c e order bTick5 bTick10 m) of
        ((f, r), (fs, m)) \<Rightarrow> (f @ fs, (case r of None \<Rightarrow> m | Some l \<Rightarrow> (i, l) # m)))"

definition Process_manager :: "lookup_cfg \<Rightarrow> lookup_env \<Rightarrow> (bytes \<Rightarrow> nat list) \<Rightarrow> bool \<Rightarrow> bool \<Rightarrow> manager_state \<Rightarrow> nat list \<times> manager_state" where
  "Process_manager c e order bTick5 bTick10 M =
     (case manage_all c e order bTick5 bTick10 (lm_Map M) of (failed, m) \<Rightarrow> (failed, M\<lparr>lm_Map := m\<rparr>))"

end
