(* ===== verification/LookupSpec.thy ===== *)
theory LookupSpec
  imports Lookup
begin

text \<open>
  Correctness of the lookups (theory Lookup): what the loops of \<open>Process\<close> and an answer do to the nodes of a lookup,
  that every lookup comes to its end, and which nodes a lookup asks when nothing fails.
\<close>

section \<open>The nodes of a lookup\<close>

definition used_nodes :: "lookup \<Rightarrow> nat set" where
  "used_nodes l = {p. WasNodeUsed p l}"

text \<open>The nodes are a sorted map, and every node that is waited for will have timed out after \<open>B\<close>.\<close>

definition all_due :: "nat \<Rightarrow> (nat, node_status) qmap \<Rightarrow> bool" where
  "all_due B m = (qwf m \<and> (\<forall>p st. map_of m p = Some st \<longrightarrow> LookupState st = eLookupActive \<longrightarrow> unat (uTimeOut st) \<le> B))"

definition wait :: "lookup_cfg \<Rightarrow> nat" where
  "wait c = nat (sec2ms (RequestTimeOut c))"

definition in_time :: "lookup_cfg \<Rightarrow> uint64 \<Rightarrow> bool" where
  "in_time c now = (0 \<le> RequestTimeOut c \<and> unat now + wait c < 2 ^ 64 - 1)"

lemma request_time: "in_time c now \<Longrightarrow> unat (now + of_int (sec2ms (RequestTimeOut c))) = unat now + wait c"
proof -
  assume a: "in_time c now"
  then have "sec2ms (RequestTimeOut c) = int (wait c)" by (simp add: wait_def in_time_def sec2ms_def)
  then have w: "(of_int (sec2ms (RequestTimeOut c)) :: uint64) = of_nat (wait c)" by simp
  have u: "unat (of_nat (wait c) :: uint64) = wait c" using a by (intro unat_of_nat_eq) (simp add: in_time_def)
  show ?thesis unfolding w using a u by (subst unat_add_lem [THEN iffD1]) (simp_all add: in_time_def)
qed

lemma WasNodeUsed_iff: "WasNodeUsed p l \<longleftrightarrow> (\<exists>st. map_of (l_Nodes l) p = Some st \<and> LookupState st \<noteq> eNoLookup)"
  by (cases "map_of (l_Nodes l) p") (simp_all add: WasNodeUsed_def GetStatus_def del: map_of_dom)

text \<open>What a request does.\<close>

lemma RequestNodes_False: "RequestNodes c e p ch l = (False, l') \<Longrightarrow> l' = l"
  by (auto simp: RequestNodes_def split: option.split_asm if_split_asm)

lemma RequestNodes_True:
  assumes "RequestNodes c e p ch l = (True, l')"
  obtains st where "map_of (l_Nodes l) p = Some st"
    and "l' = l\<lparr>l_Nodes := qm_insert p (st\<lparr>LookupState := eLookupActive, uTimeOut := e_now e + of_int (sec2ms (RequestTimeOut c))\<rparr>) (l_Nodes l)\<rparr>"
  using assms by (auto simp: RequestNodes_def GetStatus_def split: option.split_asm if_split_asm)

lemma GetChannel_effect:
  assumes "GetChannel e p l = (ch, l')"
  obtains st m where "l' = l\<lparr>l_Nodes := m\<rparr>" and "map_of m = (map_of (l_Nodes l))(p \<mapsto> st)" and "pChannel st = ch"
    and "qwf (l_Nodes l) \<longrightarrow> qwf m"
    and "case map_of (l_Nodes l) p of None \<Rightarrow> LookupState st = eNoLookup \<and> uTimeOut st = - 1 \<and> ch = e_prepare e p
       | Some st' \<Rightarrow> LookupState st = LookupState st' \<and> uTimeOut st = uTimeOut st'"
proof (cases "map_of (l_Nodes l) p")
  case None
  let ?st = "new_node_status\<lparr>pChannel := e_prepare e p\<rparr>"
  let ?m = "qm_insert p ?st (qm_insert p new_node_status (l_Nodes l))"
  have n: "p \<notin> qkeys (l_Nodes l)" using None by simp
  have e: "l' = l\<lparr>l_Nodes := ?m\<rparr>" "ch = e_prepare e p"
    using assms n by (auto simp: GetChannel_def GetStatus_def Let_def qm_value_def map_of_insert new_node_status_def)
  show thesis
  proof (rule that [of ?m ?st])
    show "case map_of (l_Nodes l) p of None \<Rightarrow> LookupState ?st = eNoLookup \<and> uTimeOut ?st = - 1 \<and> ch = e_prepare e p
       | Some st' \<Rightarrow> LookupState ?st = LookupState st' \<and> uTimeOut ?st = uTimeOut st'"
      unfolding None e(2) by (simp add: new_node_status_def)
  qed (use e in \<open>simp_all add: map_of_insert qwf_insert\<close>)
next
  case (Some st')
  then have k: "p \<in> qkeys (l_Nodes l)" by (rule Some_qkeys)
  show thesis
  proof (cases "pChannel st'")
    case None
    then show thesis using that [of "l_Nodes l'" "st'\<lparr>pChannel := e_prepare e p\<rparr>"] assms Some k
      by (auto simp: GetChannel_def GetStatus_def Let_def qm_value_def map_of_insert qwf_insert)
  next
    case (Some c)
    then have "l' = l" "ch = Some c" using assms k \<open>map_of (l_Nodes l) p = Some st'\<close> by (auto simp: GetChannel_def GetStatus_def Let_def qm_value_def)
    then show thesis using that [of "l_Nodes l" st'] Some \<open>map_of (l_Nodes l) p = Some st'\<close> by (auto simp: fun_upd_idem)
  qed
qed

lemma GetChannel_same:
  assumes "GetChannel e p l = (ch, l')"
  shows "used_nodes l' = used_nodes l" "all_due B (l_Nodes l) \<Longrightarrow> all_due B (l_Nodes l')" "m_LookupState l' = m_LookupState l"
proof -
  obtain st m where l: "l' = l\<lparr>l_Nodes := m\<rparr>" "map_of m = (map_of (l_Nodes l))(p \<mapsto> st)"
    "qwf (l_Nodes l) \<longrightarrow> qwf m" "case map_of (l_Nodes l) p of None \<Rightarrow> LookupState st = eNoLookup \<and> uTimeOut st = - 1 \<and> ch = e_prepare e p
       | Some st' \<Rightarrow> LookupState st = LookupState st' \<and> uTimeOut st = uTimeOut st'"
    by (rule GetChannel_effect [OF assms])
  have st: "LookupState st \<noteq> eNoLookup \<longleftrightarrow> WasNodeUsed p l" "all_due B (l_Nodes l) \<Longrightarrow> LookupState st = eLookupActive \<Longrightarrow> unat (uTimeOut st) \<le> B"
    using l(4) by (cases "map_of (l_Nodes l) p"; simp add: WasNodeUsed_iff all_due_def del: map_of_dom)+
  have u: "WasNodeUsed q l' \<longleftrightarrow> WasNodeUsed q l" for q
    using st(1) by (cases "q = p") (simp_all add: WasNodeUsed_iff l(1,2))
  show "used_nodes l' = used_nodes l" by (simp add: used_nodes_def u)
  show "all_due B (l_Nodes l) \<Longrightarrow> all_due B (l_Nodes l')" using st(2) l(3) by (auto simp: all_due_def l(1,2))
  show "m_LookupState l' = m_LookupState l" using l(1) by simp
qed

lemma RequestNodes_step:
  assumes "RequestNodes c e p ch l = (True, l')" and "in_time c (e_now e)"
  shows "used_nodes l' = insert p (used_nodes l)" "all_due B (l_Nodes l) \<Longrightarrow> all_due (max B (unat (e_now e) + wait c)) (l_Nodes l')"
    "m_LookupState l' = m_LookupState l"
proof -
  obtain st where l: "map_of (l_Nodes l) p = Some st"
    "l' = l\<lparr>l_Nodes := qm_insert p (st\<lparr>LookupState := eLookupActive, uTimeOut := e_now e + of_int (sec2ms (RequestTimeOut c))\<rparr>) (l_Nodes l)\<rparr>"
    by (rule RequestNodes_True [OF assms(1)])
  show "used_nodes l' = insert p (used_nodes l)" using l by (auto simp: used_nodes_def WasNodeUsed_iff map_of_insert)
  show "all_due B (l_Nodes l) \<Longrightarrow> all_due (max B (unat (e_now e) + wait c)) (l_Nodes l')"
    using l request_time [OF assms(2)] by (auto simp: all_due_def map_of_insert qwf_insert max_def intro: le_trans)
  show "m_LookupState l' = m_LookupState l" using l by simp
qed

lemma all_due_mono: "all_due B m \<Longrightarrow> B \<le> B' \<Longrightarrow> all_due B' m"
  by (auto simp: all_due_def intro: le_trans)

section \<open>The second loop\<close>

lemma ask_loop_spec:
  assumes "ask_loop c e ps ask active l = (active', l')" and "in_time c (e_now e)" and "all_due B (l_Nodes l)"
    and "finite U" and "set ps \<subseteq> U"
  shows "active \<le> active' \<and> used_nodes l \<subseteq> used_nodes l' \<and> all_due (max B (unat (e_now e) + wait c)) (l_Nodes l')
    \<and> (active' = active \<longrightarrow> all_due B (l_Nodes l')) \<and> m_LookupState l' = m_LookupState l
    \<and> int (card (U - used_nodes l')) + (active' - active) \<le> int (card (U - used_nodes l))"
  using assms(1,3,5)
proof (induction ps arbitrary: ask active l B)
  case Nil
  then show ?case by (auto elim: all_due_mono)
next
  case (Cons p ps)
  show ?case
  proof (cases "ask > 0 \<and> \<not> WasNodeUsed p l")
    case False
    then show ?thesis using Cons by (auto split: if_split_asm elim: all_due_mono)
  next
    case True
    obtain ch l1 where g: "GetChannel e p l = (ch, l1)" by fastforce
    note G = GetChannel_same [OF g]
    obtain b l2 where r: "RequestNodes c e p ch l1 = (b, l2)" by fastforce
    show ?thesis
    proof (cases b)
      case False
      then have "l2 = l1" using RequestNodes_False [of c e p ch l1 l2] r by simp
      then show ?thesis using Cons.IH [of ask active l1 B] Cons.prems True False g r G(1,3) G(2) [OF Cons.prems(2)] by simp
    next
      case b: True
      have r': "RequestNodes c e p ch l1 = (True, l2)" using r b by simp
      note R = RequestNodes_step [OF r' assms(2)]
      note d = R(2) [OF G(2) [OF Cons.prems(2)]]
      have e: "ask_loop c e ps (ask - 1) (active + 1) l2 = (active', l')" using Cons.prems(1) True g r b by simp
      have I: "active + 1 \<le> active' \<and> used_nodes l2 \<subseteq> used_nodes l' \<and> all_due (max B (unat (e_now e) + wait c)) (l_Nodes l')
          \<and> m_LookupState l' = m_LookupState l2 \<and> int (card (U - used_nodes l')) + (active' - (active + 1)) \<le> int (card (U - used_nodes l2))"
        using Cons.IH [OF e d] Cons.prems(3) by simp
      have "U - used_nodes l2 = (U - used_nodes l) - {p}" "p \<in> U - used_nodes l" using R(1) G(1) Cons.prems(3) True by (auto simp: used_nodes_def)
      then have "card (U - used_nodes l) = Suc (card (U - used_nodes l2))"
        using assms(4) card_Suc_Diff1 [of "U - used_nodes l" p] by simp
      then show ?thesis using I R(1,3) G(1,3) by auto
    qed
  qed
qed

section \<open>The first loop\<close>

lemma check_nodes_spec:
  assumes "check_nodes e m = (m', active, lost, failed)"
  shows "map fst m' = map fst m" "0 \<le> active" "map_of m' p = map_option (\<lambda>st. fst (check_node e st)) (map_of m p)"
    "active > 0 \<Longrightarrow> \<exists>(p, st) \<in> set m. LookupState st = eLookupActive \<and> e_now e \<le> uTimeOut st"
proof -
  have "map fst m' = map fst m \<and> 0 \<le> active \<and> map_of m' p = map_option (\<lambda>st. fst (check_node e st)) (map_of m p)
      \<and> (active > 0 \<longrightarrow> (\<exists>(p, st) \<in> set m. LookupState st = eLookupActive \<and> e_now e \<le> uTimeOut st))"
    using assms
  proof (induction m arbitrary: m' active lost failed)
    case (Cons x m)
    obtain q st where x: "x = (q, st)" by (cases x)
    obtain m1 a k fs where r: "check_nodes e m = (m1, a, k, fs)" by (cases "check_nodes e m") auto
    obtain st1 b1 b2 b3 where cn: "check_node e st = (st1, b1, b2, b3)" by (cases "check_node e st") auto
    have b1: "b1 \<Longrightarrow> LookupState st = eLookupActive \<and> e_now e \<le> uTimeOut st"
      using cn by (auto simp: check_node_def split: option.split_asm if_split_asm)
    note I = Cons.IH [OF r]
    have e: "m' = (q, st1) # m1" "active = (if b1 then a + 1 else a)" using Cons.prems x r cn by auto
    have "\<exists>(p, st) \<in> set (x # m). LookupState st = eLookupActive \<and> e_now e \<le> uTimeOut st" if "active > 0"
      using that I b1 x e(2) by (cases b1) auto
    then show ?case using I e x cn by simp
  qed simp
  then show "map fst m' = map fst m" "0 \<le> active" "map_of m' p = map_option (\<lambda>st. fst (check_node e st)) (map_of m p)"
    "active > 0 \<Longrightarrow> \<exists>(p, st) \<in> set m. LookupState st = eLookupActive \<and> e_now e \<le> uTimeOut st" by simp_all
qed

lemma check_node_state: "LookupState (fst (check_node e st)) = LookupState st" "unat (uTimeOut (fst (check_node e st))) \<le> unat (uTimeOut st)"
  by (auto simp: check_node_def split: option.split)

lemma check_nodes_same:
  assumes "check_nodes e (l_Nodes l) = (m, active, lost, failed)" and "l' = l\<lparr>l_Nodes := m, m_ClosestNodes := n\<rparr>"
  shows "used_nodes l' = used_nodes l" "all_due B (l_Nodes l) \<Longrightarrow> all_due B (l_Nodes l')"
proof -
  note M = check_nodes_spec(3) [OF assms(1)]
  have u: "WasNodeUsed q l' \<longleftrightarrow> WasNodeUsed q l" for q
    by (auto simp: WasNodeUsed_iff assms(2) M check_node_state(1))
  show "used_nodes l' = used_nodes l" by (simp add: used_nodes_def u)
  show "all_due B (l_Nodes l) \<Longrightarrow> all_due B (l_Nodes l')"
    using check_nodes_spec(1) [OF assms(1)]
    by (auto simp: all_due_def qwf_def assms(2) M check_node_state(1) intro: le_trans [OF check_node_state(2)])
qed

section \<open>Events\<close>

text \<open>A tick of the lookup with the nodes the table has then, and the answer of a node that gives other nodes.\<close>

datatype lookup_event =
    Tick_event lookup_env "nat list"
  | Answer_event lookup_env bytes nat "nat option" "(uint128 \<times> nat) list"

fun lookup_step :: "lookup_cfg \<Rightarrow> lookup_event \<Rightarrow> lookup \<Rightarrow> lookup" where
  "lookup_step c (Tick_event e ps) l = snd (Process_lookup c e ps l)"
| "lookup_step c (Answer_event e ID p ch found) l = AddNodes_manager c e ID p ch found l"

definition lookup_run :: "lookup_cfg \<Rightarrow> lookup_event list \<Rightarrow> lookup \<Rightarrow> lookup" where
  "lookup_run c evs l = fold (lookup_step c) evs l"

fun event_time :: "lookup_event \<Rightarrow> uint64" where
  "event_time (Tick_event e ps) = e_now e"
| "event_time (Answer_event e ID p ch found) = e_now e"

fun event_nodes :: "lookup_event \<Rightarrow> nat list" where
  "event_nodes (Tick_event e ps) = ps"
| "event_nodes (Answer_event e ID p ch found) = map snd found"

lemma count_closer_spec:
  assumes "count_closer c e ch d fs n l = (n', l')" and "in_time c (e_now e)" and "all_due B (l_Nodes l)"
    and "finite U" and "set (map snd fs) \<subseteq> U"
  shows "used_nodes l \<subseteq> used_nodes l' \<and> all_due (max B (unat (e_now e) + wait c)) (l_Nodes l') \<and> m_LookupState l' = m_LookupState l
    \<and> card (U - used_nodes l') \<le> card (U - used_nodes l)
    \<and> (all_due B (l_Nodes l') \<or> card (U - used_nodes l') < card (U - used_nodes l))"
  using assms(1,3,5)
proof (induction fs arbitrary: n l B)
  case Nil
  then show ?case by (auto elim: all_due_mono)
next
  case (Cons x fs)
  obtain dx p where x: "x = (dx, p)" by (cases x)
  show ?case
  proof (cases "d \<le> dx \<or> WasNodeUsed p l \<or> n > 0")
    case True
    then show ?thesis using Cons x by (auto split: if_split_asm)
  next
    case False
    obtain b l2 where r: "RequestNodes c e p ch l = (b, l2)" by fastforce
    show ?thesis
    proof (cases b)
      case f: False
      then have "l2 = l" using RequestNodes_False [of c e p ch l l2] r by simp
      then show ?thesis using Cons x False r f by (auto split: if_split_asm)
    next
      case b: True
      have r': "RequestNodes c e p ch l = (True, l2)" using r b by simp
      note R = RequestNodes_step [OF r' assms(2)]
      have e: "count_closer c e ch d fs (n + 1) l2 = (n', l')" using Cons.prems(1) x False r b by simp
      have I: "used_nodes l2 \<subseteq> used_nodes l' \<and> all_due (max B (unat (e_now e) + wait c)) (l_Nodes l') \<and> m_LookupState l' = m_LookupState l2
          \<and> card (U - used_nodes l') \<le> card (U - used_nodes l2)"
        using Cons.IH [OF e R(2) [OF Cons.prems(2)]] Cons.prems(3) by simp
      have "U - used_nodes l2 = (U - used_nodes l) - {p}" "p \<in> U - used_nodes l" using R(1) Cons.prems(3) False x by (auto simp: used_nodes_def)
      then have "card (U - used_nodes l) = Suc (card (U - used_nodes l2))"
        using assms(4) card_Suc_Diff1 [of "U - used_nodes l" p] by simp
      then show ?thesis using I R(1,3) by auto
    qed
  qed
qed

lemma RequestNodes_state: "RequestNodes c e p ch l = (b, l') \<Longrightarrow> m_LookupState l' = m_LookupState l"
  using RequestNodes_False [of c e p ch l l'] by (cases b) (auto elim: RequestNodes_True)

lemma count_closer_state: "count_closer c e ch d fs n l = (n', l') \<Longrightarrow> m_LookupState l' = m_LookupState l"
proof (induction fs arbitrary: n l)
  case (Cons x fs)
  obtain dx p where x: "x = (dx, p)" by (cases x)
  obtain b l1 where r: "RequestNodes c e p ch l = (b, l1)" by fastforce
  then show ?case using Cons x RequestNodes_state [OF r] by (auto split: if_split_asm bool.split_asm)
qed simp

lemma OnCloserNodes_effect:
  "snd (OnCloserNodes p n l) = l \<or>
     (\<exists>st k. snd (OnCloserNodes p n l) = l\<lparr>m_ClosestNodes := k, l_Nodes := qm_insert p st (l_Nodes l)\<rparr>
       \<and> LookupState st \<in> {eLookupFinished, eLookupClosest})"
proof (cases "GetStatus p l")
  case None
  then show ?thesis by (simp add: OnCloserNodes_def)
next
  case (Some st)
  let ?F = "st\<lparr>uTimeOut := - 1, LookupState := eLookupFinished\<rparr>" and ?C = "st\<lparr>uTimeOut := - 1, LookupState := eLookupClosest\<rparr>"
  consider "n > 0" | "\<not> n > 0" "LookupState st \<noteq> eLookupClosest" | "\<not> n > 0" "LookupState st = eLookupClosest" by blast
  then show ?thesis
  proof cases
    case 1
    then show ?thesis using Some by (intro disjI2 exI [of _ ?F] exI [of _ "m_ClosestNodes l"]) (simp add: OnCloserNodes_def Let_def)
  next
    case 2
    then show ?thesis using Some by (intro disjI2 exI [of _ ?C] exI [of _ "m_ClosestNodes l + 1"]) (simp add: OnCloserNodes_def Let_def)
  next
    case 3
    then show ?thesis using Some by (intro disjI2 exI [of _ "st\<lparr>uTimeOut := - 1\<rparr>"] exI [of _ "m_ClosestNodes l"]) (simp add: OnCloserNodes_def Let_def)
  qed
qed

lemma OnCloserNodes_spec:
  "used_nodes l \<subseteq> used_nodes (snd (OnCloserNodes p n l)) \<and> (all_due B (l_Nodes l) \<longrightarrow> all_due B (l_Nodes (snd (OnCloserNodes p n l))))
    \<and> m_LookupState (snd (OnCloserNodes p n l)) = m_LookupState l"
  using OnCloserNodes_effect [of p n l]
proof (elim disjE exE conjE)
  fix st k
  assume "snd (OnCloserNodes p n l) = l\<lparr>m_ClosestNodes := k, l_Nodes := qm_insert p st (l_Nodes l)\<rparr>"
    and "LookupState st \<in> {eLookupFinished, eLookupClosest}"
  then show ?thesis by (auto simp: used_nodes_def WasNodeUsed_iff all_due_def map_of_insert qwf_insert)
qed simp

section \<open>A lookup comes to its end\<close>

lemma Process_lookup_spec:
  assumes "Process_lookup c e ps l = (f, l')" and "in_time c (e_now e)" and "all_due B (l_Nodes l)" and "finite U" and "set ps \<subseteq> U"
  shows "used_nodes l \<subseteq> used_nodes l'" "all_due (max B (unat (e_now e) + wait c)) (l_Nodes l')"
    "m_LookupState l' = m_LookupState l \<or> m_LookupState l' = eLookupFinished"
    "card (U - used_nodes l') \<le> card (U - used_nodes l)"
    "all_due B (l_Nodes l') \<or> card (U - used_nodes l') < card (U - used_nodes l)"
    "m_LookupState l' = eLookupActive \<Longrightarrow> all_due B (l_Nodes l') \<Longrightarrow> B < unat (e_now e) \<Longrightarrow> card (U - used_nodes l') < card (U - used_nodes l)"
proof -
  obtain m active lost failed where cn: "check_nodes e (l_Nodes l) = (m, active, lost, failed)" by (cases "check_nodes e (l_Nodes l)") auto
  define l1 where "l1 = l\<lparr>l_Nodes := m, m_ClosestNodes := m_ClosestNodes l - lost\<rparr>"
  note C = check_nodes_same [OF cn l1_def]
  define ask where "ask = BrancheCount c - min (BrancheCount c) (active + m_ClosestNodes l1)"
  obtain active' l2 where k: "ask_loop c e ps ask active l1 = (active', l2)" by fastforce
  note A = ask_loop_spec [OF k assms(2) C(2) [OF assms(3)] assms(4,5)]
  have e: "l' = (if m_LookupState l1 \<noteq> eLookupActive then l1 else if active' = 0 then l2\<lparr>m_LookupState := eLookupFinished\<rparr> else l2)"
    using assms(1) cn k by (auto simp: Process_lookup_def Let_def l1_def ask_def split: prod.split_asm if_split_asm)
  have s: "m_LookupState l1 = m_LookupState l" by (simp add: l1_def)
  have u: "used_nodes (l2\<lparr>m_LookupState := eLookupFinished\<rparr>) = used_nodes l2" by (simp add: used_nodes_def WasNodeUsed_iff)
  have dd: "all_due (max B (unat (e_now e) + wait c)) (l_Nodes l1)" by (rule all_due_mono [OF C(2) [OF assms(3)]]) simp
  show "used_nodes l \<subseteq> used_nodes l'" using A C(1) u by (auto simp: e)
  show "all_due (max B (unat (e_now e) + wait c)) (l_Nodes l')" using A dd by (auto simp: e)
  show "m_LookupState l' = m_LookupState l \<or> m_LookupState l' = eLookupFinished" using A s by (auto simp: e)
  show "card (U - used_nodes l') \<le> card (U - used_nodes l)" using A C(1) u by (auto simp: e)
  show "all_due B (l_Nodes l') \<or> card (U - used_nodes l') < card (U - used_nodes l)"
    using A C(1) u C(2) [OF assms(3)] by (cases "active' = active") (auto simp: e)
  assume a: "m_LookupState l' = eLookupActive" and B: "B < unat (e_now e)"
  have "active \<le> 0"
  proof (rule ccontr)
    assume "\<not> active \<le> 0"
    then obtain p st where "(p, st) \<in> set (l_Nodes l)" "LookupState st = eLookupActive" "e_now e \<le> uTimeOut st"
      using check_nodes_spec(4) [OF cn] by auto
    moreover from this have "map_of (l_Nodes l) p = Some st" using assms(3) by (auto simp: all_due_def intro: map_of_is_SomeI qwf_distinct)
    ultimately have "unat (uTimeOut st) \<le> B" "unat (e_now e) \<le> unat (uTimeOut st)" using assms(3) by (auto simp: all_due_def word_le_nat_alt)
    then show False using B by simp
  qed
  then have "active = 0" using check_nodes_spec(2) [OF cn] by simp
  then show "card (U - used_nodes l') < card (U - used_nodes l)" using a A C(1) s by (auto simp: e split: if_split_asm)
qed

lemma AddNodes_spec:
  assumes "in_time c (e_now e)" and "all_due B (l_Nodes l)" and "finite U" and "set (map snd found) \<subseteq> U"
  shows "used_nodes l \<subseteq> used_nodes (AddNodes_manager c e ID p ch found l)"
    "all_due (max B (unat (e_now e) + wait c)) (l_Nodes (AddNodes_manager c e ID p ch found l))"
    "m_LookupState (AddNodes_manager c e ID p ch found l) = m_LookupState l"
    "card (U - used_nodes (AddNodes_manager c e ID p ch found l)) \<le> card (U - used_nodes l)"
    "all_due B (l_Nodes (AddNodes_manager c e ID p ch found l)) \<or> card (U - used_nodes (AddNodes_manager c e ID p ch found l)) < card (U - used_nodes l)"
proof -
  obtain n l1 where k: "count_closer c e ch (id_distance (l_ID l) ID) found 0 l = (n, l1)" by fastforce
  have e: "AddNodes_manager c e ID p ch found l = snd (OnCloserNodes p n l1)" by (simp add: AddNodes_manager_def k)
  note C = count_closer_spec [OF k assms]
  note O = OnCloserNodes_spec [of l1 p n]
  have c: "card (U - used_nodes (snd (OnCloserNodes p n l1))) \<le> card (U - used_nodes l1)" using O assms(3) by (intro card_mono) auto
  show "used_nodes l \<subseteq> used_nodes (AddNodes_manager c e ID p ch found l)"
    "all_due (max B (unat (e_now e) + wait c)) (l_Nodes (AddNodes_manager c e ID p ch found l))"
    "m_LookupState (AddNodes_manager c e ID p ch found l) = m_LookupState l"
    "card (U - used_nodes (AddNodes_manager c e ID p ch found l)) \<le> card (U - used_nodes l)"
    "all_due B (l_Nodes (AddNodes_manager c e ID p ch found l)) \<or> card (U - used_nodes (AddNodes_manager c e ID p ch found l)) < card (U - used_nodes l)"
    using C O c unfolding e by auto
qed

text \<open>
  The events come in the order of their time, and their nodes are among \<open>us\<close>. A tick is counted when the requests sent up
  to the last tick that was counted have timed out.
\<close>

fun events_ok :: "lookup_cfg \<Rightarrow> nat list \<Rightarrow> nat \<Rightarrow> lookup_event list \<Rightarrow> bool" where
  "events_ok c us t [] = True"
| "events_ok c us t (ev # evs) =
     (t \<le> unat (event_time ev) \<and> in_time c (event_time ev) \<and> list_all (\<lambda>p. p \<in> set us) (event_nodes ev)
       \<and> events_ok c us (unat (event_time ev)) evs)"

fun slow_ticks :: "lookup_cfg \<Rightarrow> nat \<Rightarrow> lookup_event list \<Rightarrow> nat" where
  "slow_ticks c t [] = 0"
| "slow_ticks c t (Tick_event e ps # evs) =
     (if t + wait c < unat (e_now e) then Suc (slow_ticks c (unat (e_now e)) evs) else slow_ticks c t evs)"
| "slow_ticks c t (Answer_event e ID p ch found # evs) = slow_ticks c t evs"

lemma finished_stays: "m_LookupState l = eLookupFinished \<Longrightarrow> m_LookupState (lookup_run c evs l) = eLookupFinished"
proof (induction evs arbitrary: l)
  case (Cons ev evs)
  have "m_LookupState (lookup_step c ev l) = eLookupFinished"
  proof (cases ev)
    case (Tick_event e ps)
    then show ?thesis using Cons.prems by (auto simp: Process_lookup_def Let_def split: prod.split)
  next
    case (Answer_event e ID p ch found)
    obtain n l1 where k: "count_closer c e ch (id_distance (l_ID l) ID) found 0 l = (n, l1)" by fastforce
    have "m_LookupState l1 = m_LookupState l" by (rule count_closer_state [OF k])
    then show ?thesis using Cons.prems OnCloserNodes_spec [of l1 p n] Answer_event k by (simp add: AddNodes_manager_def)
  qed
  then show ?case using Cons.IH by (simp add: lookup_run_def)
qed (simp add: lookup_run_def)

text \<open>What is left: the nodes not asked, and one more when a request is not all_due.\<close>

definition left_over :: "lookup_cfg \<Rightarrow> nat set \<Rightarrow> nat \<Rightarrow> lookup \<Rightarrow> nat" where
  "left_over c U t l = card (U - used_nodes l) + (if all_due (t + wait c) (l_Nodes l) then 0 else 1)"

lemma lookup_run_finishes:
  assumes "events_ok c us t evs" and "all_due (t + wait c) (l_Nodes l)" and "m_LookupState l = eLookupActive" and "t0 \<le> t"
    and "left_over c (set us) t0 l < slow_ticks c t0 evs"
  shows "m_LookupState (lookup_run c evs l) = eLookupFinished"
  using assms
proof (induction evs arbitrary: t t0 l)
  case (Cons ev evs)
  let ?U = "set us" and ?t = "unat (event_time ev)" and ?l = "lookup_step c ev l"
  have ev: "t \<le> ?t" "in_time c (event_time ev)" "set (event_nodes ev) \<subseteq> ?U" "events_ok c us ?t evs"
    using Cons.prems(1) by (auto simp: list_all_iff)
  have IH: "m_LookupState (lookup_run c evs ?l) = eLookupFinished"
    if "m_LookupState ?l = eLookupActive" "all_due (?t + wait c) (l_Nodes ?l)" "t1 \<le> ?t" "left_over c ?U t1 ?l < slow_ticks c t1 evs" for t1
    by (rule Cons.IH [OF ev(4) that(2,1,3,4)])
  have r: "lookup_run c (ev # evs) l = lookup_run c evs ?l" by (simp add: lookup_run_def)
  have D': "(all_due B (l_Nodes l) \<longrightarrow> all_due (max B (?t + wait c)) (l_Nodes ?l)) \<and>
      (all_due B (l_Nodes l) \<longrightarrow> all_due B (l_Nodes ?l) \<or> card (?U - used_nodes ?l) < card (?U - used_nodes l)) \<and>
      (m_LookupState ?l = m_LookupState l \<or> m_LookupState ?l = eLookupFinished) \<and> card (?U - used_nodes ?l) \<le> card (?U - used_nodes l)" for B
  proof (cases ev)
    case (Tick_event e ps)
    note P = Process_lookup_spec [where c = c and e = e and ps = ps and l = l and U = "set us", OF surjective_pairing]
    show ?thesis using P(2,3,4,5) Cons.prems(2) ev(2,3) Tick_event by simp
  next
    case (Answer_event e ID p ch found)
    note P = AddNodes_spec [of c e _ l ?U found ID p ch]
    show ?thesis using P(2,3,4,5) Cons.prems(2) ev(2,3) Answer_event by simp
  qed
  then have D: "all_due B (l_Nodes l) \<Longrightarrow> all_due (max B (?t + wait c)) (l_Nodes ?l)"
    "all_due B (l_Nodes l) \<Longrightarrow> all_due B (l_Nodes ?l) \<or> card (?U - used_nodes ?l) < card (?U - used_nodes l)"
    "m_LookupState ?l = m_LookupState l \<or> m_LookupState ?l = eLookupFinished"
    "card (?U - used_nodes ?l) \<le> card (?U - used_nodes l)" for B by blast+
  show ?case
  proof (cases "m_LookupState ?l = eLookupActive")
    case False
    then have "m_LookupState ?l = eLookupFinished" using D(3) Cons.prems(3) by auto
    then show ?thesis unfolding r by (rule finished_stays)
  next
    case True
    have dl: "all_due (?t + wait c) (l_Nodes ?l)" using D(1) [OF Cons.prems(2)] ev(1) by (simp add: max_absorb2)
    show ?thesis
    proof (cases "\<exists>e ps. ev = Tick_event e ps \<and> t0 + wait c < unat (e_now e)")
      case False
      then have s: "slow_ticks c t0 (ev # evs) = slow_ticks c t0 evs" by (cases ev) auto
      have "left_over c ?U t0 ?l \<le> left_over c ?U t0 l"
        using D(2) [of "t0 + wait c"] D(4) by (auto simp: left_over_def)
      then show ?thesis using IH [OF True dl, of t0] Cons.prems(4,5) ev(1) s r by simp
    next
      case slow: True
      then obtain e ps where e: "ev = Tick_event e ps" "t0 + wait c < unat (e_now e)" by auto
      have s: "slow_ticks c t0 (ev # evs) = Suc (slow_ticks c ?t evs)" using e by simp
      have "card (?U - used_nodes ?l) < left_over c ?U t0 l"
      proof (cases "all_due (t0 + wait c) (l_Nodes l)")
        case all_due: True
        note P = Process_lookup_spec(5,6) [where c = c and e = e and ps = ps and l = l and U = "set us", OF surjective_pairing _ all_due]
        have "card (?U - used_nodes ?l) < card (?U - used_nodes l)" using P e ev(2,3) True by auto
        then show ?thesis by (simp add: left_over_def)
      next
        case False
        then show ?thesis using D(4) by (simp add: left_over_def)
      qed
      then have "left_over c ?U ?t ?l < slow_ticks c ?t evs" using dl s Cons.prems(5) by (simp add: left_over_def)
      then show ?thesis using IH [OF True dl, of ?t] r by simp
    qed
  qed
qed simp

text \<open>
  C38. A lookup comes to its end: whatever channels fail, whatever answers arrive or stay out and whatever nodes the table
  has at a tick, a started lookup that looks for nodes has finished when more ticks have passed than there are nodes to ask, where a
  tick counts when it is later than the one counted before by more than the time a request may take.
\<close>

theorem lookup_finishes:
  assumes "events_ok c us (unat t0) evs" and "length us < slow_ticks c (unat t0) evs"
  shows "m_LookupState (lookup_run c evs (Start t0 (new_lookup c ID))) = eLookupFinished"
proof (rule lookup_run_finishes [OF assms(1)])
  let ?l = "Start t0 (new_lookup c ID)"
  show d: "all_due (unat t0 + wait c) (l_Nodes ?l)" by (simp add: all_due_def Start_def InitOperation_def new_lookup_def)
  show "m_LookupState ?l = eLookupActive" by (simp add: Start_def InitOperation_def new_lookup_def)
  have "card (set us - used_nodes ?l) \<le> card (set us)" by (intro card_mono) auto
  also have "\<dots> \<le> length us" by (rule card_length)
  finally have "left_over c (set us) (unat t0) ?l \<le> length us" using d by (simp add: left_over_def)
  then show "left_over c (set us) (unat t0) ?l < slow_ticks c (unat t0) evs" using assms(2) by simp
qed simp

text \<open>A configuration and a network in which everything works, for the samples.\<close>

definition lookup_sample_cfg :: lookup_cfg where
  "lookup_sample_cfg = \<lparr>LookupTimeout = 20, MaxLookupTimeout = 60, RequestTimeOut = 10, MaxJumpCount = 3, MaxHopLimit = 5, BrancheCount = 1\<rparr>"

definition calm_env :: "uint64 \<Rightarrow> lookup_env" where
  "calm_env now = \<lparr>e_now = now, e_disconnected = (\<lambda>_. False), e_busy = (\<lambda>_. False), e_prepare = (\<lambda>p. Some (100 + p)), e_send = (\<lambda>_ _. True)\<rparr>"

text \<open>Two nodes that do not answer; the lookup asks one after the other.\<close>

theorem lookup_finishes_witness:
  "m_LookupState (lookup_run lookup_sample_cfg [Tick_event (calm_env 20000) [3, 8], Tick_event (calm_env 20100) [8, 3],
      Tick_event (calm_env 40000) [3, 8], Answer_event (calm_env 40001) [] 3 (Some 103) [(0, 8)], Tick_event (calm_env 60000) [3, 8]]
    (Start 1000 (new_lookup lookup_sample_cfg (replicate 16 0)))) = eLookupFinished"
  by (rule lookup_finishes [where us = "[3, 8]"])
    (simp_all add: calm_env_def lookup_sample_cfg_def in_time_def wait_def sec2ms_def)

section \<open>Which nodes are asked\<close>

text \<open>
  A lookup whose channels work and whose answers come in time: every node it knows was asked until \<open>T\<close> or has
  answered, and \<open>m_ClosestNodes\<close> counts those that answered.
\<close>

definition answered :: "(nat, node_status) qmap \<Rightarrow> nat set" where
  "answered m = {p. \<exists>st. map_of m p = Some st \<and> LookupState st = eLookupClosest}"

definition status_steady :: "nat \<Rightarrow> node_status \<Rightarrow> bool" where
  "status_steady T st = (pChannel st \<noteq> None \<and> T \<le> unat (uTimeOut st) \<and> (LookupState st = eLookupActive \<or> LookupState st = eLookupClosest))"

definition steady :: "nat \<Rightarrow> nat set \<Rightarrow> lookup \<Rightarrow> bool" where
  "steady T K l = (qwf (l_Nodes l) \<and> qkeys (l_Nodes l) = K \<and> list_all (\<lambda>(p, st). status_steady T st) (l_Nodes l)
     \<and> m_ClosestNodes l = int (card (answered (l_Nodes l))))"

lemma steady_used: "steady T K l \<Longrightarrow> used_nodes l = K"
proof -
  assume s: "steady T K l"
  have "WasNodeUsed p l \<longleftrightarrow> p \<in> qkeys (l_Nodes l)" for p
  proof (cases "map_of (l_Nodes l) p")
    case (Some st)
    then have "status_steady T st" using s map_of_SomeD [OF Some] by (auto simp: steady_def list_all_iff)
    then show ?thesis using Some Some_qkeys [OF Some] by (auto simp: WasNodeUsed_iff status_steady_def)
  next
    case None
    then show ?thesis by (auto simp: WasNodeUsed_iff dest: Some_qkeys)
  qed
  then show ?thesis using s by (auto simp: used_nodes_def steady_def)
qed

lemma steady_of_map:
  assumes "qwf m"
  shows "list_all (\<lambda>(p, st). Q st) m = (\<forall>p st. map_of m p = Some st \<longrightarrow> Q st)"
  by (auto simp: list_all_iff map_of_eq_Some_iff [OF qwf_distinct [OF assms]])

lemma steady_insert:
  assumes "steady T K l" and "status_steady T st" and "map_of m = (map_of (l_Nodes l))(p \<mapsto> st)" and "qwf m"
    and "n = m_ClosestNodes l + (if LookupState st = eLookupClosest \<and> p \<notin> answered (l_Nodes l) then 1 else 0)"
    and "LookupState st \<noteq> eLookupClosest \<Longrightarrow> p \<notin> answered (l_Nodes l)" and "l' = l\<lparr>l_Nodes := m, m_ClosestNodes := n\<rparr>"
  shows "steady T (insert p K) l'"
proof -
  have w: "qwf (l_Nodes l)" "qkeys (l_Nodes l) = K" "list_all (\<lambda>(p, st). status_steady T st) (l_Nodes l)"
    "m_ClosestNodes l = int (card (answered (l_Nodes l)))" using assms(1) by (simp_all add: steady_def)
  have k: "qkeys m = insert p K" using arg_cong [OF assms(3), of dom] w(2) by (simp add: dom_map_of_conv_image_fst qkeys_def)
  have a: "answered m = (if LookupState st = eLookupClosest then insert p (answered (l_Nodes l)) else answered (l_Nodes l))"
    using assms(6) by (auto simp: answered_def assms(3) split: if_split_asm)
  have "answered (l_Nodes l) \<subseteq> qkeys (l_Nodes l)" using Some_qkeys by (fastforce simp: answered_def)
  then have fin: "finite (answered (l_Nodes l))" by (rule finite_subset) simp
  have "list_all (\<lambda>(p, st). status_steady T st) m"
    using w(1,3) assms(2-4) by (auto simp: steady_of_map)
  then show ?thesis using assms(4,5,7) k w(4) fin by (auto simp: steady_def a insert_absorb)
qed

text \<open>The first loop finds nothing to change.\<close>

lemma check_nodes_steady:
  assumes "list_all (\<lambda>(p, st). status_steady T st) m" and "unat (e_now e) \<le> T" and "\<And>ch. \<not> e_disconnected e ch"
  shows "\<exists>a. check_nodes e m = (m, int a, 0, []) \<and> a + length (filter (\<lambda>(p, st). LookupState st = eLookupClosest) m) = length m"
  using assms(1)
proof (induction m)
  case (Cons x m)
  obtain p st where x: "x = (p, st)" by (cases x)
  obtain a where a: "check_nodes e m = (m, int a, 0, [])" "a + length (filter (\<lambda>(p, st). LookupState st = eLookupClosest) m) = length m"
    using Cons by auto
  have st: "status_steady T st" using Cons.prems x by simp
  then have "e_now e \<le> uTimeOut st" using assms(2) by (auto simp: status_steady_def word_le_nat_alt)
  then have "check_node e st = (st, LookupState st = eLookupActive, False, False)"
    using st assms(3) by (auto simp: check_node_def status_steady_def)
  then show ?case using a x st by (auto simp: status_steady_def intro: exI [of _ "Suc a"])
qed simp

lemma answered_count: "qwf m \<Longrightarrow> length (filter (\<lambda>(p, st). LookupState st = eLookupClosest) m) = card (answered m)"
proof -
  assume w: "qwf m"
  have d: "distinct (map fst (filter (\<lambda>(p, st). LookupState st = eLookupClosest) m))"
    by (rule distinct_map_filter [OF qwf_distinct [OF w]])
  have "answered m = set (map fst (filter (\<lambda>(p, st). LookupState st = eLookupClosest) m))"
    by (force simp: answered_def map_of_eq_Some_iff [OF qwf_distinct [OF w]])
  then show ?thesis using distinct_card [OF d] by simp
qed

lemma length_qkeys: "qwf m \<Longrightarrow> length m = card (qkeys m)"
  using distinct_card [OF qwf_distinct, of m] by (simp add: qkeys_def)

text \<open>A request that goes out.\<close>

definition calm :: "lookup_env \<Rightarrow> bool" where
  "calm e = ((\<forall>ch. \<not> e_disconnected e ch) \<and> (\<forall>p. e_prepare e p \<noteq> None) \<and> (\<forall>p ch. e_send e p ch))"

lemma ask_one:
  assumes "calm e" and "in_time c (e_now e)" and "T \<le> unat (e_now e) + wait c" and "steady T K l" and "p \<notin> K"
  obtains ch l1 l2 where "GetChannel e p l = (ch, l1)" and "RequestNodes c e p ch l1 = (True, l2)" and "steady T (insert p K) l2"
    and "m_LookupState l2 = m_LookupState l" and "l_ID l2 = l_ID l"
proof -
  have n: "map_of (l_Nodes l) p = None" using assms(4,5) by (simp add: steady_def)
  obtain ch l1 where g: "GetChannel e p l = (ch, l1)" by fastforce
  obtain st m where l1: "l1 = l\<lparr>l_Nodes := m\<rparr>" "map_of m = (map_of (l_Nodes l))(p \<mapsto> st)" "pChannel st = ch"
    "qwf (l_Nodes l) \<longrightarrow> qwf m" "case map_of (l_Nodes l) p of None \<Rightarrow> LookupState st = eNoLookup \<and> uTimeOut st = - 1 \<and> ch = e_prepare e p
       | Some st' \<Rightarrow> LookupState st = LookupState st' \<and> uTimeOut st = uTimeOut st'"
    by (rule GetChannel_effect [OF g])
  have st: "LookupState st = eNoLookup" "uTimeOut st = - 1" "ch = e_prepare e p" using l1(5) unfolding n by simp_all
  have "e_prepare e p \<noteq> None" using assms(1) by (simp add: calm_def)
  then obtain chn where ch: "ch = Some chn" using st(3) by auto
  let ?st = "st\<lparr>LookupState := eLookupActive, uTimeOut := e_now e + of_int (sec2ms (RequestTimeOut c))\<rparr>"
  define l2 where "l2 = l1\<lparr>l_Nodes := qm_insert p ?st m\<rparr>"
  have r: "RequestNodes c e p ch l1 = (True, l2)"
    using ch st(2) assms(1) l1(1,2) by (simp add: RequestNodes_def GetStatus_def calm_def l2_def)
  have w: "qwf m" using l1(4) assms(4) by (simp add: steady_def)
  have "p \<notin> answered (l_Nodes l)" using n by (simp add: answered_def del: map_of_dom)
  then have "steady T (insert p K) l2"
    by (intro steady_insert [where st = ?st and m = "qm_insert p ?st m" and n = "m_ClosestNodes l", OF assms(4)])
      (use assms(2,3) request_time [OF assms(2)] l1(1,2,3) ch w in \<open>auto simp: status_steady_def map_of_insert qwf_insert l2_def\<close>)
  then show thesis using that [OF g r] l1(1) by (simp add: l2_def)
qed

lemma ask_loop_steady:
  assumes "calm e" and "in_time c (e_now e)" and "T \<le> unat (e_now e) + wait c"
  shows "steady T K l \<Longrightarrow> distinct ps \<Longrightarrow> set ps \<inter> K = {} \<Longrightarrow> ask_loop c e ps ask active l = (active', l') \<Longrightarrow>
    steady T (K \<union> set (take (nat ask) ps)) l' \<and> m_LookupState l' = m_LookupState l \<and> l_ID l' = l_ID l
      \<and> active' = active + int (length (take (nat ask) ps))"
proof (induction ps arbitrary: ask active l K)
  case (Cons p ps)
  show ?case
  proof (cases "ask > 0")
    case False
    then show ?thesis using Cons.prems by simp
  next
    case True
    have p: "p \<notin> K" using Cons.prems(3) by simp
    obtain ch l1 l2 where a: "GetChannel e p l = (ch, l1)" "RequestNodes c e p ch l1 = (True, l2)" "steady T (insert p K) l2"
      "m_LookupState l2 = m_LookupState l" "l_ID l2 = l_ID l" by (rule ask_one [OF assms Cons.prems(1) p])
    have "\<not> WasNodeUsed p l" using steady_used [OF Cons.prems(1)] p by (auto simp: used_nodes_def)
    then have e: "ask_loop c e ps (ask - 1) (active + 1) l2 = (active', l')" using Cons.prems(4) True a by simp
    have "nat ask = Suc (nat (ask - 1))" using True by simp
    then show ?thesis using Cons.IH [OF a(3) _ _ e] Cons.prems(2,3) a(4,5) by auto
  qed
qed simp

section \<open>The run of a lookup\<close>

text \<open>
  All channels work and every request goes out, nothing times out until \<open>T\<close>, and the nodes of an answer are new objects,
  as the handler makes them (KadHandler.cpp, \<open>HandleNodeRes\<close>): none of them is one the lookup has met.
\<close>

fun event_env :: "lookup_event \<Rightarrow> lookup_env" where
  "event_env (Tick_event e ps) = e"
| "event_env (Answer_event e ID p ch found) = e"

fun calm_events :: "lookup_cfg \<Rightarrow> nat \<Rightarrow> nat set \<Rightarrow> lookup_event list \<Rightarrow> bool" where
  "calm_events c T seen [] = True"
| "calm_events c T seen (ev # evs) =
     (calm (event_env ev) \<and> unat (event_time ev) \<le> T
       \<and> (case ev of Answer_event e ID p ch found \<Rightarrow> \<forall>q \<in> set (map snd found). q \<notin> seen | _ \<Rightarrow> True)
       \<and> calm_events c T (seen \<union> set (event_nodes ev)) evs)"

lemma count_closer_new:
  assumes "\<forall>q \<in> set (map snd found). q \<notin> qkeys (l_Nodes l)"
  shows "count_closer c e ch d found 0 l = (0, l)"
  using assms
proof (induction found)
  case (Cons x found)
  obtain dx p where x: "x = (dx, p)" by (cases x)
  have "map_of (l_Nodes l) p = None" using Cons.prems x by simp
  then have "GetStatus p l = None" by (simp only: GetStatus_def)
  then have "WasNodeUsed p l = False" "RequestNodes c e p ch l = (False, l)" by (simp_all add: WasNodeUsed_def RequestNodes_def)
  then show ?case using Cons x by simp
qed simp

lemma answer_steady:
  assumes "steady T K l" and "T < 2 ^ 64" and "\<forall>q \<in> set (map snd found). q \<notin> K"
  shows "steady T K (AddNodes_manager c e ID p ch found l)"
proof -
  have k: "qkeys (l_Nodes l) = K" using assms(1) by (simp add: steady_def)
  have e: "AddNodes_manager c e ID p ch found l = snd (OnCloserNodes p 0 l)"
    using count_closer_new [of found l c e ch "id_distance (l_ID l) ID"] assms(3) k by (simp add: AddNodes_manager_def)
  show ?thesis
  proof (cases "map_of (l_Nodes l) p")
    case None
    then have "GetStatus p l = None" by (simp only: GetStatus_def)
    then show ?thesis using assms(1) unfolding e by (simp add: OnCloserNodes_def)
  next
    case (Some st)
    have st: "status_steady T st" using assms(1) map_of_SomeD [OF Some] by (auto simp: steady_def list_all_iff)
    let ?st = "st\<lparr>uTimeOut := - 1, LookupState := eLookupClosest\<rparr>"
    have w: "qwf (l_Nodes l)" using assms(1) by (simp add: steady_def)
    have a: "p \<in> answered (l_Nodes l) \<longleftrightarrow> LookupState st = eLookupClosest" using Some by (simp add: answered_def)
    have c: "LookupState st = eLookupClosest \<Longrightarrow> ?st = st\<lparr>uTimeOut := - 1\<rparr>" by (cases st) simp
    have o: "snd (OnCloserNodes p 0 l) = l\<lparr>l_Nodes := qm_insert p ?st (l_Nodes l),
        m_ClosestNodes := m_ClosestNodes l + (if p \<notin> answered (l_Nodes l) then 1 else 0)\<rparr>"
    proof (cases "LookupState st = eLookupClosest")
      case True
      then show ?thesis using Some a unfolding c [OF True] by (simp add: OnCloserNodes_def GetStatus_def Let_def)
    next
      case False
      then show ?thesis using Some a by (simp add: OnCloserNodes_def GetStatus_def Let_def)
    qed
    have "unat (- 1 :: uint64) = 2 ^ 64 - 1" by (simp add: unsigned_minus_1_eq_mask mask_eq_exp_minus_1)
    then have "status_steady T ?st" using st assms(2) by (simp add: status_steady_def)
    then have "steady T (insert p K) (snd (OnCloserNodes p 0 l))"
      by (intro steady_insert [where st = ?st and m = "qm_insert p ?st (l_Nodes l)", OF assms(1)])
        (use w o in \<open>auto simp: map_of_insert qwf_insert\<close>)
    moreover have "insert p K = K" using k Some_qkeys [OF Some] by auto
    ultimately show ?thesis unfolding e by simp
  qed
qed

lemma tick_steady:
  assumes "calm e" and "steady T K l" and "unat (e_now e) \<le> T" and "int (card K) = BrancheCount c"
  shows "steady T K (snd (Process_lookup c e ps l))"
proof -
  have s: "qwf (l_Nodes l)" "qkeys (l_Nodes l) = K" "list_all (\<lambda>(p, st). status_steady T st) (l_Nodes l)"
    "m_ClosestNodes l = int (card (answered (l_Nodes l)))" using assms(2) by (simp_all add: steady_def)
  obtain a where a: "check_nodes e (l_Nodes l) = (l_Nodes l, int a, 0, [])"
    "a + length (filter (\<lambda>(p, st). LookupState st = eLookupClosest) (l_Nodes l)) = length (l_Nodes l)"
    using check_nodes_steady [OF s(3) assms(3)] assms(1) by (auto simp: calm_def)
  have sum: "int a + m_ClosestNodes l = BrancheCount c" using a(2) answered_count [OF s(1)] length_qkeys [OF s(1)] s(2,4) assms(4) by simp
  have "ask_loop c e ps 0 n x = (n, x)" for n x by (cases ps) simp_all
  then show ?thesis using a(1) sum assms(2) by (simp add: Process_lookup_def Let_def steady_def)
qed

lemma run_steady:
  assumes "steady T K l" and "T < 2 ^ 64" and "int (card K) = BrancheCount c" and "calm_events c T seen evs" and "K \<subseteq> seen"
  shows "steady T K (lookup_run c evs l)"
  using assms(1,4,5)
proof (induction evs arbitrary: l seen)
  case (Cons ev evs)
  have "steady T K (lookup_step c ev l)"
  proof (cases ev)
    case (Tick_event e ps)
    then show ?thesis using tick_steady [OF _ Cons.prems(1) _ assms(3)] Cons.prems(2) by simp
  next
    case (Answer_event e ID p ch found)
    then show ?thesis using answer_steady [OF Cons.prems(1) assms(2)] Cons.prems(2,3) by fastforce
  qed
  then show ?case using Cons.IH [of "lookup_step c ev l" "seen \<union> set (event_nodes ev)"] Cons.prems(2,3)
    by (auto simp: lookup_run_def)
qed (simp add: lookup_run_def)

lemma first_tick:
  assumes "calm e" and "in_time c (e_now e)" and "T \<le> unat (e_now e) + wait c" and "distinct ps"
    and "0 \<le> BrancheCount c" and "nat (BrancheCount c) \<le> length ps"
  shows "steady T (set (take (nat (BrancheCount c)) ps)) (snd (Process_lookup c e ps (Start t0 (new_lookup c ID))))"
proof -
  let ?l = "Start t0 (new_lookup c ID)"
  have l: "l_Nodes ?l = []" "m_ClosestNodes ?l = 0" "m_LookupState ?l = eLookupActive"
    by (simp_all add: Start_def InitOperation_def new_lookup_def)
  then have s: "steady T {} (?l\<lparr>l_Nodes := [], m_ClosestNodes := 0\<rparr>)" by (simp add: steady_def answered_def)
  obtain active' l' where k: "ask_loop c e ps (BrancheCount c) 0 (?l\<lparr>l_Nodes := [], m_ClosestNodes := 0\<rparr>) = (active', l')" by fastforce
  have "snd (Process_lookup c e ps ?l) = (if active' = 0 then l'\<lparr>m_LookupState := eLookupFinished\<rparr> else l')"
    using l k assms(5) by (simp add: Process_lookup_def Let_def)
  then show ?thesis using ask_loop_steady [OF assms(1-3) s assms(4) _ k] by (auto simp: steady_def)
qed

end
