(* ===== verification/RoutingTable.thy ===== *)
theory RoutingTable
  imports RoutingIter
begin

text \<open>
  The routing table as its users see it: the interface \<open>node_table\<close> and the routing root as an instance of it,
  \<open>Checkout\<close> with the random lookups, the reachable tables and the properties of the whole component.
\<close>

section \<open>The interface of a table of nodes\<close>

text \<open>
  The handlers and lookups of the network use the routing table as a table from identifiers to nodes.
  \<open>add\<close> merges a node with the one known under its identifier; \<open>consolidate\<close> may drop nodes, but not
  those it has to keep. \<open>e\<close> is the time.
\<close>

datatype ('e, 'id, 'n) table_op = Add_op 'e 'n | Remove_op 'id | Consolidate_op 'e bool

fun table_step :: "('n \<Rightarrow> 'id) \<Rightarrow> 'id \<Rightarrow> ('e \<Rightarrow> 'n \<Rightarrow> 'n \<Rightarrow> 'n) \<Rightarrow> ('e \<Rightarrow> 'n \<Rightarrow> bool) \<Rightarrow> ('e, 'id, 'n) table_op
    \<Rightarrow> ('id \<rightharpoonup> 'n) \<Rightarrow> ('id \<rightharpoonup> 'n) \<Rightarrow> bool" where
  "table_step ident own merge keeps (Add_op e n) M M' =
     (M' = (if ident n = own then M else M(ident n \<mapsto> (case M (ident n) of None \<Rightarrow> n | Some m \<Rightarrow> merge e n m))))"
| "table_step ident own merge keeps (Remove_op ID) M M' = (M' = M(ID := None))"
| "table_step ident own merge keeps (Consolidate_op e b) M M' =
     (M' \<subseteq>\<^sub>m M \<and> (\<not> b \<longrightarrow> (\<forall>ID m. M ID = Some m \<and> keeps e m \<longrightarrow> M' ID = Some m)))"

fun table_run :: "(('e, 'id, 'n) table_op \<Rightarrow> ('id \<rightharpoonup> 'n) \<Rightarrow> ('id \<rightharpoonup> 'n) \<Rightarrow> bool) \<Rightarrow> ('e, 'id, 'n) table_op list
    \<Rightarrow> ('id \<rightharpoonup> 'n) \<Rightarrow> ('id \<rightharpoonup> 'n) \<Rightarrow> bool" where
  "table_run stp [] M M' = (M' = M)"
| "table_run stp (x # xs) M M' = (\<exists>M1. stp x M M1 \<and> table_run stp xs M1 M')"

fun op_valid :: "('n \<Rightarrow> 'id) \<Rightarrow> ('id \<Rightarrow> bool) \<Rightarrow> ('e, 'id, 'n) table_op \<Rightarrow> bool" where
  "op_valid ident valid (Add_op e n) = valid (ident n)"
| "op_valid ident valid (Remove_op ID) = valid ID"
| "op_valid ident valid (Consolidate_op e b) = True"

fun op_run :: "('e \<Rightarrow> 'n \<Rightarrow> 's \<Rightarrow> 's option) \<Rightarrow> ('id \<Rightarrow> 's \<Rightarrow> 's) \<Rightarrow> ('e \<Rightarrow> bool \<Rightarrow> 's \<Rightarrow> 's)
    \<Rightarrow> ('e, 'id, 'n) table_op list \<Rightarrow> 's \<Rightarrow> 's option" where
  "op_run add remove consolidate [] s = Some s"
| "op_run add remove consolidate (Add_op e n # xs) s =
     (case add e n s of None \<Rightarrow> None | Some s \<Rightarrow> op_run add remove consolidate xs s)"
| "op_run add remove consolidate (Remove_op ID # xs) s = op_run add remove consolidate xs (remove ID s)"
| "op_run add remove consolidate (Consolidate_op e b # xs) s = op_run add remove consolidate xs (consolidate e b s)"

locale node_table =
  fixes inv :: "'s \<Rightarrow> bool" and valid :: "'id \<Rightarrow> bool" and own :: 'id and ident :: "'n \<Rightarrow> 'id"
    and merge :: "'e \<Rightarrow> 'n \<Rightarrow> 'n \<Rightarrow> 'n" and keeps :: "'e \<Rightarrow> 'n \<Rightarrow> bool"
    and add :: "'e \<Rightarrow> 'n \<Rightarrow> 's \<Rightarrow> 's option" and remove :: "'id \<Rightarrow> 's \<Rightarrow> 's" and consolidate :: "'e \<Rightarrow> bool \<Rightarrow> 's \<Rightarrow> 's"
    and lookup :: "'id \<Rightarrow> 's \<Rightarrow> 'n option"
  assumes add_returns: "inv s \<Longrightarrow> valid (ident n) \<Longrightarrow> \<exists>s'. add e n s = Some s' \<and> inv s'"
    and lookup_add: "inv s \<Longrightarrow> valid (ident n) \<Longrightarrow> add e n s = Some s' \<Longrightarrow> valid ID \<Longrightarrow>
      lookup ID s' = (if ID = ident n \<and> ID \<noteq> own then Some (case lookup ID s of None \<Rightarrow> n | Some m \<Rightarrow> merge e n m) else lookup ID s)"
    and inv_remove: "inv s \<Longrightarrow> valid ID \<Longrightarrow> inv (remove ID s)"
    and lookup_remove: "inv s \<Longrightarrow> valid ID \<Longrightarrow> valid ID' \<Longrightarrow>
      lookup ID (remove ID' s) = (if ID = ID' then None else lookup ID s)"
    and inv_consolidate: "inv s \<Longrightarrow> inv (consolidate e b s)"
    and lookup_consolidate: "inv s \<Longrightarrow> valid ID \<Longrightarrow> lookup ID (consolidate e b s) = Some m \<Longrightarrow> lookup ID s = Some m"
    and kept_consolidate: "inv s \<Longrightarrow> valid ID \<Longrightarrow> lookup ID s = Some m \<Longrightarrow> keeps e m \<Longrightarrow> lookup ID (consolidate e False s) = Some m"
begin

definition table :: "'s \<Rightarrow> 'id \<rightharpoonup> 'n" where
  "table s = (\<lambda>ID. if valid ID then lookup ID s else None)"

lemma table_add:
  "inv s \<Longrightarrow> valid (ident n) \<Longrightarrow> add e n s = Some s' \<Longrightarrow> table_step ident own merge keeps (Add_op e n) (table s) (table s')"
  by (auto simp: table_def fun_eq_iff lookup_add)

lemma table_remove: "inv s \<Longrightarrow> valid ID \<Longrightarrow> table_step ident own merge keeps (Remove_op ID) (table s) (table (remove ID s))"
  by (auto simp: table_def fun_eq_iff lookup_remove)

lemma table_consolidate: "inv s \<Longrightarrow> table_step ident own merge keeps (Consolidate_op e b) (table s) (table (consolidate e b s))"
  by (auto simp: table_def map_le_def kept_consolidate dest!: lookup_consolidate)

lemma run_refines:
  "inv s \<Longrightarrow> list_all (op_valid ident valid) xs \<Longrightarrow>
     \<exists>s'. op_run add remove consolidate xs s = Some s' \<and> inv s' \<and> table_run (table_step ident own merge keeps) xs (table s) (table s')"
proof (induction xs arbitrary: s)
  case (Cons x xs)
  obtain s1 where s1: "op_run add remove consolidate (x # xs) s = op_run add remove consolidate xs s1" "inv s1"
    "table_step ident own merge keeps x (table s) (table s1)"
  proof (cases x)
    case (Add_op e n)
    then obtain s1 where "add e n s = Some s1" "inv s1" using Cons.prems add_returns by fastforce
    then show thesis using that [of s1] Add_op Cons.prems table_add by auto
  next
    case (Remove_op ID)
    then show thesis using that [of "remove ID s"] Cons.prems inv_remove table_remove by auto
  next
    case (Consolidate_op e b)
    then show thesis using that [of "consolidate e b s"] Cons.prems inv_consolidate table_consolidate by auto
  qed
  then show ?case using Cons.IH [of s1] Cons.prems(2) by auto
qed simp

end

section \<open>The routing table is one\<close>

type_synonym root_op = "(int \<times> int, bytes, kad_node) table_op"

definition add_now :: "kad_config \<Rightarrow> bytes \<Rightarrow> int \<times> int \<Rightarrow> kad_node \<Rightarrow> routing_root \<Rightarrow> routing_root option" where
  "add_now c me e n s = map_option snd (AddNode_root c (fst e) (snd e) me 127 n s)"

definition consolidate_now :: "kad_config \<Rightarrow> int \<times> int \<Rightarrow> bool \<Rightarrow> routing_root \<Rightarrow> routing_root" where
  "consolidate_now c e b s = snd (Consolidate_root c (fst e) (snd e) b s)"

definition find_node :: "bytes \<Rightarrow> bytes \<Rightarrow> routing_root \<Rightarrow> kad_node option" where
  "find_node me ID s = GetNode me ID (r_zone s)"

definition keeps_node :: "kad_config \<Rightarrow> int \<times> int \<Rightarrow> kad_node \<Rightarrow> bool" where
  "keeps_node c e n = (\<not> IsFading c (fst e) False n \<and> IsNeeded c (fst e) n)"

definition merge_now :: "int \<times> int \<Rightarrow> kad_node \<Rightarrow> kad_node \<Rightarrow> kad_node" where
  "merge_now e = MergeNode (fst e)"

lemma find_node_Some:
  "root_ok c me s \<Longrightarrow> length ID = 16 \<Longrightarrow> find_node me ID s = Some m \<longleftrightarrow> m \<in> set (nodes (r_zone s)) \<and> m_ID m = ID"
  using GetNode_Some [of c me "r_zone s" ID m] root_in_zone [of c me s ID] by (simp add: find_node_def root_ok_def)

lemma find_node_None:
  "root_ok c me s \<Longrightarrow> length ID = 16 \<Longrightarrow> find_node me ID s = None \<longleftrightarrow> \<not> known ID (set (nodes (r_zone s)))"
  using find_node_Some [of c me s ID] by (cases "find_node me ID s") (auto simp: known_def)

lemma set_added:
  "m \<in># added now n M \<longleftrightarrow> (if known (m_ID n) (set_mset M) then \<exists>x. x \<in># M \<and> m = merged_node now n x else m \<in># M \<or> m = n)"
  by (auto simp: added_def)

lemma find_node_added:
  assumes "root_ok c me s" and "root_ok c me s'" and "length ID = 16" and "length (m_ID n) = 16"
    and "mset (nodes (r_zone s')) = added now n (mset (nodes (r_zone s)))"
  shows "find_node me ID s' =
    (if ID = m_ID n then Some (case find_node me ID s of None \<Rightarrow> n | Some m \<Rightarrow> MergeNode now n m) else find_node me ID s)"
proof -
  have set': "m \<in> set (nodes (r_zone s')) \<longleftrightarrow>
      (if known (m_ID n) (set (nodes (r_zone s))) then \<exists>x \<in> set (nodes (r_zone s)). m = merged_node now n x
       else m \<in> set (nodes (r_zone s)) \<or> m = n)" for m
    using set_added [of m now n "mset (nodes (r_zone s))"] by (auto simp flip: assms(5))
  note F = find_node_Some [OF assms(1,3)] and F' = find_node_Some [OF assms(2,3)]
  show ?thesis
  proof (cases "ID = m_ID n")
    case True
    show ?thesis
    proof (cases "find_node me ID s")
      case None
      then have "\<not> known (m_ID n) (set (nodes (r_zone s)))" using find_node_None [OF assms(1,3)] True by simp
      then have "find_node me ID s' = Some n" unfolding F' set' using True by simp
      then show ?thesis using True None by simp
    next
      case (Some m)
      then have m: "m \<in> set (nodes (r_zone s))" "m_ID m = ID" using F by simp_all
      then have "known (m_ID n) (set (nodes (r_zone s)))" using True by (auto simp: known_def)
      then have "find_node me ID s' = Some (MergeNode now n m)"
        unfolding F' set' using m True by (auto simp: merged_node_def intro!: bexI [of _ m])
      then show ?thesis using True Some by simp
    qed
  next
    case False
    have "find_node me ID s' = Some m \<longleftrightarrow> find_node me ID s = Some m" for m
      unfolding F F' set' using False by (auto simp: merged_node_def split: if_split_asm)
    then show ?thesis using False by (cases "find_node me ID s"; cases "find_node me ID s'") auto
  qed
qed

lemma add_now_Some:
  assumes "root_ok c me s" and "length (m_ID n) = 16"
  shows "\<exists>s'. add_now c me e n s = Some s' \<and> root_ok c me s'
    \<and> mset (nodes (r_zone s')) = (if m_ID n = me then mset (nodes (r_zone s)) else added (fst e) n (mset (nodes (r_zone s))))"
  using AddNode_root_spec [OF assms, of 127 "fst e" "snd e"] by (auto simp: add_now_def)

lemma consolidate_now_spec:
  assumes "root_ok c me s"
  shows "root_ok c me (consolidate_now c e b s)"
    and "m \<in> set (nodes (r_zone (consolidate_now c e b s))) \<Longrightarrow> m \<in> set (nodes (r_zone s))"
    and "m \<in> set (nodes (r_zone s)) \<Longrightarrow> keeps_node c e m \<Longrightarrow> \<not> b \<Longrightarrow> m \<in> set (nodes (r_zone (consolidate_now c e b s)))"
proof -
  obtain s' where s': "Consolidate_root c (fst e) (snd e) b s = (length (nodes (r_zone s')), s')" "root_ok c me s'"
     "set (nodes (r_zone s')) \<subseteq> set (nodes (r_zone s))"
     "\<forall>x \<in> set (nodes (r_zone s)). \<not> b \<and> \<not> IsFading c (fst e) False x \<and> IsNeeded c (fst e) x \<longrightarrow> x \<in> set (nodes (r_zone s'))"
    using Consolidate_root_spec [OF assms, of "fst e" "snd e" b] by blast
  have e: "consolidate_now c e b s = s'" using s'(1) by (simp add: consolidate_now_def)
  show "root_ok c me (consolidate_now c e b s)" using s'(2) e by simp
  show "m \<in> set (nodes (r_zone s))" if "m \<in> set (nodes (r_zone (consolidate_now c e b s)))"
    using that s'(3) e by auto
  show "m \<in> set (nodes (r_zone (consolidate_now c e b s)))" if "m \<in> set (nodes (r_zone s))" "keeps_node c e m" "\<not> b"
    using that s'(4) e by (simp add: keeps_node_def)
qed

lemma root_node_table:
  "node_table (root_ok c me) (\<lambda>ID. length ID = 16) me m_ID merge_now (keeps_node c) (add_now c me)
     (\<lambda>ID s. snd (RemoveNode_root me ID s)) (consolidate_now c) (find_node me)"
proof unfold_locales
  fix s and n :: kad_node and e assume ok: "root_ok c me s" "length (m_ID n) = 16"
  show "\<exists>s'. add_now c me e n s = Some s' \<and> root_ok c me s'" using add_now_Some [OF ok, of e] by auto
  fix s' and ID :: bytes assume a: "add_now c me e n s = Some s'" "length ID = 16"
  have s': "root_ok c me s'" "mset (nodes (r_zone s')) = (if m_ID n = me then mset (nodes (r_zone s)) else added (fst e) n (mset (nodes (r_zone s))))"
    using add_now_Some [OF ok, of e] a(1) by auto
  show "find_node me ID s' = (if ID = m_ID n \<and> ID \<noteq> me then Some (case find_node me ID s of None \<Rightarrow> n | Some m \<Rightarrow> merge_now e n m)
      else find_node me ID s)"
  proof (cases "m_ID n = me")
    case True
    then have "set (nodes (r_zone s')) = set (nodes (r_zone s))" using s'(2) by (metis set_mset_mset)
    then have "find_node me ID s' = Some m \<longleftrightarrow> find_node me ID s = Some m" for m
      using find_node_Some [OF ok(1) a(2)] find_node_Some [OF s'(1) a(2)] by simp
    then show ?thesis using True by (cases "find_node me ID s"; cases "find_node me ID s'") auto
  next
    case False
    then show ?thesis using find_node_added [OF ok(1) s'(1) a(2) ok(2), of "fst e"] s'(2) by (auto simp: merge_now_def split: option.split)
  qed
next
  fix s and ID :: bytes assume ok: "root_ok c me s" "length ID = 16"
  obtain s' where s': "RemoveNode_root me ID s = (known ID (set (nodes (r_zone s))), s')" "root_ok c me s'"
    "nodes (r_zone s') = filter (\<lambda>m. m_ID m \<noteq> ID) (nodes (r_zone s))"
    using RemoveNode_root_spec [OF ok] by auto
  then show "root_ok c me (snd (RemoveNode_root me ID s))" by simp
  fix ID' :: bytes assume l: "length ID' = 16"
  have "find_node me ID' s' = Some m \<longleftrightarrow> find_node me ID' s = Some m \<and> ID' \<noteq> ID" for m
    using find_node_Some [OF ok(1) l] find_node_Some [OF s'(2) l] s'(3) by auto
  then show "find_node me ID' (snd (RemoveNode_root me ID s)) = (if ID' = ID then None else find_node me ID' s)"
    using s'(1) by (cases "find_node me ID' s"; cases "find_node me ID' s'") auto
next
  fix s and e :: "int \<times> int" and b assume ok: "root_ok c me s"
  note ok' = consolidate_now_spec(1) [OF ok, of e b]
  then show "root_ok c me (consolidate_now c e b s)" .
  fix ID :: bytes and m assume l: "length ID = 16"
  show "find_node me ID s = Some m" if "find_node me ID (consolidate_now c e b s) = Some m"
    using that consolidate_now_spec(2) [OF ok, where m = m and e = e and b = b] find_node_Some [OF ok l, of m] find_node_Some [OF ok' l, of m] by simp
next
  fix s and e :: "int \<times> int" and ID :: bytes and m :: kad_node
  assume ok: "root_ok c me s" and l: "length ID = 16" and f: "find_node me ID s = Some m" "keeps_node c e m"
  show "find_node me ID (consolidate_now c e False s) = Some m"
    using f consolidate_now_spec(3) [OF ok, where m = m and e = e and b = False] find_node_Some [OF ok l, of m]
      find_node_Some [OF consolidate_now_spec(1) [OF ok, of e False] l, of m] by simp
qed

interpretation kad: node_table "root_ok c me" "\<lambda>ID. length ID = 16" me m_ID merge_now "keeps_node c" "add_now c me"
    "\<lambda>ID s. snd (RemoveNode_root me ID s)" "consolidate_now c" "find_node me"
  for c me
  by (rule root_node_table)

definition root_table :: "bytes \<Rightarrow> routing_root \<Rightarrow> bytes \<rightharpoonup> kad_node" where
  "root_table me s = (\<lambda>ID. if length ID = 16 then find_node me ID s else None)"

definition root_run :: "kad_config \<Rightarrow> bytes \<Rightarrow> root_op list \<Rightarrow> routing_root \<Rightarrow> routing_root option" where
  "root_run c me = op_run (add_now c me) (\<lambda>ID s. snd (RemoveNode_root me ID s)) (consolidate_now c)"

lemma kad_table: "node_table.table (\<lambda>ID. length ID = 16) (find_node me) s = root_table me s"
  by (simp add: kad.table_def root_table_def)

lemma routing_refines:
  assumes "root_ok c me s" and "list_all (op_valid m_ID (\<lambda>ID. length ID = 16)) xs"
  shows "\<exists>s'. root_run c me xs s = Some s' \<and> root_ok c me s'
    \<and> table_run (table_step m_ID me merge_now (keeps_node c)) xs (root_table me s) (root_table me s')"
  using kad.run_refines [OF assms] by (simp add: root_run_def kad_table)

section \<open>Checking out\<close>

text \<open>
  \<open>Checkout\<close> asks the handler to greet one node of a bin, and keeps a lookup of a random identifier of the zone
  running. \<open>hello\<close> says whether \<open>CKadHandler::CheckoutNode\<close> sends a greeting, \<open>stopped\<close> whether a lookup has
  stopped, \<open>rnd\<close> is \<open>rand()\<close> by level, index and bit. Of \<open>CLookupManager\<close> there are the
  lookups by their identifiers and the count of node lookups.
\<close>

record lookup_config =
  MaxNodeLookups :: int
  NodeLookupInterval :: int

record lookup_manager =
  m_LookupMap :: "bytes list"
  m_NodeLookupCount :: uint16

definition StartLookup :: "bytes \<Rightarrow> lookup_manager \<Rightarrow> lookup_manager" where
  "StartLookup k m = m\<lparr>m_LookupMap := m_LookupMap m @ [k], m_NodeLookupCount := m_NodeLookupCount m + 1\<rparr>"

definition StopLookup :: "bytes \<Rightarrow> lookup_manager \<Rightarrow> lookup_manager" where
  "StopLookup k m = m\<lparr>m_LookupMap := remove1 k (m_LookupMap m), m_NodeLookupCount := m_NodeLookupCount m - 1\<rparr>"

definition due :: "kad_config \<Rightarrow> int \<Rightarrow> (kad_node \<Rightarrow> bool) \<Rightarrow> kad_node \<Rightarrow> bool" where
  "due c now hello n =
     (\<not> now - m_uLastHello n < HelloInterval c \<and> (IsFading c now True n \<or> m_uLastHello n = 0) \<and> hello n)"

definition checkout_nodes :: "(kad_node \<Rightarrow> bool) \<Rightarrow> kad_node list \<Rightarrow> kad_node list" where
  "checkout_nodes P ns = (case List.find P ns of None \<Rightarrow> ns | Some n \<Rightarrow> remove_first P ns @ [n])"

definition random_id :: "(nat \<Rightarrow> int) \<Rightarrow> bytes \<Rightarrow> nat \<Rightarrow> bytes \<Rightarrow> bytes option" where
  "random_id rnd me L i = map_option (\<lambda>p. XorX (Init_copy p (of_nat L) True rnd) me) (GetPrefix L i)"

fun Checkout :: "kad_config \<Rightarrow> lookup_config \<Rightarrow> int \<Rightarrow> int \<Rightarrow> (kad_node \<Rightarrow> bool) \<Rightarrow> (bytes \<Rightarrow> bool)
    \<Rightarrow> (nat \<Rightarrow> bytes \<Rightarrow> nat \<Rightarrow> int) \<Rightarrow> bytes \<Rightarrow> zone \<Rightarrow> lookup_manager \<Rightarrow> (zone \<times> lookup_manager) option" where
  "Checkout c lc now tick hello stopped rnd me (Bin L i ns lk nx) m =
     (let ns = checkout_nodes (due c now hello) ns
      in if \<not> nx < tick then Some (Bin L i ns lk nx, m)
         else case lk of
           None \<Rightarrow>
             if IsDistantZone c L i \<or> length ns \<ge> BucketSize c * 8 div 10 then Some (Bin L i ns lk nx, m)
             else if int (unat (m_NodeLookupCount m)) \<ge> MaxNodeLookups lc then Some (Bin L i ns lk nx, m)
             else map_option (\<lambda>k. (Bin L i ns (Some k) nx, StartLookup k m)) (random_id (rnd L i) me L i)
         | Some k \<Rightarrow>
             if stopped k then Some (Bin L i ns None (tick + NodeLookupInterval lc * 1000), StopLookup k m)
             else Some (Bin L i ns lk nx, m))"
| "Checkout c lc now tick hello stopped rnd me (Fork L i l r) m =
     (case Checkout c lc now tick hello stopped rnd me l m of
        None \<Rightarrow> None
      | Some (l, m) \<Rightarrow>
          (case Checkout c lc now tick hello stopped rnd me r m of
             None \<Rightarrow> None
           | Some (r, m) \<Rightarrow> Some (Fork L i l r, m)))"

text \<open>The identifiers of the random lookups are in their zones.\<close>

fun lookups_ok :: "bytes \<Rightarrow> zone \<Rightarrow> bool" where
  "lookups_ok me (Bin L i ns lk nx) = (case lk of None \<Rightarrow> True | Some k \<Rightarrow> in_zone me L i k)"
| "lookups_ok me (Fork L i l r) = (lookups_ok me l \<and> lookups_ok me r)"

lemma mset_checkout_nodes: "mset (checkout_nodes P ns) = mset ns"
proof -
  have "List.find P ns = Some n \<Longrightarrow> add_mset n (mset (remove_first P ns)) = mset ns" for n
    by (induction ns) (auto split: if_split_asm)
  then show ?thesis by (auto simp: checkout_nodes_def split: option.split)
qed

lemma zone_ok_mset: "mset ns' = mset ns \<Longrightarrow> zone_ok c me (Bin L i ns' lk' nx') = zone_ok c me (Bin L i ns lk nx)"
proof -
  assume e: "mset ns' = mset ns"
  have "distinct (map m_ID ns') = distinct (map m_ID ns)" using e by (metis mset_map mset_eq_imp_distinct_iff)
  then show ?thesis using mset_eq_setD [OF e] mset_eq_length [OF e] by simp
qed

lemma length_fold_SetBit: "length d = 16 \<Longrightarrow> length (fold (\<lambda>i d. SetBit d i (f i) True) is d) = 16"
  by (induction "is" arbitrary: d) (simp_all add: SetBit_idw)

lemma bit_fold_SetBit:
  "length d = 16 \<Longrightarrow> \<forall>i \<in> set is. L \<le> i \<Longrightarrow> n < 128 \<Longrightarrow> 128 - L \<le> n \<Longrightarrow>
     bit (idw (fold (\<lambda>i d. SetBit d i (f i) True) is d)) n = bit (idw d) n"
proof (induction "is" arbitrary: d)
  case (Cons i "is")
  have "bit (idw (SetBit d i (f i) True)) n = bit (idw d) n"
    unfolding SetBit_idw(1) [OF Cons.prems(1)] using Cons.prems by (auto simp: bit_set_bit_iff bit_unset_bit_iff)
  then show ?case using Cons.IH [of "SetBit d i (f i) True"] Cons.prems SetBit_idw(2) [OF Cons.prems(1)] by simp
qed simp

lemma random_id_in_zone:
  assumes "zone_id L i" and "1 \<le> L" and "length me = 16"
  shows "\<exists>k. random_id rnd me L i = Some k \<and> in_zone me L i k"
proof -
  have i: "length i = 16" "L \<le> 128" "ix i < 2 ^ L" using assms(1) by (simp_all add: zone_id_def)
  obtain p where p: "GetPrefix L i = Some p" "length p = 16" "idw p = push_bit (128 - L) (idw i)"
    using ShiftLeft_idw [OF i(1), of "128 - L"] assms(2) i by (auto simp: GetPrefix_def GetBitSize_def)
  define R where "R = Init_copy p (of_nat L) True rnd"
  have u: "unat (of_nat L :: uint32) = L" using i(2) by (simp add: unat_of_nat)
  have "(of_nat L :: uint32) \<noteq> - 1"
  proof
    assume "(of_nat L :: uint32) = - 1"
    moreover have "unat (- 1 :: uint32) = 4294967295" by (simp add: unsigned_minus_1_eq_mask mask_eq_exp_minus_1)
    ultimately show False using u i(2) by simp
  qed
  then have R: "R = fold (\<lambda>i d. SetBit d i (rnd i AND 2 \<noteq> 0) True) [L..<128] p"
    using p(2) by (simp add: R_def Init_copy_def u GetBitSize_def)
  have lR: "length R = 16" unfolding R by (rule length_fold_SetBit [OF p(2)])
  have "drop_bit (128 - L) (idw R) = idw i"
  proof (rule bit_word_eqI)
    fix n assume n: "n < LENGTH(128)"
    show "bit (drop_bit (128 - L) (idw R)) n = bit (idw i) n"
    proof (cases "n < L")
      case True
      then have m: "128 - L + n < 128" using i(2) by simp
      have "bit (idw R) (128 - L + n) = bit (idw p) (128 - L + n)"
        unfolding R by (rule bit_fold_SetBit [OF p(2), where L = L]) (use m in auto)
      then show ?thesis using m by (simp add: bit_drop_bit_eq p(3) bit_push_bit_iff)
    next
      case False
      have "\<not> bit (ix i) n"
      proof -
        have "(2 :: nat) ^ L \<le> 2 ^ n" using False by (intro power_increasing) simp_all
        with i(3) have "ix i < 2 ^ n" by (rule less_le_trans)
        then have "ix i div 2 ^ n = 0" by (rule div_less)
        then show ?thesis by (simp add: bit_iff_odd)
      qed
      then have "\<not> bit (idw i) n" using n by (simp add: ix_def bit_unsigned_iff)
      moreover have "\<not> bit (drop_bit (128 - L) (idw R)) n"
        using False i(2) by (auto simp: bit_drop_bit_eq dest: bit_imp_le_length)
      ultimately show ?thesis by simp
    qed
  qed
  moreover have "dist me (XorX R me) = unat (idw R)"
    by (simp add: dist_def bitwise_idw(3) [OF lR assms(3)] xor.assoc)
  moreover have "unat (drop_bit (128 - L) (idw R)) = unat (idw R) div 2 ^ (128 - L)"
    unfolding drop_bit_eq_div [where 'a = nat, symmetric] by (rule bit_eqI) (auto simp: bit_unsigned_iff bit_drop_bit_eq dest: bit_imp_le_length)
  ultimately have "in_zone me L i (XorX R me)" using length_XorX [OF lR] by (simp add: in_zone_def ix_def)
  then show ?thesis using p(1) by (simp add: random_id_def R_def)
qed

lemma Checkout_spec:
  "zone_ok c me z \<Longrightarrow> length me = 16 \<Longrightarrow> is_fork z \<or> 1 \<le> z_level z \<Longrightarrow> lookups_ok me z \<Longrightarrow>
     \<exists>z' m'. Checkout c lc now tick hello stopped rnd me z m = Some (z', m') \<and> zone_ok c me z' \<and> lookups_ok me z'
       \<and> same_place z z' \<and> is_fork z' = is_fork z \<and> mset (nodes z') = mset (nodes z)"
proof (induction z arbitrary: m)
  case (Bin L i ns lk nx)
  let ?ns = "checkout_nodes (due c now hello) ns"
  have ms: "mset ?ns = mset ns" by (rule mset_checkout_nodes)
  have ok: "zone_ok c me (Bin L i ?ns lk' nx')" for lk' nx'
    using zone_ok_mset [OF ms] Bin.prems(1) by blast
  have "zone_id L i" "1 \<le> L" using Bin.prems by simp_all
  then obtain k where k: "random_id (rnd L i) me L i = Some k" "in_zone me L i k"
    using random_id_in_zone Bin.prems(2) by blast
  show ?case
    using ok k Bin.prems(4) ms by (auto simp: Let_def same_place_def simp del: zone_ok.simps split: option.split)
next
  case (Fork L i l r)
  have lv: "is_fork l \<or> 1 \<le> z_level l" "is_fork r \<or> 1 \<le> z_level r" using Fork.prems(1) by simp_all
  obtain l' m1 where l: "Checkout c lc now tick hello stopped rnd me l m = Some (l', m1)" "zone_ok c me l'" "lookups_ok me l'"
    "same_place l l'" "mset (nodes l') = mset (nodes l)"
    using Fork.IH(1) [OF _ Fork.prems(2) lv(1)] Fork.prems(1,4) by fastforce
  obtain r' m2 where r: "Checkout c lc now tick hello stopped rnd me r m1 = Some (r', m2)" "zone_ok c me r'" "lookups_ok me r'"
    "same_place r r'" "mset (nodes r') = mset (nodes r)"
    using Fork.IH(2) [OF _ Fork.prems(2) lv(2)] Fork.prems(1,4) by fastforce
  show ?case using l r Fork.prems(1) by (auto simp: same_place_def)
qed

section \<open>Random lookups stay in their zones\<close>

lemma SetLookup_ok:
  "zone_ok c me z \<Longrightarrow> length me = 16 \<Longrightarrow> in_zone me (z_level z) (z_index z) k \<Longrightarrow> lookups_ok me z \<Longrightarrow>
     lookups_ok me (SetLookup me k z)"
proof (induction z)
  case (Fork L i l r)
  have z: "in_zone me L i k" using Fork.prems by simp
  note ch = zone_ok_child [OF Fork.prems(1,2) z]
  show ?case using Fork ch by (cases "goes_left me L k") auto
qed simp

lemma new_fork_lookups: "lookups_ok me (new_fork tick L i)"
  by (simp add: new_fork_def new_bin_def Let_def)

lemma AddNode_lookups:
  "length me = 16 \<Longrightarrow> 1 \<le> BucketSize c \<Longrightarrow> zone_ok c me z \<Longrightarrow> in_zone me (z_level z) (z_index z) (m_ID n) \<Longrightarrow>
     lookups_ok me z \<Longrightarrow> AddNode c now tick me f n z = Some (b, z') \<Longrightarrow> lookups_ok me z' \<and> zone_ok c me z' \<and> same_place z z'"
  "length me = 16 \<Longrightarrow> 1 \<le> BucketSize c \<Longrightarrow> zone_ok c me z \<Longrightarrow>
     (\<forall>n \<in> set ns. in_zone me (z_level z) (z_index z) (m_ID n)) \<Longrightarrow>
     lookups_ok me z \<Longrightarrow> AddNodes c now tick me f ns z = Some z' \<Longrightarrow> lookups_ok me z' \<and> zone_ok c me z' \<and> same_place z z'"
proof (induction c now tick me f n z and c now tick me f ns z arbitrary: b z' and z' rule: AddNode_AddNodes.induct)
  case (1 c now tick me f n L i l r)
  have z: "in_zone me L i (m_ID n)" using "1.prems" by simp
  note ch = zone_ok_child [OF "1.prems"(3,1) z]
  show ?case
  proof (cases "goes_left me L (m_ID n)")
    case True
    then obtain y where y: "AddNode c now tick me f n l = Some (b, y)" "z' = Fork L i y r" using "1.prems"(6) by auto
    have "lookups_ok me y \<and> zone_ok c me y \<and> same_place l y" by (rule "1.IH"(1) [OF True _ _ _ _ _ y(1)]) (use True "1.prems" ch in auto)
    then show ?thesis using y(2) "1.prems"(3,5) by (auto simp: same_place_def)
  next
    case False
    then obtain y where y: "AddNode c now tick me f n r = Some (b, y)" "z' = Fork L i l y" using "1.prems"(6) by auto
    have "lookups_ok me y \<and> zone_ok c me y \<and> same_place r y" by (rule "1.IH"(2) [OF False _ _ _ _ _ y(1)]) (use False "1.prems" ch in auto)
    then show ?thesis using y(2) "1.prems"(3,5) by (auto simp: same_place_def)
  qed
next
  case (2 c now tick me f n L i ns lk nx)
  have l16: "length (m_ID n) = 16" using "2.prems" by (simp add: in_zone_def)
  have ok: "ids_ok ns" using zone_ok_ids [OF "2.prems"(3)] by simp
  show ?case
  proof (cases "GetNode_bin ns (m_ID n)")
    case (Some m)
    have u: "update_first (\<lambda>m. same_id (m_ID m) (m_ID n)) (MergeNode now n) ns = map (merged_node now n) ns"
      unfolding update_first_map [OF ok l16] merged_node_def ..
    have "map m_ID (map (merged_node now n) ns) = map m_ID ns" by simp
    then show ?thesis using Some "2.prems" by (auto simp: u same_place_def simp del: map_map)
  next
    case None
    then have m: "\<not> known (m_ID n) (set ns)" using GetNode_bin_None [OF ok l16] by simp
    have ids: "ids_ok (ns @ [n])" using ok l16 m by (auto simp: ids_ok_def known_image)
    have inz: "\<forall>x \<in> set (ns @ [n]). in_zone me L i (m_ID x)" using "2.prems" by auto
    show ?thesis
    proof (cases "length (ns @ [n]) > BucketSize c")
      case False
      then have "z' = Bin L i (ns @ [n]) lk nx" using None "2.prems"(6) by simp
      then show ?thesis using False "2.prems" ids inz by (auto simp: same_place_def ids_ok_def)
    next
      case True
      have "L < 128"
      proof (rule ccontr)
        assume "\<not> L < 128"
        then have L: "L = 128" using "2.prems" by (simp add: zone_id_def)
        have "ns \<noteq> []" using True "2.prems" by auto
        then obtain x where x: "x \<in> set ns" by (cases ns) auto
        have "m_ID x = m_ID n" by (rule in_zone_full) (use inz x L in auto)
        then show False using m x by (auto simp: known_def)
      qed
      obtain f' y where f: "f = Suc f'" and y: "AddNodes c now tick me f' (ns @ [n]) (new_fork tick L i) = Some y"
        "z' = (case lk of None \<Rightarrow> y | Some k \<Rightarrow> SetLookup me k y)"
        using True None "2.prems"(6) by (auto split: nat.split_asm)
      have zi: "zone_id L i" using "2.prems" by simp
      note nf = new_fork_ok [OF zi \<open>L < 128\<close>, of c me tick]
      have Y: "lookups_ok me y \<and> zone_ok c me y \<and> same_place (new_fork tick L i) y"
        by (rule "2.IH" [OF None True f _ _ _ _ _ y(1)]) (use "2.prems" nf inz new_fork_lookups in auto)
      then show ?thesis
        using y(2) nf "2.prems"(1,5) SetLookup_ok [of c me y] by (auto simp: same_place_def split: option.split)
    qed
  qed
next
  case (3 c now tick me f z)
  then show ?case by (simp add: same_place_def)
next
  case (4 c now tick me f n ns z)
  obtain b z1 where z1: "AddNode c now tick me f n z = Some (b, z1)" "AddNodes c now tick me f ns z1 = Some z'"
    using "4.prems"(6) by (auto split: option.split_asm)
  have Z1: "lookups_ok me z1 \<and> zone_ok c me z1 \<and> same_place z z1"
    by (rule "4.IH"(1) [OF _ _ _ _ _ z1(1)]) (use "4.prems" in auto)
  have "lookups_ok me z' \<and> zone_ok c me z' \<and> same_place z1 z'"
    by (rule "4.IH"(2) [OF z1(1) refl _ _ _ _ _ z1(2)]) (use "4.prems" Z1 in \<open>auto simp: same_place_def\<close>)
  then show ?case using Z1 by (simp add: same_place_def)
qed

lemma RemoveNode_lookups: "lookups_ok me z \<Longrightarrow> lookups_ok me (snd (RemoveNode me ID z))"
  by (induction z) (auto split: prod.split)

lemma Consolidate_lookups: "lookups_ok me z \<Longrightarrow> lookups_ok me (snd (Consolidate c now tick b rt z))"
proof (induction z arbitrary: rt)
  case (Fork L i l r)
  obtain lc l' where l: "Consolidate c now tick b False l = (lc, l')" by fastforce
  obtain rc r' where r: "Consolidate c now tick b False r = (rc, r')" by fastforce
  obtain n z' where z': "Consolidate c now tick b rt (Fork L i l r) = (n, z')" by fastforce
  have "lookups_ok me l'" "lookups_ok me r'" using Fork.IH(1) [of False] Fork.IH(2) [of False] Fork.prems l r by auto
  with z' l r have "lookups_ok me z'" by (cases rule: Consolidate_Fork) auto
  then show ?case using z' by simp
qed (simp add: Let_def)

section \<open>Reachable routing tables\<close>

definition Checkout_root :: "kad_config \<Rightarrow> lookup_config \<Rightarrow> int \<Rightarrow> int \<Rightarrow> (kad_node \<Rightarrow> bool) \<Rightarrow> (bytes \<Rightarrow> bool)
    \<Rightarrow> (nat \<Rightarrow> bytes \<Rightarrow> nat \<Rightarrow> int) \<Rightarrow> bytes \<Rightarrow> lookup_manager \<Rightarrow> routing_root \<Rightarrow> (routing_root \<times> lookup_manager) option" where
  "Checkout_root c lc now tick hello stopped rnd me m s =
     map_option (\<lambda>(z, m). (s\<lparr>r_zone := z\<rparr>, m)) (Checkout c lc now tick hello stopped rnd me (r_zone s) m)"

inductive root_step :: "kad_config \<Rightarrow> bytes \<Rightarrow> routing_root \<Rightarrow> routing_root \<Rightarrow> bool" for c me where
  add: "length (m_ID n) = 16 \<Longrightarrow> AddNode_root c now tick me 127 n s = Some (b, s') \<Longrightarrow> root_step c me s s'"
| remove: "length ID = 16 \<Longrightarrow> RemoveNode_root me ID s = (b, s') \<Longrightarrow> root_step c me s s'"
| consolidate: "Consolidate_root c now tick bCleanUp s = (k, s') \<Longrightarrow> root_step c me s s'"
| checkout: "Checkout_root c lc now tick hello stopped rnd me m s = Some (s', m') \<Longrightarrow> root_step c me s s'"

inductive root_reachable :: "kad_config \<Rightarrow> bytes \<Rightarrow> routing_root \<Rightarrow> bool" for c me where
  start: "root_reachable c me (new_root tick)"
| follow: "root_reachable c me s \<Longrightarrow> root_step c me s s' \<Longrightarrow> root_reachable c me s'"

definition root_inv :: "kad_config \<Rightarrow> bytes \<Rightarrow> routing_root \<Rightarrow> bool" where
  "root_inv c me s = (root_ok c me s \<and> lookups_ok me (r_zone s))"

lemma root_step_inv:
  assumes "root_step c me s s'" and "root_inv c me s"
  shows "root_inv c me s'"
  using assms(1)
proof cases
  case (add n now tick b)
  have ok: "root_ok c me s" "lookups_ok me (r_zone s)" using assms(2) by (simp_all add: root_inv_def)
  have "root_ok c me s'" using AddNode_root_spec [OF ok(1) add(1), of 127 now tick] add(2) by auto
  moreover have "lookups_ok me (r_zone s')"
  proof (cases "same_id (m_ID n) me")
    case True
    then show ?thesis using add(2) ok(2) by (simp add: AddNode_root_def)
  next
    case False
    then obtain d z where z: "AddNode c now tick me 127 n (r_zone s) = Some (d, z)" "r_zone s' = z"
      using add(2) by (auto simp: AddNode_root_def split: option.split_asm)
    have "lookups_ok me z"
      using AddNode_lookups(1) [OF _ _ _ _ ok(2) z(1)] ok(1) root_in_zone [OF ok(1) add(1)] by (auto simp: root_ok_def)
    then show ?thesis using z(2) by simp
  qed
  ultimately show ?thesis by (simp add: root_inv_def)
next
  case (remove ID b)
  have ok: "root_ok c me s" "lookups_ok me (r_zone s)" using assms(2) by (simp_all add: root_inv_def)
  have "root_ok c me s'" using RemoveNode_root_spec [OF ok(1) remove(1)] remove(2) by auto
  moreover have "r_zone s' = snd (RemoveNode me ID (r_zone s))"
    using remove(2) by (auto simp: RemoveNode_root_def split: prod.split_asm bool.split_asm)
  ultimately show ?thesis using RemoveNode_lookups [OF ok(2)] by (simp add: root_inv_def)
next
  case (consolidate now tick bCleanUp k)
  have ok: "root_ok c me s" "lookups_ok me (r_zone s)" using assms(2) by (simp_all add: root_inv_def)
  have "root_ok c me s'" using Consolidate_root_spec [OF ok(1), of now tick bCleanUp] consolidate by auto
  moreover have "r_zone s' = snd (Consolidate c now tick bCleanUp True (r_zone s))"
    using consolidate by (auto simp: Consolidate_root_def split: prod.split_asm)
  ultimately show ?thesis using Consolidate_lookups [OF ok(2)] by (simp add: root_inv_def)
next
  case (checkout lc now tick hello stopped rnd m m')
  have ok: "root_ok c me s" "lookups_ok me (r_zone s)" using assms(2) by (simp_all add: root_inv_def)
  obtain z where z: "Checkout c lc now tick hello stopped rnd me (r_zone s) m = Some (z, m')" "s' = s\<lparr>r_zone := z\<rparr>"
    using checkout by (auto simp: Checkout_root_def)
  have Z: "zone_ok c me z" "lookups_ok me z" "same_place (r_zone s) z" "is_fork z" "mset (nodes z) = mset (nodes (r_zone s))"
    using Checkout_spec [of c me "r_zone s" lc now tick hello stopped rnd m] ok z(1) by (auto simp: root_ok_def)
  have "set (nodes z) = set (nodes (r_zone s))" "length (nodes z) = length (nodes (r_zone s))"
    using mset_eq_setD [OF Z(5)] mset_eq_length [OF Z(5)] by simp_all
  then show ?thesis using Z z(2) ok(1) root_place [OF Z(3) ok(1)] by (simp add: root_inv_def root_ok_def)
qed

lemma root_reachable_inv: "root_reachable c me s \<Longrightarrow> length me = 16 \<Longrightarrow> 1 \<le> BucketSize c \<Longrightarrow> root_inv c me s"
proof (induction rule: root_reachable.induct)
  case (start tick)
  then show ?case using new_root_ok [of me c tick] new_fork_lookups by (simp add: root_inv_def new_root_def)
next
  case (follow s s')
  then show ?case using root_step_inv by blast
qed

text \<open>With buckets of size 0 every split would be followed by another one.\<close>

lemma no_buckets: "BucketSize c = 0 \<Longrightarrow> AddNode c now tick me f n (Bin L i [] lk nx) = None"
proof (induction f arbitrary: L i lk nx)
  case (Suc f)
  have "AddNodes c now tick me f [n] (new_fork tick L i) = None"
    using Suc by (simp add: new_fork_def new_bin_def Let_def)
  then show ?case using Suc.prems by (simp add: GetNode_bin_def)
qed (simp add: GetNode_bin_def)

lemma iterate_all:
  assumes "zone_ok c me z" and "length t = 16"
  shows "iter_inv (eligible P iMaxState) me t z W it \<Longrightarrow> length rs = length W + m \<Longrightarrow>
    \<exists>xs. iterate (\<lambda>rnd. GetClosestNode me t P iMaxState rnd rnds z) rs it = map Some xs @ replicate m None
      \<and> mset xs = mset (map snd W) \<and> (MinNodes it = 1 \<longrightarrow> xs = map snd W)"
proof (induction rs arbitrary: W it m)
  case (Cons rnd rs)
  let ?nxt = "\<lambda>rnd. GetClosestNode me t P iMaxState rnd rnds z"
  obtain x it' where g: "?nxt rnd it = (x, it')" by fastforce
  note st = GetClosestNode_step [OF assms Cons.prems(1) g]
  show ?case
  proof (cases "W = []")
    case True
    then obtain m' where m: "m = Suc m'" "length rs = m'" using Cons.prems(2) by (cases m) auto
    obtain xs where "iterate ?nxt rs it' = map Some xs @ replicate m' None" "mset xs = mset (map snd ([] :: node_map))"
      using Cons.IH [of "[]" it' m'] st True m by auto
    then show ?thesis using True st g m by simp
  next
    case False
    then obtain j where j: "j < length W" "MinNodes it = 1 \<longrightarrow> j = 0" "x = Some (snd (W ! j))"
       "iter_inv (eligible P iMaxState) me t z (take j W @ drop (Suc j) W) it'" "MinNodes it' = MinNodes it"
      using st by auto
    let ?W = "take j W @ drop (Suc j) W"
    obtain xs where xs: "iterate ?nxt rs it' = map Some xs @ replicate m None" "mset xs = mset (map snd ?W)"
      "MinNodes it = 1 \<longrightarrow> xs = map snd ?W"
    proof -
      have "length rs = length ?W + m" using Cons.prems(2) j(1) by simp
      from Cons.IH [OF j(4) this] show thesis using that j(5) by auto
    qed
    have W: "W = take j W @ W ! j # drop (Suc j) W" using j(1) by (simp add: id_take_nth_drop)
    have "mset (map snd W) = add_mset (snd (W ! j)) (mset (map snd ?W))" by (subst W) simp
    then have 1: "mset (snd (W ! j) # xs) = mset (map snd W)" using xs(2) by simp
    have 2: "snd (W ! j) # xs = map snd W" if "MinNodes it = 1"
    proof -
      have "j = 0" and x: "xs = map snd (take j W @ drop (Suc j) W)" using that j(2) xs(3) by simp_all
      obtain w W' where "W = w # W'" using False by (cases W) auto
      then show ?thesis using \<open>j = 0\<close> x by simp
    qed
    have 3: "iterate ?nxt (rnd # rs) it = map Some (snd (W ! j) # xs) @ replicate m None"
      using g j(3) xs(1) by simp
    show ?thesis by (intro exI [of _ "snd (W ! j) # xs"] conjI impI) (rule 3, rule 1, rule 2)
  qed
qed simp

lemma new_iterator_inv:
  assumes "zone_ok c me z" and "length me = 16" and "length t = 16" and "1 \<le> k" and "length (nodes z) < 2 ^ 32"
  shows "iter_inv E me t z (by_distance t (filter E (nodes z))) (new_route_iterator k)"
proof -
  have "length (filter E (nodes z)) < 2 ^ 32" using assms(5) length_filter_le [of E "nodes z"] by linarith
  then show ?thesis
    using todo_all [OF assms(1-3), of E] qwf_by_distance [OF assms(3) ids_ok_filter [OF zone_ok_ids [OF assms(1)]], of E] assms(4)
    by (simp add: iter_inv_def new_route_iterator_def)
qed

lemma map_snd_by_distance: "mset (map snd (by_distance t ns)) = mset ns"
proof -
  have "mset (by_distance t ns) = mset (keyed t ns)" by (simp add: by_distance_def)
  then have "mset (map snd (by_distance t ns)) = mset (map snd (keyed t ns))" by (simp only: mset_map)
  also have "map snd (keyed t ns) = ns" by (simp add: keyed_def comp_def)
  finally show ?thesis .
qed

section \<open>Properties\<close>

text \<open>The bins of a tree: level, index, nodes and the random lookup.\<close>

fun bins :: "zone \<Rightarrow> (nat \<times> bytes \<times> kad_node list \<times> bytes option) list" where
  "bins (Bin L i ns lk nx) = [(L, i, ns, lk)]"
| "bins (Fork L i l r) = bins l @ bins r"

lemma bins_ok:
  "zone_ok c me z \<Longrightarrow> lookups_ok me z \<Longrightarrow> (L, i, ns, lk) \<in> set (bins z) \<Longrightarrow>
     length ns \<le> BucketSize c \<and> (\<forall>n \<in> set ns. in_zone me L i (m_ID n)) \<and> (\<forall>k. lk = Some k \<longrightarrow> in_zone me L i k)"
  by (induction z) auto

text \<open>
  C25. In every reachable routing table no identifier occurs twice, the own one not at all, the count is that of the
  nodes, no bin is larger than a bucket, and the nodes and the random lookup of a bin lie in its zone.
\<close>

theorem reachable_root:
  assumes "root_reachable c me s" and "length me = 16" and "1 \<le> BucketSize c"
  shows "distinct (map m_ID (nodes (r_zone s))) \<and> me \<notin> m_ID ` set (nodes (r_zone s))
    \<and> m_NodeCount s = length (nodes (r_zone s))
    \<and> (\<forall>(L, i, ns, lk) \<in> set (bins (r_zone s)). length ns \<le> BucketSize c \<and> (\<forall>n \<in> set ns. in_zone me L i (m_ID n))
         \<and> (\<forall>k. lk = Some k \<longrightarrow> in_zone me L i k))"
proof -
  have ok: "root_ok c me s" "lookups_ok me (r_zone s)" using root_reachable_inv [OF assms] by (simp_all add: root_inv_def)
  then have z: "zone_ok c me (r_zone s)" by (simp add: root_ok_def)
  show ?thesis using nodes_distinct [OF z] bins_ok [OF z ok(2)] ok(1) by (auto simp: root_ok_def known_image)
qed

definition demo_id :: "nat \<Rightarrow> bytes" where
  "demo_id n = of_nat n # replicate 15 0"

lemma length_demo_id [simp]: "length (demo_id n) = 16"
  by (simp add: demo_id_def)

definition demo_me :: bytes where
  "demo_me = replicate 16 255"

lemma demo_id_me: "demo_id n \<noteq> demo_me"
proof
  assume "demo_id n = demo_me"
  then have "demo_id n ! 1 = demo_me ! 1" by simp
  then show False by (simp add: demo_id_def demo_me_def)
qed

definition demo_config :: kad_config where
  "demo_config = default_config\<lparr>BucketSize := 1\<rparr>"

definition demo_root :: routing_root where
  "demo_root = snd (the (AddNode_root demo_config 5 0 demo_me 127 (new_kad_node 5 (demo_id 2))
     (snd (the (AddNode_root demo_config 5 0 demo_me 127 (new_kad_node 5 (demo_id 1)) (new_root 0))))))"

lemma demo_reachable:
  "root_reachable demo_config demo_me demo_root" "mset (map m_ID (nodes (r_zone demo_root))) = {#demo_id 1, demo_id 2#}"
    "length demo_me = 16" "1 \<le> BucketSize demo_config"
proof -
  show c: "length demo_me = 16" "1 \<le> BucketSize demo_config" by (simp_all add: demo_me_def demo_config_def)
  have ne: "demo_id 1 \<noteq> demo_me" "demo_id 2 \<noteq> demo_me" "demo_id 1 \<noteq> demo_id 2"
    by (rule demo_id_me demo_id_me)+ (simp add: demo_id_def)
  have id: "m_ID (new_kad_node t i) = i" for t i by (simp add: new_kad_node_def)
  have e: "nodes (r_zone (new_root 0)) = []" by (simp add: new_root_def new_fork_def new_bin_def Let_def)
  note ok0 = new_root_ok [OF c, of 0]
  obtain s1 where s1: "AddNode_root demo_config 5 0 demo_me 127 (new_kad_node 5 (demo_id 1)) (new_root 0) = Some (True, s1)"
    "root_ok demo_config demo_me s1" "mset (nodes (r_zone s1)) = {#new_kad_node 5 (demo_id 1)#}"
    using AddNode_root_spec [OF ok0, of "new_kad_node 5 (demo_id 1)" 127 5 0] ne by (auto simp: id e added_def)
  have k: "\<not> known (demo_id 2) (set (nodes (r_zone s1)))"
    using arg_cong [OF s1(3), of set_mset] ne by (simp add: id)
  obtain s2 where s2: "AddNode_root demo_config 5 0 demo_me 127 (new_kad_node 5 (demo_id 2)) s1 = Some (True, s2)"
    "mset (nodes (r_zone s2)) = {#new_kad_node 5 (demo_id 1), new_kad_node 5 (demo_id 2)#}"
    using AddNode_root_spec [OF s1(2), of "new_kad_node 5 (demo_id 2)" 127 5 0] ne k s1(3) by (auto simp: id added_def)
  have d: "demo_root = s2" using s1(1) s2(1) by (simp add: demo_root_def)
  show "root_reachable demo_config demo_me demo_root"
    unfolding d by (rule root_reachable.follow [OF root_reachable.follow [OF root_reachable.start [of _ _ 0]]], rule root_step.add [OF _ s1(1)], simp add: id,
        rule root_step.add [OF _ s2(1)], simp add: id)
  show "mset (map m_ID (nodes (r_zone demo_root))) = {#demo_id 1, demo_id 2#}" using s2(2) by (simp add: d id)
qed

theorem reachable_root_witness:
  "root_reachable demo_config demo_me demo_root \<and> m_NodeCount demo_root = length (nodes (r_zone demo_root))
     \<and> list_all (\<lambda>(L, i, ns, lk). length ns \<le> 1) (bins (r_zone demo_root))"
  using reachable_root [OF demo_reachable(1,3,4)] demo_reachable(1) by (auto simp: demo_config_def list_all_iff)

text \<open>
  C26. The routing table refines a table from identifiers to nodes: any sequence of additions, removals and
  consolidations returns, \<open>GetNode\<close> then finds what the table holds, an addition merges with the node known under
  the identifier and the own identifier is never added, and consolidation loses no node that is needed and not fading.
\<close>

theorem routing_is_table:
  assumes "root_reachable c me s" and "length me = 16" and "1 \<le> BucketSize c"
    and "list_all (op_valid m_ID (\<lambda>ID. length ID = 16)) xs"
  shows "\<exists>s'. root_run c me xs s = Some s'
    \<and> table_run (table_step m_ID me merge_now (keeps_node c)) xs (root_table me s) (root_table me s')"
  using routing_refines [OF _ assms(4), of c me s] root_reachable_inv [OF assms(1-3)] by (auto simp: root_inv_def)

theorem routing_is_table_witness:
  "\<exists>s'. root_run demo_config demo_me [Remove_op (demo_id 1), Add_op (6, 0) (new_kad_node 6 (demo_id 3)), Consolidate_op (7, 0) False] demo_root = Some s'
    \<and> table_run (table_step m_ID demo_me merge_now (keeps_node demo_config))
        [Remove_op (demo_id 1), Add_op (6, 0) (new_kad_node 6 (demo_id 3)), Consolidate_op (7, 0) False]
        (root_table demo_me demo_root) (root_table demo_me s')"
  by (rule routing_is_table [OF demo_reachable(1,3,4)]) (simp add: new_kad_node_def)

text \<open>
  C27. \<open>AddNode\<close> always returns on a reachable table, whatever the identifiers are: no more than 127 bins are split one
  inside of the other. The node is counted when it is new.
\<close>

theorem AddNode_returns:
  assumes "root_reachable c me s" and "length me = 16" and "1 \<le> BucketSize c" and "length (m_ID n) = 16" and "127 \<le> f"
  shows "\<exists>s'. AddNode_root c now tick me f n s = Some (m_ID n \<noteq> me, s') \<and>
    m_NodeCount s' = m_NodeCount s + (if m_ID n = me \<or> m_ID n \<in> m_ID ` set (nodes (r_zone s)) then 0 else 1)"
proof -
  have ok: "root_ok c me s" using root_reachable_inv [OF assms(1-3)] by (simp add: root_inv_def)
  obtain s' where s': "AddNode_root c now tick me f n s = Some (m_ID n \<noteq> me, s')" "root_ok c me s'"
    "mset (nodes (r_zone s')) = (if m_ID n = me then mset (nodes (r_zone s)) else added now n (mset (nodes (r_zone s))))"
    using AddNode_root_spec [OF ok assms(4,5)] by blast
  have "length (nodes (r_zone s')) = length (nodes (r_zone s)) + (if m_ID n = me \<or> m_ID n \<in> m_ID ` set (nodes (r_zone s)) then 0 else 1)"
    using arg_cong [OF s'(3), of size] by (simp add: size_added known_image)
  then show ?thesis using s' ok by (simp add: root_ok_def)
qed

theorem AddNode_returns_witness:
  "\<exists>s'. AddNode_root demo_config 6 0 demo_me 127 (new_kad_node 6 (demo_id 3)) demo_root = Some (True, s')
     \<and> m_NodeCount s' = m_NodeCount demo_root + 1"
proof -
  let ?n = "new_kad_node 6 (demo_id 3)"
  have ne: "demo_id 3 \<noteq> demo_me" "demo_id 3 \<noteq> demo_id 1" "demo_id 3 \<noteq> demo_id 2"
    by (rule demo_id_me) (simp_all add: demo_id_def)
  have "set (map m_ID (nodes (r_zone demo_root))) = {demo_id 1, demo_id 2}"
    using arg_cong [OF demo_reachable(2), of set_mset] by simp
  then have "m_ID ?n \<notin> m_ID ` set (nodes (r_zone demo_root))" using ne by (simp add: new_kad_node_def)
  then show ?thesis
    using AddNode_returns [OF demo_reachable(1,3,4), of ?n 127 6 0] ne by (simp add: new_kad_node_def)
qed

text \<open>
  C28. \<open>GetClosestNodes\<close> finds exactly the \<open>k\<close> closest of all eligible nodes of the table, in the order of their
  distance to the target, though it visits only the bins it needs.
\<close>

theorem closest_nodes:
  assumes "root_reachable c me s" and "length me = 16" and "1 \<le> BucketSize c" and "length t = 16"
  shows "GetClosestNodes me t P iMaxState k (r_zone s) [] =
    take k (sort_key fst (map (\<lambda>n. (id_distance t (m_ID n), n)) (filter (eligible P iMaxState) (nodes (r_zone s)))))"
proof -
  have z: "zone_ok c me (r_zone s)" using root_reachable_inv [OF assms(1-3)] by (simp add: root_inv_def root_ok_def)
  show ?thesis
    using GetClosestNodes_spec [OF z assms(2,4), of "[]" P iMaxState k]
      qwf_by_distance [OF assms(4) ids_ok_filter [OF zone_ok_ids [OF z]], of "eligible P iMaxState"]
    by (simp add: by_distance_def keyed_def)
qed

theorem closest_nodes_witness:
  "GetClosestNodes demo_me (demo_id 7) eInvalid NODE_OFFLINE_CLASS 5 (r_zone demo_root) [] =
    take 5 (sort_key fst (map (\<lambda>n. (id_distance (demo_id 7) (m_ID n), n)) (filter (eligible eInvalid NODE_OFFLINE_CLASS) (nodes (r_zone demo_root)))))
   \<and> length (nodes (r_zone demo_root)) = 2"
  using closest_nodes [OF demo_reachable(1,3,4), of "demo_id 7"] arg_cong [OF demo_reachable(2), of size] by simp



end
