(* ===== verification/LookupTable.thy ===== *)
theory LookupTable
  imports LookupSpec RoutingTable
begin

text \<open>
  The lookups together with the routing table they take their nodes from and the manager that runs them.
\<close>

section \<open>The lookup and the routing table\<close>

definition known_order :: "(bytes \<Rightarrow> nat) \<Rightarrow> bytes \<Rightarrow> zone \<Rightarrow> nat list" where
  "known_order obj ID z = map (\<lambda>n. obj (m_ID n)) (map snd (by_distance ID (filter (eligible eInvalid NODE_DEFAULT_CLASS) (nodes z))))"

lemma length_by_distance: "length (by_distance t ns) = length ns"
  by (simp add: by_distance_def keyed_def)

lemma route_order_known:
  assumes "root_reachable c me s" and "length me = 16" and "1 \<le> BucketSize c" and "length ID = 16" and "m_NodeCount s < 2 ^ 32"
  shows "route_order obj me ID (r_zone s) = known_order obj ID (r_zone s)"
proof -
  have ok: "root_ok c me s" using root_reachable_inv [OF assms(1-3)] by (simp add: root_inv_def)
  then have z: "zone_ok c me (r_zone s)" "length (nodes (r_zone s)) < 2 ^ 32" using assms(5) by (simp_all add: root_ok_def)
  let ?E = "eligible eInvalid NODE_DEFAULT_CLASS" and ?ns = "nodes (r_zone s)"
  have "length (filter ?E ?ns) \<le> length ?ns" by (rule length_filter_le)
  then obtain m where m: "length (replicate (Suc (length ?ns)) (0 :: nat)) = length (by_distance ID (filter ?E ?ns)) + Suc m"
    by (metis add_Suc_right le_imp_less_Suc length_by_distance length_replicate less_imp_Suc_add)
  have k: "(1 :: nat) \<le> 1" by simp
  obtain xs where xs: "iterate (\<lambda>rnd. GetClosestNode me ID eInvalid NODE_DEFAULT_CLASS rnd (\<lambda>_ _ _. 0) (r_zone s)) (replicate (Suc (length ?ns)) 0)
      (new_route_iterator 1) = map Some xs @ replicate (Suc m) None" "xs = map snd (by_distance ID (filter ?E ?ns))"
    using iterate_all [OF z(1) assms(4) new_iterator_inv [OF z(1) assms(2,4) k z(2)] m, where rnds = "\<lambda>_ _ _. 0"]
    by (auto simp: new_route_iterator_def)
  have "takeWhile (\<lambda>x. x \<noteq> None) (map Some xs @ replicate (Suc m) None) = map Some xs" by (induction xs) auto
  then show ?thesis using xs by (simp add: route_order_def known_order_def)
qed

lemma known_order_distinct:
  assumes "ids_ok (nodes z)" and "inj_on obj (m_ID ` set (nodes z))" and "length ID = 16"
  shows "distinct (known_order obj ID z)"
proof -
  let ?f = "filter (eligible eInvalid NODE_DEFAULT_CLASS) (nodes z)"
  have d: "distinct (map m_ID ?f)" using ids_ok_filter [OF assms(1)] by (simp add: ids_ok_def)
  have m: "mset (map snd (by_distance ID ?f)) = mset ?f" by (simp add: by_distance_def keyed_def multiset.map_comp comp_def)
  then have s: "set (map snd (by_distance ID ?f)) = set ?f" by (metis set_mset_mset)
  have "distinct (map m_ID (map snd (by_distance ID ?f)))"
    using d m by (metis mset_map mset_eq_imp_distinct_iff)
  moreover have "inj_on obj (set (map m_ID (map snd (by_distance ID ?f))))"
    by (rule inj_on_subset [OF assms(2)]) (use s in auto)
  ultimately have "distinct (map obj (map m_ID (map snd (by_distance ID ?f))))" by (rule distinct_map [THEN iffD2, OF conjI])
  then show ?thesis by (simp add: known_order_def comp_def)
qed


text \<open>A table of two nodes with addresses.\<close>

definition addressed :: "nat \<Rightarrow> kad_node" where
  "addressed i = (new_kad_node 5 (demo_id i))\<lparr>m_AddressMap := (\<lambda>_. [])(eUTP_IP6 := [sample_node_address 4000 False])\<rparr>"

definition lookup_root :: routing_root where
  "lookup_root = snd (the (AddNode_root demo_config 5 0 demo_me 127 (addressed 2)
     (snd (the (AddNode_root demo_config 5 0 demo_me 127 (addressed 1) (new_root 0))))))"

lemma addressed_props: "m_ID (addressed i) = demo_id i" "eligible eInvalid NODE_DEFAULT_CLASS (addressed i)"
proof -
  show "m_ID (addressed i) = demo_id i" by (simp add: addressed_def new_kad_node_def)
  show "eligible eInvalid NODE_DEFAULT_CLASS (addressed i)"
    by (simp add: eligible_def addressed_def new_kad_node_def GetClass_def all_addresses_def protocols_def HasFailed_def IsBlocked_def
        sample_node_address_def node_init_def safe_address.extend_def address.extend_def class_defs)
qed

lemma lookup_root_reachable:
  "root_reachable demo_config demo_me lookup_root" "mset (nodes (r_zone lookup_root)) = {#addressed 1, addressed 2#}"
proof -
  have c: "length demo_me = 16" "1 \<le> BucketSize demo_config" by (simp_all add: demo_me_def demo_config_def)
  have ne: "demo_id 1 \<noteq> demo_me" "demo_id 2 \<noteq> demo_me" "demo_id 1 \<noteq> demo_id 2"
    by (rule demo_id_me demo_id_me)+ (simp add: demo_id_def)
  note id = addressed_props(1)
  have e: "nodes (r_zone (new_root 0)) = []" by (simp add: new_root_def new_fork_def new_bin_def Let_def)
  note ok0 = new_root_ok [OF c, of 0]
  obtain s1 where s1: "AddNode_root demo_config 5 0 demo_me 127 (addressed 1) (new_root 0) = Some (True, s1)"
    "root_ok demo_config demo_me s1" "mset (nodes (r_zone s1)) = {#addressed 1#}"
    using AddNode_root_spec [OF ok0, of "addressed 1" 127 5 0] ne by (auto simp: id e added_def)
  have k: "\<not> known (demo_id 2) (set (nodes (r_zone s1)))"
    using arg_cong [OF s1(3), of set_mset] ne by (simp add: id)
  obtain s2 where s2: "AddNode_root demo_config 5 0 demo_me 127 (addressed 2) s1 = Some (True, s2)"
    "mset (nodes (r_zone s2)) = {#addressed 1, addressed 2#}"
    using AddNode_root_spec [OF s1(2), of "addressed 2" 127 5 0] ne k s1(3) by (auto simp: id added_def)
  have d: "lookup_root = s2" using s1(1) s2(1) by (simp add: lookup_root_def)
  show "root_reachable demo_config demo_me lookup_root"
    unfolding d by (rule root_reachable.follow [OF root_reachable.follow [OF root_reachable.start [of _ _ 0]]], rule root_step.add [OF _ s1(1)], simp add: id,
        rule root_step.add [OF _ s2(1)], simp add: id)
  show "mset (nodes (r_zone lookup_root)) = {#addressed 1, addressed 2#}" using s2(2) by (simp add: d)
qed


section \<open>The manager\<close>

lemma manage_all_map:
  "distinct (map fst m) \<Longrightarrow>
     map_of (snd (manage_all c e order b5 b10 m)) i = Option.bind (map_of m i) (\<lambda>l. snd (manage c e order b5 b10 l))
     \<and> set (map fst (snd (manage_all c e order b5 b10 m))) \<subseteq> set (map fst m)"
proof (induction m)
  case (Cons x m)
  obtain j l where x: "x = (j, l)" by (cases x)
  obtain f r where r: "manage c e order b5 b10 l = (f, r)" by fastforce
  obtain fs m' where m: "manage_all c e order b5 b10 m = (fs, m')" by fastforce
  have IH: "map_of m' i = Option.bind (map_of m i) (\<lambda>l. snd (manage c e order b5 b10 l))" "set (map fst m') \<subseteq> set (map fst m)"
    using Cons m by auto
  have "map_of m j = None" using Cons.prems x by (simp add: map_of_eq_None_iff del: map_of_dom)
  then have j: "map_of m' j = None" using Cons.prems IH(2) x by (auto simp: map_of_eq_None_iff simp del: map_of_dom)
  show ?case
  proof (cases "i = j")
    case True
    then show ?thesis using IH j x r m by (cases r) (auto simp del: map_of_dom)
  next
    case False
    then show ?thesis using IH x r m by (cases r) auto
  qed
qed simp

lemma manage_all_sorted: "qwf m \<Longrightarrow> qwf (snd (manage_all c e order b5 b10 m))"
proof (induction m)
  case (Cons x m)
  obtain j l where x: "x = (j, l)" by (cases x)
  obtain f r where r: "manage c e order b5 b10 l = (f, r)" by fastforce
  obtain fs m' where m: "manage_all c e order b5 b10 m = (fs, m')" by fastforce
  have d: "distinct (map fst m)" using Cons.prems qwf_distinct [of m] by simp
  have "qkeys m' \<subseteq> qkeys m" using manage_all_map [OF d, of c e order b5 b10] m by (simp add: qkeys_def)
  then show ?case using Cons x r m by (cases r) auto
qed simp

lemma Process_manager_map:
  assumes "qwf (lm_Map M)"
  shows "map_of (lm_Map (snd (Process_manager c e order b5 b10 M))) i
      = Option.bind (map_of (lm_Map M) i) (\<lambda>l. snd (manage c e order b5 b10 l))"
    and "qwf (lm_Map (snd (Process_manager c e order b5 b10 M)))"
  using manage_all_map [OF qwf_distinct [OF assms], of c e order b5 b10 i] manage_all_sorted [OF assms, of c e order b5 b10]
  by (simp_all add: Process_manager_def split: prod.split_asm prod.split) auto



end
