(* ===== verification/Variant.thy ===== *)
theory Variant
  imports Buffer QMap "HOL-Library.List_Lexorder"
begin

text \<open>
  \<open>CVariant\<close> (NeoKad/Common/Variant.cpp, Variant.h): the values the Kad network exchanges and their binary
  form. An \<open>SVariant\<close> is a value: the reference counts and \<open>Detach\<close> make the shared representation behave
  like one. A variant made of a packet holds the bytes of its payload and parses a map or a list from them when it is
  first used; \<open>None\<close> of the containers is that it was not parsed yet. A pointer into the packet of the parent
  (\<open>vDerived\<close>) is a copy of its bytes. Names are strings of bytes, in their order as \<open>std::string\<close>.
  A packet is the list of the bytes from the reading position on; zlib is a parameter. Not modelled here: wide
  strings, floating point numbers, signatures and encryption, the conversion to \<open>QVariant\<close>.
\<close>

datatype vaccess = vReadWrite | vReadOnly | vDerived

datatype variant = Variant (v_Type: uint8) (v_Payload: bytes) (v_Access: vaccess)
  (v_Map: "(bytes \<times> variant) list option") (v_List: "variant list option")

definition EExtended :: uint8 where "EExtended = 0"
definition EMap :: uint8 where "EMap = 1"
definition EList :: uint8 where "EList = 2"
definition EBytes :: uint8 where "EBytes = 7"
definition EUtf8 :: uint8 where "EUtf8 = 8"
definition EAscii :: uint8 where "EAscii = 9"
definition ESInt :: uint8 where "ESInt = 16"
definition EUInt :: uint8 where "EUInt = 17"
definition EDouble :: uint8 where "EDouble = 18"
definition EInvalid :: uint8 where "EInvalid = 63"
definition ELen8 :: uint8 where "ELen8 = 64"
definition ELen16 :: uint8 where "ELen16 = 128"
definition ELen32 :: uint8 where "ELen32 = 192"

lemmas type_defs = EExtended_def EMap_def EList_def EBytes_def EUtf8_def EAscii_def ESInt_def EUInt_def EDouble_def EInvalid_def
lemmas len_defs = ELen8_def ELen16_def ELen32_def

text \<open>A C string ends at its first zero.\<close>

definition c_name :: "bytes \<Rightarrow> bytes" where
  "c_name s = takeWhile (\<lambda>c. c \<noteq> 0) s"

definition Init_v :: "uint8 \<Rightarrow> bytes \<Rightarrow> variant" where
  "Init_v T p = Variant T p vReadWrite (if T = EExtended \<or> T = EMap then Some [] else None) (if T = EList then Some [] else None)"

definition void :: variant where
  "void = Init_v EInvalid []"

definition IsRaw :: "variant \<Rightarrow> bool" where
  "IsRaw v = (v_Type v \<noteq> EExtended \<and> v_Type v \<noteq> EMap \<and> v_Type v \<noteq> EList)"

section \<open>Reading a packet\<close>

definition read_num :: "nat \<Rightarrow> bytes \<Rightarrow> (uint32 \<times> bytes) option" where
  "read_num n p = (if length p < n then None else Some (from_le (take n p), drop n p))"

definition read_size :: "uint8 \<Rightarrow> bytes \<Rightarrow> (uint32 \<times> bytes) option" where
  "read_size T p = (if T AND ELen32 = ELen8 then read_num 1 p else if T AND ELen32 = ELen16 then read_num 2 p else read_num 4 p)"

text \<open>
  \<open>Refused\<close> is the exception. \<open>Broken\<close> is a variant that could not be unpacked: the code returns it with the size of
  the packed data and no data.
\<close>

datatype parsed = Parsed variant bytes | Refused | Broken

definition FromPacket :: "(bytes \<Rightarrow> nat \<Rightarrow> zlib_result) \<Rightarrow> bool \<Rightarrow> bytes \<Rightarrow> parsed" where
  "FromPacket uncompress bDerived p =
     (case p of
        [] \<Rightarrow> Refused
      | T # p \<Rightarrow>
          (case read_size T p of
             None \<Rightarrow> Refused
           | Some (Size, p) \<Rightarrow>
               let n = unat Size; d = take n p; T' = T AND NOT ELen32
               in if length p < n then Refused
                  else if bDerived then Parsed (Variant T' d vDerived None None) (drop n p)
                  else if T AND ELen32 = 0 then
                    (case unpack_loop uncompress d (max (16 * 1024 * 1024) (unat (Size * 100))) (unat (Size * 10 + 300)) of
                       Z_OK u \<Rightarrow> Parsed (Variant T' u vReadOnly None None) (drop n p)
                     | _ \<Rightarrow> Broken)
                  else Parsed (Variant T' d vReadOnly None None) (drop n p)))"

lemma read_size_shorter: "read_size T p = Some (n, q) \<Longrightarrow> length q < length p"
  by (auto simp: read_size_def read_num_def split: if_split_asm)

lemma FromPacket_shorter: "FromPacket u b p = Parsed v q \<Longrightarrow> length q < length p"
  by (cases p) (auto simp: FromPacket_def Let_def dest!: read_size_shorter split: option.split_asm if_split_asm zlib_result.split_asm)

text \<open>The entries of a map and of a list, from the payload. The variants in it are derived from it.\<close>

definition FromPacket_d :: "bytes \<Rightarrow> (variant \<times> bytes) option" where
  "FromPacket_d p = (case FromPacket (\<lambda>_ _. Z_FAIL) True p of Parsed v q \<Rightarrow> Some (v, q) | _ \<Rightarrow> None)"

lemma FromPacket_d_shorter: "FromPacket_d p = Some (v, q) \<Longrightarrow> length q < length p"
  by (auto simp: FromPacket_d_def dest: FromPacket_shorter split: parsed.split_asm)

function parse_map :: "bytes \<Rightarrow> (bytes, variant) qmap \<Rightarrow> (bytes, variant) qmap option" where
  "parse_map [] m = Some m"
| "parse_map (Len # p) m =
     (if length p < unat Len then None
      else case FromPacket_d (drop (unat Len) p) of
             None \<Rightarrow> None
           | Some (Temp, q) \<Rightarrow>
               let Name = c_name (take (unat Len) p)
               in parse_map q (if Name \<in> qkeys m then m else qm_insert Name Temp m))"
  by pat_completeness auto
termination
  by (relation "measure (\<lambda>(p, m). length p)") (auto dest!: FromPacket_d_shorter)

function parse_list :: "bytes \<Rightarrow> variant list option" where
  "parse_list p =
     (if p = [] then Some []
      else case FromPacket_d p of
             None \<Rightarrow> None
           | Some (Temp, q) \<Rightarrow> map_option (\<lambda>vs. Temp # vs) (parse_list q))"
  by pat_completeness auto
termination
  by (relation "measure length") (auto dest!: FromPacket_d_shorter)

declare parse_list.simps [simp del]

definition Map :: "variant \<Rightarrow> (bytes, variant) qmap option" where
  "Map v = (case v_Map v of Some m \<Rightarrow> Some m | None \<Rightarrow> parse_map (v_Payload v) [])"

definition List :: "variant \<Rightarrow> variant list option" where
  "List v = (case v_List v of Some l \<Rightarrow> Some l | None \<Rightarrow> parse_list (v_Payload v))"

section \<open>Writing a packet\<close>

definition write_head :: "bool \<Rightarrow> uint8 \<Rightarrow> nat \<Rightarrow> bytes" where
  "write_head bPack T n =
     (if n \<ge> 65535 \<or> bPack then (T OR ELen32) # to_le (of_nat n :: uint32)
      else if n \<ge> 255 then (T OR ELen16) # to_le (of_nat n :: uint16)
      else (T OR ELen8) # to_le (of_nat n :: uint8))"

definition pack :: "(bytes \<Rightarrow> nat \<Rightarrow> bytes option) \<Rightarrow> bool \<Rightarrow> uint8 \<Rightarrow> bytes \<Rightarrow> bytes" where
  "pack compress2 bPack T d =
     (case (if bPack then compress2 d (length d + 300) else None) of
        Some z \<Rightarrow> if length d > length z then T # to_le (of_nat (length z) :: uint32) @ z else write_head bPack T (length d) @ d
      | None \<Rightarrow> write_head bPack T (length d) @ d)"

definition pack_plain :: "uint8 \<Rightarrow> bytes \<Rightarrow> bytes" where
  "pack_plain T d = write_head False T (length d) @ d"

text \<open>The name of an entry: its length is written as a byte.\<close>

definition write_name :: "bytes \<Rightarrow> bytes" where
  "write_name k = (let Len = of_nat (length k) :: uint8 in Len # take (unat Len) k)"

fun MkPayload :: "variant \<Rightarrow> bytes" where
  "MkPayload (Variant T p a m l) =
     (if a = vReadWrite then
        if T = EExtended \<or> T = EMap then
          (case m of None \<Rightarrow> [] | Some es \<Rightarrow> concat (map (\<lambda>(k, v). write_name k @ pack_plain (v_Type v) (MkPayload v)) es))
        else if T = EList then
          (case l of None \<Rightarrow> [] | Some vs \<Rightarrow> concat (map (\<lambda>v. pack_plain (v_Type v) (MkPayload v)) vs))
        else p
      else p)"

definition ToPacket :: "(bytes \<Rightarrow> nat \<Rightarrow> bytes option) \<Rightarrow> bool \<Rightarrow> variant \<Rightarrow> bytes" where
  "ToPacket compress2 bPack v = pack compress2 bPack (v_Type v) (MkPayload v)"

definition Compare_v :: "variant \<Rightarrow> variant \<Rightarrow> int" where
  "Compare_v L R = Compare (SetBuffer Init (Some (MkPayload L)) False) (SetBuffer Init (Some (MkPayload R)) False)"

text \<open>\<open>Freeze\<close>; \<open>None\<close> is an exception.\<close>

definition Freeze :: "variant \<Rightarrow> variant option" where
  "Freeze v =
     (if v_Access v = vReadOnly then Some v
      else case FromPacket (\<lambda>_ _. Z_FAIL) False (ToPacket (\<lambda>_ _. None) False v) of
             Parsed w _ \<Rightarrow> Some w
           | _ \<Rightarrow> None)"

definition IsFrozen :: "variant \<Rightarrow> bool" where
  "IsFrozen v = (v_Access v \<noteq> vReadWrite)"

section \<open>The size of a variant\<close>

text \<open>A measure under which the variants in a variant are smaller, whether parsed or not.\<close>

fun weight :: "variant \<Rightarrow> nat" where
  "weight (Variant T p a m l) =
     1 + length p + (case m of None \<Rightarrow> 0 | Some es \<Rightarrow> sum_list (map (\<lambda>(k, v). weight v) es))
       + (case l of None \<Rightarrow> 0 | Some vs \<Rightarrow> sum_list (map weight vs))"

lemma FromPacket_d_weight: "FromPacket_d p = Some (v, q) \<Longrightarrow> weight v + length q < length p"
proof -
  assume a: "FromPacket_d p = Some (v, q)"
  then obtain T r where p: "p = T # r" by (cases p) (auto simp: FromPacket_d_def FromPacket_def)
  obtain n r' where r: "read_size T r = Some (n, r')" using a p by (auto simp: FromPacket_d_def FromPacket_def split: option.split_asm)
  have v: "v = Variant (T AND NOT ELen32) (take (unat n) r') vDerived None None" "q = drop (unat n) r'" "unat n \<le> length r'"
    using a p r by (auto simp: FromPacket_d_def FromPacket_def Let_def split: if_split_asm)
  show ?thesis using v read_size_shorter [OF r] p by simp
qed

lemma parse_map_weight:
  "parse_map p m = Some m' \<Longrightarrow> (k, v) \<in> set m' \<Longrightarrow> (k, v) \<in> set m \<or> weight v < length p"
proof (induction p m rule: parse_map.induct)
  case (2 Len p m)
  obtain Temp q where t: "FromPacket_d (drop (unat Len) p) = Some (Temp, q)" and len: "\<not> length p < unat Len"
    using "2.prems" by (auto split: if_split_asm option.split_asm)
  let ?N = "c_name (take (unat Len) p)"
  have w: "weight Temp + length q < length (drop (unat Len) p)" by (rule FromPacket_d_weight [OF t])
  have "(k, v) \<in> set (if ?N \<in> qkeys m then m else qm_insert ?N Temp m) \<or> weight v < length q"
    by (rule "2.IH" [OF len t refl]) (use "2.prems" t len in \<open>simp_all add: Let_def\<close>)
  moreover have "(k, v) \<in> set (qm_insert ?N Temp m) \<Longrightarrow> (k, v) \<in> set m \<or> v = Temp"
    by (induction ?N Temp m rule: qm_insert.induct) (auto split: if_split_asm)
  ultimately show ?case using w by (auto split: if_split_asm)
qed simp

lemma parse_list_weight: "parse_list p = Some vs \<Longrightarrow> v \<in> set vs \<Longrightarrow> weight v < length p"
proof (induction p arbitrary: vs rule: parse_list.induct)
  case (1 p)
  have ne: "p \<noteq> []" using "1.prems" by (auto simp: parse_list.simps)
  obtain Temp q ws where t: "FromPacket_d p = Some (Temp, q)" "parse_list q = Some ws" "vs = Temp # ws"
    using "1.prems"(1) ne by (subst (asm) parse_list.simps) (auto split: option.split_asm)
  then show ?case using "1.IH" [OF ne t(1) refl t(2)] "1.prems"(2) FromPacket_d_weight [OF t(1)] by auto
qed

lemma Map_weight: "Map v = Some m \<Longrightarrow> (k, c) \<in> set m \<Longrightarrow> weight c < weight v"
proof (cases v)
  case (Variant T p a mc l)
  assume m: "Map v = Some m" and c: "(k, c) \<in> set m"
  show ?thesis
  proof (cases mc)
    case None
    then show ?thesis using parse_map_weight [of p "[]" m k c] m c Variant by (auto simp: Map_def)
  next
    case (Some es)
    then have "weight c \<le> sum_list (map (\<lambda>(k, v). weight v) es)"
      using m c Variant by (intro member_le_sum_list) (auto simp: Map_def image_iff intro!: bexI [of _ "(k, c)"])
    then show ?thesis using Some Variant by simp
  qed
qed

lemma List_weight: "List v = Some vs \<Longrightarrow> c \<in> set vs \<Longrightarrow> weight c < weight v"
proof (cases v)
  case (Variant T p a mc l)
  assume m: "List v = Some vs" and c: "c \<in> set vs"
  show ?thesis
  proof (cases l)
    case None
    then show ?thesis using parse_list_weight [of p vs c] m c Variant by (auto simp: List_def)
  next
    case (Some es)
    then have "weight c \<le> sum_list (map weight es)"
      using m c Variant by (intro member_le_sum_list) (auto simp: List_def)
    then show ?thesis using Some Variant by simp
  qed
qed

section \<open>The variant inside of an extended one\<close>

definition entry :: "bytes \<Rightarrow> (bytes, variant) qmap \<Rightarrow> variant" where
  "entry Name m = (case map_of m Name of None \<Rightarrow> void | Some c \<Rightarrow> c)"

lemma entry_weight: "Map v = Some m \<Longrightarrow> v_Type (entry k m) = EExtended \<Longrightarrow> weight (entry k m) < weight v"
proof (cases "map_of m k")
  case None
  then have "entry k m = void" by (simp only: entry_def option.case)
  then show "v_Type (entry k m) = EExtended \<Longrightarrow> ?thesis" by (simp add: void_def Init_v_def type_defs)
next
  case (Some c)
  then have "entry k m = c" by (simp only: entry_def option.case)
  then show "Map v = Some m \<Longrightarrow> ?thesis" using Map_weight [OF _ map_of_SomeD [OF Some]] by simp
qed

lemma weight_pos: "0 < weight v"
  by (cases v) simp

function inner :: "variant \<Rightarrow> variant option" where
  "inner v = (if v_Type v = EExtended then (case Map v of None \<Rightarrow> None | Some m \<Rightarrow> inner (entry [] m)) else Some v)"
  by pat_completeness auto
termination
proof (relation "measure (\<lambda>v. if v_Type v = EExtended then weight v else 0)", goal_cases)
  case (2 v m)
  then show ?case using entry_weight [of v m "[]"] weight_pos [of v] by auto
qed simp

declare inner.simps [simp del]

text \<open>A change of the inner variant; the containers on the way stay parsed.\<close>

function modify :: "(variant \<Rightarrow> variant option) \<Rightarrow> variant \<Rightarrow> variant option" where
  "modify f v =
     (if v_Type v = EExtended then
        (case Map v of
           None \<Rightarrow> None
         | Some m \<Rightarrow>
             map_option (\<lambda>c. Variant (v_Type v) (v_Payload v) (v_Access v) (Some (qm_insert [] c m)) (v_List v)) (modify f (entry [] m)))
      else f v)"
  by pat_completeness auto
termination
proof (relation "measure (\<lambda>(f, v). if v_Type v = EExtended then weight v else 0)", goal_cases)
  case (2 f v m)
  then show ?case using entry_weight [of v m "[]"] weight_pos [of v] by auto
qed simp

declare modify.simps [simp del]

section \<open>Access\<close>

definition GetType_v :: "variant \<Rightarrow> uint8 option" where
  "GetType_v v = map_option v_Type (inner v)"

definition IsValid_v :: "variant \<Rightarrow> bool option" where
  "IsValid_v v = map_option (\<lambda>w. v_Type w \<noteq> EInvalid) (inner v)"

definition IsMap :: "variant \<Rightarrow> bool option" where
  "IsMap v = map_option (\<lambda>w. v_Type w = EMap) (inner v)"

definition IsList :: "variant \<Rightarrow> bool option" where
  "IsList v = map_option (\<lambda>w. v_Type w = EList) (inner v)"

definition Count_s :: "variant \<Rightarrow> nat option" where
  "Count_s v =
     (if v_Type v = EExtended \<or> v_Type v = EMap then map_option length (Map v)
      else if v_Type v = EList then map_option length (List v) else Some 0)"

definition Count :: "variant \<Rightarrow> nat option" where
  "Count v = Option.bind (inner v) Count_s"

definition Key :: "nat \<Rightarrow> variant \<Rightarrow> bytes option" where
  "Key Index v = Option.bind (inner v) (\<lambda>v.
     if v_Type v = EExtended \<or> v_Type v = EMap then
       Option.bind (Map v) (\<lambda>m. if Index \<ge> length m then None else Some (fst (m ! Index)))
     else None)"

definition Has_s :: "bytes \<Rightarrow> variant \<Rightarrow> bool option" where
  "Has_s Name v = (if v_Type v = EExtended \<or> v_Type v = EMap then map_option (\<lambda>m. Name \<in> qkeys m) (Map v) else Some False)"

definition Has :: "bytes \<Rightarrow> variant \<Rightarrow> bool option" where
  "Has Name v = Option.bind (inner v) (Has_s Name)"

text \<open>The value of \<open>At\<close> of a constant variant: a void one when there is none.\<close>

definition At_s :: "bytes \<Rightarrow> variant \<Rightarrow> variant option" where
  "At_s Name v = (if v_Type v = EExtended \<or> v_Type v = EMap then map_option (entry Name) (Map v) else None)"

definition At :: "bytes \<Rightarrow> variant \<Rightarrow> variant option" where
  "At Name v = Option.bind (inner v) (At_s Name)"

definition At_index_s :: "nat \<Rightarrow> variant \<Rightarrow> variant option" where
  "At_index_s Index v =
     (if v_Type v = EExtended \<or> v_Type v = EMap then
        Option.bind (Map v) (\<lambda>m. if Index \<ge> length m then None else Some (snd (m ! Index)))
      else if v_Type v = EList then
        Option.bind (List v) (\<lambda>l. if Index \<ge> length l then None else Some (l ! Index))
      else None)"

definition At_index :: "nat \<Rightarrow> variant \<Rightarrow> variant option" where
  "At_index Index v = Option.bind (inner v) (At_index_s Index)"

definition put_map :: "variant \<Rightarrow> (bytes, variant) qmap \<Rightarrow> variant" where
  "put_map v m = Variant (v_Type v) (v_Payload v) (v_Access v) (Some m) (v_List v)"

text \<open>
  The access by name is not a constant one: a name that is not there is added, with a void variant. The other operations
  here that only read are given by the value they return; \<open>At_read\<close> has the variant as it is left, too.
\<close>

definition touch_s :: "bytes \<Rightarrow> variant \<Rightarrow> variant option" where
  "touch_s Name v =
     (if v_Type v = EExtended \<or> v_Type v = EMap then map_option (\<lambda>m. put_map v (qm_insert Name (entry Name m) m)) (Map v)
      else None)"

definition At_read :: "bytes \<Rightarrow> variant \<Rightarrow> (variant \<times> variant) option" where
  "At_read Name v = Option.bind (At Name v) (\<lambda>c. map_option (Pair c) (modify (touch_s Name) v))"

text \<open>What a copy of a variant is: one derived from a buffer gets its own bytes.\<close>

definition own :: "variant \<Rightarrow> variant" where
  "own w = (if v_Access w = vDerived then Variant (v_Type w) (v_Payload w) vReadOnly None None else w)"

definition Get :: "bytes \<Rightarrow> variant \<Rightarrow> variant \<Rightarrow> variant option" where
  "Get Name Default v = Option.bind (Has Name v) (\<lambda>h. if h then map_option own (At Name v) else Some (own Default))"

section \<open>Changes\<close>

definition put_list :: "variant \<Rightarrow> variant list \<Rightarrow> variant" where
  "put_list v l = Variant (v_Type v) (v_Payload v) (v_Access v) (v_Map v) (Some l)"

definition as_type :: "uint8 \<Rightarrow> variant \<Rightarrow> variant" where
  "as_type T v = (if v_Type v \<noteq> T then Init_v T [] else v)"

definition Insert_s :: "bytes \<Rightarrow> variant \<Rightarrow> variant \<Rightarrow> variant option" where
  "Insert_s Name w v =
     map_option (\<lambda>m. put_map v (qm_insert Name (if Name \<in> qkeys m then w else own w) m)) (Map v)"

definition Insert :: "bytes \<Rightarrow> variant \<Rightarrow> variant \<Rightarrow> variant option" where
  "Insert Name w = modify (\<lambda>v. if v_Access v \<noteq> vReadWrite then None else Insert_s Name w (as_type EMap v))"

definition Append_s :: "variant \<Rightarrow> variant \<Rightarrow> variant option" where
  "Append_s w v = map_option (\<lambda>l. put_list v (l @ [own w])) (List v)"

definition Append :: "variant \<Rightarrow> variant \<Rightarrow> variant option" where
  "Append w = modify (\<lambda>v. if v_Access v \<noteq> vReadWrite then None else Append_s w (as_type EList v))"

text \<open>\<open>v[Name] = w\<close>: the entry is made when there is none; the assignment fails when the entry is frozen.\<close>

definition Assign_v :: "variant \<Rightarrow> variant \<Rightarrow> variant option" where
  "Assign_v w this = (if v_Access this \<noteq> vReadWrite then None else Some (own w))"

definition set_at :: "bytes \<Rightarrow> variant \<Rightarrow> variant \<Rightarrow> variant option" where
  "set_at Name w = modify (\<lambda>v.
     Option.bind (Has_s Name v) (\<lambda>h.
       if v_Access v \<noteq> vReadWrite \<and> \<not> h then None
       else let v = as_type EMap v
            in Option.bind (Map v) (\<lambda>m. map_option (\<lambda>c. put_map v (qm_insert Name c m)) (Assign_v w (entry Name m)))))"

definition Remove :: "bytes \<Rightarrow> variant \<Rightarrow> variant option" where
  "Remove Name = modify (\<lambda>v.
     if v_Type v = EExtended \<or> v_Type v = EMap then map_option (\<lambda>m. put_map v (qm_erase Name m)) (Map v) else None)"

text \<open>
  \<open>Remove\<close> by index has no \<open>break\<close>: of a list the element is removed and then the exception of the default case is
  thrown, of a map the container is used as a list afterwards (\<open>None\<close>). The result says whether it throws.
\<close>

definition Remove_index_s :: "nat \<Rightarrow> variant \<Rightarrow> (bool \<times> variant) option" where
  "Remove_index_s Index v =
     (if v_Type v = EExtended \<or> v_Type v = EMap then
        (case Map v of None \<Rightarrow> Some (True, v) | Some m \<Rightarrow> if Index \<ge> length m then Some (True, v) else None)
      else if v_Type v = EList then
        (case List v of
           None \<Rightarrow> Some (True, v)
         | Some l \<Rightarrow> if Index \<ge> length l then Some (True, v) else Some (True, put_list v (take Index l @ drop (Suc Index) l)))
      else Some (True, v))"

fun fold_opt :: "('a \<Rightarrow> 'b \<Rightarrow> 'b option) \<Rightarrow> 'a list \<Rightarrow> 'b \<Rightarrow> 'b option" where
  "fold_opt f [] s = Some s"
| "fold_opt f (x # xs) s = Option.bind (f x s) (fold_opt f xs)"

definition Merge_v :: "variant \<Rightarrow> variant \<Rightarrow> variant option" where
  "Merge_v w this =
     (case (inner this, inner w) of
        (Some t, Some x) \<Rightarrow>
          if v_Type t = EInvalid then Assign_v w this
          else if v_Type x = EList \<and> v_Type t = EList then Option.bind (List x) (\<lambda>l. fold_opt Append l this)
          else if v_Type x = EMap \<and> v_Type t = EMap then Option.bind (Map x) (\<lambda>m. fold_opt (\<lambda>(k, c). Insert k c) m this)
          else None
      | _ \<Rightarrow> None)"

section \<open>Copies\<close>

text \<open>A full clone: every container is parsed and can be written.\<close>

function clone :: "variant \<Rightarrow> variant option" where
  "clone v =
     (if v_Type v = EExtended \<or> v_Type v = EMap then
        (case Map v of
           None \<Rightarrow> None
         | Some m \<Rightarrow> map_option (\<lambda>es. Variant (v_Type v) [] vReadWrite (Some es) None)
             (those (map (\<lambda>e. map_option (Pair (fst e)) (clone (snd e))) m)))
      else if v_Type v = EList then
        (case List v of
           None \<Rightarrow> None
         | Some l \<Rightarrow> map_option (\<lambda>vs. Variant (v_Type v) [] vReadWrite None (Some vs)) (those (map clone l)))
      else Some (Variant (v_Type v) (v_Payload v) vReadWrite None None))"
  by pat_completeness auto
termination
  by (relation "measure weight") (auto dest: Map_weight List_weight)

declare clone.simps [simp del]

definition Unfreeze :: "variant \<Rightarrow> variant option" where
  "Unfreeze v = (if v_Access v = vReadWrite then Some v else clone v)"

section \<open>Numbers\<close>

definition of_int_v :: "uint8 \<Rightarrow> 'a::len word \<Rightarrow> variant" where
  "of_int_v T w = Init_v T (to_le w)"

definition GetInt :: "nat \<Rightarrow> variant \<Rightarrow> bytes option" where
  "GetInt Size v =
     (if v_Type v = EInvalid then Some (replicate Size 0)
      else if v_Type v \<noteq> ESInt \<and> v_Type v \<noteq> EUInt then None
      else if Size < length (v_Payload v) then None
      else Some (v_Payload v @ replicate (Size - length (v_Payload v)) 0))"

definition to_int_v :: "variant \<Rightarrow> 'a::len word option" where
  "to_int_v v = map_option from_le (GetInt (LENGTH('a) div 8) v)"

section \<open>Streaming\<close>

text \<open>
  \<open>crc\<close> is the checksum function. \<open>Stream_null\<close>: a null pointer is read; \<open>Stream_throw\<close> is the exception.
\<close>

datatype stream = Stream_wait | Stream_null | Stream_throw | Stream_broken | Stream_packet bytes variant bytes

definition MakePacket :: "bytes \<Rightarrow> variant \<Rightarrow> bytes" where
  "MakePacket Name Packet = of_nat (length Name) # Name @ ToPacket (\<lambda>_ _. None) False Packet"

definition StreamPacket :: "(bytes \<Rightarrow> nat \<Rightarrow> zlib_result) \<Rightarrow> (bytes \<Rightarrow> bytes) \<Rightarrow> bytes \<Rightarrow> stream" where
  "StreamPacket uncompress crc Buffer =
     (case Buffer of
        [] \<Rightarrow> Stream_null
      | b # r \<Rightarrow>
          let bCheckSumm = (b AND 0x80 \<noteq> 0); Len = unat (b AND 0x7F)
          in if length r < Len then Stream_wait
             else
               (case drop Len r of
                  [] \<Rightarrow> Stream_wait
                | T # q \<Rightarrow>
                    (case read_size T q of
                       None \<Rightarrow> Stream_wait
                     | Some (n, _) \<Rightarrow>
                         let Size = 1 + (if T AND ELen32 = ELen8 then 1 else if T AND ELen32 = ELen16 then 2 else 4) + unat n;
                             Sz = (if bCheckSumm then Size + 4 else Size)
                         in if length (drop Len r) < Sz then Stream_wait
                            else if bCheckSumm \<and> crc (take (1 + Len + Size) Buffer) \<noteq> take 4 (drop (1 + Len + Size) Buffer) then Stream_throw
                            else
                              (case FromPacket uncompress False (drop Len r) of
                                 Parsed v _ \<Rightarrow> Stream_packet (take Len r) v (drop (1 + Len + Sz) Buffer)
                               | Refused \<Rightarrow> Stream_throw
                               | Broken \<Rightarrow> Stream_broken))))"

end
