(* ===== verification/VariantView.thy ===== *)
theory VariantView
  imports Variant
begin

text \<open>
  Frozen variants (theory Variant): parsing the payload of a map or a list gives back the entries it was written from
  (\<open>parse_map_bytes\<close>, \<open>parse_list_bytes\<close>), so a well-formed variant and its frozen form show the same values to every
  reading operation (\<open>same_view\<close>), and a clone of a frozen variant is the variant it was made from (\<open>clone_frozen\<close>).
\<close>

section \<open>Heads of packets\<close>

lemma head_bytes:
  fixes T :: uint8
  assumes "T < 64"
  shows "(T OR ELen8) AND ELen32 = ELen8 \<and> (T OR ELen8) AND NOT ELen32 = T
    \<and> (T OR ELen16) AND ELen32 = ELen16 \<and> (T OR ELen16) AND NOT ELen32 = T
    \<and> (T OR ELen32) AND ELen32 = ELen32 \<and> (T OR ELen32) AND NOT ELen32 = T"
proof -
  have "list_all (\<lambda>T :: uint8. T < 64 \<longrightarrow> (T OR 64) AND 192 = 64 \<and> (T OR 64) AND NOT 192 = T
    \<and> (T OR 128) AND 192 = 128 \<and> (T OR 128) AND NOT 192 = T
    \<and> (T OR 192) AND 192 = 192 \<and> (T OR 192) AND NOT 192 = T) (map of_nat [0..<256])"
    by code_simp
  from byte_cases [OF this, of T] show ?thesis using assms by (simp only: len_defs simp_thms)
qed

lemma len_distinct: "ELen16 \<noteq> ELen8" "ELen32 \<noteq> ELen8" "ELen32 \<noteq> ELen16" "ELen8 \<noteq> 0" "ELen16 \<noteq> 0" "ELen32 \<noteq> 0"
  by (simp_all add: len_defs)

lemma from_to_le_num:
  "n < 2 ^ LENGTH('a) \<Longrightarrow> LENGTH('a) \<le> 32 \<Longrightarrow> 8 dvd LENGTH('a) \<Longrightarrow>
     read_num (LENGTH('a) div 8) (to_le (of_nat n :: 'a::len word) @ r) = Some (of_nat n, r)"
proof -
  assume n: "n < 2 ^ LENGTH('a)" "LENGTH('a) \<le> 32" "8 dvd LENGTH('a)"
  have "(from_le (to_le (of_nat n :: 'a word)) :: uint32) = of_nat n"
  proof (rule bit_word_eqI)
    fix k assume "k < LENGTH(32)"
    show "bit (from_le (to_le (of_nat n :: 'a word)) :: uint32) k = bit (of_nat n :: uint32) k"
    proof (cases "k < LENGTH('a)")
      case True
      have "k div 8 < LENGTH('a) div 8" using True n(3) by (simp add: less_mult_imp_div_less)
      then show ?thesis
        using True \<open>k < LENGTH(32)\<close> n(3)
        by (simp add: bit_from_le to_le_def bit_ucast_iff bit_drop_bit_eq bit_of_nat_iff mult.commute)
    next
      case False
      have "\<not> bit n k"
      proof -
        have "(2 :: nat) ^ LENGTH('a) \<le> 2 ^ k" using False by (intro power_increasing) simp_all
        with n(1) have "n < 2 ^ k" by (rule less_le_trans)
        then have "n div 2 ^ k = 0" by (rule div_less)
        then show ?thesis by (simp add: bit_iff_odd)
      qed
      then show ?thesis using False n(3) by (auto simp: bit_from_le bit_of_nat_iff)
    qed
  qed
  then show ?thesis by (simp add: read_num_def)
qed

lemma write_head_read:
  assumes "T < 64" and "n < 2 ^ 32"
  obtains b h where "write_head False T n = b # h" and "read_size b (h @ r) = Some (of_nat n, r)"
    and "b AND ELen32 \<noteq> 0" and "b AND NOT ELen32 = T"
    and "length h = (if b AND ELen32 = ELen8 then 1 else if b AND ELen32 = ELen16 then 2 else 4)"
proof -
  note hb = head_bytes [OF assms(1)]
  consider "n \<ge> 65535" | "n < 65535" "n \<ge> 255" | "n < 255" by linarith
  then show thesis
  proof cases
    case 1
    show thesis
      by (rule that [of "T OR ELen32" "to_le (of_nat n :: uint32)"])
        (use 1 hb len_distinct from_to_le_num [where 'a = 32, of n r] assms(2) in \<open>simp_all add: write_head_def read_size_def\<close>)
  next
    case 2
    show thesis
      by (rule that [of "T OR ELen16" "to_le (of_nat n :: uint16)"])
        (use 2 hb len_distinct from_to_le_num [where 'a = 16, of n r] in \<open>simp_all add: write_head_def read_size_def\<close>)
  next
    case 3
    show thesis
      by (rule that [of "T OR ELen8" "to_le (of_nat n :: uint8)"])
        (use 3 hb len_distinct from_to_le_num [where 'a = 8, of n r] in \<open>simp_all add: write_head_def read_size_def\<close>)
  qed
qed

definition frozen_v :: "vaccess \<Rightarrow> uint8 \<Rightarrow> bytes \<Rightarrow> variant" where
  "frozen_v a T d = Variant T d a None None"

lemma FromPacket_pack:
  assumes "T < 64" and "length d < 2 ^ 32"
  shows "FromPacket u b (pack_plain T d @ r) = Parsed (frozen_v (if b then vDerived else vReadOnly) T d) r"
proof -
  obtain h t where h: "write_head False T (length d) = h # t" "read_size h (t @ d @ r) = Some (of_nat (length d), d @ r)"
    "h AND ELen32 \<noteq> 0" "h AND NOT ELen32 = T"
    by (rule write_head_read [OF assms, of "d @ r"])
  have "unat (of_nat (length d) :: uint32) = length d" using assms(2) by (simp add: unat_of_nat)
  then show ?thesis using h by (simp add: FromPacket_def pack_plain_def frozen_v_def Let_def)
qed

lemma FromPacket_d_pack:
  "T < 64 \<Longrightarrow> length d < 2 ^ 32 \<Longrightarrow> FromPacket_d (pack_plain T d @ r) = Some (frozen_v vDerived T d, r)"
  by (simp add: FromPacket_d_def FromPacket_pack)

section \<open>Parsing what was written\<close>

definition name_ok :: "bytes \<Rightarrow> bool" where
  "name_ok k = (length k < 256 \<and> 0 \<notin> set k)"

lemma write_name_ok: "name_ok k \<Longrightarrow> write_name k = of_nat (length k) # k \<and> unat (of_nat (length k) :: uint8) = length k"
  by (simp add: write_name_def name_ok_def Let_def unat_of_nat)

lemma c_name_ok: "name_ok k \<Longrightarrow> c_name k = k"
  by (auto simp: name_ok_def c_name_def takeWhile_eq_all_conv)

definition map_bytes :: "(bytes \<times> uint8 \<times> bytes) list \<Rightarrow> bytes" where
  "map_bytes es = concat (map (\<lambda>(k, T, d). write_name k @ pack_plain T d) es)"

definition list_bytes :: "(uint8 \<times> bytes) list \<Rightarrow> bytes" where
  "list_bytes es = concat (map (\<lambda>(T, d). pack_plain T d) es)"

lemma qm_insert_last: "\<forall>x \<in> qkeys m. x < k \<Longrightarrow> qm_insert k v m = m @ [(k, v)]"
  by (induction k v m rule: qm_insert.induct) (auto dest: less_asym)

lemma parse_map_bytes:
  "\<forall>(k, T, d) \<in> set es. name_ok k \<and> T < 64 \<and> length d < 2 ^ 32 \<Longrightarrow> sorted_wrt (<) (map fst es) \<Longrightarrow>
     \<forall>x \<in> qkeys m. \<forall>e \<in> set es. x < fst e \<Longrightarrow>
     parse_map (map_bytes es) m = Some (m @ map (\<lambda>(k, T, d). (k, frozen_v vDerived T d)) es)"
proof (induction es arbitrary: m)
  case (Cons e es)
  obtain k T d where e: "e = (k, T, d)" by (cases e)
  have ok: "name_ok k" "T < 64" "length d < 2 ^ 32" using Cons.prems(1) e by auto
  note w = write_name_ok [OF ok(1)]
  have b: "map_bytes (e # es) = of_nat (length k) # k @ pack_plain T d @ map_bytes es"
    using e w by (simp add: map_bytes_def)
  have nk: "k \<notin> qkeys m" using Cons.prems(3) e by force
  have "parse_map (map_bytes (e # es)) m = parse_map (map_bytes es) (qm_insert k (frozen_v vDerived T d) m)"
    using w nk unfolding b by (simp add: FromPacket_d_pack [OF ok(2,3)] c_name_ok [OF ok(1)] Let_def)
  also have "qm_insert k (frozen_v vDerived T d) m = m @ [(k, frozen_v vDerived T d)]"
    using Cons.prems(3) e by (intro qm_insert_last) auto
  also have "parse_map (map_bytes es) \<dots> = Some ((m @ [(k, frozen_v vDerived T d)]) @ map (\<lambda>(k, T, d). (k, frozen_v vDerived T d)) es)"
    by (rule Cons.IH) (use Cons.prems e in \<open>auto simp: qkeys_def\<close>)
  finally show ?case using e by simp
qed (simp add: map_bytes_def)

lemma parse_list_bytes:
  "\<forall>(T, d) \<in> set es. T < 64 \<and> length d < 2 ^ 32 \<Longrightarrow>
     parse_list (list_bytes es) = Some (map (\<lambda>(T, d). frozen_v vDerived T d) es)"
proof (induction es)
  case Nil
  then show ?case by (simp add: list_bytes_def parse_list.simps)
next
  case (Cons e es)
  obtain T d where e: "e = (T, d)" by (cases e)
  have b: "list_bytes (e # es) = pack_plain T d @ list_bytes es" using e by (simp add: list_bytes_def)
  have "pack_plain T d \<noteq> []" by (simp add: pack_plain_def write_head_def)
  then show ?case
    using Cons e unfolding b by (subst parse_list.simps) (simp add: FromPacket_d_pack)
qed

section \<open>Well-formed variants\<close>

text \<open>The variants that come of the operations and of packets: what is frozen is not parsed yet.\<close>

fun wf_v :: "variant \<Rightarrow> bool" where
  "wf_v (Variant T p a m l) =
     (T < 64 \<and>
      (if a \<noteq> vReadWrite then m = None \<and> l = None
       else if T = EExtended \<or> T = EMap then
         p = [] \<and> l = None \<and> (case m of None \<Rightarrow> False | Some es \<Rightarrow> qwf es \<and> (\<forall>e \<in> set es. name_ok (fst e) \<and> wf_v (snd e)))
       else if T = EList then
         p = [] \<and> m = None \<and> (case l of None \<Rightarrow> False | Some vs \<Rightarrow> \<forall>v \<in> set vs. wf_v v)
       else m = None \<and> l = None))"

definition fits :: "variant \<Rightarrow> bool" where
  "fits v = (length (MkPayload v) < 2 ^ 32)"

lemma wf_type: "wf_v v \<Longrightarrow> v_Type v < 64"
  by (cases v) simp

lemma wf_frozen_v: "a \<noteq> vReadWrite \<Longrightarrow> wf_v (frozen_v a T d) = (T < 64)"
  by (simp add: frozen_v_def)

lemma frozen_v_sel [simp]: "v_Type (frozen_v a T d) = T" "v_Payload (frozen_v a T d) = d" "v_Access (frozen_v a T d) = a"
  "a \<noteq> vReadWrite \<Longrightarrow> MkPayload (frozen_v a T d) = d"
  by (simp_all add: frozen_v_def)

definition triple :: "bytes \<times> variant \<Rightarrow> bytes \<times> uint8 \<times> bytes" where
  "triple e = (fst e, v_Type (snd e), MkPayload (snd e))"

definition pair_v :: "variant \<Rightarrow> uint8 \<times> bytes" where
  "pair_v v = (v_Type v, MkPayload v)"

lemma MkPayload_map:
  "v_Access v = vReadWrite \<Longrightarrow> v_Type v = EExtended \<or> v_Type v = EMap \<Longrightarrow> v_Map v = Some es \<Longrightarrow>
     MkPayload v = map_bytes (map triple es)"
  by (cases v) (auto simp: map_bytes_def triple_def comp_def split_def)

lemma MkPayload_list:
  "v_Access v = vReadWrite \<Longrightarrow> v_Type v = EList \<Longrightarrow> v_List v = Some vs \<Longrightarrow> MkPayload v = list_bytes (map pair_v vs)"
  by (cases v) (auto simp: list_bytes_def pair_v_def comp_def type_defs)

lemma MkPayload_raw: "v_Access v \<noteq> vReadWrite \<or> IsRaw v \<Longrightarrow> MkPayload v = v_Payload v"
  by (cases v) (auto simp: IsRaw_def)

lemma sub_map_bytes: "(k, T, d) \<in> set es \<Longrightarrow> length d \<le> length (map_bytes es)"
  by (induction es) (auto simp: map_bytes_def pack_plain_def)

lemma sub_list_bytes: "(T, d) \<in> set es \<Longrightarrow> length d \<le> length (list_bytes es)"
  by (induction es) (auto simp: list_bytes_def pack_plain_def)

section \<open>A frozen variant holds what was frozen\<close>

theorem Freeze_frozen:
  assumes "wf_v v" and "fits v" and "v_Access v \<noteq> vReadOnly"
  shows "Freeze v = Some (frozen_v vReadOnly (v_Type v) (MkPayload v))"
  using FromPacket_pack [OF wf_type [OF assms(1)] assms(2) [unfolded fits_def], of "\<lambda>_ _. Z_FAIL" False "[]"] assms(3)
  by (simp add: Freeze_def ToPacket_def pack_def pack_plain_def)

text \<open>\<open>same_view v w\<close>: \<open>w\<close> is \<open>v\<close>, or a frozen variant with its type and payload.\<close>

definition same_view :: "variant \<Rightarrow> variant \<Rightarrow> bool" where
  "same_view v w = (wf_v v \<and> fits v \<and> (w = v \<or> (\<exists>a. a \<noteq> vReadWrite \<and> w = frozen_v a (v_Type v) (MkPayload v))))"

lemma same_view_type: "same_view v w \<Longrightarrow> v_Type w = v_Type v \<and> MkPayload w = MkPayload v"
  by (auto simp: same_view_def)

section \<open>Frozen variants read like the original\<close>

datatype vstep = Name_step bytes | Index_step nat

fun at_path :: "vstep list \<Rightarrow> variant \<Rightarrow> variant option" where
  "at_path [] v = Some v"
| "at_path (Name_step k # p) v = Option.bind (At k v) (at_path p)"
| "at_path (Index_step i # p) v = Option.bind (At_index i v) (at_path p)"

lemma same_view_refl: "wf_v v \<Longrightarrow> fits v \<Longrightarrow> same_view v v"
  by (simp add: same_view_def)

lemma same_view_frozen: "wf_v v \<Longrightarrow> fits v \<Longrightarrow> a \<noteq> vReadWrite \<Longrightarrow> same_view v (frozen_v a (v_Type v) (MkPayload v))"
  by (auto simp: same_view_def)

lemma frozen_same: "T < 64 \<Longrightarrow> length d < 2 ^ 32 \<Longrightarrow> same_view (frozen_v vDerived T d) (frozen_v vDerived T d)"
  by (rule same_view_refl) (simp_all add: wf_frozen_v fits_def)

lemma FromPacket_d_same: "FromPacket_d p = Some (v, q) \<Longrightarrow> same_view v v"
proof -
  assume a: "FromPacket_d p = Some (v, q)"
  then obtain T r where p: "p = T # r" by (cases p) (auto simp: FromPacket_d_def FromPacket_def)
  obtain n r' where r: "read_size T r = Some (n, r')" using a p by (auto simp: FromPacket_d_def FromPacket_def split: option.split_asm)
  have v: "v = frozen_v vDerived (T AND NOT ELen32) (take (unat n) r')"
    using a p r by (auto simp: FromPacket_d_def FromPacket_def Let_def frozen_v_def split: if_split_asm)
  have T: "T AND NOT ELen32 < 64"
  proof -
    have "list_all (\<lambda>T :: uint8. T AND NOT 192 < 64) (map of_nat [0..<256])" by code_simp
    from byte_cases [OF this, of T] show ?thesis by (simp only: len_defs)
  qed
  have "length (take (unat n) r') < 2 ^ 32" using unat_lt2p [of n] by simp
  then show ?thesis unfolding v using T by (rule frozen_same [rotated])
qed

lemma set_qm_insert_sub: "set (qm_insert k v m) \<subseteq> insert (k, v) (set m)"
  by (induction k v m rule: qm_insert.induct) auto

lemma parse_map_same: "parse_map p m = Some m' \<Longrightarrow> \<forall>e \<in> set m. same_view (snd e) (snd e) \<Longrightarrow> \<forall>e \<in> set m'. same_view (snd e) (snd e)"
proof (induction p m rule: parse_map.induct)
  case (2 Len p m)
  obtain Temp q where t: "FromPacket_d (drop (unat Len) p) = Some (Temp, q)" and len: "\<not> length p < unat Len"
    using "2.prems" by (auto split: if_split_asm option.split_asm)
  let ?N = "c_name (take (unat Len) p)"
  show ?case
  proof (rule "2.IH" [OF len t refl refl])
    show "parse_map q (if ?N \<in> qkeys m then m else qm_insert ?N Temp m) = Some m'" using "2.prems"(1) t len by (simp add: Let_def)
    show "\<forall>e \<in> set (if ?N \<in> qkeys m then m else qm_insert ?N Temp m). same_view (snd e) (snd e)"
      using "2.prems"(2) FromPacket_d_same [OF t] set_qm_insert_sub [of ?N Temp m] by auto
  qed
qed simp

lemma parse_list_same: "parse_list p = Some vs \<Longrightarrow> \<forall>v \<in> set vs. same_view v v"
proof (induction p arbitrary: vs rule: parse_list.induct)
  case (1 p)
  show ?case
  proof (cases "p = []")
    case True
    then show ?thesis using "1.prems" by (auto simp: parse_list.simps)
  next
    case False
    obtain Temp q ws where t: "FromPacket_d p = Some (Temp, q)" "parse_list q = Some ws" "vs = Temp # ws"
      using "1.prems"(1) False by (subst (asm) parse_list.simps) (auto split: option.split_asm)
    then show ?thesis using "1.IH" [OF False t(1) refl t(2)] FromPacket_d_same [OF t(1)] by auto
  qed
qed

definition rel_entry :: "bytes \<times> variant \<Rightarrow> bytes \<times> variant \<Rightarrow> bool" where
  "rel_entry e e' = (fst e = fst e' \<and> same_view (snd e) (snd e'))"

lemma list_all2_same: "\<forall>x \<in> set xs. R x x \<Longrightarrow> list_all2 R xs xs"
  by (induction xs) auto

lemma wf_map_RW:
  assumes "wf_v v" and "v_Access v = vReadWrite" and "v_Type v = EExtended \<or> v_Type v = EMap"
  obtains es where "v_Map v = Some es" and "qwf es" and "\<forall>e \<in> set es. name_ok (fst e) \<and> wf_v (snd e)"
  using assms by (cases v) (auto split: option.split_asm)

lemma wf_list_RW:
  assumes "wf_v v" and "v_Access v = vReadWrite" and "v_Type v = EList"
  obtains vs where "v_List v = Some vs" and "\<forall>c \<in> set vs. wf_v c"
  using assms by (cases v) (auto simp: type_defs split: option.split_asm)

lemma wf_frozen: "wf_v v \<Longrightarrow> v_Access v \<noteq> vReadWrite \<Longrightarrow> v = frozen_v (v_Access v) (v_Type v) (MkPayload v)"
  by (cases v) (auto simp: frozen_v_def)

lemma fits_entry:
  assumes "fits v" and "v_Access v = vReadWrite" and "v_Type v = EExtended \<or> v_Type v = EMap" and "v_Map v = Some es" and "e \<in> set es"
  shows "fits (snd e)"
proof -
  have "(fst e, v_Type (snd e), MkPayload (snd e)) \<in> set (map triple es)" using assms(5) by (auto simp: triple_def)
  from sub_map_bytes [OF this] show ?thesis using assms(1) MkPayload_map [OF assms(2-4)] by (simp add: fits_def)
qed

lemma fits_element:
  assumes "fits v" and "v_Access v = vReadWrite" and "v_Type v = EList" and "v_List v = Some vs" and "c \<in> set vs"
  shows "fits c"
proof -
  have "(v_Type c, MkPayload c) \<in> set (map pair_v vs)" using assms(5) by (auto simp: pair_v_def)
  from sub_list_bytes [OF this] show ?thesis using assms(1) MkPayload_list [OF assms(2-4)] by (simp add: fits_def)
qed

lemma Map_of_bytes:
  assumes "\<forall>e \<in> set es. name_ok (fst e) \<and> wf_v (snd e) \<and> fits (snd e)" and "qwf es"
  shows "parse_map (map_bytes (map triple es)) [] = Some (map (\<lambda>e. (fst e, frozen_v vDerived (v_Type (snd e)) (MkPayload (snd e)))) es)"
proof -
  have "parse_map (map_bytes (map triple es)) [] = Some ([] @ map (\<lambda>(k, T, d). (k, frozen_v vDerived T d)) (map triple es))"
    by (rule parse_map_bytes) (use assms wf_type in \<open>auto simp: triple_def fits_def qwf_def comp_def\<close>)
  then show ?thesis by (simp add: comp_def triple_def)
qed

lemma List_of_bytes:
  assumes "\<forall>c \<in> set vs. wf_v c \<and> fits c"
  shows "parse_list (list_bytes (map pair_v vs)) = Some (map (\<lambda>c. frozen_v vDerived (v_Type c) (MkPayload c)) vs)"
proof -
  have "parse_list (list_bytes (map pair_v vs)) = Some (map (\<lambda>(T, d). frozen_v vDerived T d) (map pair_v vs))"
    by (rule parse_list_bytes) (use assms wf_type in \<open>auto simp: pair_v_def fits_def\<close>)
  then show ?thesis by (simp add: comp_def pair_v_def)
qed

lemma Map_view:
  assumes "same_view v w" and "v_Type v = EExtended \<or> v_Type v = EMap"
  shows "rel_option (list_all2 rel_entry) (Map v) (Map w)"
proof (cases "v_Access v = vReadWrite")
  case True
  have wf: "wf_v v" "fits v" using assms(1) by (simp_all add: same_view_def)
  obtain es where es: "v_Map v = Some es" "qwf es" "\<forall>e \<in> set es. name_ok (fst e) \<and> wf_v (snd e)"
    by (rule wf_map_RW [OF wf(1) True assms(2)])
  then have all: "\<forall>e \<in> set es. name_ok (fst e) \<and> wf_v (snd e) \<and> fits (snd e)"
    using fits_entry [OF wf(2) True assms(2) es(1)] by blast
  have m: "Map v = Some es" using es(1) by (simp add: Map_def)
  show ?thesis
  proof (cases "w = v")
    case True
    then show ?thesis using m all by (auto simp: rel_entry_def intro!: list_all2_same same_view_refl)
  next
    case False
    then obtain a where w: "a \<noteq> vReadWrite" "w = frozen_v a (v_Type v) (MkPayload v)" using assms(1) by (auto simp: same_view_def)
    then have "Map w = Some (map (\<lambda>e. (fst e, frozen_v vDerived (v_Type (snd e)) (MkPayload (snd e)))) es)"
      using Map_of_bytes [OF all es(2)] MkPayload_map [OF True assms(2) es(1)] by (simp add: Map_def frozen_v_def)
    then show ?thesis using m all by (auto simp: list_all2_map2 rel_entry_def intro!: list_all2_same same_view_frozen)
  qed
next
  case False
  have wf: "wf_v v" "fits v" using assms(1) by (simp_all add: same_view_def)
  have "v_Map v = None" using wf(1) False by (cases v) simp
  have "v_Payload v = MkPayload v" by (rule MkPayload_raw [OF disjI1 [OF False], symmetric])
  with \<open>v_Map v = None\<close> have "Map v = Map w" using assms(1) by (auto simp: same_view_def Map_def frozen_v_def)
  moreover have "\<forall>e \<in> set m. same_view (snd e) (snd e)" if "Map v = Some m" for m
    using that parse_map_same [of "v_Payload v" "[]" m] \<open>v_Map v = None\<close> by (simp add: Map_def)
  ultimately show ?thesis by (cases "Map w") (auto simp: rel_entry_def intro!: list_all2_same)
qed

lemma List_view:
  assumes "same_view v w" and "v_Type v = EList"
  shows "rel_option (list_all2 same_view) (List v) (List w)"
proof (cases "v_Access v = vReadWrite")
  case True
  have wf: "wf_v v" "fits v" using assms(1) by (simp_all add: same_view_def)
  obtain vs where vs: "v_List v = Some vs" "\<forall>c \<in> set vs. wf_v c"
    by (rule wf_list_RW [OF wf(1) True assms(2)])
  then have all: "\<forall>c \<in> set vs. wf_v c \<and> fits c"
    using fits_element [OF wf(2) True assms(2) vs(1)] by blast
  have m: "List v = Some vs" using vs(1) by (simp add: List_def)
  show ?thesis
  proof (cases "w = v")
    case True
    then show ?thesis using m all by (auto intro!: list_all2_same same_view_refl)
  next
    case False
    then obtain a where w: "a \<noteq> vReadWrite" "w = frozen_v a (v_Type v) (MkPayload v)" using assms(1) by (auto simp: same_view_def)
    then have "List w = Some (map (\<lambda>c. frozen_v vDerived (v_Type c) (MkPayload c)) vs)"
      using List_of_bytes [OF all] MkPayload_list [OF True assms(2) vs(1)] by (simp add: List_def frozen_v_def)
    then show ?thesis using m all by (auto simp: list_all2_map2 intro!: list_all2_same same_view_frozen)
  qed
next
  case False
  have wf: "wf_v v" "fits v" using assms(1) by (simp_all add: same_view_def)
  have "v_List v = None" using wf(1) False by (cases v) simp
  have "v_Payload v = MkPayload v" by (rule MkPayload_raw [OF disjI1 [OF False], symmetric])
  with \<open>v_List v = None\<close> have "List v = List w" using assms(1) by (auto simp: same_view_def List_def frozen_v_def)
  moreover have "\<forall>e \<in> set m. same_view e e" if "List v = Some m" for m
    using that parse_list_same [of "v_Payload v" m] \<open>v_List v = None\<close> by (simp add: List_def)
  ultimately show ?thesis by (cases "List w") (auto intro!: list_all2_same)
qed

lemma void_same: "same_view void void"
  by (rule same_view_refl) (simp_all add: void_def Init_v_def type_defs fits_def)

lemma rel_map_of: "list_all2 rel_entry m m' \<Longrightarrow> rel_option same_view (map_of m k) (map_of m' k)"
  by (induction rule: list_all2_induct) (auto simp: rel_entry_def)

lemma entry_view:
  assumes "list_all2 rel_entry m m'"
  shows "same_view (entry k m) (entry k m')"
proof -
  note r = rel_map_of [OF assms, of k]
  show ?thesis
  proof (cases "map_of m k")
    case None
    then have "map_of m' k = None" using r by (simp only: rel_option_None1)
    with None show ?thesis by (simp only: entry_def option.case void_same)
  next
    case (Some c)
    then obtain c' where "map_of m' k = Some c'" "same_view c c'" using r by (auto simp: option_rel_Some1)
    with Some show ?thesis by (simp only: entry_def option.case)
  qed
qed

lemma inner_view: "same_view v w \<Longrightarrow> rel_option same_view (inner v) (inner w)"
proof (induction v arbitrary: w rule: inner.induct)
  case (1 v)
  note t = same_view_type [OF "1.prems"]
  show ?case
  proof (cases "v_Type v = EExtended")
    case False
    then show ?thesis using t "1.prems" by (subst inner.simps, subst inner.simps) simp
  next
    case True
    have "rel_option (list_all2 rel_entry) (Map v) (Map w)" using Map_view "1.prems" True by blast
    then consider "Map v = None" "Map w = None" | m m' where "Map v = Some m" "Map w = Some m'" "list_all2 rel_entry m m'"
      by (cases "Map v"; cases "Map w") auto
    then show ?thesis
    proof cases
      case 1
      then show ?thesis using True t by (subst inner.simps, subst inner.simps) simp
    next
      case 2
      have "rel_option same_view (inner (entry [] m)) (inner (entry [] m'))"
        by (rule "1.IH" [OF True 2(1) entry_view [OF 2(3)]])
      then show ?thesis using True t 2 by (subst inner.simps, subst (2) inner.simps) simp
    qed
  qed
qed

lemma rel_option_bind:
  "rel_option R x y \<Longrightarrow> (\<And>a b. R a b \<Longrightarrow> rel_option S (f a) (g b)) \<Longrightarrow> rel_option S (Option.bind x f) (Option.bind y g)"
  by (cases x; cases y) auto

lemma At_s_view: "same_view v w \<Longrightarrow> rel_option same_view (At_s k v) (At_s k w)"
  using Map_view [of v w] same_view_type [of v w] entry_view [of _ _ k]
  by (cases "Map v"; cases "Map w") (auto simp: At_s_def)

lemma At_index_s_view: "same_view v w \<Longrightarrow> rel_option same_view (At_index_s i v) (At_index_s i w)"
proof -
  assume sv: "same_view v w"
  note t = same_view_type [OF sv]
  consider "v_Type v = EExtended \<or> v_Type v = EMap" | "v_Type v = EList" "\<not> (v_Type v = EExtended \<or> v_Type v = EMap)"
    | "v_Type v \<noteq> EList" "\<not> (v_Type v = EExtended \<or> v_Type v = EMap)" by blast
  then show ?thesis
  proof cases
    case 1
    have "rel_option same_view (Option.bind (Map v) (\<lambda>m. if i \<ge> length m then None else Some (snd (m ! i))))
        (Option.bind (Map w) (\<lambda>m. if i \<ge> length m then None else Some (snd (m ! i))))"
      by (rule rel_option_bind [OF Map_view [OF sv 1]])
        (auto dest: list_all2_lengthD simp: list_all2_conv_all_nth rel_entry_def)
    then show ?thesis using 1 t by (simp add: At_index_s_def)
  next
    case 2
    have "rel_option same_view (Option.bind (List v) (\<lambda>l. if i \<ge> length l then None else Some (l ! i)))
        (Option.bind (List w) (\<lambda>l. if i \<ge> length l then None else Some (l ! i)))"
      by (rule rel_option_bind [OF List_view [OF sv 2(1)]]) (auto dest: list_all2_lengthD simp: list_all2_conv_all_nth)
    then show ?thesis using 2 t by (simp add: At_index_s_def)
  next
    case 3
    then show ?thesis using t by (simp add: At_index_s_def)
  qed
qed

lemma at_path_view: "same_view v w \<Longrightarrow> rel_option same_view (at_path p v) (at_path p w)"
proof (induction p v arbitrary: w rule: at_path.induct)
  case (2 k p v)
  have "rel_option same_view (At k v) (At k w)"
    unfolding At_def by (rule rel_option_bind [OF inner_view [OF "2.prems"] At_s_view])
  then show ?case using 2(1) by (cases "At k v"; cases "At k w") auto
next
  case (3 i p v)
  have "rel_option same_view (At_index i v) (At_index i w)"
    unfolding At_index_def by (rule rel_option_bind [OF inner_view [OF "3.prems"] At_index_s_view])
  then show ?case using 3(1) by (cases "At_index i v"; cases "At_index i w") auto
qed simp

definition leaf :: "variant \<Rightarrow> uint8 \<times> bytes" where
  "leaf v = (v_Type v, MkPayload v)"

lemma leaf_view: "rel_option same_view x y \<Longrightarrow> map_option leaf x = map_option leaf y"
  by (cases x; cases y) (auto simp: leaf_def dest: same_view_type)

section \<open>Unfreezing what was frozen\<close>

text \<open>Variants that were built by the program: every part can be written.\<close>

fun built :: "variant \<Rightarrow> bool" where
  "built (Variant T p a m l) =
     (T < 64 \<and> a = vReadWrite \<and>
      (if T = EExtended \<or> T = EMap then
         p = [] \<and> l = None \<and> (case m of None \<Rightarrow> False | Some es \<Rightarrow> qwf es \<and> (\<forall>e \<in> set es. name_ok (fst e) \<and> built (snd e)))
       else if T = EList then
         p = [] \<and> m = None \<and> (case l of None \<Rightarrow> False | Some vs \<Rightarrow> \<forall>v \<in> set vs. built v)
       else m = None \<and> l = None))"

lemma built_wf: "built v \<Longrightarrow> wf_v v"
proof (induction v rule: measure_induct_rule [of weight])
  case (less v)
  obtain T p a m l where v: "v = Variant T p a m l" by (cases v)
  have "wf_v (snd e)" if "m = Some es" "T = EExtended \<or> T = EMap" "e \<in> set es" for e es
    by (rule less.IH) (use Map_weight [of v es "fst e" "snd e"] that less.prems v in \<open>auto simp: Map_def\<close>)
  moreover have "wf_v c" if "l = Some vs" "T = EList" "c \<in> set vs" for c vs
    by (rule less.IH) (use List_weight [of v vs c] that less.prems v in \<open>auto simp: List_def type_defs\<close>)
  ultimately show ?case using less.prems v by (cases m; cases l) (auto simp: type_defs split: if_splits)
qed

lemma built_RW: "built v \<Longrightarrow> v_Access v = vReadWrite"
  by (cases v) simp

lemma those_Some: "those (map (\<lambda>x. Some x) xs) = Some xs"
  by (induction xs) simp_all

lemma clone_frozen: "built v \<Longrightarrow> fits v \<Longrightarrow> clone (frozen_v a (v_Type v) (MkPayload v)) = Some v" if "a \<noteq> vReadWrite"
  using that
proof (induction v arbitrary: a rule: measure_induct_rule [of weight])
  case (less v)
  obtain T p m l where v: "v = Variant T p vReadWrite m l" using less.prems(1) by (cases v) auto
  let ?w = "frozen_v a (v_Type v) (MkPayload v)"
  note wf = built_wf [OF less.prems(1)]
  consider "T = EExtended \<or> T = EMap" | "T = EList" "\<not> (T = EExtended \<or> T = EMap)" | "T \<noteq> EList" "\<not> (T = EExtended \<or> T = EMap)"
    by blast
  then show ?case
  proof cases
    case 1
    then obtain es where es: "m = Some es" "p = []" "l = None" "qwf es" "\<forall>e \<in> set es. name_ok (fst e) \<and> built (snd e)"
      using less.prems(1) v by (auto split: option.split_asm)
    have t: "v_Access v = vReadWrite" "v_Type v = EExtended \<or> v_Type v = EMap" "v_Map v = Some es" using v 1 es by simp_all
    have all: "\<forall>e \<in> set es. name_ok (fst e) \<and> wf_v (snd e) \<and> fits (snd e)"
      using es(5) built_wf fits_entry [OF less.prems(2) t] by blast
    have m: "Map ?w = Some (map (\<lambda>e. (fst e, frozen_v vDerived (v_Type (snd e)) (MkPayload (snd e)))) es)"
      using Map_of_bytes [OF all es(4)] MkPayload_map [OF t] by (simp add: Map_def frozen_v_def)
    have "clone (frozen_v vDerived (v_Type (snd e)) (MkPayload (snd e))) = Some (snd e)" if "e \<in> set es" for e
      by (rule less.IH) (use that es(5) all Map_weight [of v es "fst e" "snd e"] t in \<open>auto simp: Map_def\<close>)
    then have "map (\<lambda>e. map_option (Pair (fst e)) (clone (frozen_v vDerived (v_Type (snd e)) (MkPayload (snd e))))) es = map Some es"
      by (intro map_cong refl) simp
    then have "clone ?w = Some (Variant (v_Type v) [] vReadWrite (Some es) None)"
      using t(2) by (subst clone.simps) (simp add: m comp_def those_Some del: map_eq_conv)
    then show ?thesis using v es by simp
  next
    case 2
    then obtain vs where vs: "l = Some vs" "p = []" "m = None" "\<forall>c \<in> set vs. built c"
      using less.prems(1) v by (auto split: option.split_asm)
    have t: "v_Access v = vReadWrite" "v_Type v = EList" "v_List v = Some vs" using v 2 vs by simp_all
    have nt: "v_Type v \<noteq> EExtended" "v_Type v \<noteq> EMap" using v 2 by simp_all
    have all: "\<forall>c \<in> set vs. wf_v c \<and> fits c"
      using vs(4) built_wf fits_element [OF less.prems(2) t] by blast
    have m: "List ?w = Some (map (\<lambda>c. frozen_v vDerived (v_Type c) (MkPayload c)) vs)"
      using List_of_bytes [OF all] MkPayload_list [OF t] by (simp add: List_def frozen_v_def)
    have "clone (frozen_v vDerived (v_Type c) (MkPayload c)) = Some c" if "c \<in> set vs" for c
      by (rule less.IH) (use that vs(4) all List_weight [of v vs c] t in \<open>auto simp: List_def\<close>)
    then have "map (\<lambda>c. clone (frozen_v vDerived (v_Type c) (MkPayload c))) vs = map Some vs"
      by (intro map_cong refl) simp
    then have "clone ?w = Some (Variant (v_Type v) [] vReadWrite None (Some vs))"
      using t(2) nt by (subst clone.simps) (simp add: m [unfolded t(2)] comp_def those_Some del: map_eq_conv)
    then show ?thesis using v vs by simp
  next
    case 3
    then have e: "m = None" "l = None" "MkPayload v = p" using less.prems(1) v by auto
    then show ?thesis using v 3 by (subst clone.simps) simp
  qed
qed

section \<open>Maps\<close>

lemma inner_plain: "v_Type v \<noteq> EExtended \<Longrightarrow> inner v = Some v"
  by (subst inner.simps) simp

lemma modify_plain: "v_Type v \<noteq> EExtended \<Longrightarrow> modify f v = f v"
  by (subst modify.simps) simp

definition map_v :: "(bytes, variant) qmap \<Rightarrow> variant" where
  "map_v m = Variant EMap [] vReadWrite (Some m) None"

lemma map_v_sel [simp]: "v_Type (map_v m) = EMap" "v_Access (map_v m) = vReadWrite" "Map (map_v m) = Some m"
  "map_v m = map_v m' \<longleftrightarrow> m = m'"
  by (simp_all add: map_v_def Map_def)

lemma built_map_v: "built (map_v m) = (qwf m \<and> (\<forall>e \<in> set m. name_ok (fst e) \<and> built (snd e)))"
  by (simp add: map_v_def type_defs)

lemma built_map: "built v \<Longrightarrow> v_Type v = EMap \<Longrightarrow> \<exists>m. v = map_v m"
  by (cases v) (auto simp: map_v_def split: option.split_asm)

lemma Insert_map: "built w \<Longrightarrow> Insert k w (map_v m) = Some (map_v (qm_insert k w m))"
  using built_RW [of w]
  by (simp add: Insert_def modify_plain type_defs as_type_def Insert_s_def own_def put_map_def) (simp add: map_v_def type_defs)

lemma Insert_void: "built w \<Longrightarrow> Insert k w void = Some (map_v [(k, w)])"
  using built_RW [of w]
  by (simp add: Insert_def modify_plain void_def Init_v_def type_defs as_type_def Insert_s_def own_def put_map_def Map_def map_v_def)

lemma Remove_map: "Remove k (map_v m) = Some (map_v (qm_erase k m))"
  by (simp add: Remove_def modify_plain type_defs put_map_def) (simp add: map_v_def type_defs)

lemma Has_map: "Has k (map_v m) = Some (k \<in> qkeys m)"
  by (simp add: Has_def inner_plain Has_s_def type_defs)

lemma At_map: "At k (map_v m) = Some (entry k m)"
  by (simp add: At_def inner_plain At_s_def type_defs)

lemma built_Insert: "built (map_v m) \<Longrightarrow> built w \<Longrightarrow> name_ok k \<Longrightarrow> built (map_v (qm_insert k w m))"
  unfolding built_map_v using set_qm_insert_sub [of k w m] by (auto intro: qwf_insert)

lemma built_Remove: "built (map_v m) \<Longrightarrow> built (map_v (qm_erase k m))"
  unfolding built_map_v using qwf_erase [of m k] by (auto simp: qm_erase_def)

end
