(* ===== verification/VariantSpec.thy ===== *)
theory VariantSpec
  imports VariantView "HOL-Library.Multiset"
begin

text \<open>
  Variants as their users see them: the interface \<open>dictionary\<close>, of which a map variant is an instance, and the
  properties of freezing, unfreezing, inserting and reading numbers.
\<close>

section \<open>Dictionaries\<close>

declare map_of_dom [simp del]

text \<open>The interface the packets of the network are built and read with.\<close>

locale dictionary =
  fixes ok :: "'d \<Rightarrow> bool" and key_ok :: "'k \<Rightarrow> bool" and val_ok :: "'v \<Rightarrow> bool"
    and put :: "'k \<Rightarrow> 'v \<Rightarrow> 'd \<Rightarrow> 'd" and del :: "'k \<Rightarrow> 'd \<Rightarrow> 'd" and get :: "'k \<Rightarrow> 'd \<Rightarrow> 'v option"
  assumes ok_put: "ok d \<Longrightarrow> key_ok k \<Longrightarrow> val_ok v \<Longrightarrow> ok (put k v d)"
    and get_put: "ok d \<Longrightarrow> key_ok k \<Longrightarrow> val_ok v \<Longrightarrow> get k' (put k v d) = (if k' = k then Some v else get k' d)"
    and ok_del: "ok d \<Longrightarrow> ok (del k d)"
    and get_del: "ok d \<Longrightarrow> get k' (del k d) = (if k' = k then None else get k' d)"
    and ext: "ok d \<Longrightarrow> ok d' \<Longrightarrow> (\<And>k. get k d = get k d') \<Longrightarrow> d = d'"
begin

definition puts :: "('k \<times> 'v) list \<Rightarrow> 'd \<Rightarrow> 'd" where
  "puts es d = fold (\<lambda>(k, v). put k v) es d"

lemma ok_puts: "ok d \<Longrightarrow> \<forall>e \<in> set es. key_ok (fst e) \<and> val_ok (snd e) \<Longrightarrow> ok (puts es d)"
  by (induction es arbitrary: d) (auto simp: puts_def ok_put)

lemma get_puts:
  "ok d \<Longrightarrow> \<forall>e \<in> set es. key_ok (fst e) \<and> val_ok (snd e) \<Longrightarrow>
     get k (puts es d) = (case map_of (rev es) k of None \<Rightarrow> get k d | Some v \<Rightarrow> Some v)"
proof (induction es arbitrary: d)
  case (Cons e es)
  then show ?case
    using Cons.IH [of "put (fst e) (snd e) d"]
    by (auto simp: puts_def split_def ok_put get_put map_add_def split: option.split)
qed (simp add: puts_def)

lemma puts_order:
  assumes "ok d" and "\<forall>e \<in> set es. key_ok (fst e) \<and> val_ok (snd e)" and "distinct (map fst es)" and "mset es = mset es'"
  shows "puts es d = puts es' d"
proof (rule ext)
  have s: "set es = set es'" using assms(4) by (rule mset_eq_setD)
  show "ok (puts es d)" "ok (puts es' d)" using assms(1,2) s by (simp_all add: ok_puts)
  have d: "distinct (map fst es')" using assms(3,4) by (metis mset_map mset_eq_imp_distinct_iff)
  have "map_of (rev es) = map_of (rev es')"
    by (rule map_of_inject_set [THEN iffD2]) (use assms(3) d s in \<open>simp_all add: rev_map [symmetric]\<close>)
  then show "get k (puts es d) = get k (puts es' d)" for k using get_puts [of d] assms(1,2) s by simp
qed

lemma del_put: "ok d \<Longrightarrow> key_ok k \<Longrightarrow> val_ok v \<Longrightarrow> get k d = None \<Longrightarrow> del k (put k v d) = d"
  by (rule ext) (auto simp: ok_del ok_put get_del get_put)

end

text \<open>Variants that are maps.\<close>

definition is_map_v :: "variant \<Rightarrow> bool" where
  "is_map_v v = (built v \<and> v_Type v = EMap)"

definition put_v :: "bytes \<Rightarrow> variant \<Rightarrow> variant \<Rightarrow> variant" where
  "put_v k w v = the (Insert k w v)"

definition del_v :: "bytes \<Rightarrow> variant \<Rightarrow> variant" where
  "del_v k v = the (Remove k v)"

definition get_v :: "bytes \<Rightarrow> variant \<Rightarrow> variant option" where
  "get_v k v = (if Has k v = Some True then At k v else None)"

lemma qmap_ext: "qwf m \<Longrightarrow> qwf m' \<Longrightarrow> map_of m = map_of m' \<Longrightarrow> m = m'"
proof (rule map_sorted_distinct_set_unique [of fst])
  assume w: "qwf m" "qwf m'" and e: "map_of m = map_of m'"
  have d: "distinct (map fst m)" "distinct (map fst m')" using w by (simp_all add: qwf_distinct)
  have s: "set m = set m'" using e d by (simp add: map_of_inject_set)
  show "inj_on fst (set m \<union> set m')" using d(1) s by (simp add: distinct_map)
  show "sorted (map fst m)" "sorted (map fst m')" using w by (simp_all add: qwf_def strict_sorted_iff)
  show "distinct (map fst m)" "distinct (map fst m')" "set m = set m'" using d s by simp_all
qed

lemma is_map_cases: "is_map_v v \<Longrightarrow> \<exists>m. v = map_v m \<and> built (map_v m)"
  using built_map [of v] by (auto simp: is_map_v_def)

lemma is_map_v_map_v [simp]: "is_map_v (map_v m) = built (map_v m)"
  by (simp add: is_map_v_def)

lemma get_v_map: "get_v k (map_v m) = map_of m k"
proof (cases "map_of m k")
  case None
  then have "k \<notin> qkeys m" by (simp add: map_of_dom)
  then show ?thesis using None by (simp add: get_v_def Has_map)
next
  case (Some c)
  then have "k \<in> qkeys m" by (rule Some_qkeys)
  then show ?thesis using Some by (simp add: get_v_def Has_map At_map entry_def)
qed

interpretation vmap: dictionary is_map_v name_ok built put_v del_v get_v
proof unfold_locales
  fix d k v assume "is_map_v d" "name_ok k" "built v"
  then obtain m where m: "d = map_v m" "built (map_v m)" using is_map_cases by blast
  have p: "put_v k v d = map_v (qm_insert k v m)" using Insert_map [OF \<open>built v\<close>, of k m] m by (simp add: put_v_def)
  show "is_map_v (put_v k v d)" unfolding p using built_Insert [OF m(2) \<open>built v\<close> \<open>name_ok k\<close>] by simp
  show "get_v k' (put_v k v d) = (if k' = k then Some v else get_v k' d)" for k'
      unfolding p unfolding m(1) get_v_map by (simp add: map_of_insert)
next
  fix d k assume "is_map_v d"
  then obtain m where m: "d = map_v m" "built (map_v m)" using is_map_cases by blast
  have p: "del_v k d = map_v (qm_erase k m)" using Remove_map [of k m] m by (simp add: del_v_def)
  show "is_map_v (del_v k d)" unfolding p using built_Remove [OF m(2), of k] by simp
  show "get_v k' (del_v k d) = (if k' = k then None else get_v k' d)" for k'
    unfolding p unfolding m(1) get_v_map by (simp add: map_of_erase)
next
  fix d d' assume "is_map_v d" "is_map_v d'" and e: "\<And>k. get_v k d = get_v k d'"
  then obtain m m' where m: "d = map_v m" "built (map_v m)" "d' = map_v m'" "built (map_v m')" using is_map_cases by metis
  then have "map_of m = map_of m'" using e by (auto simp: get_v_map)
  moreover have "qwf m" "qwf m'" using m by (simp_all add: built_map_v)
  ultimately show "d = d'" using qmap_ext [of m m'] m by simp
qed

section \<open>Reading adds an entry\<close>

lemma qm_insert_absent: "k \<notin> qkeys m \<Longrightarrow> length (qm_insert k v m) = Suc (length m)"
  by (induction k v m rule: qm_insert.induct) (auto simp: qkeys_def)

text \<open>Reading a name that is absent leaves a map that has it, with a void variant.\<close>

lemma At_read_adds:
  assumes "k \<notin> qkeys m"
  shows "At_read k (map_v m) = Some (void, map_v (qm_insert k void m))
    \<and> Has k (map_v (qm_insert k void m)) = Some True
    \<and> Count (map_v (qm_insert k void m)) = map_option Suc (Count (map_v m))"
proof -
  have n: "map_of m k = None" using assms by (simp add: map_of_dom)
  have e: "entry k m = void" by (simp only: entry_def n option.case)
  have "modify (touch_s k) (map_v m) = Some (map_v (qm_insert k void m))"
    by (simp add: modify_plain type_defs touch_s_def e put_map_def) (simp add: map_v_def type_defs)
  moreover have "k \<in> qkeys (qm_insert k void m)" by simp
  ultimately show ?thesis
    by (simp add: At_read_def At_map e Has_map Count_def inner_plain Count_s_def type_defs qm_insert_absent [OF assms])
qed

section \<open>Properties\<close>

text \<open>
  C30. Freezing never fails on a well-formed variant whose payload has a 32 bit length, and whatever path of names and
  indices is followed in the frozen variant, which parses it from the packet, it leads to the type and the data that it
  led to before, or fails where it failed before.
\<close>

theorem Freeze_reads_same:
  assumes "wf_v v" and "fits v"
  shows "\<exists>w. Freeze v = Some w \<and> v_Access w = vReadOnly \<and> (\<forall>p. map_option leaf (at_path p w) = map_option leaf (at_path p v))"
proof (cases "v_Access v = vReadOnly")
  case True
  then show ?thesis by (simp add: Freeze_def)
next
  case False
  let ?w = "frozen_v vReadOnly (v_Type v) (MkPayload v)"
  have "map_option leaf (at_path p ?w) = map_option leaf (at_path p v)" for p
    using leaf_view [OF at_path_view [OF same_view_frozen [OF assms, of vReadOnly], of p]] by simp
  then show ?thesis using Freeze_frozen [OF assms False] by auto
qed

definition sample_v :: variant where
  "sample_v = map_v [([65], of_int_v EUInt (7 :: uint32)), ([66], Variant EList [] vReadWrite None (Some [of_int_v ESInt (3 :: uint8)]))]"

lemma sample_built: "built sample_v"
  by (simp add: sample_v_def built_map_v of_int_v_def Init_v_def type_defs name_ok_def qwf_def)

lemma sample_fits: "fits sample_v"
proof -
  have "length (MkPayload sample_v) < 20" 
    by (simp add: sample_v_def map_v_def write_name_def pack_plain_def write_head_def of_int_v_def Init_v_def type_defs Let_def)
  then show ?thesis by (simp add: fits_def)
qed

theorem Freeze_reads_same_witness:
  "\<exists>w. Freeze sample_v = Some w \<and> v_Access w = vReadOnly
     \<and> (\<forall>p. map_option leaf (at_path p w) = map_option leaf (at_path p sample_v))"
  by (rule Freeze_reads_same [OF built_wf [OF sample_built] sample_fits])

text \<open>
  C31. Unfreezing a frozen variant that the program had built gives exactly the variant that was frozen.
\<close>

theorem Unfreeze_Freeze:
  assumes "built v" and "fits v"
  shows "Option.bind (Freeze v) Unfreeze = Some v"
proof -
  have "v_Access v \<noteq> vReadOnly" using built_RW [OF assms(1)] by simp
  from Freeze_frozen [OF built_wf [OF assms(1)] assms(2) this]
  show ?thesis using clone_frozen [OF _ assms, of vReadOnly] by (simp add: Unfreeze_def)
qed

theorem Unfreeze_Freeze_witness: "Option.bind (Freeze sample_v) Unfreeze = Some sample_v"
  by (rule Unfreeze_Freeze [OF sample_built sample_fits])

lemma is_map_Insert: "is_map_v v \<Longrightarrow> built w \<Longrightarrow> Insert k w v = Some (put_v k w v)"
  using Insert_map [of w k] by (auto simp: put_v_def dest!: is_map_cases)

lemma fold_Insert:
  "is_map_v v \<Longrightarrow> \<forall>e \<in> set es. name_ok (fst e) \<and> built (snd e) \<Longrightarrow>
     fold_opt (\<lambda>(k, w). Insert k w) es v = Some (vmap.puts es v)"
proof (induction es arbitrary: v)
  case (Cons e es)
  then show ?case
    using Cons.IH [of "put_v (fst e) (snd e) v"] vmap.ok_put [of v "fst e" "snd e"]
    by (cases e) (simp add: is_map_Insert vmap.puts_def)
qed (simp add: vmap.puts_def)

text \<open>
  C32. Inserting fields with different names into a map never fails, the order in which they are inserted does not
  change the map nor the packet that is made of it, and afterwards every inserted field is found under its name.
\<close>

theorem Insert_order:
  assumes "built v" and "v_Type v = EMap" and "\<forall>e \<in> set es. name_ok (fst e) \<and> built (snd e)"
    and "distinct (map fst es)" and "mset es' = mset es"
  shows "\<exists>w. fold_opt (\<lambda>(k, c). Insert k c) es v = Some w \<and> fold_opt (\<lambda>(k, c). Insert k c) es' v = Some w
    \<and> (\<forall>e \<in> set es. Has (fst e) w = Some True \<and> At (fst e) w = Some (snd e))"
proof -
  have m: "is_map_v v" using assms(1,2) by (simp add: is_map_v_def)
  let ?w = "vmap.puts es v"
  have s: "set es' = set es" using assms(5) by (rule mset_eq_setD)
  have "vmap.puts es v = vmap.puts es' v" by (rule vmap.puts_order [OF m assms(3,4)]) (simp add: assms(5))
  then have f: "fold_opt (\<lambda>(k, c). Insert k c) es v = Some ?w" "fold_opt (\<lambda>(k, c). Insert k c) es' v = Some ?w"
    using fold_Insert [OF m] assms(3) s by simp_all
  have "Has (fst e) ?w = Some True \<and> At (fst e) ?w = Some (snd e)" if e: "e \<in> set es" for e
  proof -
    have "map_of (rev es) (fst e) = Some (snd e)"
      using e assms(4) by (intro map_of_is_SomeI) (simp_all add: rev_map [symmetric])
    then have "get_v (fst e) ?w = Some (snd e)" using vmap.get_puts [OF m assms(3), of "fst e"] by simp
    then show ?thesis by (simp add: get_v_def split: if_split_asm)
  qed
  then show ?thesis using f by blast
qed

theorem Insert_order_witness:
  "\<exists>w. fold_opt (\<lambda>(k, c). Insert k c) [([67], sample_v), ([65], sample_v)] sample_v = Some w
    \<and> fold_opt (\<lambda>(k, c). Insert k c) [([65], sample_v), ([67], sample_v)] sample_v = Some w
    \<and> At [67] w = Some sample_v \<and> At [65] w = Some sample_v"
proof -
  have "v_Type sample_v = EMap" by (simp add: sample_v_def)
  then show ?thesis
    using Insert_order [OF sample_built, of "[([67], sample_v), ([65], sample_v)]" "[([65], sample_v), ([67], sample_v)]"]
    by (simp add: sample_built name_ok_def) blast
qed

section \<open>Numbers\<close>

lemma from_le_to_le_ucast:
  assumes "8 dvd LENGTH('a::len)" and "LENGTH('a) \<le> LENGTH('b::len)" and "8 dvd LENGTH('b)"
  shows "(from_le (to_le (w :: 'a word) @ replicate (LENGTH('b) div 8 - LENGTH('a) div 8) 0) :: 'b word) = ucast w"
proof (rule bit_word_eqI)
  fix k assume k: "k < LENGTH('b)"
  show "bit (from_le (to_le w @ replicate (LENGTH('b) div 8 - LENGTH('a) div 8) 0) :: 'b word) k = bit (ucast w :: 'b word) k"
  proof (cases "k < LENGTH('a)")
    case True
    have "k div 8 < LENGTH('a) div 8" using True assms(1) by (simp add: less_mult_imp_div_less)
    then show ?thesis
      using True k assms(1)
      by (simp add: bit_from_le to_le_def bit_ucast_iff bit_drop_bit_eq mult.commute nth_append)
  next
    case False
    have "\<not> k div 8 < LENGTH('a) div 8" using False assms(1) by (metis div_le_mono not_less)
    moreover have "k div 8 < LENGTH('b) div 8" using k assms(3) by (simp add: less_mult_imp_div_less)
    ultimately have "k div 8 - LENGTH('a) div 8 < LENGTH('b) div 8 - LENGTH('a) div 8" by (intro diff_less_mono) simp_all
    moreover note \<open>\<not> k div 8 < LENGTH('a) div 8\<close>
    ultimately have "(to_le w @ replicate (LENGTH('b) div 8 - LENGTH('a) div 8) 0) ! (k div 8) = 0"
      by (simp add: nth_append nth_replicate)
    then show ?thesis using False k by (auto simp: bit_from_le bit_ucast_iff dest: bit_imp_le_length)
  qed
qed

lemma sint_ucast_wider: "uint w < 2 ^ (LENGTH('b) - 1) \<Longrightarrow> sint (ucast w :: 'b::len word) = uint w"
  for w :: "'a::len word"
proof -
  assume w: "uint w < 2 ^ (LENGTH('b) - 1)"
  have "uint w < 2 ^ LENGTH('b)" by (rule less_le_trans [OF w]) (rule power_increasing, simp_all)
  then have "uint (ucast w :: 'b word) = uint w" by (simp add: unsigned_ucast_eq take_bit_int_eq_self)
  moreover have "- (2 ^ (LENGTH('b) - 1)) \<le> uint w" by (rule order_trans [of _ 0]) simp_all
  ultimately show ?thesis unfolding sint_uint using w by (simp only: signed_take_bit_int_eq_self One_nat_def)
qed

text \<open>
  C33. A number is read back from a variant by a type that is at least as wide, a narrower type is refused, whatever the
  value is. The bytes that are missing are zeros, also for the signed type: a negative number that is read by a wider
  type is no longer negative.
\<close>

theorem read_number:
  fixes w :: "'a::len word"
  assumes "T = EUInt \<or> T = ESInt" and "8 dvd LENGTH('a)" and "8 dvd LENGTH('b::len)"
  shows "(to_int_v (of_int_v T w) :: 'b word option) = (if LENGTH('b) < LENGTH('a) then None else Some (ucast w))
    \<and> (LENGTH('a) < LENGTH('b) \<longrightarrow> sint (the (to_int_v (of_int_v T w) :: 'b word option)) = uint w)"
proof -
  have T: "v_Type (of_int_v T w) = T" "v_Payload (of_int_v T w) = to_le w" "T \<noteq> EInvalid" "T = ESInt \<or> T = EUInt"
    using assms(1) by (auto simp: of_int_v_def Init_v_def type_defs)
  have n: "LENGTH('b) div 8 < LENGTH('a) div 8 \<longleftrightarrow> LENGTH('b) < LENGTH('a)" using assms(2,3) by auto
  have r: "(to_int_v (of_int_v T w) :: 'b word option) = (if LENGTH('b) < LENGTH('a) then None else Some (ucast w))"
    using T n from_le_to_le_ucast [where 'a = 'a and 'b = 'b, OF assms(2) _ assms(3), of w]
    by (auto simp: to_int_v_def GetInt_def)
  have "sint (ucast w :: 'b word) = uint w" if l: "LENGTH('a) < LENGTH('b)"
  proof (rule sint_ucast_wider)
    have "uint w < 2 ^ LENGTH('a)" by simp
    also have "(2 :: int) ^ LENGTH('a) \<le> 2 ^ (LENGTH('b) - 1)" using l by (intro power_increasing) simp_all
    finally show "uint w < 2 ^ (LENGTH('b) - 1)" .
  qed
  then show ?thesis using r by simp
qed

theorem read_number_witness:
  "(to_int_v (of_int_v ESInt (- 1 :: 16 word)) :: 8 word option) = None
   \<and> sint (the (to_int_v (of_int_v ESInt (- 1 :: 16 word)) :: 32 word option)) = 65535"
  using read_number [of ESInt, where 'a = 16 and 'b = 8 and w = "- 1"] read_number [of ESInt, where 'a = 16 and 'b = 32 and w = "- 1"]
  by (simp add: unsigned_minus_1_eq_mask mask_eq_exp_minus_1)

end
