(* ===== verification/Bandwidth.thy ===== *)
theory Bandwidth
  imports Prelude QMap
begin

text \<open>
  Bandwidth control of the Kad sockets (NeoKad/Networking/BandwidthControl): counters and limits
  (BandwidthCounter.cpp, BandwidthLimit.cpp), the limiters of the sessions (BandwidthLimiter.cpp) and the manager that
  shares the quota of the limits among the limiters in every round (BandwidthManager.cpp). Limits and limiters are
  numbers for their pointers; a state is that of one channel. An \<open>int\<close> is an integer without a bound, except in the
  share of a limit, which the code computes with 32 bit unsigned numbers.
\<close>

section \<open>Limits\<close>

record bw_limit =
  m_iByteRate :: int
  m_Interval :: int
  m_RateStat :: "(int \<times> int) list"
  m_TotalBytes :: int
  m_TotalTime :: int
  m_LastBytes :: int
  m_iQuotaLeft :: int
  m_iLimit :: int
  m_iDistributeQuota :: int
  m_iTmp :: int
  m_iPriority :: int
  m_Limiters :: "nat set"

definition AVG_INTERVAL :: int where "AVG_INTERVAL = 5000"
definition BW_PRIO_NORMAL :: int where "BW_PRIO_NORMAL = 100"
definition MSS :: int where "MSS = 1402"
definition INT_MAX :: int where "INT_MAX = 2147483647"

definition new_limit :: bw_limit where
  "new_limit = \<lparr>m_iByteRate = 0, m_Interval = 0, m_RateStat = [], m_TotalBytes = 0, m_TotalTime = 0, m_LastBytes = 0,
     m_iQuotaLeft = 0, m_iLimit = 0, m_iDistributeQuota = 0, m_iTmp = 0, m_iPriority = 0, m_Limiters = {}\<rparr>"

definition CountBytes :: "int \<Rightarrow> bw_limit \<Rightarrow> bw_limit" where
  "CountBytes n l = l\<lparr>m_LastBytes := m_LastBytes l + n\<rparr>"

definition ClearRates :: "bw_limit \<Rightarrow> bw_limit" where
  "ClearRates l = l\<lparr>m_iByteRate := 0\<rparr>"

text \<open>Old samples are dropped while they are of more than the averaging interval: time, bytes and samples.\<close>

fun drop_stats :: "int \<Rightarrow> int \<Rightarrow> (int \<times> int) list \<Rightarrow> int \<times> int \<times> (int \<times> int) list" where
  "drop_stats t b [] = (t, b, [])"
| "drop_stats t b ((i, n) # st) = (if t > AVG_INTERVAL then drop_stats (t - i) (b - n) st else (t, b, (i, n) # st))"

definition Process_counter :: "int \<Rightarrow> bw_limit \<Rightarrow> bw_limit" where
  "Process_counter iInterval l =
     (let iv = m_Interval l + iInterval
      in if iv < 100 then l\<lparr>m_Interval := iv\<rparr>
         else
           let (t, b, st) = drop_stats (m_TotalTime l) (m_TotalBytes l) (m_RateStat l);
               t = t + iv; b = b + m_LastBytes l;
               T = (if t < cdiv AVG_INTERVAL 2 then AVG_INTERVAL else t)
           in l\<lparr>m_RateStat := st @ [(iv, m_LastBytes l)], m_Interval := 0, m_LastBytes := 0, m_TotalTime := t, m_TotalBytes := b,
               m_iByteRate := cdiv (b * 1000) T\<rparr>)"

definition SetLimit :: "int \<Rightarrow> bw_limit \<Rightarrow> bw_limit" where
  "SetLimit n l = l\<lparr>m_iLimit := (if n = - 1 then 0 else n)\<rparr>"

definition SetPriority :: "int \<Rightarrow> bw_limit \<Rightarrow> bw_limit" where
  "SetPriority p l = l\<lparr>m_iPriority := (if p < 0 then 0 else if p > 255 then 255 else p)\<rparr>"

definition Process_limit :: "int \<Rightarrow> bw_limit \<Rightarrow> bw_limit" where
  "Process_limit iInterval l =
     (let l = Process_counter iInterval l
      in if m_iLimit l = 0 then l
         else
           let q = m_iQuotaLeft l + cdiv (m_iLimit l * iInterval + 500) 1000;
               q = (if q > m_iLimit l * 3 then m_iLimit l * 3 else q)
           in l\<lparr>m_iQuotaLeft := q, m_iDistributeQuota := max q 0\<rparr>)"

definition QuotaLeft :: "bw_limit \<Rightarrow> int" where
  "QuotaLeft l = (if m_iLimit l = 0 then INT_MAX else max (m_iQuotaLeft l) 0)"

definition ReturnQuota :: "int \<Rightarrow> bw_limit \<Rightarrow> bw_limit" where
  "ReturnQuota n l = (if m_iLimit l = 0 then l else l\<lparr>m_iQuotaLeft := m_iQuotaLeft l + n\<rparr>)"

definition UseQuota :: "int \<Rightarrow> bw_limit \<Rightarrow> bw_limit" where
  "UseQuota n l = (if m_iLimit l = 0 then l else l\<lparr>m_iQuotaLeft := m_iQuotaLeft l - n\<rparr>)"

definition Add_limiter :: "nat \<Rightarrow> bw_limit \<Rightarrow> bw_limit" where
  "Add_limiter p l = l\<lparr>m_Limiters := insert p (m_Limiters l)\<rparr>"

definition Remove_limiter :: "nat \<Rightarrow> bw_limit \<Rightarrow> bw_limit" where
  "Remove_limiter p l =
     (let l = l\<lparr>m_Limiters := m_Limiters l - {p}\<rparr> in if m_Limiters l = {} then ClearRates l else l)"

section \<open>The manager\<close>

record bw_entry =
  iPriority :: int
  iAssigned :: int
  iRequestSize :: int
  iTTL :: int
  iIdle :: int
  Limits :: "nat list"

definition new_entry :: bw_entry where
  "new_entry = \<lparr>iPriority = 1, iAssigned = 0, iRequestSize = 0, iTTL = 20, iIdle = 0, Limits = []\<rparr>"

record bw_state =
  lims :: "nat \<Rightarrow> bw_limit"
  m_Queue :: "(nat, bw_entry) qmap"
  m_iQueuedBytes :: int
  m_Quota :: "nat \<Rightarrow> int"
  m_Limits :: "nat \<Rightarrow> nat list"

definition new_bw :: bw_state where
  "new_bw = \<lparr>lims = (\<lambda>_. new_limit), m_Queue = [], m_iQueuedBytes = 0, m_Quota = (\<lambda>_. 0), m_Limits = (\<lambda>_. [])\<rparr>"

definition on_limit :: "nat \<Rightarrow> (bw_limit \<Rightarrow> bw_limit) \<Rightarrow> (nat \<Rightarrow> bw_limit) \<Rightarrow> (nat \<Rightarrow> bw_limit)" where
  "on_limit i f ls = ls(i := f (ls i))"

definition UpdateEntry :: "(nat \<Rightarrow> bw_limit) \<Rightarrow> nat list \<Rightarrow> bw_entry \<Rightarrow> bool \<times> bw_entry" where
  "UpdateEntry ls is e =
     (let ActiveLimits = length (filter (\<lambda>i. m_iLimit (ls i) \<noteq> 0) is);
          ps = filter (\<lambda>p. p \<noteq> 0) (map (\<lambda>i. m_iPriority (ls i)) is)
      in (ActiveLimits > 0,
          e\<lparr>Limits := is, iPriority := (if ps \<noteq> [] then cdiv (sum_list ps) (int (length ps)) else BW_PRIO_NORMAL)\<rparr>))"

definition entry_of :: "bw_state \<Rightarrow> nat \<Rightarrow> bw_entry" where
  "entry_of s p = qm_value (m_Queue s) new_entry p"

definition AssignBandwidth_limiter :: "nat \<Rightarrow> int \<Rightarrow> bw_state \<Rightarrow> bw_state" where
  "AssignBandwidth_limiter p n s = s\<lparr>m_Quota := (m_Quota s)(p := m_Quota s p + n)\<rparr>"

definition RequestBandwidth_manager :: "nat list \<Rightarrow> nat \<Rightarrow> int \<Rightarrow> bw_state \<Rightarrow> bw_state" where
  "RequestBandwidth_manager is p iAmount s =
     (let e = entry_of s p;
          (e, qb) = (if iRequestSize e < iAmount
                     then (e\<lparr>iRequestSize := iAmount\<rparr>, m_iQueuedBytes s - iRequestSize e + iAmount) else (e, m_iQueuedBytes s));
          (limited, e) = UpdateEntry (lims s) is e
      in if limited then s\<lparr>m_Queue := qm_insert p e (m_Queue s), m_iQueuedBytes := qb\<rparr>
         else (AssignBandwidth_limiter p (iRequestSize e) s)
                \<lparr>m_Queue := qm_insert p (e\<lparr>iRequestSize := 0\<rparr>) (m_Queue s), m_iQueuedBytes := qb - iRequestSize e\<rparr>)"

definition UpdateLimits :: "nat list \<Rightarrow> nat \<Rightarrow> bw_state \<Rightarrow> bw_state" where
  "UpdateLimits is p s =
     (if p \<notin> qkeys (m_Queue s) then s
      else s\<lparr>m_Queue := qm_insert p (snd (UpdateEntry (lims s) is (entry_of s p))) (m_Queue s)\<rparr>)"

definition ReturnBandwidth :: "nat \<Rightarrow> bw_state \<Rightarrow> bw_state" where
  "ReturnBandwidth p s =
     (if p \<notin> qkeys (m_Queue s) then s
      else let e = entry_of s p
           in s\<lparr>m_iQueuedBytes := m_iQueuedBytes s - (iRequestSize e - iAssigned e),
                lims := fold (\<lambda>i. on_limit i (ReturnQuota (iAssigned e))) (Limits e) (lims s),
                m_Queue := qm_erase p (m_Queue s)\<rparr>)"

text \<open>\<open>AssignBandwidth\<close>: the least share of the limits, \<open>Min\<close> of an unsigned and a signed number.\<close>

definition share :: "bw_limit \<Rightarrow> int \<Rightarrow> int" where
  "share l prio = (m_iDistributeQuota l * prio) mod 4294967296 div m_iTmp l"

definition min_u :: "int \<Rightarrow> int \<Rightarrow> int" where
  "min_u a q = (if a < q mod 4294967296 then a else q)"

definition entry_quota :: "(nat \<Rightarrow> bw_limit) \<Rightarrow> bw_entry \<Rightarrow> int" where
  "entry_quota ls e =
     fold (\<lambda>i q. if m_iLimit (ls i) = 0 then q else min_u (share (ls i) (iPriority e)) q) (Limits e) (iRequestSize e - iAssigned e)"

definition use_all :: "int \<Rightarrow> nat list \<Rightarrow> (nat \<Rightarrow> bw_limit) \<Rightarrow> (nat \<Rightarrow> bw_limit)" where
  "use_all n is ls = fold (\<lambda>i. on_limit i (UseQuota n)) is ls"

text \<open>The first loops of a round: every limit of the queue is processed once, and \<open>m_iTmp\<close> is the sum of the priorities.\<close>

definition clear_tmp :: "(nat, bw_entry) qmap \<Rightarrow> (nat \<Rightarrow> bw_limit) \<Rightarrow> (nat \<Rightarrow> bw_limit)" where
  "clear_tmp q ls = fold (\<lambda>(p, e). fold (\<lambda>i. on_limit i (\<lambda>l. l\<lparr>m_iTmp := 0\<rparr>)) (Limits e)) q ls"

definition charge :: "int \<Rightarrow> int \<Rightarrow> bw_limit \<Rightarrow> bw_limit" where
  "charge iInterval prio l =
     (let l = (if m_iTmp l = 0 then Process_limit iInterval l else l) in l\<lparr>m_iTmp := m_iTmp l + prio\<rparr>)"

definition process_limits :: "int \<Rightarrow> (nat, bw_entry) qmap \<Rightarrow> (nat \<Rightarrow> bw_limit) \<Rightarrow> (nat \<Rightarrow> bw_limit)" where
  "process_limits iInterval q ls = fold (\<lambda>(p, e). fold (\<lambda>i. on_limit i (charge iInterval (iPriority e))) (Limits e)) q ls"

text \<open>The last loop: for an entry the entry that stays, if any.\<close>

definition assign_entry :: "int \<Rightarrow> nat \<Rightarrow> bw_entry \<Rightarrow> bw_state \<Rightarrow> bw_entry option \<times> bw_state" where
  "assign_entry iInterval p e s =
     (let q = entry_quota (lims s) e;
          e = e\<lparr>iAssigned := iAssigned e + q\<rparr>;
          s = s\<lparr>lims := use_all q (Limits e) (lims s), m_iQueuedBytes := m_iQueuedBytes s - q\<rparr>;
          full = (iAssigned e \<ge> min (iRequestSize e) MSS);
          e = (if full then e else e\<lparr>iTTL := iTTL e - 1\<rparr>);
          (e, s) = (if full \<or> iTTL e \<le> 0 \<and> iAssigned e > 0
                    then (e\<lparr>iTTL := 20, iRequestSize := iRequestSize e - iAssigned e, iAssigned := 0\<rparr>, AssignBandwidth_limiter p (iAssigned e) s)
                    else (e, s))
      in if iRequestSize e > 0 then (Some (e\<lparr>iIdle := 0\<rparr>), s)
         else if iIdle e \<le> AVG_INTERVAL + 3000 then (Some (e\<lparr>iIdle := iIdle e + iInterval\<rparr>), s)
         else (None, s))"

fun assign_loop :: "int \<Rightarrow> (nat, bw_entry) qmap \<Rightarrow> bw_state \<Rightarrow> (nat, bw_entry) qmap \<times> bw_state" where
  "assign_loop iInterval [] s = ([], s)"
| "assign_loop iInterval ((p, e) # q) s =
     (case assign_entry iInterval p e s of
        (r, s) \<Rightarrow> (case assign_loop iInterval q s of (q, s) \<Rightarrow> ((case r of None \<Rightarrow> q | Some e \<Rightarrow> (p, e) # q), s)))"

definition Process_bw :: "int \<Rightarrow> bw_state \<Rightarrow> bw_state" where
  "Process_bw iInterval s =
     (if m_Queue s = [] then s
      else
        let iv = (if iInterval > 3000 then 3000 else iInterval);
            s = s\<lparr>lims := process_limits iv (m_Queue s) (clear_tmp (m_Queue s) (lims s))\<rparr>;
            (q, s) = assign_loop iv (m_Queue s) s
        in s\<lparr>m_Queue := q\<rparr>)"

section \<open>Limiters\<close>

definition RequestBandwidth :: "nat \<Rightarrow> int \<Rightarrow> bw_state \<Rightarrow> bw_state" where
  "RequestBandwidth p iAmount s =
     (if m_Quota s p < iAmount then RequestBandwidth_manager (m_Limits s p) p (iAmount - m_Quota s p) s else s)"

definition CountBandwidth :: "nat \<Rightarrow> int \<Rightarrow> bw_state \<Rightarrow> bw_state" where
  "CountBandwidth p iAmount s =
     (let s = s\<lparr>m_Quota := (m_Quota s)(p := m_Quota s p - iAmount),
                lims := fold (\<lambda>i. on_limit i (CountBytes iAmount)) (m_Limits s p) (lims s)\<rparr>
      in if m_Quota s p < 0 then RequestBandwidth_manager (m_Limits s p) p (- m_Quota s p) s else s)"

definition AddLimit :: "nat \<Rightarrow> nat \<Rightarrow> bw_state \<Rightarrow> bw_state" where
  "AddLimit i p s =
     (let is = m_Limits s p @ [i]
      in UpdateLimits is p (s\<lparr>lims := on_limit i (Add_limiter p) (lims s), m_Limits := (m_Limits s)(p := is)\<rparr>))"

definition RemoveLimit :: "nat \<Rightarrow> nat \<Rightarrow> bw_state \<Rightarrow> bw_state" where
  "RemoveLimit i p s =
     (if i \<in> set (m_Limits s p) then
        let is = remove1 i (m_Limits s p)
        in UpdateLimits is p (s\<lparr>lims := on_limit i (Remove_limiter p) (lims s), m_Limits := (m_Limits s)(p := is)\<rparr>)
      else s)"

text \<open>The constructor of a limiter in one channel, with the limit of the socket, and the destructor.\<close>

definition new_limiter :: "nat \<Rightarrow> nat \<Rightarrow> bw_state \<Rightarrow> bw_state" where
  "new_limiter i p s = AddLimit i p (s\<lparr>m_Quota := (m_Quota s)(p := 0)\<rparr>)"

definition Destroy_limiter :: "nat \<Rightarrow> bw_state \<Rightarrow> bw_state" where
  "Destroy_limiter p s =
     (let s = ReturnBandwidth p s
      in s\<lparr>lims := fold (\<lambda>i. on_limit i (Remove_limiter p)) (m_Limits s p) (lims s), m_Limits := (m_Limits s)(p := [])\<rparr>)"

end
