(* ===== verification/Session.thy ===== *)
theory Session
  imports Bandwidth Variant
begin

text \<open>
  The sessions of the Kad network (NeoKad/Networking/PacketQueue.cpp, SocketSession.cpp, SmartSocket.cpp): the queue of
  the packets to send, a session with its streams and its quota, and the socket that processes the sessions and hands
  their packets to its interfaces. A session is known by the number it has as a limiter; \<open>m_Up\<close> and \<open>m_Down\<close> are the
  states of the two bandwidth managers.
  Code outside is the record \<open>outside\<close>: zlib, the checksum, the cipher of a key, which works in place and may change the
  state of the encryptor or decryptor of the key, and what the receiver of packets does in answer to a packet, given all packets handed over so far.
\<close>

section \<open>The queue of packets\<close>

record var_packet =
  p_Name :: bytes
  p_Data :: variant
  p_Priority :: int
  p_uID :: uint32

record packet_queue =
  m_Deque :: "var_packet list"
  m_QueueSize :: uint64
  m_uLastID :: uint32

definition new_packets :: packet_queue where
  "new_packets = \<lparr>m_Deque = [], m_QueueSize = 0, m_uLastID = 0\<rparr>"

text \<open>\<open>Packet.Data.GetSize() + Packet.Name.size()\<close>: the size of a frozen variant is that of its payload, a \<open>uint32\<close>.\<close>

definition packet_size :: "var_packet \<Rightarrow> uint64" where
  "packet_size x = ucast (of_nat (length (v_Payload (p_Data x))) :: uint32) + of_nat (length (p_Name x))"

definition insert_packet :: "var_packet \<Rightarrow> var_packet list \<Rightarrow> var_packet list" where
  "insert_packet x xs = takeWhile (\<lambda>y. \<not> p_Priority y < p_Priority x) xs @ x # dropWhile (\<lambda>y. \<not> p_Priority y < p_Priority x) xs"

text \<open>\<open>None\<close>: \<open>Freeze\<close> throws.\<close>

definition Push :: "bytes \<Rightarrow> variant \<Rightarrow> int \<Rightarrow> packet_queue \<Rightarrow> (uint32 \<times> packet_queue) option" where
  "Push Name Data prio q =
     (case Freeze Data of
        None \<Rightarrow> None
      | Some d \<Rightarrow>
          let uID = m_uLastID q + 1;
              x = \<lparr>p_Name = Name, p_Data = d, p_Priority = prio, p_uID = uID\<rparr>
          in Some (uID, q\<lparr>m_uLastID := uID, m_QueueSize := m_QueueSize q + packet_size x,
                          m_Deque := (if prio \<noteq> 0 then insert_packet x (m_Deque q) else m_Deque q @ [x])\<rparr>))"

definition IsQueued :: "uint32 \<Rightarrow> packet_queue \<Rightarrow> bool" where
  "IsQueued uID q = list_ex (\<lambda>x. p_uID x = uID) (m_Deque q)"

definition Front :: "packet_queue \<Rightarrow> var_packet option" where
  "Front q = (case m_Deque q of [] \<Rightarrow> None | x # _ \<Rightarrow> Some x)"

definition Pop :: "packet_queue \<Rightarrow> packet_queue" where
  "Pop q = (case m_Deque q of [] \<Rightarrow> q | x # xs \<Rightarrow> q\<lparr>m_QueueSize := m_QueueSize q - packet_size x, m_Deque := xs\<rparr>)"

section \<open>Sessions\<close>

type_synonym handed = "nat \<times> bytes \<times> variant"

record 'k session =
  m_Id :: nat
  m_PacketQueue :: packet_queue
  m_Sending :: bytes
  m_LockQueue :: bool
  m_Receiving :: bytes
  m_Encryptor :: "'k option"
  m_Decryptor :: "'k option"
  m_LastActivity :: uint64
  m_Up :: bw_state
  m_Down :: bw_state
  m_Handed :: "handed list"

datatype 'k reply = Queue_reply bytes variant int | Send_reply bytes variant | Lock_reply bool | Encrypt_reply 'k 'k | Throw_reply

record 'k outside =
  o_uncompress :: "bytes \<Rightarrow> nat \<Rightarrow> zlib_result"
  o_crc :: "bytes \<Rightarrow> bytes"
  o_encrypt :: "'k \<Rightarrow> bytes \<Rightarrow> bytes \<times> 'k"
  o_decrypt :: "'k \<Rightarrow> bytes \<Rightarrow> bytes \<times> 'k"
  o_user :: "handed list \<Rightarrow> 'k reply list"

text \<open>A new session with the limits of the socket for the two channels.\<close>

definition new_session :: "nat \<Rightarrow> nat \<Rightarrow> nat \<Rightarrow> uint64 \<Rightarrow> bw_state \<Rightarrow> bw_state \<Rightarrow> 'k session" where
  "new_session p ul dl now up down = \<lparr>m_Id = p, m_PacketQueue = new_packets, m_Sending = [], m_LockQueue = False, m_Receiving = [],
     m_Encryptor = None, m_Decryptor = None, m_LastActivity = now, m_Up = new_limiter ul p up, m_Down = new_limiter dl p down,
     m_Handed = []\<rparr>"

text \<open>A cipher writes over the bytes it is given, no more and no less.\<close>

definition in_place :: "('k \<Rightarrow> bytes \<Rightarrow> bytes \<times> 'k) \<Rightarrow> 'k \<Rightarrow> bytes \<Rightarrow> bytes \<times> 'k" where
  "in_place f k d = (let (e, k) = f k d in (take (length d) e @ drop (length e) d, k))"

lemma in_place_length: "length (fst (in_place f k d)) = length d"
  by (auto simp: in_place_def min_def split: prod.split)

definition crypt :: "('k \<Rightarrow> bytes \<Rightarrow> bytes \<times> 'k) \<Rightarrow> 'k option \<Rightarrow> bytes \<Rightarrow> bytes \<times> 'k option" where
  "crypt f k d = (case k of None \<Rightarrow> (d, None) | Some k \<Rightarrow> (case in_place f k d of (e, k) \<Rightarrow> (e, Some k)))"

definition StreamIn :: "'k outside \<Rightarrow> bytes \<Rightarrow> 'k session \<Rightarrow> 'k session" where
  "StreamIn oc d s = (case crypt (o_decrypt oc) (m_Decryptor s) d of (e, k) \<Rightarrow> s\<lparr>m_Receiving := m_Receiving s @ e, m_Decryptor := k\<rparr>)"

definition StreamOut :: "'k outside \<Rightarrow> bytes \<Rightarrow> 'k session \<Rightarrow> 'k session" where
  "StreamOut oc d s = (case crypt (o_encrypt oc) (m_Encryptor s) d of (e, k) \<Rightarrow> s\<lparr>m_Sending := m_Sending s @ e, m_Encryptor := k\<rparr>)"

definition Quota_up :: "'k session \<Rightarrow> int" where "Quota_up s = m_Quota (m_Up s) (m_Id s)"
definition Quota_down :: "'k session \<Rightarrow> int" where "Quota_down s = m_Quota (m_Down s) (m_Id s)"

definition SendPacket_session :: "'k outside \<Rightarrow> bytes \<Rightarrow> variant \<Rightarrow> 'k session \<Rightarrow> 'k session" where
  "SendPacket_session oc Name Packet s =
     (let b = MakePacket Name Packet; s = StreamOut oc b s
      in s\<lparr>m_Up := CountBandwidth (m_Id s) (to_int32 (int (length b))) (m_Up s)\<rparr>)"

definition QueuePacket :: "bytes \<Rightarrow> variant \<Rightarrow> int \<Rightarrow> 'k session \<Rightarrow> (uint32 \<times> 'k session) option" where
  "QueuePacket Name Packet prio s =
     map_option (\<lambda>(uID, q). (uID, s\<lparr>m_PacketQueue := q\<rparr>)) (Push Name Packet prio (m_PacketQueue s))"

definition SetQueueLock :: "bool \<Rightarrow> 'k session \<Rightarrow> 'k session" where
  "SetQueueLock b s = s\<lparr>m_LockQueue := b\<rparr>"

text \<open>What was received already is decrypted with the new key. The reading position of the buffer is 0 here.\<close>

definition Encrypt_session :: "'k outside \<Rightarrow> 'k \<Rightarrow> 'k \<Rightarrow> 'k session \<Rightarrow> 'k session" where
  "Encrypt_session oc ek dk s =
     (let (e, dk) = (if length (m_Receiving s) > 0 then in_place (o_decrypt oc) dk (m_Receiving s) else (m_Receiving s, dk))
      in s\<lparr>m_Encryptor := Some ek, m_Decryptor := Some dk, m_Receiving := e\<rparr>)"

lemma Encrypt_length: "length (m_Receiving (Encrypt_session oc ek dk s)) = length (m_Receiving s)"
  using in_place_length [of "o_decrypt oc" dk "m_Receiving s"] by (auto simp: Encrypt_session_def split: prod.split)

definition GetIdleTime :: "uint64 \<Rightarrow> 'k session \<Rightarrow> uint64" where
  "GetIdleTime now s = now - m_LastActivity s"

definition KeepAlive :: "uint64 \<Rightarrow> 'k session \<Rightarrow> 'k session" where
  "KeepAlive now s = (if m_LastActivity s \<noteq> 0 then s\<lparr>m_LastActivity := now\<rparr> else s)"

text \<open>The answer of the receiver to a packet, up to an exception.\<close>

fun run_replies :: "'k outside \<Rightarrow> 'k reply list \<Rightarrow> 'k session \<Rightarrow> 'k session" where
  "run_replies oc [] s = s"
| "run_replies oc (Queue_reply n d p # rs) s = (case QueuePacket n d p s of None \<Rightarrow> s | Some (_, s) \<Rightarrow> run_replies oc rs s)"
| "run_replies oc (Send_reply n d # rs) s = run_replies oc rs (SendPacket_session oc n d s)"
| "run_replies oc (Lock_reply b # rs) s = run_replies oc rs (SetQueueLock b s)"
| "run_replies oc (Encrypt_reply ek dk # rs) s = run_replies oc rs (Encrypt_session oc ek dk s)"
| "run_replies oc (Throw_reply # rs) s = s"

lemma run_replies_length: "length (m_Receiving (run_replies oc rs s)) = length (m_Receiving s)"
  by (induction oc rs s rule: run_replies.induct)
    (auto simp: QueuePacket_def SendPacket_session_def StreamOut_def SetQueueLock_def Let_def Encrypt_length split: option.split prod.split)

text \<open>\<open>CSmartSocket::ProcessPacket\<close>: the part of the name before the first colon selects the interface.\<close>

definition ProcessPacket_smart :: "'k outside \<Rightarrow> (bytes, nat) qmap \<Rightarrow> bytes \<Rightarrow> variant \<Rightarrow> 'k session \<Rightarrow> 'k session" where
  "ProcessPacket_smart oc ifs Name Packet s =
     (case map_of ifs (takeWhile (\<lambda>c. c \<noteq> 58) Name) of
        None \<Rightarrow> s
      | Some i \<Rightarrow> let h = m_Handed s @ [(i, Name, Packet)] in run_replies oc (o_user oc h) (s\<lparr>m_Handed := h\<rparr>))"

definition ProcessPacket_session :: "'k outside \<Rightarrow> (bytes, nat) qmap \<Rightarrow> bytes \<Rightarrow> variant \<Rightarrow> 'k session \<Rightarrow> 'k session" where
  "ProcessPacket_session oc ifs Name Packet s =
     (case Name of [] \<Rightarrow> s | c # _ \<Rightarrow> if c = 58 then s else ProcessPacket_smart oc ifs Name Packet s)"

lemma ProcessPacket_length: "length (m_Receiving (ProcessPacket_session oc ifs Name Packet s)) = length (m_Receiving s)"
  by (simp add: ProcessPacket_session_def ProcessPacket_smart_def Let_def run_replies_length split: list.split option.split)

lemma StreamPacket_shorter: "StreamPacket u crc b = Stream_packet Name v r \<Longrightarrow> length r < length b"
  by (auto simp: StreamPacket_def Let_def split: list.split_asm option.split_asm if_split_asm parsed.split_asm)

text \<open>
  The end of a loop: it returns, an exception leaves \<open>Process\<close>, or the behaviour is not defined (a packed variant that
  does not unpack, see theory Variant).
\<close>

datatype session_end = Returned | Thrown | Undefined

text \<open>A packet that was read from the stream, of \<open>uRead\<close> bytes, where \<open>r\<close> are the bytes left.\<close>

definition received :: "'k outside \<Rightarrow> (bytes, nat) qmap \<Rightarrow> bytes \<Rightarrow> variant \<Rightarrow> bytes \<Rightarrow> 'k session \<Rightarrow> 'k session" where
  "received oc ifs Name Packet r s =
     (let uRead = length (m_Receiving s) - length r;
          s = s\<lparr>m_Receiving := r, m_Down := CountBandwidth (m_Id s) (to_int32 (int uRead)) (m_Down s)\<rparr>
      in if GetType_v Packet \<noteq> Some EMap then s else ProcessPacket_session oc ifs Name Packet s)"

lemma received_length: "length (m_Receiving (received oc ifs Name Packet r s)) = length r"
  by (simp add: received_def Let_def ProcessPacket_length)

function recv_loop :: "'k outside \<Rightarrow> (bytes, nat) qmap \<Rightarrow> 'k session \<Rightarrow> session_end \<times> 'k session" where
  "recv_loop oc ifs s =
     (if Quota_down s > 0 \<and> length (m_Receiving s) > 0 then
        (case StreamPacket (o_uncompress oc) (o_crc oc) (m_Receiving s) of
           Stream_packet Name Packet r \<Rightarrow> recv_loop oc ifs (received oc ifs Name Packet r s)
         | Stream_wait \<Rightarrow> (Returned, s)
         | Stream_throw \<Rightarrow> (Thrown, s)
         | _ \<Rightarrow> (Undefined, s))
      else (Returned, s))"
  by pat_completeness auto
termination
  by (relation "measure (\<lambda>(oc, ifs, s). length (m_Receiving s))") (auto simp: received_length dest: StreamPacket_shorter)

declare recv_loop.simps [simp del]

function send_loop :: "'k outside \<Rightarrow> 'k session \<Rightarrow> 'k session" where
  "send_loop oc s =
     (if Quota_up s > 0 then
        (case Front (m_PacketQueue s) of
           None \<Rightarrow> s
         | Some x \<Rightarrow>
             let s = SendPacket_session oc (p_Name x) (p_Data x) s
             in send_loop oc (s\<lparr>m_PacketQueue := Pop (m_PacketQueue s)\<rparr>))
      else s)"
  by pat_completeness auto
termination
  by (relation "measure (\<lambda>(oc, s). length (m_Deque (m_PacketQueue s)))")
    (auto simp: Front_def Pop_def SendPacket_session_def StreamOut_def Let_def split: list.split_asm list.split prod.split)

declare send_loop.simps [simp del]

definition Process_session :: "'k outside \<Rightarrow> (bytes, nat) qmap \<Rightarrow> 'k session \<Rightarrow> session_end \<times> 'k session" where
  "Process_session oc ifs s =
     (let s = s\<lparr>m_Down := RequestBandwidth (m_Id s) (to_int32 (int (length (m_Receiving s)))) (m_Down s)\<rparr>
      in case recv_loop oc ifs s of
           (Returned, s) \<Rightarrow>
             if m_LockQueue s then (Returned, s)
             else
               let s = s\<lparr>m_Up := RequestBandwidth (m_Id s) (to_int32 (uint (m_QueueSize (m_PacketQueue s)))) (m_Up s)\<rparr>
               in (Returned, send_loop oc s)
         | r \<Rightarrow> r)"

end
