(* ===== verification/BandwidthSpec.thy ===== *)
theory BandwidthSpec
  imports Bandwidth
begin

text \<open>
  Correctness of the bandwidth control (theory Bandwidth): the well-formed states of a manager (\<open>bw_ok\<close>), what a
  round of \<open>Process\<close> does to the limits and gives to each limiter, the bound of what is shared out by the quota of a
  limit, and the interface \<open>limiter\<close> the sessions rely on.
\<close>

section \<open>The state of a manager\<close>

definition entry_ok :: "bw_entry \<Rightarrow> bool" where
  "entry_ok e = (0 < iPriority e \<and> 0 \<le> iAssigned e \<and> iAssigned e \<le> iRequestSize e \<and> iRequestSize e < 2 ^ 31 \<and> distinct (Limits e))"

definition open_bytes :: "(nat, bw_entry) qmap \<Rightarrow> int" where
  "open_bytes q = sum_list (map (\<lambda>(p, e). iRequestSize e - iAssigned e) q)"

definition limits_ok :: "(nat \<Rightarrow> bw_limit) \<Rightarrow> bool" where
  "limits_ok ls = (\<forall>i. 0 \<le> m_iLimit (ls i) \<and> 0 \<le> m_iDistributeQuota (ls i) \<and> 0 \<le> m_iPriority (ls i))"

definition bw_ok :: "bw_state \<Rightarrow> bool" where
  "bw_ok s = (qwf (m_Queue s) \<and> (\<forall>(p, e) \<in> set (m_Queue s). entry_ok e) \<and> m_iQueuedBytes s = open_bytes (m_Queue s) \<and> limits_ok (lims s))"

lemma open_bytes_simps [simp]:
  "open_bytes [] = 0" "open_bytes ((p, e) # q) = iRequestSize e - iAssigned e + open_bytes q"
  by (simp_all add: open_bytes_def)

section \<open>A round\<close>

lemma on_limit_other [simp]: "j \<noteq> i \<Longrightarrow> on_limit j f ls i = ls i" "on_limit i f ls i = f (ls i)"
  by (simp_all add: on_limit_def)

text \<open>A loop over the limits of an entry changes a limit once when it is one of them.\<close>

lemma fold_on_limit: "distinct is \<Longrightarrow> fold (\<lambda>i. on_limit i f) is ls i = (if i \<in> set is then f (ls i) else ls i)"
proof (induction "is" arbitrary: ls)
  case (Cons j "is")
  then show ?case by (cases "j = i") auto
qed simp

definition uses :: "nat \<Rightarrow> nat \<times> bw_entry \<Rightarrow> bool" where
  "uses i pe = (i \<in> set (Limits (snd pe)))"

lemma uses_pair [simp]: "uses i (p, e) = (i \<in> set (Limits e))"
  by (simp add: uses_def)

lemma clear_tmp_at:
  "\<forall>(p, e) \<in> set q. distinct (Limits e) \<Longrightarrow> clear_tmp q ls i = (if \<exists>pe \<in> set q. uses i pe then (ls i)\<lparr>m_iTmp := 0\<rparr> else ls i)"
proof (induction q arbitrary: ls)
  case (Cons pe q)
  obtain p e where pe: "pe = (p, e)" by (cases pe)
  have "clear_tmp (pe # q) ls = clear_tmp q (fold (\<lambda>i. on_limit i (\<lambda>l. l\<lparr>m_iTmp := 0\<rparr>)) (Limits e) ls)"
    by (simp add: clear_tmp_def pe)
  then show ?case using Cons by (auto simp: pe fold_on_limit)
qed (simp add: clear_tmp_def)

text \<open>\<open>charged\<close>: the limit after the entries of a queue were charged to it.\<close>

lemma charge_props:
  "m_iLimit (charge iv prio l) = m_iLimit l" "m_iTmp (charge iv prio l) = m_iTmp l + prio"
  "m_iTmp l \<noteq> 0 \<Longrightarrow> charge iv prio l = l\<lparr>m_iTmp := m_iTmp l + prio\<rparr>"
  "m_iTmp l = 0 \<Longrightarrow> charge iv prio l = (Process_limit iv l)\<lparr>m_iTmp := prio\<rparr>"
proof -
  have p: "m_iLimit (Process_limit iv l) = m_iLimit l" "m_iTmp (Process_limit iv l) = m_iTmp l"
    by (auto simp: Process_limit_def Process_counter_def Let_def split: prod.split)
  show "m_iLimit (charge iv prio l) = m_iLimit l" "m_iTmp (charge iv prio l) = m_iTmp l + prio"
    "m_iTmp l \<noteq> 0 \<Longrightarrow> charge iv prio l = l\<lparr>m_iTmp := m_iTmp l + prio\<rparr>"
    "m_iTmp l = 0 \<Longrightarrow> charge iv prio l = (Process_limit iv l)\<lparr>m_iTmp := prio\<rparr>"
    using p by (auto simp: charge_def)
qed

definition prio_sum :: "nat \<Rightarrow> (nat, bw_entry) qmap \<Rightarrow> int" where
  "prio_sum i q = sum_list (map (\<lambda>pe. iPriority (snd pe)) (filter (uses i) q))"

lemma prio_sum_nonneg: "\<forall>(p, e) \<in> set q. 0 < iPriority e \<Longrightarrow> 0 \<le> prio_sum i q"
  by (induction q) (auto simp: prio_sum_def)

lemma process_limits_at:
  "\<forall>(p, e) \<in> set q. distinct (Limits e) \<and> 0 < iPriority e \<Longrightarrow> 0 \<le> m_iTmp (ls i) \<Longrightarrow>
     process_limits iv q ls i =
       (if filter (uses i) q = [] then ls i
        else (if m_iTmp (ls i) = 0 then Process_limit iv (ls i) else ls i)\<lparr>m_iTmp := m_iTmp (ls i) + prio_sum i q\<rparr>)"
proof (induction q arbitrary: ls)
  case (Cons pe q)
  obtain p e where pe: "pe = (p, e)" by (cases pe)
  let ?ls = "fold (\<lambda>i. on_limit i (charge iv (iPriority e))) (Limits e) ls"
  have e: "distinct (Limits e)" "0 < iPriority e" using Cons.prems(1) pe by auto
  have P: "process_limits iv (pe # q) ls = process_limits iv q ?ls" by (simp add: process_limits_def pe)
  have at: "?ls i = (if i \<in> set (Limits e) then charge iv (iPriority e) (ls i) else ls i)" by (rule fold_on_limit [OF e(1)])
  have IH: "process_limits iv q ?ls i =
       (if filter (uses i) q = [] then ?ls i
        else (if m_iTmp (?ls i) = 0 then Process_limit iv (?ls i) else ?ls i)\<lparr>m_iTmp := m_iTmp (?ls i) + prio_sum i q\<rparr>)"
    by (rule Cons.IH) (use Cons.prems e in \<open>auto simp: at charge_props\<close>)
  show ?case
  proof (cases "i \<in> set (Limits e)")
    case False
    then show ?thesis using IH P at by (simp add: pe prio_sum_def)
  next
    case True
    have t: "m_iTmp (charge iv (iPriority e) (ls i)) \<noteq> 0" using Cons.prems(2) e(2) by (simp add: charge_props)
    show ?thesis
      using IH t True unfolding P at by (cases "m_iTmp (ls i) = 0") (auto simp: pe prio_sum_def charge_props)
  qed
qed (simp add: process_limits_def)

definition round_limits :: "int \<Rightarrow> (nat, bw_entry) qmap \<Rightarrow> (nat \<Rightarrow> bw_limit) \<Rightarrow> (nat \<Rightarrow> bw_limit)" where
  "round_limits iv q ls = process_limits iv q (clear_tmp q ls)"

lemma round_limits_at:
  assumes "\<forall>(p, e) \<in> set q. entry_ok e" and "\<exists>pe \<in> set q. uses i pe"
  shows "round_limits iv q ls i = (Process_limit iv ((ls i)\<lparr>m_iTmp := 0\<rparr>))\<lparr>m_iTmp := prio_sum i q\<rparr>"
    and "0 < prio_sum i q"
proof -
  have d: "\<forall>(p, e) \<in> set q. distinct (Limits e)" "\<forall>(p, e) \<in> set q. distinct (Limits e) \<and> 0 < iPriority e"
    using assms(1) by (auto simp: entry_ok_def)
  have c: "clear_tmp q ls i = (ls i)\<lparr>m_iTmp := 0\<rparr>" using clear_tmp_at [OF d(1)] assms(2) by simp
  have ne: "filter (uses i) q \<noteq> []" using assms(2) by (auto simp: filter_empty_conv)
  show "round_limits iv q ls i = (Process_limit iv ((ls i)\<lparr>m_iTmp := 0\<rparr>))\<lparr>m_iTmp := prio_sum i q\<rparr>"
    unfolding round_limits_def by (subst process_limits_at [OF d(2)]) (use c ne in simp_all)
  obtain pe qs where f: "filter (uses i) q = pe # qs" using ne by (cases "filter (uses i) q") auto
  then have s: "set (pe # qs) \<subseteq> set q" using filter_is_subset [of "uses i" q] by simp
  then have "0 < iPriority (snd pe)" using d(2) by (cases pe) auto
  moreover have "0 \<le> sum_list (map (\<lambda>pe. iPriority (snd pe)) qs)" using s d(2) by (intro sum_list_nonneg) force
  ultimately show "0 < prio_sum i q" by (simp add: prio_sum_def f)
qed

lemma round_limits_none:
  assumes "\<forall>(p, e) \<in> set q. entry_ok e" and "\<not> (\<exists>pe \<in> set q. uses i pe)" and "0 \<le> m_iTmp (ls i)"
  shows "round_limits iv q ls i = ls i"
proof -
  have d: "\<forall>(p, e) \<in> set q. distinct (Limits e)" "\<forall>(p, e) \<in> set q. distinct (Limits e) \<and> 0 < iPriority e"
    using assms(1) by (auto simp: entry_ok_def)
  have c: "clear_tmp q ls i = ls i" using clear_tmp_at [OF d(1)] assms(2) by simp
  have "filter (uses i) q = []" using assms(2) by (auto simp: filter_empty_conv)
  then show ?thesis unfolding round_limits_def by (subst process_limits_at [OF d(2)]) (use c assms(3) in simp_all)
qed

text \<open>What decides on the share of an entry does not change while the quota is given out.\<close>

definition same_share :: "(nat \<Rightarrow> bw_limit) \<Rightarrow> (nat \<Rightarrow> bw_limit) \<Rightarrow> bool" where
  "same_share ls ls' = (\<forall>i. m_iLimit (ls' i) = m_iLimit (ls i) \<and> m_iDistributeQuota (ls' i) = m_iDistributeQuota (ls i)
     \<and> m_iTmp (ls' i) = m_iTmp (ls i) \<and> m_iPriority (ls' i) = m_iPriority (ls i))"

lemma use_all_at: "distinct is \<Longrightarrow> use_all n is ls i = (if i \<in> set is then UseQuota n (ls i) else ls i)"
  unfolding use_all_def by (rule fold_on_limit)

lemma same_share_use_all: "distinct is \<Longrightarrow> same_share ls (use_all n is ls)"
  by (simp add: same_share_def use_all_at UseQuota_def)

lemma entry_quota_same: "same_share ls ls' \<Longrightarrow> entry_quota ls' e = entry_quota ls e"
proof -
  assume s: "same_share ls ls'"
  then have "share (ls' i) prio = share (ls i) prio" "m_iLimit (ls' i) = m_iLimit (ls i)" for i prio
    by (simp_all add: same_share_def share_def)
  then show ?thesis by (simp add: entry_quota_def cong: if_cong)
qed

lemma min_u_bounds: "0 \<le> a \<Longrightarrow> 0 \<le> q \<Longrightarrow> q < 2 ^ 31 \<Longrightarrow> min_u a q = min a q"
  by (simp add: min_u_def)

definition shares_ok :: "(nat \<Rightarrow> bw_limit) \<Rightarrow> nat list \<Rightarrow> bool" where
  "shares_ok ls is = (\<forall>i \<in> set is. 0 \<le> m_iDistributeQuota (ls i) \<and> 0 < m_iTmp (ls i))"

lemma share_bound:
  assumes "0 \<le> m_iDistributeQuota l" and "0 < m_iTmp l" and "0 < prio"
  shows "0 \<le> share l prio" and "share l prio * m_iTmp l \<le> m_iDistributeQuota l * prio"
proof -
  have n: "0 \<le> m_iDistributeQuota l * prio" using assms by simp
  show "0 \<le> share l prio" using assms(2) by (simp add: share_def pos_imp_zdiv_nonneg_iff)
  have "m_iDistributeQuota l * prio mod 4294967296 \<le> m_iDistributeQuota l * prio" using n by (rule zmod_le_nonneg_dividend)
  moreover have "share l prio * m_iTmp l \<le> m_iDistributeQuota l * prio mod 4294967296"
    unfolding share_def using assms(2) by (simp add: minus_mod_eq_div_mult [symmetric])
  ultimately show "share l prio * m_iTmp l \<le> m_iDistributeQuota l * prio" by linarith
qed

lemma entry_quota_bounds:
  assumes "entry_ok e" and "shares_ok ls (Limits e)"
  shows "0 \<le> entry_quota ls e" and "entry_quota ls e \<le> iRequestSize e - iAssigned e"
    and "i \<in> set (Limits e) \<Longrightarrow> m_iLimit (ls i) \<noteq> 0 \<Longrightarrow> entry_quota ls e \<le> share (ls i) (iPriority e)"
proof -
  let ?f = "\<lambda>i q. if m_iLimit (ls i) = 0 then q else min_u (share (ls i) (iPriority e)) q"
  have pr: "0 < iPriority e" using assms(1) by (simp add: entry_ok_def)
  have main: "0 \<le> fold ?f is q \<and> fold ?f is q \<le> q \<and> (\<forall>i \<in> set is. m_iLimit (ls i) \<noteq> 0 \<longrightarrow> fold ?f is q \<le> share (ls i) (iPriority e))"
    if "0 \<le> q" "q < 2 ^ 31" "shares_ok ls is" for "is" q
    using that
  proof (induction "is" arbitrary: q)
    case (Cons j "is")
    have sj: "0 \<le> share (ls j) (iPriority e)" by (rule share_bound) (use Cons.prems(3) pr in \<open>simp_all add: shares_ok_def\<close>)
    have q': "0 \<le> ?f j q" "?f j q \<le> q" "m_iLimit (ls j) \<noteq> 0 \<Longrightarrow> ?f j q \<le> share (ls j) (iPriority e)"
      using sj Cons.prems(1,2) by (auto simp: min_u_bounds)
    have "shares_ok ls is" using Cons.prems(3) by (simp add: shares_ok_def)
    from Cons.IH [OF q'(1) _ this] q' Cons.prems(2) show ?case by force
  qed simp
  have "0 \<le> iRequestSize e - iAssigned e" "iRequestSize e - iAssigned e < 2 ^ 31" using assms(1) by (simp_all add: entry_ok_def)
  from main [OF this assms(2)] show "0 \<le> entry_quota ls e" "entry_quota ls e \<le> iRequestSize e - iAssigned e"
    "i \<in> set (Limits e) \<Longrightarrow> m_iLimit (ls i) \<noteq> 0 \<Longrightarrow> entry_quota ls e \<le> share (ls i) (iPriority e)"
    by (auto simp: entry_quota_def)
qed

definition left_at :: "nat \<Rightarrow> bw_state \<Rightarrow> int" where
  "left_at i s = m_iQuotaLeft (lims s i)"

definition used :: "nat \<Rightarrow> (nat \<Rightarrow> bw_limit) \<Rightarrow> (nat, bw_entry) qmap \<Rightarrow> int" where
  "used i ls q = sum_list (map (\<lambda>pe. entry_quota ls (snd pe)) (filter (uses i) q))"

definition pending :: "bw_entry option \<Rightarrow> int" where
  "pending r = (case r of None \<Rightarrow> 0 | Some e \<Rightarrow> iRequestSize e - iAssigned e)"

lemma assign_entry_spec:
  assumes "entry_ok e" and "shares_ok (lims s) (Limits e)" and "assign_entry iv p e s = (r, s')"
  shows "lims s' = use_all (entry_quota (lims s) e) (Limits e) (lims s)"
    and "(case r of None \<Rightarrow> True | Some e' \<Rightarrow> entry_ok e' \<and> Limits e' = Limits e \<and> iPriority e' = iPriority e)"
    and "m_iQueuedBytes s' - m_iQueuedBytes s = pending r - (iRequestSize e - iAssigned e)"
    and "m_Queue s' = m_Queue s" and "\<And>j. m_Quota s j \<le> m_Quota s' j" and "m_Limits s' = m_Limits s"
proof -
  let ?q = "entry_quota (lims s) e"
  note q = entry_quota_bounds(1,2) [OF assms(1,2)]
  define e1 where "e1 = e\<lparr>iAssigned := iAssigned e + ?q\<rparr>"
  define s1 where "s1 = s\<lparr>lims := use_all ?q (Limits e) (lims s), m_iQueuedBytes := m_iQueuedBytes s - ?q\<rparr>"
  define full where "full = (iAssigned e1 \<ge> min (iRequestSize e1) MSS)"
  define e2 where "e2 = (if full then e1 else e1\<lparr>iTTL := iTTL e1 - 1\<rparr>)"
  define pay where "pay = (full \<or> iTTL e2 \<le> 0 \<and> iAssigned e2 > 0)"
  define e3 where "e3 = (if pay then e2\<lparr>iTTL := 20, iRequestSize := iRequestSize e2 - iAssigned e2, iAssigned := 0\<rparr> else e2)"
  define s3 where "s3 = (if pay then AssignBandwidth_limiter p (iAssigned e2) s1 else s1)"
  have A: "assign_entry iv p e s =
    (if iRequestSize e3 > 0 then (Some (e3\<lparr>iIdle := 0\<rparr>), s3)
     else if iIdle e3 \<le> AVG_INTERVAL + 3000 then (Some (e3\<lparr>iIdle := iIdle e3 + iv\<rparr>), s3) else (None, s3))"
    unfolding assign_entry_def Let_def e3_def s3_def pay_def e2_def full_def s1_def e1_def by (simp split: prod.split)
  have e1: "iRequestSize e1 = iRequestSize e" "iAssigned e1 = iAssigned e + ?q" "Limits e1 = Limits e" "iPriority e1 = iPriority e"
    by (simp_all add: e1_def)
  have e2: "iRequestSize e2 = iRequestSize e" "iAssigned e2 = iAssigned e + ?q" "Limits e2 = Limits e" "iPriority e2 = iPriority e"
    using e1 by (simp_all add: e2_def)
  have e3: "entry_ok e3" "Limits e3 = Limits e" "iPriority e3 = iPriority e"
    "iRequestSize e3 - iAssigned e3 = iRequestSize e - iAssigned e - ?q"
    using e2 q assms(1) by (auto simp: e3_def entry_ok_def)
  have s3: "lims s3 = use_all ?q (Limits e) (lims s)" "m_iQueuedBytes s3 = m_iQueuedBytes s - ?q" "m_Queue s3 = m_Queue s"
    "\<And>j. m_Quota s j \<le> m_Quota s3 j" "m_Limits s3 = m_Limits s"
    using e2(2) q(1) assms(1) by (auto simp: s3_def s1_def AssignBandwidth_limiter_def entry_ok_def)
  have s': "s' = s3" using assms(3) unfolding A by (auto split: if_split_asm)
  show "lims s' = use_all ?q (Limits e) (lims s)" "m_Queue s' = m_Queue s" "\<And>j. m_Quota s j \<le> m_Quota s' j" "m_Limits s' = m_Limits s"
    using s3 s' by simp_all
  show "case r of None \<Rightarrow> True | Some e' \<Rightarrow> entry_ok e' \<and> Limits e' = Limits e \<and> iPriority e' = iPriority e"
    using assms(3) e3 unfolding A by (auto simp: entry_ok_def split: if_split_asm)
  have "pending r = iRequestSize e3 - iAssigned e3"
  proof (cases r)
    case None
    then have "\<not> iRequestSize e3 > 0" using assms(3) unfolding A by (auto split: if_split_asm)
    then show ?thesis using None e3(1) by (simp add: pending_def entry_ok_def)
  next
    case (Some e')
    then have "e' = e3\<lparr>iIdle := 0\<rparr> \<or> e' = e3\<lparr>iIdle := iIdle e3 + iv\<rparr>" using assms(3) unfolding A by (auto split: if_split_asm)
    then show ?thesis using Some by (auto simp: pending_def)
  qed
  then show "m_iQueuedBytes s' - m_iQueuedBytes s = pending r - (iRequestSize e - iAssigned e)" using s' s3(2) e3(4) by simp
qed

lemma same_share_trans: "same_share a b \<Longrightarrow> same_share b c \<Longrightarrow> same_share a c"
  by (simp add: same_share_def)

lemma same_share_refl: "same_share a a"
  by (simp add: same_share_def)

lemma shares_ok_same: "same_share ls ls' \<Longrightarrow> shares_ok ls is \<Longrightarrow> shares_ok ls' is"
  by (simp add: same_share_def shares_ok_def)

lemma used_same: "same_share ls ls' \<Longrightarrow> used i ls' q = used i ls q"
  by (simp add: used_def entry_quota_same)

lemma assign_loop_spec:
  assumes "\<forall>(p, e) \<in> set q. entry_ok e \<and> shares_ok (lims s) (Limits e)" and "qwf q"
    and "assign_loop iv q s = (q', s')"
  shows "same_share (lims s) (lims s')"
    and "\<And>i. m_iLimit (lims s i) \<noteq> 0 \<Longrightarrow> left_at i s' = left_at i s - used i (lims s) q"
    and "\<And>i. \<not> (\<exists>pe \<in> set q. uses i pe) \<Longrightarrow> lims s' i = lims s i"
    and "qwf q'" and "qkeys q' \<subseteq> qkeys q" and "\<forall>(p, e) \<in> set q'. entry_ok e"
    and "m_iQueuedBytes s' - m_iQueuedBytes s = open_bytes q' - open_bytes q"
    and "m_Queue s' = m_Queue s" and "\<And>j. m_Quota s j \<le> m_Quota s' j" and "m_Limits s' = m_Limits s"
proof -
  have "same_share (lims s) (lims s')
    \<and> (\<forall>i. m_iLimit (lims s i) \<noteq> 0 \<longrightarrow> left_at i s' = left_at i s - used i (lims s) q)
    \<and> (\<forall>i. \<not> (\<exists>pe \<in> set q. uses i pe) \<longrightarrow> lims s' i = lims s i)
    \<and> qwf q' \<and> qkeys q' \<subseteq> qkeys q \<and> (\<forall>(p, e) \<in> set q'. entry_ok e)
    \<and> m_iQueuedBytes s' - m_iQueuedBytes s = open_bytes q' - open_bytes q
    \<and> m_Queue s' = m_Queue s \<and> (\<forall>j. m_Quota s j \<le> m_Quota s' j) \<and> m_Limits s' = m_Limits s"
    using assms
  proof (induction q arbitrary: s q' s')
    case Nil
    then show ?case by (simp add: same_share_refl used_def)
  next
    case (Cons pe q)
    obtain p e where pe: "pe = (p, e)" by (cases pe)
    obtain r s1 where a: "assign_entry iv p e s = (r, s1)" by fastforce
    obtain q2 s2 where l: "assign_loop iv q s1 = (q2, s2)" by fastforce
    have e: "entry_ok e" "shares_ok (lims s) (Limits e)" using Cons.prems(1) pe by auto
    then have d: "distinct (Limits e)" by (simp add: entry_ok_def)
    note A = assign_entry_spec [OF e a]
    have sh: "same_share (lims s) (lims s1)" unfolding A(1) by (rule same_share_use_all [OF d])
    have IH: "same_share (lims s1) (lims s2)
      \<and> (\<forall>i. m_iLimit (lims s1 i) \<noteq> 0 \<longrightarrow> left_at i s2 = left_at i s1 - used i (lims s1) q)
      \<and> (\<forall>i. \<not> (\<exists>pe \<in> set q. uses i pe) \<longrightarrow> lims s2 i = lims s1 i)
      \<and> qwf q2 \<and> qkeys q2 \<subseteq> qkeys q \<and> (\<forall>(p, e) \<in> set q2. entry_ok e)
      \<and> m_iQueuedBytes s2 - m_iQueuedBytes s1 = open_bytes q2 - open_bytes q
      \<and> m_Queue s2 = m_Queue s1 \<and> (\<forall>j. m_Quota s1 j \<le> m_Quota s2 j) \<and> m_Limits s2 = m_Limits s1"
      by (rule Cons.IH [OF _ _ l]) (use Cons.prems shares_ok_same [OF sh] in auto)
    have res: "q' = (case r of None \<Rightarrow> q2 | Some e \<Rightarrow> (p, e) # q2)" "s' = s2"
      using Cons.prems(3) a l pe by simp_all
    have left: "left_at i s2 = left_at i s - used i (lims s) (pe # q)" if i: "m_iLimit (lims s i) \<noteq> 0" for i
    proof -
      have "left_at i s1 = left_at i s - (if i \<in> set (Limits e) then entry_quota (lims s) e else 0)"
        using i by (simp add: left_at_def A(1) use_all_at [OF d] UseQuota_def)
      moreover have "m_iLimit (lims s1 i) \<noteq> 0" using sh i by (simp add: same_share_def)
      ultimately have "left_at i s2 = left_at i s - (if i \<in> set (Limits e) then entry_quota (lims s) e else 0) - used i (lims s) q"
        using IH used_same [OF sh] by simp
      then show ?thesis by (simp add: used_def pe)
    qed
    have un: "lims s2 i = lims s i" if "\<not> (\<exists>pe' \<in> set (pe # q). uses i pe')" for i
      using that IH by (simp add: A(1) use_all_at [OF d] pe)
    have w: "qwf q'" "qkeys q' \<subseteq> qkeys (pe # q)" "\<forall>(p, e) \<in> set q'. entry_ok e"
      using IH A(2) Cons.prems(2) pe unfolding res(1) by (auto split: option.split)
    have "pending r - (iRequestSize e - iAssigned e) + (open_bytes q2 - open_bytes q) = open_bytes q' - open_bytes (pe # q)"
      unfolding res(1) pe by (simp add: pending_def split: option.split)
    then have b: "m_iQueuedBytes s2 - m_iQueuedBytes s = open_bytes q' - open_bytes (pe # q)" using IH A(3) by linarith
    have qt: "\<forall>j. m_Quota s j \<le> m_Quota s2 j" using IH A(5) order_trans by blast
    show ?case
      unfolding res(2) using same_share_trans [OF sh] IH left un w b qt A(4,6) by simp
  qed
  then show "same_share (lims s) (lims s')"
    "\<And>i. m_iLimit (lims s i) \<noteq> 0 \<Longrightarrow> left_at i s' = left_at i s - used i (lims s) q"
    "\<And>i. \<not> (\<exists>pe \<in> set q. uses i pe) \<Longrightarrow> lims s' i = lims s i"
    "qwf q'" "qkeys q' \<subseteq> qkeys q" "\<forall>(p, e) \<in> set q'. entry_ok e"
    "m_iQueuedBytes s' - m_iQueuedBytes s = open_bytes q' - open_bytes q"
    "m_Queue s' = m_Queue s" "\<And>j. m_Quota s j \<le> m_Quota s' j" "m_Limits s' = m_Limits s"
    by blast+
qed

text \<open>No limit gives out more in a round than it has to distribute.\<close>

lemma used_bound:
  assumes "\<forall>pe \<in> set q. entry_ok (snd pe) \<and> shares_ok ls (Limits (snd pe))" and "m_iLimit (ls i) \<noteq> 0"
    and "0 \<le> m_iDistributeQuota (ls i)" and "0 < m_iTmp (ls i)"
  shows "0 \<le> used i ls q" and "used i ls q * m_iTmp (ls i) \<le> m_iDistributeQuota (ls i) * prio_sum i q"
proof -
  have "0 \<le> used i ls q \<and> used i ls q * m_iTmp (ls i) \<le> m_iDistributeQuota (ls i) * prio_sum i q"
    using assms(1)
  proof (induction q)
    case (Cons pe q)
    have e: "entry_ok (snd pe)" "shares_ok ls (Limits (snd pe))" using Cons.prems by simp_all
    have IH: "0 \<le> used i ls q \<and> used i ls q * m_iTmp (ls i) \<le> m_iDistributeQuota (ls i) * prio_sum i q" using Cons by simp
    show ?case
    proof (cases "uses i pe")
      case False
      then show ?thesis using IH by (simp add: used_def prio_sum_def)
    next
      case True
      note b = entry_quota_bounds [OF e]
      have "entry_quota ls (snd pe) \<le> share (ls i) (iPriority (snd pe))"
        using b(3) True assms(2) by (simp add: uses_def)
      then have "entry_quota ls (snd pe) * m_iTmp (ls i) \<le> share (ls i) (iPriority (snd pe)) * m_iTmp (ls i)"
        using assms(4) by (intro mult_right_mono) simp_all
      also have "\<dots> \<le> m_iDistributeQuota (ls i) * iPriority (snd pe)"
        by (rule share_bound(2) [OF assms(3,4)]) (use e(1) in \<open>simp add: entry_ok_def\<close>)
      finally show ?thesis using IH b(1) True by (simp add: used_def prio_sum_def algebra_simps)
    qed
  qed (simp add: used_def prio_sum_def)
  then show "0 \<le> used i ls q" "used i ls q * m_iTmp (ls i) \<le> m_iDistributeQuota (ls i) * prio_sum i q" by simp_all
qed

section \<open>Who gets what in a round\<close>

definition assigned_of :: "bw_entry option \<Rightarrow> int" where
  "assigned_of r = (case r of None \<Rightarrow> 0 | Some e \<Rightarrow> iAssigned e)"

text \<open>What a limiter has got: its quota, and what is assigned to it but not handed over yet.\<close>

definition got :: "bw_state \<Rightarrow> nat \<Rightarrow> int" where
  "got s p = m_Quota s p + assigned_of (map_of (m_Queue s) p)"

lemma assign_entry_got:
  assumes "entry_ok e" and "shares_ok (lims s) (Limits e)" and "assign_entry iv p e s = (r, s')"
  shows "m_Quota s' p + assigned_of r = m_Quota s p + iAssigned e + entry_quota (lims s) e"
    and "j \<noteq> p \<Longrightarrow> m_Quota s' j = m_Quota s j"
proof -
  let ?q = "entry_quota (lims s) e"
  note q = entry_quota_bounds(1,2) [OF assms(1,2)]
  show "j \<noteq> p \<Longrightarrow> m_Quota s' j = m_Quota s j"
    using assms(3) by (auto simp: assign_entry_def Let_def AssignBandwidth_limiter_def split: if_split_asm)
  have "0 \<le> iAssigned e" using assms(1) by (simp add: entry_ok_def)
  then show "m_Quota s' p + assigned_of r = m_Quota s p + iAssigned e + ?q"
    using assms(3) q
    by (auto simp: assign_entry_def Let_def AssignBandwidth_limiter_def assigned_of_def split: if_split_asm)
qed


lemma assign_loop_got:
  assumes "\<forall>(p, e) \<in> set q. entry_ok e \<and> shares_ok (lims s) (Limits e)" and "qwf q" and "assign_loop iv q s = (q', s')"
  shows "(\<forall>(p, e) \<in> set q. m_Quota s' p + assigned_of (map_of q' p) = m_Quota s p + iAssigned e + entry_quota (lims s) e)
    \<and> (\<forall>j. j \<notin> qkeys q \<longrightarrow> m_Quota s' j = m_Quota s j)"
  using assms
proof (induction q arbitrary: s q' s')
  case (Cons pe q)
  obtain p e where pe: "pe = (p, e)" by (cases pe)
  obtain r s1 where a: "assign_entry iv p e s = (r, s1)" by fastforce
  obtain q2 s2 where l: "assign_loop iv q s1 = (q2, s2)" by fastforce
  have e: "entry_ok e" "shares_ok (lims s) (Limits e)" using Cons.prems(1) pe by auto
  have d: "distinct (Limits e)" using e(1) by (simp add: entry_ok_def)
  have np: "p \<notin> qkeys q" "qwf q" using Cons.prems(2) pe by auto
  note A = assign_entry_got [OF e a]
  have sh: "same_share (lims s) (lims s1)"
    unfolding assign_entry_spec(1) [OF e a] by (rule same_share_use_all [OF d])
  have pr: "\<forall>(p, e) \<in> set q. entry_ok e \<and> shares_ok (lims s1) (Limits e)"
    using Cons.prems(1) shares_ok_same [OF sh] by auto
  note IH = Cons.IH [OF pr np(2) l]
  have "p \<notin> qkeys q2" using assign_loop_spec(5) [OF pr np(2) l] np(1) by blast
  then have k2n: "map_of q2 p = None" by simp
  have res: "q' = (case r of None \<Rightarrow> q2 | Some e \<Rightarrow> (p, e) # q2)" "s' = s2"
    using Cons.prems(3) a l pe by simp_all
  have own: "m_Quota s2 p + assigned_of (map_of q' p) = m_Quota s p + iAssigned e + entry_quota (lims s) e"
  proof -
    have "map_of q' p = r" unfolding res(1) by (cases r) (simp_all only: option.case k2n map_of.simps fst_conv snd_conv fun_upd_same)
    then show ?thesis using A(1) IH np(1) by simp
  qed
  have "m_Quota s2 p' + assigned_of (map_of q' p') = m_Quota s p' + iAssigned e' + entry_quota (lims s) e'"
    if "(p', e') \<in> set q" for p' e'
  proof -
    have ne: "p' \<noteq> p" using imageI [OF that, of fst] np(1) by (auto simp: qkeys_def)
    then have "map_of q' p' = map_of q2 p'" unfolding res(1) by (simp split: option.split)
    then show ?thesis using IH that A(2) [OF ne] entry_quota_same [OF sh] by auto
  qed
  then show ?case unfolding res(2) using own A(2) IH pe by auto
qed (simp add: assigned_of_def)

section \<open>A whole round\<close>

definition round_interval :: "int \<Rightarrow> int" where
  "round_interval iInterval = (if iInterval > 3000 then 3000 else iInterval)"

text \<open>The quota of a limit after it has been filled up for the round.\<close>

definition refilled :: "int \<Rightarrow> bw_limit \<Rightarrow> int" where
  "refilled iv l = m_iQuotaLeft (Process_limit iv l)"

lemma Process_limit_props:
  "m_iLimit (Process_limit iv l) = m_iLimit l" "m_iPriority (Process_limit iv l) = m_iPriority l"
  "0 \<le> m_iDistributeQuota l \<Longrightarrow> 0 \<le> m_iDistributeQuota (Process_limit iv l)"
  "m_iLimit l \<noteq> 0 \<Longrightarrow> m_iDistributeQuota (Process_limit iv l) = max (refilled iv l) 0"
  by (auto simp: refilled_def Process_limit_def Process_counter_def Let_def split: prod.split)

lemma Process_limit_tmp: "Process_limit iv (l\<lparr>m_iTmp := t\<rparr>) = (Process_limit iv l)\<lparr>m_iTmp := t\<rparr>"
  by (simp add: Process_limit_def Process_counter_def Let_def split: prod.split)

lemma refilled_tmp: "refilled iv (l\<lparr>m_iTmp := t\<rparr>) = refilled iv l"
  by (simp add: refilled_def Process_limit_tmp)

lemma Process_bw_round:
  assumes "bw_ok s" and "m_Queue s \<noteq> []"
  obtains q s2 where "assign_loop (round_interval iv) (m_Queue s)
      (s\<lparr>lims := round_limits (round_interval iv) (m_Queue s) (lims s)\<rparr>) = (q, s2)"
    and "Process_bw iv s = s2\<lparr>m_Queue := q\<rparr>"
proof -
  obtain q s2 where l: "assign_loop (round_interval iv) (m_Queue s)
      (s\<lparr>lims := round_limits (round_interval iv) (m_Queue s) (lims s)\<rparr>) = (q, s2)" by fastforce
  have "Process_bw iv s = s2\<lparr>m_Queue := q\<rparr>"
    using assms(2) l [unfolded round_interval_def round_limits_def]
    by (simp add: Process_bw_def Let_def)
  with l show thesis by (rule that)
qed

lemma round_shares_ok:
  assumes "bw_ok s"
  shows "\<forall>(p, e) \<in> set (m_Queue s). entry_ok e \<and> shares_ok (round_limits iv (m_Queue s) (lims s)) (Limits e)"
proof -
  have e: "\<forall>(p, e) \<in> set (m_Queue s). entry_ok e" and l: "\<And>i. 0 \<le> m_iDistributeQuota (lims s i)"
    using assms by (auto simp: bw_ok_def limits_ok_def)
  have "0 \<le> m_iDistributeQuota (round_limits iv (m_Queue s) (lims s) i) \<and> 0 < m_iTmp (round_limits iv (m_Queue s) (lims s) i)"
    if "(p, x) \<in> set (m_Queue s)" "i \<in> set (Limits x)" for p x i
  proof -
    have u: "\<exists>pe \<in> set (m_Queue s). uses i pe" using that by (intro bexI [of _ "(p, x)"]) simp_all
    show ?thesis
      unfolding round_limits_at(1) [OF e u] using round_limits_at(2) [OF e u] l [of i]
      by (simp add: Process_limit_props)
  qed
  then show ?thesis using e by (auto simp: shares_ok_def)
qed

lemma fold_on_limit_other: "i \<notin> set is \<Longrightarrow> fold (\<lambda>i. on_limit i f) is ls i = ls i"
  by (induction "is" arbitrary: ls) auto

lemma process_limits_unused: "\<not> (\<exists>pe \<in> set q. uses i pe) \<Longrightarrow> process_limits iv q ls i = ls i"
proof (induction q arbitrary: ls)
  case (Cons pe q)
  obtain p e where pe: "pe = (p, e)" by (cases pe)
  have "process_limits iv (pe # q) ls = process_limits iv q (fold (\<lambda>i. on_limit i (charge iv (iPriority e))) (Limits e) ls)"
    by (simp add: process_limits_def pe)
  then show ?case using Cons by (simp add: pe fold_on_limit_other)
qed (simp add: process_limits_def)

lemma round_limits_ok:
  assumes "bw_ok s"
  shows "limits_ok (round_limits iv (m_Queue s) (lims s))"
proof -
  have e: "\<forall>(p, e) \<in> set (m_Queue s). entry_ok e"
    and d: "\<forall>(p, e) \<in> set (m_Queue s). distinct (Limits e)" "\<forall>(p, e) \<in> set (m_Queue s). distinct (Limits e) \<and> 0 < iPriority e"
    using assms by (auto simp: bw_ok_def entry_ok_def)
  have "m_iLimit (round_limits iv (m_Queue s) (lims s) i) = m_iLimit (lims s i)
      \<and> m_iPriority (round_limits iv (m_Queue s) (lims s) i) = m_iPriority (lims s i)
      \<and> 0 \<le> m_iDistributeQuota (round_limits iv (m_Queue s) (lims s) i)" for i
  proof (cases "\<exists>pe \<in> set (m_Queue s). uses i pe")
    case True
    show ?thesis
      unfolding round_limits_at(1) [OF e True]
      using assms by (simp add: Process_limit_props bw_ok_def limits_ok_def)
  next
    case False
    have "clear_tmp (m_Queue s) (lims s) i = lims s i" using clear_tmp_at [OF d(1)] False by simp
    moreover have "process_limits iv (m_Queue s) ls i = ls i" for ls
      using False by (intro process_limits_unused) auto
    ultimately show ?thesis using assms by (simp add: round_limits_def bw_ok_def limits_ok_def)
  qed
  then show ?thesis using assms by (simp add: limits_ok_def bw_ok_def)
qed


section \<open>Properties\<close>

definition shared_out :: "nat \<Rightarrow> bw_state \<Rightarrow> bw_state \<Rightarrow> int" where
  "shared_out i s s' = sum_list (map (\<lambda>pe. got s' (fst pe) - got s (fst pe)) (filter (uses i) (m_Queue s)))"


text \<open>A limiter with a limited limit and two limiters that use it, for the witness.\<close>

definition bw_sample :: bw_state where
  "bw_sample = RequestBandwidth 2 5000 (RequestBandwidth 1 9000 (AddLimit 7 2 (AddLimit 7 1
     (new_bw\<lparr>lims := on_limit 7 (SetLimit 10000) (lims new_bw)\<rparr>))))"

lemma bw_sample_queue:
  "m_Queue bw_sample = [(1, new_entry\<lparr>iPriority := 100, iRequestSize := 9000, Limits := [7]\<rparr>),
     (2, new_entry\<lparr>iPriority := 100, iRequestSize := 5000, Limits := [7]\<rparr>)]"
  "m_iQueuedBytes bw_sample = 14000"
  by (simp_all add: bw_sample_def RequestBandwidth_def RequestBandwidth_manager_def UpdateEntry_def AddLimit_def UpdateLimits_def
      Add_limiter_def SetLimit_def new_bw_def new_limit_def entry_of_def qm_value_def new_entry_def BW_PRIO_NORMAL_def Let_def)


lemma bw_sample_ok: "bw_ok bw_sample"
proof -
  have "limits_ok (lims bw_sample)"
    by (simp add: limits_ok_def bw_sample_def RequestBandwidth_def RequestBandwidth_manager_def UpdateEntry_def AddLimit_def UpdateLimits_def
        Add_limiter_def SetLimit_def new_bw_def new_limit_def entry_of_def qm_value_def new_entry_def BW_PRIO_NORMAL_def Let_def on_limit_def)
  then show ?thesis
    by (simp add: bw_ok_def bw_sample_queue entry_ok_def new_entry_def)
qed

lemma bw_sample_limit: "m_iLimit (lims bw_sample 7) = 10000" "refilled 100 (lims bw_sample 7) = 1000"
  by (simp_all add: bw_sample_def RequestBandwidth_def RequestBandwidth_manager_def UpdateEntry_def AddLimit_def UpdateLimits_def
      Add_limiter_def SetLimit_def new_bw_def new_limit_def entry_of_def qm_value_def new_entry_def BW_PRIO_NORMAL_def Let_def on_limit_def
      refilled_def Process_limit_def Process_counter_def cdiv_def AVG_INTERVAL_def)


section \<open>A limiter without a limit\<close>

text \<open>
  What a session relies on: as long as no limit applies to it, a request gives it at least the quota it asks for, and
  counting bytes takes no more than these.
\<close>

locale limiter =
  fixes free :: "'s \<Rightarrow> bool" and quota :: "'s \<Rightarrow> int" and request :: "int \<Rightarrow> 's \<Rightarrow> 's" and count :: "int \<Rightarrow> 's \<Rightarrow> 's"
  assumes free_request: "free s \<Longrightarrow> free (request n s)"
    and free_count: "free s \<Longrightarrow> free (count n s)"
    and request_quota: "free s \<Longrightarrow> n \<le> quota (request n s)"
    and count_quota: "free s \<Longrightarrow> 0 \<le> n \<Longrightarrow> quota s - n \<le> quota (count n s)"

definition unlimited :: "nat \<Rightarrow> bw_state \<Rightarrow> bool" where
  "unlimited p s = list_all (\<lambda>i. m_iLimit (lims s i) = 0) (m_Limits s p)"

lemma UpdateEntry_free: "list_all (\<lambda>i. m_iLimit (ls i) = 0) is \<Longrightarrow> \<not> fst (UpdateEntry ls is e)"
  by (auto simp: UpdateEntry_def Let_def list_all_iff filter_empty_conv)

lemma UpdateEntry_request [simp]: "iRequestSize (snd (UpdateEntry ls is e)) = iRequestSize e"
  by (simp add: UpdateEntry_def Let_def)

lemma request_manager_free:
  assumes "list_all (\<lambda>i. m_iLimit (lims s i) = 0) is"
  shows "m_Quota s p + n \<le> m_Quota (RequestBandwidth_manager is p n s) p"
    and "lims (RequestBandwidth_manager is p n s) = lims s" and "m_Limits (RequestBandwidth_manager is p n s) = m_Limits s"
proof -
  let ?e = "if iRequestSize (entry_of s p) < n then (entry_of s p)\<lparr>iRequestSize := n\<rparr> else entry_of s p"
  obtain b e where u: "UpdateEntry (lims s) is ?e = (b, e)" by fastforce
  have b: "\<not> b" "iRequestSize e = iRequestSize ?e"
    using UpdateEntry_free [OF assms, of ?e] UpdateEntry_request [of "lims s" "is" ?e] u by simp_all
  show "m_Quota s p + n \<le> m_Quota (RequestBandwidth_manager is p n s) p"
    "lims (RequestBandwidth_manager is p n s) = lims s" "m_Limits (RequestBandwidth_manager is p n s) = m_Limits s"
    using u b by (auto simp: RequestBandwidth_manager_def Let_def AssignBandwidth_limiter_def split: if_split_asm)
qed

lemma CountBytes_limit [simp]: "m_iLimit (CountBytes n l) = m_iLimit l"
  by (simp add: CountBytes_def)

lemma fold_CountBytes: "m_iLimit (fold (\<lambda>i. on_limit i (CountBytes n)) is ls j) = m_iLimit (ls j)"
  by (induction "is" arbitrary: ls) (simp_all add: on_limit_def)

interpretation lim: limiter "unlimited p" "\<lambda>s. m_Quota s p" "RequestBandwidth p" "CountBandwidth p" for p
proof unfold_locales
  fix s n assume u: "unlimited p s"
  then have l: "list_all (\<lambda>i. m_iLimit (lims s i) = 0) (m_Limits s p)" by (simp add: unlimited_def)
  note R = request_manager_free [OF l, of p "n - m_Quota s p"]
  show "unlimited p (RequestBandwidth p n s)" using R u by (simp add: RequestBandwidth_def unlimited_def)
  show "n \<le> m_Quota (RequestBandwidth p n s) p" using R(1) by (simp add: RequestBandwidth_def)
  define s1 where "s1 = s\<lparr>m_Quota := (m_Quota s)(p := m_Quota s p - n),
                lims := fold (\<lambda>i. on_limit i (CountBytes n)) (m_Limits s p) (lims s)\<rparr>"
  have l1: "list_all (\<lambda>i. m_iLimit (lims s1 i) = 0) (m_Limits s p)" using l by (simp add: s1_def fold_CountBytes)
  note C = request_manager_free [OF l1, of p "- m_Quota s1 p"]
  have e: "CountBandwidth p n s = (if m_Quota s1 p < 0 then RequestBandwidth_manager (m_Limits s1 p) p (- m_Quota s1 p) s1 else s1)"
    by (simp add: CountBandwidth_def Let_def s1_def)
  have m: "m_Limits s1 p = m_Limits s p" "m_Quota s1 p = m_Quota s p - n" by (simp_all add: s1_def)
  show "unlimited p (CountBandwidth p n s)" using l1 C m unfolding e by (simp add: unlimited_def)
  show "m_Quota s p - n \<le> m_Quota (CountBandwidth p n s) p" if "0 \<le> n" using C(1) m unfolding e by simp
qed

text \<open>
  A request that is satisfied at once leaves what was assigned to the entry before, so that more is assigned than
  requested when the limits of a limiter were removed while it waited.
\<close>

definition bw_released :: bw_state where
  "bw_released = RequestBandwidth 1 9500 (RemoveLimit 7 1 (Process_bw 100 bw_sample))"


lemma released_overassigned:
  "map_option (\<lambda>e. (iAssigned e, iRequestSize e)) (map_of (m_Queue bw_released) 1) = Some (500, 0)"
  unfolding bw_released_def bw_sample_def by code_simp

lemma released_breaks: "\<not> bw_ok bw_released"
proof
  assume ok: "bw_ok bw_released"
  obtain e where e: "map_of (m_Queue bw_released) 1 = Some e" "iAssigned e = 500" "iRequestSize e = 0"
    using released_overassigned by auto
  from map_of_SomeD [OF e(1)] ok have "entry_ok e" by (auto simp: bw_ok_def)
  then show False using e by (simp add: entry_ok_def)
qed

end
