(* ===== verification/VariantStream.thy ===== *)
theory VariantStream
  imports VariantView
begin

text \<open>
  Packets in a stream: what \<open>MakePacket\<close> wrote \<open>StreamPacket\<close> reads, whatever follows it, and of a packet that has
  not arrived completely it reads nothing.
\<close>

section \<open>Streams\<close>

lemma name_len_byte: "n < 128 \<Longrightarrow> (of_nat n :: uint8) AND 0x80 = 0 \<and> unat ((of_nat n :: uint8) AND 0x7F) = n"
proof -
  assume n: "n < 128"
  have u: "unat (of_nat n :: uint8) = n" using n by (simp add: unat_of_nat)
  have "list_all (\<lambda>b :: uint8. b < 128 \<longrightarrow> b AND 0x80 = 0 \<and> b AND 0x7F = b) (map of_nat [0..<256])" by code_simp
  from byte_cases [OF this, of "of_nat n"] show ?thesis using n u by (simp add: word_less_nat_alt)
qed

lemma read_size_len: "read_size b q = None \<longleftrightarrow> length q < (if b AND ELen32 = ELen8 then 1 else if b AND ELen32 = ELen16 then 2 else 4)"
  by (simp add: read_size_def read_num_def)

lemma MakePacket_shape:
  assumes "wf_v v" and "fits v"
  obtains b h where "MakePacket Name v = of_nat (length Name) # Name @ b # h @ MkPayload v"
    and "\<And>r. read_size b (h @ r) = Some (of_nat (length (MkPayload v)), r)"
    and "length h = (if b AND ELen32 = ELen8 then 1 else if b AND ELen32 = ELen16 then 2 else 4)"
proof -
  let ?T = "v_Type v" and ?d = "MkPayload v"
  have T: "?T < 64" using wf_type [OF assms(1)] .
  have l: "length ?d < 2 ^ 32" using assms(2) by (simp add: fits_def)
  obtain b h where h: "write_head False ?T (length ?d) = b # h" "read_size b (h @ []) = Some (of_nat (length ?d), [])"
    "length h = (if b AND ELen32 = ELen8 then 1 else if b AND ELen32 = ELen16 then 2 else 4)"
    by (rule write_head_read [OF T l, of "[]"]) auto
  have "read_size b (h @ r) = Some (of_nat (length ?d), r)" for r
  proof -
    obtain b' h' where "write_head False ?T (length ?d) = b' # h'" "read_size b' (h' @ r) = Some (of_nat (length ?d), r)"
      by (rule write_head_read [OF T l, of r]) auto
    then show ?thesis using h(1) by simp
  qed
  then show thesis using that [of b h] h(1,3) by (simp add: MakePacket_def ToPacket_def pack_def)
qed

lemma StreamPacket_MakePacket:
  assumes "wf_v v" and "fits v" and "length Name < 128"
  shows "StreamPacket u crc (MakePacket Name v @ r) = Stream_packet Name (frozen_v vReadOnly (v_Type v) (MkPayload v)) r"
proof -
  let ?d = "MkPayload v"
  obtain b h where s: "MakePacket Name v = of_nat (length Name) # Name @ b # h @ ?d"
    "\<And>r. read_size b (h @ r) = Some (of_nat (length ?d), r)"
    "length h = (if b AND ELen32 = ELen8 then 1 else if b AND ELen32 = ELen16 then 2 else 4)"
    by (rule MakePacket_shape [OF assms(1,2), of Name]) (rule that)
  note n = name_len_byte [OF assms(3)]
  have l: "unat (of_nat (length ?d) :: uint32) = length ?d" using assms(2) by (simp add: fits_def unat_of_nat)
  have "pack_plain (v_Type v) ?d = b # h @ ?d" using s(1) by (simp add: MakePacket_def ToPacket_def pack_def pack_plain_def)
  then have F: "FromPacket u False (b # h @ ?d @ r) = Parsed (frozen_v vReadOnly (v_Type v) ?d) r"
    using FromPacket_pack [OF wf_type [OF assms(1)] assms(2) [unfolded fits_def], of u False r] by simp
  have sz: "(if b AND ELen32 = ELen8 then 1 else if b AND ELen32 = ELen16 then 2 else 4) = length h" using s(3) by simp
  have dr: "drop (1 + length Name + (1 + length h + length ?d)) (of_nat (length Name) # Name @ b # h @ ?d @ r) = r" by simp
  show ?thesis
    unfolding s(1) StreamPacket_def using n
    by (simp add: Let_def s(2) l F sz dr del: One_nat_def split del: if_split)
qed

lemma StreamPacket_prefix:
  assumes "wf_v v" and "fits v" and "length Name < 128" and "0 < n" and "n < length (MakePacket Name v)"
  shows "StreamPacket u crc (take n (MakePacket Name v)) = Stream_wait"
proof -
  let ?d = "MkPayload v"
  obtain b h where s: "MakePacket Name v = of_nat (length Name) # Name @ b # h @ ?d"
    "\<And>r. read_size b (h @ r) = Some (of_nat (length ?d), r)"
    "length h = (if b AND ELen32 = ELen8 then 1 else if b AND ELen32 = ELen16 then 2 else 4)"
    by (rule MakePacket_shape [OF assms(1,2), of Name]) (rule that)
  note nb = name_len_byte [OF assms(3)]
  have l: "unat (of_nat (length ?d) :: uint32) = length ?d" using assms(2) by (simp add: fits_def unat_of_nat)
  obtain n' where n': "n = Suc n'" using assms(4) by (cases n) auto
  have t: "take n (MakePacket Name v) = of_nat (length Name) # take n' (Name @ b # h @ ?d)" using s(1) n' by simp
  consider "n' < length Name" | "n' = length Name" | k where "n' = length Name + Suc k"
    by (metis less_imp_Suc_add linorder_neqE_nat add_Suc_right)
  then show ?thesis
  proof cases
    case 1
    then show ?thesis unfolding t StreamPacket_def using nb by (simp add: Let_def)
  next
    case 2
    then show ?thesis unfolding t StreamPacket_def using nb by (simp add: Let_def)
  next
    case 3
    have k: "k < length h + length ?d" using assms(5) s(1) n' 3 by simp
    have d: "drop (length Name) (take n' (Name @ b # h @ ?d)) = b # take k (h @ ?d)" using 3 by simp
    show ?thesis
    proof (cases "k < length h")
      case True
      then have "read_size b (take k (h @ ?d)) = None" unfolding read_size_len using s(3) by simp
      then show ?thesis unfolding t StreamPacket_def using nb d 3 by (simp add: Let_def)
    next
      case False
      then have "take k (h @ ?d) = h @ take (k - length h) ?d" by simp
      then have "read_size b (take k (h @ ?d)) = Some (of_nat (length ?d), take (k - length h) ?d)" using s(2) by simp
      then show ?thesis unfolding t StreamPacket_def using nb d 3 k l s(3) by (simp add: Let_def del: take_append)
    qed
  qed
qed

end
