(* ===== verification/SessionSpec.thy ===== *)
theory SessionSpec
  imports Session BandwidthSpec VariantStream "HOL-Library.Multiset"
begin

text \<open>
  Correctness of the sessions (theory Session): the order of the queue of packets, what the loops of \<open>Process\<close> send
  and hand over, and the way of packets from the queue of one session to the interfaces of the other side.
\<close>

section \<open>The queue of packets\<close>

text \<open>What the queue holds is frozen; its size is the sum of the sizes; packets of a higher priority are in front.\<close>

definition packet_frozen :: "var_packet \<Rightarrow> bool" where
  "packet_frozen x = (v_Type (p_Data x) < 64 \<and> length (v_Payload (p_Data x)) < 2 ^ 32
     \<and> p_Data x = frozen_v vReadOnly (v_Type (p_Data x)) (v_Payload (p_Data x)))"

definition by_priority :: "var_packet list \<Rightarrow> bool" where
  "by_priority xs = sorted (map (\<lambda>x. - p_Priority x) xs)"

definition queue_ok :: "packet_queue \<Rightarrow> bool" where
  "queue_ok q = (list_all packet_frozen (m_Deque q) \<and> m_QueueSize q = sum_list (map packet_size (m_Deque q))
     \<and> list_all (\<lambda>x. 0 \<le> p_Priority x) (m_Deque q) \<and> by_priority (m_Deque q))"

lemma insert_packet_Cons:
  "insert_packet x (y # ys) = (if p_Priority y < p_Priority x then x # y # ys else y # insert_packet x ys)"
  by (simp add: insert_packet_def)

lemma mset_insert_packet: "mset (insert_packet x xs) = mset (xs @ [x])"
  by (induction xs) (simp_all add: insert_packet_Cons, simp add: insert_packet_def)

lemma set_insert_packet: "set (insert_packet x xs) = insert x (set xs)"
  using mset_insert_packet [of x xs, THEN arg_cong, of set_mset] by simp

lemma by_priority_insert: "by_priority xs \<Longrightarrow> by_priority (insert_packet x xs)"
proof (induction xs)
  case (Cons y ys)
  then show ?case by (auto simp: by_priority_def insert_packet_Cons set_insert_packet)
qed (simp add: insert_packet_def by_priority_def)

lemma filter_insert_packet:
  "by_priority xs \<Longrightarrow> filter (\<lambda>y. p_Priority y = n) (insert_packet x xs) = filter (\<lambda>y. p_Priority y = n) (xs @ [x])"
proof (induction xs)
  case (Cons y ys)
  have "filter (\<lambda>z. p_Priority z = p_Priority x) (y # ys) = []" if "p_Priority y < p_Priority x"
    using Cons.prems that by (fastforce simp: by_priority_def filter_empty_conv)
  with Cons show ?case by (auto simp: insert_packet_Cons by_priority_def)
qed (simp add: insert_packet_def)

lemma insert_packet_sort:
  assumes "by_priority xs"
  shows "insert_packet x xs = sort_key (\<lambda>x. - p_Priority x) (xs @ [x])"
proof (rule sym, rule properties_for_sort_key)
  show "mset (insert_packet x xs) = mset (xs @ [x])" by (rule mset_insert_packet)
  show "filter (\<lambda>y. - p_Priority k = - p_Priority y) (insert_packet x xs) = filter (\<lambda>y. - p_Priority k = - p_Priority y) (xs @ [x])"
    if "k \<in> set (insert_packet x xs)" for k
    using filter_insert_packet [OF assms, of "p_Priority k" x] by (simp add: eq_commute)
  show "sorted (map (\<lambda>x. - p_Priority x) (insert_packet x xs))"
    using by_priority_insert [OF assms] by (simp add: by_priority_def)
qed

lemma insert_packet_last: "list_all (\<lambda>y. 0 \<le> p_Priority y) xs \<Longrightarrow> p_Priority x = 0 \<Longrightarrow> insert_packet x xs = xs @ [x]"
  by (induction xs) (simp_all add: insert_packet_def)

definition new_packet :: "bytes \<Rightarrow> variant \<Rightarrow> int \<Rightarrow> uint32 \<Rightarrow> var_packet" where
  "new_packet Name Data prio uID =
     \<lparr>p_Name = Name, p_Data = frozen_v vReadOnly (v_Type Data) (MkPayload Data), p_Priority = prio, p_uID = uID\<rparr>"

lemma Freeze_value:
  assumes "wf_v v" and "fits v"
  shows "Freeze v = Some (frozen_v vReadOnly (v_Type v) (MkPayload v))"
proof (cases "v_Access v = vReadOnly")
  case True
  then obtain T p where v: "v = Variant T p vReadOnly None None" using assms(1) by (cases v) auto
  have "MkPayload (frozen_v vReadOnly T p) = p" by (rule frozen_v_sel) simp
  then show ?thesis using v by (simp add: Freeze_def frozen_v_def)
qed (simp add: Freeze_frozen assms)

lemma new_packet_frozen: "wf_v v \<Longrightarrow> fits v \<Longrightarrow> packet_frozen (new_packet n v p u)"
  by (simp add: packet_frozen_def new_packet_def fits_def wf_type)

lemma Push_ok:
  assumes "queue_ok q" and "wf_v v" and "fits v" and "0 \<le> prio"
  obtains q' where "Push Name v prio q = Some (m_uLastID q + 1, q')"
    and "m_Deque q' = insert_packet (new_packet Name v prio (m_uLastID q + 1)) (m_Deque q)"
    and "m_uLastID q' = m_uLastID q + 1" and "queue_ok q'"
proof -
  let ?x = "new_packet Name v prio (m_uLastID q + 1)"
  define q' where "q' = q\<lparr>m_uLastID := m_uLastID q + 1, m_QueueSize := m_QueueSize q + packet_size ?x,
    m_Deque := insert_packet ?x (m_Deque q)\<rparr>"
  have P: "Push Name v prio q = Some (m_uLastID q + 1, q')"
    using insert_packet_last [of "m_Deque q" ?x] assms(1)
    by (auto simp: Push_def Freeze_value [OF assms(2,3)] Let_def q'_def queue_ok_def new_packet_def)
  have "sum_list (map packet_size (insert_packet ?x (m_Deque q))) = sum_list (map packet_size (m_Deque q @ [?x]))"
    by (simp only: mset_insert_packet mset_map flip: sum_mset_sum_list)
  then have "queue_ok q'"
    using assms(1,4) new_packet_frozen [OF assms(2,3)] by_priority_insert [of "m_Deque q" ?x]
    by (simp add: queue_ok_def q'_def list_all_iff set_insert_packet) (simp add: new_packet_def)
  then show thesis using that [OF P] by (simp add: q'_def)
qed

lemma queue_ok_Cons:
  assumes "queue_ok q" and "m_Deque q = x # xs"
  shows "queue_ok (Pop q)" "m_Deque (Pop q) = xs" "m_uLastID (Pop q) = m_uLastID q" "packet_frozen x"
  using assms by (simp_all add: queue_ok_def Pop_def by_priority_def)

text \<open>A sequence of calls of \<open>Push\<close>.\<close>

fun push_all :: "(bytes \<times> variant \<times> int) list \<Rightarrow> packet_queue \<Rightarrow> packet_queue option" where
  "push_all [] q = Some q"
| "push_all ((n, v, p) # ps) q = (case Push n v p q of None \<Rightarrow> None | Some (_, q) \<Rightarrow> push_all ps q)"

text \<open>The packets pushed, in the order of the calls, with their numbers.\<close>

fun pushed :: "(bytes \<times> variant \<times> int) list \<Rightarrow> uint32 \<Rightarrow> var_packet list" where
  "pushed [] u = []"
| "pushed ((n, v, p) # ps) u = new_packet n v p (u + 1) # pushed ps (u + 1)"

definition push_arg_ok :: "bytes \<times> variant \<times> int \<Rightarrow> bool" where
  "push_arg_ok a = (case a of (n, v, p) \<Rightarrow> wf_v v \<and> fits v \<and> 0 \<le> p)"

lemma sort_sorted: "by_priority xs \<Longrightarrow> sort_key (\<lambda>x. - p_Priority x) xs = xs"
  by (rule sort_key_id_if_sorted) (simp add: by_priority_def)

lemma filter_sort_key: "filter (\<lambda>y. k = f y) (sort_key f xs) = filter (\<lambda>y. k = f y) xs"
  using sort_key_stable [of f k xs] by (simp only: eq_commute [of k])

lemma sort_key_sort_append: "sort_key f (sort_key f xs @ ys) = sort_key f (xs @ ys)"
  by (rule properties_for_sort_key) (simp_all add: filter_sort_key)

lemma push_all_sorts:
  assumes "queue_ok q" and "list_all push_arg_ok ps"
  shows "\<exists>q'. push_all ps q = Some q' \<and> queue_ok q'
    \<and> m_Deque q' = sort_key (\<lambda>x. - p_Priority x) (m_Deque q @ pushed ps (m_uLastID q))"
  using assms
proof (induction ps arbitrary: q)
  case Nil
  then show ?case by (simp add: queue_ok_def sort_sorted)
next
  case (Cons a ps)
  obtain n v p where a: "a = (n, v, p)" by (cases a)
  have v: "wf_v v" "fits v" "0 \<le> p" using Cons.prems(2) a by (simp_all add: push_arg_ok_def)
  obtain q1 where q1: "Push n v p q = Some (m_uLastID q + 1, q1)"
    "m_Deque q1 = insert_packet (new_packet n v p (m_uLastID q + 1)) (m_Deque q)" "m_uLastID q1 = m_uLastID q + 1" "queue_ok q1"
    by (rule Push_ok [OF Cons.prems(1) v])
  have "by_priority (m_Deque q)" using Cons.prems(1) by (simp add: queue_ok_def)
  then have "m_Deque q1 = sort_key (\<lambda>x. - p_Priority x) (m_Deque q @ [new_packet n v p (m_uLastID q + 1)])"
    using q1(2) insert_packet_sort by simp
  then show ?case
    using Cons.IH [OF q1(4)] Cons.prems(2) by (simp add: a q1(1,3) sort_key_sort_append)
qed

section \<open>Streams through a cipher\<close>

fun crypts :: "('k \<Rightarrow> bytes \<Rightarrow> bytes \<times> 'k) \<Rightarrow> 'k option \<Rightarrow> bytes list \<Rightarrow> bytes list \<times> 'k option" where
  "crypts f k [] = ([], k)"
| "crypts f k (d # ds) = (case crypt f k d of (e, k) \<Rightarrow> case crypts f k ds of (es, k) \<Rightarrow> (e # es, k))"

lemma crypts_append:
  "crypts f k (xs @ ys) = (case crypts f k xs of (es, k) \<Rightarrow> case crypts f k ys of (fs, k) \<Rightarrow> (es @ fs, k))"
  by (induction xs arbitrary: k) (simp_all split: prod.split)

lemma crypt_length: "length (fst (crypt f k d)) = length d"
  using in_place_length [of f _ d] by (auto simp: crypt_def split: option.split prod.split) (metis fst_conv)

lemma crypts_length: "length (concat (fst (crypts f k ds))) = length (concat ds)"
  using crypt_length [of f] by (induction ds arbitrary: k) (auto split: prod.split, metis fst_conv)

text \<open>What was encrypted in some chunks is restored when it is decrypted in any other chunks.\<close>

definition stream_cipher :: "('k \<Rightarrow> bytes \<Rightarrow> bytes \<times> 'k) \<Rightarrow> ('k \<Rightarrow> bytes \<Rightarrow> bytes \<times> 'k) \<Rightarrow> 'k option \<Rightarrow> 'k option \<Rightarrow> bool" where
  "stream_cipher enc dec ek dk =
     (\<forall>xs ys. concat (fst (crypts enc ek xs)) = concat ys \<longrightarrow> concat (fst (crypts dec dk ys)) = concat xs)"

lemma crypts_none: "crypts f None ds = (ds, None)"
  by (induction ds) (simp_all add: crypt_def)

lemma stream_cipher_none: "stream_cipher enc dec None None"
  by (simp add: stream_cipher_def crypts_none)

section \<open>Sending\<close>

definition packet_bytes :: "var_packet \<Rightarrow> bytes" where
  "packet_bytes x = MakePacket (p_Name x) (p_Data x)"

definition up_free :: "'k session \<Rightarrow> bool" where "up_free s = unlimited (m_Id s) (m_Up s)"
definition down_free :: "'k session \<Rightarrow> bool" where "down_free s = unlimited (m_Id s) (m_Down s)"

lemma SendPacket_fields:
  "m_Id (SendPacket_session oc n v s) = m_Id s" "m_PacketQueue (SendPacket_session oc n v s) = m_PacketQueue s"
  "m_LockQueue (SendPacket_session oc n v s) = m_LockQueue s" "m_Receiving (SendPacket_session oc n v s) = m_Receiving s"
  "m_Decryptor (SendPacket_session oc n v s) = m_Decryptor s" "m_Down (SendPacket_session oc n v s) = m_Down s"
  "m_Handed (SendPacket_session oc n v s) = m_Handed s"
  by (simp_all add: SendPacket_session_def StreamOut_def Let_def split: prod.split)

lemma SendPacket_stream:
  "m_Sending (SendPacket_session oc n v s) = m_Sending s @ fst (crypt (o_encrypt oc) (m_Encryptor s) (MakePacket n v))"
  "m_Encryptor (SendPacket_session oc n v s) = snd (crypt (o_encrypt oc) (m_Encryptor s) (MakePacket n v))"
  by (simp_all add: SendPacket_session_def StreamOut_def Let_def split: prod.split)

lemma SendPacket_free: "up_free s \<Longrightarrow> up_free (SendPacket_session oc n v s)"
  by (auto simp: up_free_def SendPacket_session_def StreamOut_def Let_def lim.free_count split: prod.split)

text \<open>What a loop that sends some packets of the queue does.\<close>

definition sent :: "'k outside \<Rightarrow> nat \<Rightarrow> 'k session \<Rightarrow> 'k session \<Rightarrow> bool" where
  "sent oc n s s' =
     (let xs = m_Deque (m_PacketQueue s); (es, k) = crypts (o_encrypt oc) (m_Encryptor s) (map packet_bytes (take n xs))
      in n \<le> length xs \<and> m_Deque (m_PacketQueue s') = drop n xs \<and> queue_ok (m_PacketQueue s')
        \<and> m_Sending s' = m_Sending s @ concat es \<and> m_Encryptor s' = k \<and> up_free s'
        \<and> m_Id s' = m_Id s \<and> m_LockQueue s' = m_LockQueue s \<and> m_Receiving s' = m_Receiving s \<and> m_Handed s' = m_Handed s)"

lemma sent_0: "queue_ok (m_PacketQueue s) \<Longrightarrow> up_free s \<Longrightarrow> sent oc 0 s s"
  by (simp add: sent_def)

lemma sent_trans: "sent oc n s s' \<Longrightarrow> sent oc m s' s'' \<Longrightarrow> sent oc (n + m) s s''"
  by (auto simp: sent_def Let_def take_add crypts_append add.commute [of m n] split: prod.splits)

lemma send_loop_sent:
  assumes "queue_ok (m_PacketQueue s)" and "up_free s"
  shows "\<exists>n. sent oc n s (send_loop oc s) \<and> (Quota_up s > 0 \<longrightarrow> m_Deque (m_PacketQueue s) \<noteq> [] \<longrightarrow> 0 < n)"
  using assms
proof (induction oc s rule: send_loop.induct)
  case (1 oc s)
  show ?case
  proof (cases "Quota_up s > 0 \<and> m_Deque (m_PacketQueue s) \<noteq> []")
    case False
    then have "send_loop oc s = s" by (subst send_loop.simps) (auto simp: Front_def)
    then show ?thesis using sent_0 [OF 1(2,3)] False by auto
  next
    case True
    then obtain x xs where x: "m_Deque (m_PacketQueue s) = x # xs" by (cases "m_Deque (m_PacketQueue s)") auto
    let ?s1 = "SendPacket_session oc (p_Name x) (p_Data x) s"
    let ?s2 = "?s1\<lparr>m_PacketQueue := Pop (m_PacketQueue ?s1)\<rparr>"
    have q: "queue_ok (Pop (m_PacketQueue s))" "m_Deque (Pop (m_PacketQueue s)) = xs" using queue_ok_Cons [OF 1(2) x] by simp_all
    have free: "up_free ?s2" using SendPacket_free [OF 1(3)] by (simp add: up_free_def)
    have one: "sent oc 1 s ?s2"
      using x q free by (simp add: sent_def SendPacket_fields SendPacket_stream packet_bytes_def split: prod.split)
    have f: "Front (m_PacketQueue s) = Some x" by (simp add: Front_def x)
    obtain n where "sent oc n ?s2 (send_loop oc ?s2)"
      using 1(1) [of x ?s1] True f free q by (auto simp: SendPacket_fields)
    then have "sent oc (1 + n) s (send_loop oc ?s2)" by (rule sent_trans [OF one])
    moreover have "send_loop oc s = send_loop oc ?s2" using True f by (subst send_loop.simps) (simp add: Let_def)
    ultimately show ?thesis by (metis less_add_one add.commute zero_less_Suc plus_1_eq_Suc)
  qed
qed

text \<open>A packet with a name has a size, and the sizes of the queue do not overflow.\<close>

lemma packet_bytes_length:
  "packet_frozen x \<Longrightarrow> length (packet_bytes x) \<ge> length (v_Payload (p_Data x)) + length (p_Name x)"
proof -
  assume "packet_frozen x"
  then have "MkPayload (p_Data x) = v_Payload (p_Data x)"
    by (metis packet_frozen_def frozen_v_sel(4) vaccess.distinct(1))
  then show ?thesis by (simp add: packet_bytes_def MakePacket_def ToPacket_def pack_def)
qed

lemma packet_size_nat:
  assumes "packet_frozen x" and "length (packet_bytes x) < 2 ^ 31"
  shows "unat (packet_size x) = length (v_Payload (p_Data x)) + length (p_Name x)"
proof -
  have l: "length (v_Payload (p_Data x)) + length (p_Name x) < 2 ^ 31" using packet_bytes_length [OF assms(1)] assms(2) by simp
  have "ucast (of_nat (length (v_Payload (p_Data x))) :: uint32) = (of_nat (length (v_Payload (p_Data x))) :: uint64)"
    using l by (intro word_unat_eq_iff [THEN iffD2]) (simp add: unsigned_ucast_eq unat_of_nat take_bit_nat_eq_self)
  then have "packet_size x = of_nat (length (v_Payload (p_Data x)) + length (p_Name x))" by (simp add: packet_size_def)
  then show ?thesis using l by (simp add: unat_of_nat del: of_nat_add)
qed

lemma sum_size_nat:
  assumes "list_all packet_frozen xs" and "length (concat (map packet_bytes xs)) < 2 ^ 31"
  shows "unat (sum_list (map packet_size xs)) = sum_list (map (\<lambda>x. length (v_Payload (p_Data x)) + length (p_Name x)) xs)
    \<and> sum_list (map (\<lambda>x. length (v_Payload (p_Data x)) + length (p_Name x)) xs) \<le> length (concat (map packet_bytes xs))"
  using assms
proof (induction xs)
  case (Cons x xs)
  have x: "packet_frozen x" "length (packet_bytes x) < 2 ^ 31" using Cons.prems by simp_all
  note s = packet_size_nat [OF x] packet_bytes_length [OF x(1)]
  have IH: "unat (sum_list (map packet_size xs)) = sum_list (map (\<lambda>x. length (v_Payload (p_Data x)) + length (p_Name x)) xs)"
    "sum_list (map (\<lambda>x. length (v_Payload (p_Data x)) + length (p_Name x)) xs) \<le> length (concat (map packet_bytes xs))"
    using Cons by auto
  have "unat (packet_size x) + unat (sum_list (map packet_size xs)) < 2 ^ LENGTH(64)" using s IH Cons.prems(2) by simp
  then have "unat (packet_size x + sum_list (map packet_size xs)) = unat (packet_size x) + unat (sum_list (map packet_size xs))"
    by (rule unat_add_lem [THEN iffD1])
  then show ?case using s IH by simp
qed simp

definition named :: "var_packet list \<Rightarrow> bool" where
  "named xs = (list_all (\<lambda>x. p_Name x \<noteq> []) xs \<and> length (concat (map packet_bytes xs)) < 2 ^ 31)"

lemma queue_size_positive:
  assumes "queue_ok q" and "named (m_Deque q)" and "m_Deque q \<noteq> []"
  shows "0 < to_int32 (uint (m_QueueSize q))"
proof -
  have f: "list_all packet_frozen (m_Deque q)" "m_QueueSize q = sum_list (map packet_size (m_Deque q))" using assms(1) by (simp_all add: queue_ok_def)
  have b: "length (concat (map packet_bytes (m_Deque q))) < 2 ^ 31" using assms(2) by (simp add: named_def)
  note s = sum_size_nat [OF f(1) b]
  obtain x xs where "m_Deque q = x # xs" "p_Name x \<noteq> []" using assms(2,3) by (cases "m_Deque q") (auto simp: named_def)
  then have "0 < sum_list (map (\<lambda>x. length (v_Payload (p_Data x)) + length (p_Name x)) (m_Deque q))" by simp
  then have "0 < unat (m_QueueSize q)" "unat (m_QueueSize q) < 2 ^ 31" using s b unfolding f(2) by linarith+
  then have "0 < unat (m_QueueSize q)" "unat (m_QueueSize q) < 2147483648" by simp_all
  then have "0 < uint (m_QueueSize q)" "uint (m_QueueSize q) < 2147483648" unfolding uint_nat by linarith+
  then show ?thesis by (simp add: to_int32_id)
qed

section \<open>The rounds of a sender\<close>

definition sender_ok :: "'k session \<Rightarrow> bool" where
  "sender_ok s = (queue_ok (m_PacketQueue s) \<and> named (m_Deque (m_PacketQueue s)) \<and> up_free s \<and> \<not> m_LockQueue s \<and> m_Receiving s = [])"

lemma named_drop: "named xs \<Longrightarrow> named (drop n xs)"
proof -
  assume n: "named xs"
  have "concat (map packet_bytes xs) = concat (map packet_bytes (take n xs)) @ concat (map packet_bytes (drop n xs))"
    by (simp flip: concat_append map_append)
  then have "length (concat (map packet_bytes (drop n xs))) \<le> length (concat (map packet_bytes xs))" by simp
  then show ?thesis using n by (auto simp: named_def list_all_iff dest: in_set_dropD)
qed

lemma sent_sender_ok: "sender_ok s \<Longrightarrow> sent oc n s s' \<Longrightarrow> sender_ok s'"
  by (auto simp: sender_ok_def sent_def Let_def named_drop split: prod.splits)

lemma Process_sends:
  assumes "sender_ok s"
  shows "fst (Process_session oc ifs s) = Returned \<and>
    (\<exists>n. sent oc n s (snd (Process_session oc ifs s)) \<and> (m_Deque (m_PacketQueue s) \<noteq> [] \<longrightarrow> 0 < n))"
proof -
  let ?s1 = "s\<lparr>m_Down := RequestBandwidth (m_Id s) (to_int32 (int (length (m_Receiving s)))) (m_Down s)\<rparr>"
  let ?s2 = "?s1\<lparr>m_Up := RequestBandwidth (m_Id s) (to_int32 (uint (m_QueueSize (m_PacketQueue s)))) (m_Up s)\<rparr>"
  have "recv_loop oc ifs ?s1 = (Returned, ?s1)" using assms by (subst recv_loop.simps) (simp add: sender_ok_def)
  then have P: "Process_session oc ifs s = (Returned, send_loop oc ?s2)"
    using assms by (simp add: Process_session_def Let_def sender_ok_def)
  have free: "up_free ?s2" using assms by (simp add: up_free_def sender_ok_def lim.free_request)
  have q: "queue_ok (m_PacketQueue ?s2)" using assms by (simp add: sender_ok_def)
  have s2: "sent oc 0 s ?s2" using free assms by (simp add: sent_def sender_ok_def)
  have "to_int32 (uint (m_QueueSize (m_PacketQueue s))) \<le> Quota_up ?s2"
    using lim.request_quota [of "m_Id s" "m_Up s" "to_int32 (uint (m_QueueSize (m_PacketQueue s)))"] assms
    by (simp add: Quota_up_def up_free_def sender_ok_def)
  then have "0 < Quota_up ?s2" if "m_Deque (m_PacketQueue s) \<noteq> []"
    using queue_size_positive [of "m_PacketQueue s"] assms that by (simp add: sender_ok_def)
  then obtain n where "sent oc n ?s2 (send_loop oc ?s2)" "m_Deque (m_PacketQueue s) \<noteq> [] \<longrightarrow> 0 < n"
    using send_loop_sent [OF q free, of oc] by auto
  then show ?thesis using sent_trans [OF s2] P by auto
qed

text \<open>\<open>n\<close> calls of \<open>Process\<close>; the session of the last one.\<close>

fun rounds :: "'k outside \<Rightarrow> (bytes, nat) qmap \<Rightarrow> nat \<Rightarrow> 'k session \<Rightarrow> 'k session" where
  "rounds oc ifs 0 s = s"
| "rounds oc ifs (Suc n) s = rounds oc ifs n (snd (Process_session oc ifs s))"

lemma rounds_sent:
  assumes "sender_ok s"
  shows "\<exists>k. sent oc k s (rounds oc ifs n s) \<and> min n (length (m_Deque (m_PacketQueue s))) \<le> k"
  using assms
proof (induction n arbitrary: s)
  case 0
  then show ?case using sent_0 [of s oc] by (auto simp: sender_ok_def)
next
  case (Suc n)
  let ?s1 = "snd (Process_session oc ifs s)"
  obtain k where k: "sent oc k s ?s1" "m_Deque (m_PacketQueue s) \<noteq> [] \<longrightarrow> 0 < k"
    using Process_sends [OF Suc.prems, of oc ifs] by auto
  obtain m where m: "sent oc m ?s1 (rounds oc ifs n ?s1)" "min n (length (m_Deque (m_PacketQueue ?s1))) \<le> m"
    using Suc.IH [OF sent_sender_ok [OF Suc.prems k(1)]] by auto
  have "length (m_Deque (m_PacketQueue ?s1)) = length (m_Deque (m_PacketQueue s)) - k" using k(1) by (auto simp: sent_def Let_def split: prod.splits)
  then have "min (Suc n) (length (m_Deque (m_PacketQueue s))) \<le> k + m" using k(2) m(2) by (cases "m_Deque (m_PacketQueue s) = []") auto
  then show ?case using sent_trans [OF k(1) m(1)] by auto
qed

section \<open>Receiving\<close>

definition no_encrypt :: "'k reply list \<Rightarrow> bool" where
  "no_encrypt rs = list_all (\<lambda>r. case r of Encrypt_reply _ _ \<Rightarrow> False | _ \<Rightarrow> True) rs"

definition recv_same :: "'k session \<Rightarrow> 'k session \<Rightarrow> bool" where
  "recv_same s s' = (m_Id s' = m_Id s \<and> m_Receiving s' = m_Receiving s \<and> m_Decryptor s' = m_Decryptor s
     \<and> m_Down s' = m_Down s \<and> m_Handed s' = m_Handed s)"

lemma recv_same_trans: "recv_same s s' \<Longrightarrow> recv_same s' s'' \<Longrightarrow> recv_same s s''"
  by (simp add: recv_same_def)

lemma run_replies_same: "no_encrypt rs \<Longrightarrow> recv_same s (run_replies oc rs s)"
proof (induction oc rs s rule: run_replies.induct)
  case (2 oc n d p rs s)
  then show ?case
    by (cases "QueuePacket n d p s") (fastforce simp: no_encrypt_def recv_same_def QueuePacket_def)+
qed (auto simp: no_encrypt_def recv_same_def SendPacket_fields SetQueueLock_def)

lemma send_loop_same: "recv_same s (send_loop oc s)"
proof (induction oc s rule: send_loop.induct)
  case (1 oc s)
  show ?case
  proof (cases "Quota_up s > 0 \<and> (\<exists>x. Front (m_PacketQueue s) = Some x)")
    case True
    then obtain x where "Front (m_PacketQueue s) = Some x" by auto
    with 1 True show ?thesis by (subst send_loop.simps) (fastforce simp: recv_same_def SendPacket_fields Let_def)
  next
    case False
    then have "send_loop oc s = s" by (subst send_loop.simps) auto
    then show ?thesis by (simp add: recv_same_def)
  qed
qed

definition prefix_of :: "bytes \<Rightarrow> bytes" where
  "prefix_of Name = takeWhile (\<lambda>c. c \<noteq> 58) Name"

definition handed_of :: "(bytes, nat) qmap \<Rightarrow> var_packet \<Rightarrow> handed" where
  "handed_of ifs x = (the (map_of ifs (prefix_of (p_Name x))), p_Name x, p_Data x)"

definition deliverable :: "(bytes, nat) qmap \<Rightarrow> var_packet \<Rightarrow> bool" where
  "deliverable ifs x = (packet_frozen x \<and> v_Type (p_Data x) = EMap \<and> length (p_Name x) < 128
     \<and> p_Name x \<noteq> [] \<and> hd (p_Name x) \<noteq> 58 \<and> prefix_of (p_Name x) \<in> qkeys ifs)"

lemma packet_frozen_wf:
  assumes "packet_frozen x"
  shows "wf_v (p_Data x) \<and> fits (p_Data x) \<and> MkPayload (p_Data x) = v_Payload (p_Data x)"
proof -
  have f: "p_Data x = frozen_v vReadOnly (v_Type (p_Data x)) (v_Payload (p_Data x))" and l: "v_Type (p_Data x) < 64" "length (v_Payload (p_Data x)) < 2 ^ 32"
    using assms by (auto simp: packet_frozen_def)
  have m: "MkPayload (p_Data x) = v_Payload (p_Data x)" by (subst f, rule frozen_v_sel(4)) simp
  moreover have "wf_v (p_Data x)" by (subst f, subst wf_frozen_v) (use l in simp_all)
  ultimately show ?thesis using l by (simp add: fits_def)
qed

lemma StreamPacket_packet:
  assumes "deliverable ifs x"
  shows "StreamPacket u crc (packet_bytes x @ r) = Stream_packet (p_Name x) (p_Data x) r"
    and "0 < n \<Longrightarrow> n < length (packet_bytes x) \<Longrightarrow> StreamPacket u crc (take n (packet_bytes x)) = Stream_wait"
proof -
  have f: "packet_frozen x" and l: "length (p_Name x) < 128" using assms by (simp_all add: deliverable_def)
  note w = packet_frozen_wf [OF f]
  have d: "p_Data x = frozen_v vReadOnly (v_Type (p_Data x)) (v_Payload (p_Data x))" using f by (simp add: packet_frozen_def)
  show "StreamPacket u crc (packet_bytes x @ r) = Stream_packet (p_Name x) (p_Data x) r"
    using StreamPacket_MakePacket [of "p_Data x" "p_Name x" u crc r] w l d by (simp add: packet_bytes_def)
  show "0 < n \<Longrightarrow> n < length (packet_bytes x) \<Longrightarrow> StreamPacket u crc (take n (packet_bytes x)) = Stream_wait"
    using StreamPacket_prefix [of "p_Data x" "p_Name x" n u crc] w l by (simp add: packet_bytes_def)
qed

lemma packet_bytes_nonempty: "packet_bytes x \<noteq> []"
  by (simp add: packet_bytes_def MakePacket_def)

lemma GetType_map: "v_Type v = EMap \<Longrightarrow> GetType_v v = Some EMap"
  by (simp add: GetType_v_def inner.simps type_defs)

lemma received_packet:
  assumes "deliverable ifs x" and "m_Receiving s = packet_bytes x @ r" and "down_free s"
    and "length (m_Receiving s) < 2 ^ 31" and "int (length (m_Receiving s)) \<le> Quota_down s" and "\<And>h. no_encrypt (o_user oc h)"
  shows "m_Receiving (received oc ifs (p_Name x) (p_Data x) r s) = r \<and> down_free (received oc ifs (p_Name x) (p_Data x) r s)
    \<and> int (length r) \<le> Quota_down (received oc ifs (p_Name x) (p_Data x) r s)
    \<and> m_Handed (received oc ifs (p_Name x) (p_Data x) r s) = m_Handed s @ [handed_of ifs x]
    \<and> m_Id (received oc ifs (p_Name x) (p_Data x) r s) = m_Id s \<and> m_Decryptor (received oc ifs (p_Name x) (p_Data x) r s) = m_Decryptor s"
proof -
  let ?n = "length (packet_bytes x)" and ?h = "m_Handed s @ [handed_of ifs x]"
  let ?s1 = "s\<lparr>m_Receiving := r, m_Down := CountBandwidth (m_Id s) (int ?n) (m_Down s), m_Handed := ?h\<rparr>"
  have n: "to_int32 (int ?n) = int ?n" using assms(2,4) by (intro to_int32_id) simp_all
  obtain c cs where c: "p_Name x = c # cs" "c \<noteq> 58" using assms(1) by (cases "p_Name x") (auto simp: deliverable_def)
  obtain i where i: "map_of ifs (prefix_of (p_Name x)) = Some i"
    using qkeys_Some [of "prefix_of (p_Name x)" ifs] assms(1) by (auto simp: deliverable_def)
  then have h: "handed_of ifs x = (i, p_Name x, p_Data x)" by (simp add: handed_of_def)
  have e: "received oc ifs (p_Name x) (p_Data x) r s = run_replies oc (o_user oc ?h) ?s1"
    using assms(1,2) n c i h by (simp add: received_def GetType_map deliverable_def Let_def ProcessPacket_session_def ProcessPacket_smart_def prefix_of_def)
  have f: "down_free ?s1" using assms(3) by (simp add: down_free_def lim.free_count)
  have "Quota_down s - int ?n \<le> Quota_down ?s1"
    using lim.count_quota [of "m_Id s" "m_Down s" "int ?n"] assms(3) by (simp add: Quota_down_def down_free_def)
  then have q: "int (length r) \<le> Quota_down ?s1" using assms(2,5) by simp
  have s: "recv_same ?s1 (run_replies oc (o_user oc ?h) ?s1)" by (rule run_replies_same [OF assms(6)])
  show ?thesis unfolding e using s f q by (simp add: recv_same_def down_free_def Quota_down_def)
qed

definition starts :: "bytes \<Rightarrow> var_packet list \<Rightarrow> bool" where
  "starts p xs = (p = [] \<or> (\<exists>x ys n. xs = x # ys \<and> n < length (packet_bytes x) \<and> p = take n (packet_bytes x)))"

text \<open>Receiving whole packets and the start of one more.\<close>

lemma recv_loop_delivers:
  assumes "m_Receiving s = concat (map packet_bytes xs) @ part" and "list_all (deliverable ifs) (xs @ ys)" and "starts part ys"
    and "down_free s" and "length (m_Receiving s) < 2 ^ 31" and "int (length (m_Receiving s)) \<le> Quota_down s"
    and "\<And>h. no_encrypt (o_user oc h)"
  shows "\<exists>s'. recv_loop oc ifs s = (Returned, s') \<and> m_Receiving s' = part \<and> m_Handed s' = m_Handed s @ map (handed_of ifs) xs
    \<and> m_Id s' = m_Id s \<and> m_Decryptor s' = m_Decryptor s \<and> down_free s'"
  using assms
proof (induction xs arbitrary: s)
  case Nil
  show ?case
  proof (cases "part = []")
    case True
    then have "recv_loop oc ifs s = (Returned, s)" using Nil by (subst recv_loop.simps) simp
    then show ?thesis using True Nil by simp
  next
    case False
    then obtain x zs n where x: "ys = x # zs" "n < length (packet_bytes x)" "part = take n (packet_bytes x)" "0 < n"
      using Nil(3) by (auto simp: starts_def)
    have "StreamPacket (o_uncompress oc) (o_crc oc) part = Stream_wait"
      using StreamPacket_packet(2) [of ifs x n] Nil(2) x by simp
    then have "recv_loop oc ifs s = (Returned, s)" using Nil by (subst recv_loop.simps) simp
    then show ?thesis using Nil by simp
  qed
next
  case (Cons x xs)
  let ?r = "concat (map packet_bytes xs) @ part" and ?s1 = "received oc ifs (p_Name x) (p_Data x) (concat (map packet_bytes xs) @ part) s"
  have x: "deliverable ifs x" using Cons.prems(2) by simp
  have r: "m_Receiving s = packet_bytes x @ ?r" using Cons.prems(1) by simp
  note R = received_packet [OF x r Cons.prems(4,5,6,7)]
  have q: "0 < Quota_down s" "m_Receiving s \<noteq> []" using Cons.prems(6) r packet_bytes_nonempty [of x]
    by (cases "packet_bytes x"; simp)+
  have "StreamPacket (o_uncompress oc) (o_crc oc) (m_Receiving s) = Stream_packet (p_Name x) (p_Data x) ?r"
    unfolding r by (rule StreamPacket_packet(1) [OF x])
  then have e: "recv_loop oc ifs s = recv_loop oc ifs ?s1" using q by (subst recv_loop.simps) simp
  have "\<exists>s'. recv_loop oc ifs ?s1 = (Returned, s') \<and> m_Receiving s' = part \<and> m_Handed s' = m_Handed ?s1 @ map (handed_of ifs) xs
    \<and> m_Id s' = m_Id ?s1 \<and> m_Decryptor s' = m_Decryptor ?s1 \<and> down_free s'"
    by (rule Cons.IH) (use R Cons.prems in auto)
  then show ?case using e R by auto
qed

text \<open>What a receiver does with the chunks that arrive: \<open>StreamIn\<close> by the transport, then \<open>Process\<close>.\<close>

fun feed :: "'k outside \<Rightarrow> (bytes, nat) qmap \<Rightarrow> bytes list \<Rightarrow> 'k session \<Rightarrow> session_end \<times> 'k session" where
  "feed oc ifs [] s = (Returned, s)"
| "feed oc ifs (c # cs) s =
     (case Process_session oc ifs (StreamIn oc c s) of
        (Returned, s) \<Rightarrow> feed oc ifs cs s
      | r \<Rightarrow> r)"

text \<open>A start of a stream of packets is some of them and the start of the next one.\<close>

lemma stream_split:
  "p @ q = concat (map packet_bytes zs) \<Longrightarrow>
     \<exists>xs ys part. zs = xs @ ys \<and> p = concat (map packet_bytes xs) @ part \<and> starts part ys
       \<and> part @ q = concat (map packet_bytes ys)"
proof (induction zs arbitrary: p)
  case Nil
  then show ?case by (auto simp: starts_def)
next
  case (Cons z zs)
  show ?case
  proof (cases "length p < length (packet_bytes z)")
    case True
    have "p = take (length p) (packet_bytes z @ concat (map packet_bytes zs))" using Cons.prems by (metis append_eq_conv_conj concat.simps(2) list.simps(9))
    then have "p = take (length p) (packet_bytes z)" using True by simp
    then have "starts p (z # zs)" using True by (auto simp: starts_def)
    then show ?thesis using Cons.prems by (intro exI [of _ "[]"] exI [of _ "z # zs"] exI [of _ p]) simp
  next
    case False
    have "packet_bytes z = take (length (packet_bytes z)) (p @ q)" using Cons.prems by simp
    then have "packet_bytes z = take (length (packet_bytes z)) p" using False by simp
    then obtain p' where p': "p = packet_bytes z @ p'" by (metis append_take_drop_id)
    then have p'': "p' @ q = concat (map packet_bytes zs)" using Cons.prems by simp
    from Cons.IH [OF p''] obtain xs ys part where s: "zs = xs @ ys" "p' = concat (map packet_bytes xs) @ part"
      "starts part ys" "part @ q = concat (map packet_bytes ys)" by auto
    then show ?thesis using p' by (intro exI [of _ "z # xs"] exI [of _ ys] exI [of _ part]) simp
  qed
qed

lemma starts_short: "starts p ys \<Longrightarrow> p = concat (map packet_bytes ys) \<Longrightarrow> ys = []"
  using packet_bytes_nonempty by (auto simp: starts_def) (metis (no_types, lifting) append_eq_conv_conj length_take min.absorb2 less_imp_le nat_neq_iff append_Nil2 length_append le_add1 not_le)

lemma feed_delivers:
  assumes "m_Receiving r @ concat (fst (crypts (o_decrypt oc) (m_Decryptor r) cs)) = concat (map packet_bytes zs)"
    and "starts (m_Receiving r) zs" and "list_all (deliverable ifs) zs" and "length (concat (map packet_bytes zs)) < 2 ^ 31"
    and "down_free r" and "\<And>h. no_encrypt (o_user oc h)"
  shows "\<exists>r'. feed oc ifs cs r = (Returned, r') \<and> m_Receiving r' = [] \<and> m_Handed r' = m_Handed r @ map (handed_of ifs) zs"
  using assms(1-5)
proof (induction cs arbitrary: r zs)
  case Nil
  then have "zs = []" using starts_short [of "m_Receiving r" zs] by simp
  then show ?case using Nil by simp
next
  case (Cons c cs)
  obtain d k where d: "crypt (o_decrypt oc) (m_Decryptor r) c = (d, k)" by fastforce
  obtain q where q: "concat (fst (crypts (o_decrypt oc) k cs)) = q" by simp
  define r1 where "r1 = r\<lparr>m_Receiving := m_Receiving r @ d, m_Decryptor := k\<rparr>"
  let ?r2 = "r1\<lparr>m_Down := RequestBandwidth (m_Id r) (to_int32 (int (length (m_Receiving r1)))) (m_Down r)\<rparr>"
  have S: "StreamIn oc c r = r1" by (simp add: StreamIn_def d r1_def)
  have "(m_Receiving r @ d) @ q = concat (map packet_bytes zs)" using Cons.prems(1) d q by (simp split: prod.splits)
  from stream_split [OF this] obtain xs ys part where s: "zs = xs @ ys" "m_Receiving r @ d = concat (map packet_bytes xs) @ part"
    "starts part ys" "part @ q = concat (map packet_bytes ys)" by auto
  have "length part \<le> length (concat (map packet_bytes ys))" by (simp flip: s(4))
  then have len: "length (m_Receiving r @ d) < 2 ^ 31" using Cons.prems(4) unfolding s(1,2) by simp
  then have i: "to_int32 (int (length (m_Receiving r1))) = int (length (m_Receiving r1))" by (intro to_int32_id) (simp_all add: r1_def)
  have f: "down_free ?r2" using Cons.prems(5) by (simp add: down_free_def r1_def lim.free_request)
  have qd: "int (length (m_Receiving ?r2)) \<le> Quota_down ?r2"
    using lim.request_quota [of "m_Id r" "m_Down r" "int (length (m_Receiving r1))"] Cons.prems(5) i
    by (simp add: Quota_down_def down_free_def r1_def)
  have "\<exists>s'. recv_loop oc ifs ?r2 = (Returned, s') \<and> m_Receiving s' = part \<and> m_Handed s' = m_Handed ?r2 @ map (handed_of ifs) xs
    \<and> m_Id s' = m_Id ?r2 \<and> m_Decryptor s' = m_Decryptor ?r2 \<and> down_free s'"
    by (rule recv_loop_delivers [where ys = ys]) (use s len f qd Cons.prems(3) assms(6) in \<open>simp_all add: r1_def\<close>)
  then obtain s' where s': "recv_loop oc ifs ?r2 = (Returned, s')" "m_Receiving s' = part" "m_Handed s' = m_Handed r @ map (handed_of ifs) xs"
    "m_Decryptor s' = k" "down_free s'" by (auto simp: r1_def)
  obtain s'' where P: "Process_session oc ifs r1 = (Returned, s'')" and same: "recv_same s' s''"
  proof (cases "m_LockQueue s'")
    case True
    then show thesis using that [of s'] s'(1) by (simp add: Process_session_def Let_def r1_def recv_same_def)
  next
    case False
    let ?s = "s'\<lparr>m_Up := RequestBandwidth (m_Id s') (to_int32 (uint (m_QueueSize (m_PacketQueue s')))) (m_Up s')\<rparr>"
    have same: "recv_same s' ?s" by (simp add: recv_same_def)
    have "Process_session oc ifs r1 = (Returned, send_loop oc ?s)" using s'(1) False by (simp add: Process_session_def Let_def r1_def)
    then show thesis by (rule that [OF _ recv_same_trans [OF same send_loop_same]])
  qed
  have "\<exists>r'. feed oc ifs cs s'' = (Returned, r') \<and> m_Receiving r' = [] \<and> m_Handed r' = m_Handed s'' @ map (handed_of ifs) ys"
    by (rule Cons.IH) (use same s' s q Cons.prems in \<open>auto simp: recv_same_def down_free_def\<close>)
  then show ?case using S P same s'(3) s(1) by (auto simp: recv_same_def)
qed

section \<open>Properties\<close>


text \<open>
  C36. Packets queued in one session arrive at the other side: when no limit applies to the two sessions, as many rounds
  of \<open>Process\<close> as there are packets empty the queue of the sender, and when the bytes it wrote arrive in any chunks, the
  receiver returns from every round and hands over exactly the packets of the queue, each to the interface of its
  prefix, in the order of the queue, and nothing is left. This holds with and without a cipher that restores a stream.
\<close>

theorem queued_packets_arrive:
  assumes sender: "sender_ok s" "m_Sending s = []"
    and receiver: "m_Receiving r = []" "down_free r" "\<And>h. no_encrypt (o_user oc' h)"
    and packets: "list_all (deliverable ifs') (m_Deque (m_PacketQueue s))"
    and cipher: "stream_cipher (o_encrypt oc) (o_decrypt oc') (m_Encryptor s) (m_Decryptor r)"
    and stream: "concat cs = m_Sending (rounds oc ifs (length (m_Deque (m_PacketQueue s))) s)"
  shows "m_Deque (m_PacketQueue (rounds oc ifs (length (m_Deque (m_PacketQueue s))) s)) = []
    \<and> (\<exists>r'. feed oc' ifs' cs r = (Returned, r') \<and> m_Receiving r' = []
      \<and> m_Handed r' = m_Handed r @ map (handed_of ifs') (m_Deque (m_PacketQueue s)))"
proof -
  let ?xs = "m_Deque (m_PacketQueue s)" and ?s' = "rounds oc ifs (length (m_Deque (m_PacketQueue s))) s"
  obtain k where k: "sent oc k s ?s'" "length ?xs \<le> k" using rounds_sent [OF sender(1), of oc ifs "length ?xs"] by auto
  then have e: "m_Deque (m_PacketQueue ?s') = []" "m_Sending ?s' = concat (fst (crypts (o_encrypt oc) (m_Encryptor s) (map packet_bytes ?xs)))"
    using sender(2) by (auto simp: sent_def Let_def split: prod.splits)
  then have "concat (fst (crypts (o_decrypt oc') (m_Decryptor r) cs)) = concat (map packet_bytes ?xs)"
    using cipher stream by (simp add: stream_cipher_def)
  then have "\<exists>r'. feed oc' ifs' cs r = (Returned, r') \<and> m_Receiving r' = [] \<and> m_Handed r' = m_Handed r @ map (handed_of ifs') ?xs"
    using feed_delivers [of r oc' cs ?xs ifs'] receiver packets sender(1) by (simp add: starts_def sender_ok_def named_def)
  then show ?thesis using e(1) by simp
qed

text \<open>Two packets of one queue, an interface that answers each packet it gets, and a cipher that adds a running key.\<close>

fun xor_stream :: "uint8 \<Rightarrow> bytes \<Rightarrow> bytes \<times> uint8" where
  "xor_stream k [] = ([], k)"
| "xor_stream k (x # xs) = (case xor_stream (k + 1) xs of (ys, k') \<Rightarrow> ((x XOR k) # ys, k'))"

lemma xor_stream_length: "length (fst (xor_stream k d)) = length d"
  by (induction k d rule: xor_stream.induct) (simp_all split: prod.split, metis fst_conv)

lemma crypt_xor: "crypt xor_stream (Some k) d = (fst (xor_stream k d), Some (snd (xor_stream k d)))"
  using xor_stream_length [of k d] by (simp add: crypt_def in_place_def case_prod_beta)

lemma xor_stream_append:
  "xor_stream k (xs @ ys) = (fst (xor_stream k xs) @ fst (xor_stream (snd (xor_stream k xs)) ys), snd (xor_stream (snd (xor_stream k xs)) ys))"
  by (induction k xs rule: xor_stream.induct) (simp_all split: prod.split)

lemma crypts_xor: "concat (fst (crypts xor_stream (Some k) ds)) = fst (xor_stream k (concat ds))"
  by (induction ds arbitrary: k) (simp_all add: crypt_xor xor_stream_append split: prod.split, metis fst_conv)

lemma xor_xor: "fst (xor_stream k (fst (xor_stream k d))) = d"
  by (induction k d rule: xor_stream.induct) (simp_all add: case_prod_beta xor.assoc)

lemma xor_cipher: "stream_cipher xor_stream xor_stream (Some k) (Some k)"
  unfolding stream_cipher_def crypts_xor by (metis xor_xor)

lemma new_session_free: "unlimited p (new_limiter i p new_bw)"
  by (simp add: unlimited_def new_limiter_def AddLimit_def UpdateLimits_def on_limit_def Add_limiter_def new_bw_def new_limit_def)

definition sample_outside :: "uint8 outside" where
  "sample_outside = \<lparr>o_uncompress = (\<lambda>_ _. Z_FAIL), o_crc = (\<lambda>_. [0, 0, 0, 0]), o_encrypt = xor_stream, o_decrypt = xor_stream,
     o_user = (\<lambda>h. case last h of (i, n, v) \<Rightarrow> [Queue_reply (n @ [33]) v 0])\<rparr>"

definition sample_pushes :: "(bytes \<times> variant \<times> int) list" where
  "sample_pushes = [([75, 58, 97], Init_v EMap [], 0), ([75, 58, 98], Variant EMap [1, 97, 81, 65, 7] vReadOnly None None, 5)]"

definition sample_sender :: "uint8 session" where
  "sample_sender = (new_session 1 0 0 0 new_bw new_bw)\<lparr>m_PacketQueue := the (push_all sample_pushes new_packets), m_Encryptor := Some 9\<rparr>"

definition sample_receiver :: "uint8 session" where
  "sample_receiver = (new_session 4 0 0 0 new_bw new_bw)\<lparr>m_Decryptor := Some 9\<rparr>"

lemma sample_pushes_ok: "list_all push_arg_ok sample_pushes"
  by (simp add: sample_pushes_def push_arg_ok_def Init_v_def type_defs fits_def MkPayload.simps)


lemma sample_queue: "queue_ok (m_PacketQueue sample_sender)
  \<and> m_Deque (m_PacketQueue sample_sender) =
    [new_packet [75, 58, 98] (Variant EMap [1, 97, 81, 65, 7] vReadOnly None None) 5 2, new_packet [75, 58, 97] (Init_v EMap []) 0 1]"
proof -
  have "queue_ok new_packets" by (simp add: queue_ok_def new_packets_def by_priority_def)
  from push_all_sorts [OF this sample_pushes_ok] obtain q where q: "push_all sample_pushes new_packets = Some q" "queue_ok q"
    "m_Deque q = sort_key (\<lambda>x. - p_Priority x) (pushed sample_pushes 0)" by (auto simp: new_packets_def)
  then show ?thesis by (simp add: sample_sender_def sample_pushes_def new_packet_def)
qed

definition sample_interfaces :: "(bytes, nat) qmap" where
  "sample_interfaces = [([75], 3)]"

lemma sample_deliverable: "list_all (deliverable sample_interfaces) (m_Deque (m_PacketQueue sample_sender))"
  by (simp add: sample_queue deliverable_def packet_frozen_def new_packet_def frozen_v_def Init_v_def type_defs MkPayload.simps
      prefix_of_def sample_interfaces_def)

lemma sample_sender_ok: "sender_ok sample_sender"
proof -
  have "named (m_Deque (m_PacketQueue sample_sender))"
    by (simp add: sample_queue named_def new_packet_def packet_bytes_def MakePacket_def ToPacket_def pack_def write_head_def to_le_def
        frozen_v_def Init_v_def type_defs MkPayload.simps)
  then show ?thesis using sample_queue
    by (simp add: sender_ok_def up_free_def sample_sender_def new_session_free new_session_def)
qed

theorem queued_packets_arrive_witness:
  "\<exists>r'. feed sample_outside sample_interfaces
      [take 3 (m_Sending (rounds sample_outside [] 2 sample_sender)), drop 3 (m_Sending (rounds sample_outside [] 2 sample_sender))]
      sample_receiver = (Returned, r')
    \<and> m_Handed r' = [(3, [75, 58, 98], frozen_v vReadOnly EMap [1, 97, 81, 65, 7]), (3, [75, 58, 97], frozen_v vReadOnly EMap [])]"
proof -
  have l: "length (m_Deque (m_PacketQueue sample_sender)) = 2" by (simp add: sample_queue)
  have r: "down_free sample_receiver" "m_Receiving sample_receiver = []" "m_Handed sample_receiver = []"
    by (simp_all add: down_free_def new_session_free sample_receiver_def new_session_def)
  have s: "m_Sending sample_sender = []" by (simp add: sample_sender_def new_session_def)
  have u: "no_encrypt (o_user sample_outside h)" for h by (simp add: sample_outside_def no_encrypt_def split: prod.split)
  have c: "stream_cipher (o_encrypt sample_outside) (o_decrypt sample_outside) (m_Encryptor sample_sender) (m_Decryptor sample_receiver)"
    using xor_cipher [of 9] by (simp add: sample_outside_def sample_sender_def sample_receiver_def)
  have m: "map (handed_of sample_interfaces) (m_Deque (m_PacketQueue sample_sender)) =
      [(3, [75, 58, 98], frozen_v vReadOnly EMap [1, 97, 81, 65, 7]), (3, [75, 58, 97], frozen_v vReadOnly EMap [])]"
    by (simp add: sample_queue handed_of_def prefix_of_def new_packet_def sample_interfaces_def)
      (simp add: frozen_v_def Init_v_def type_defs MkPayload.simps)
  define S where "S = m_Sending (rounds sample_outside [] 2 sample_sender)"
  have "concat [take 3 S, drop 3 S] = m_Sending (rounds sample_outside [] (length (m_Deque (m_PacketQueue sample_sender))) sample_sender)"
    by (simp only: S_def l concat.simps append_Nil2 append_take_drop_id)
  from queued_packets_arrive [OF sample_sender_ok s r(2,1) u sample_deliverable c this] show ?thesis
    unfolding m r(3) S_def [symmetric] append_Nil by blast
qed

text \<open>
  An exception of \<open>StreamPacket\<close> leaves \<open>Process\<close>: the \<open>try\<close> is around the hand over only. The bytes stay, so that the
  next call throws again.
\<close>

lemma Process_throws:
  assumes "StreamPacket (o_uncompress oc) (o_crc oc) (m_Receiving s) = Stream_throw"
    and "down_free s" and "m_Receiving s \<noteq> []" and "length (m_Receiving s) < 2 ^ 31"
  shows "\<exists>s'. Process_session oc ifs s = (Thrown, s') \<and> m_Receiving s' = m_Receiving s \<and> down_free s' \<and> m_Handed s' = m_Handed s"
proof -
  let ?s1 = "s\<lparr>m_Down := RequestBandwidth (m_Id s) (to_int32 (int (length (m_Receiving s)))) (m_Down s)\<rparr>"
  have i: "to_int32 (int (length (m_Receiving s))) = int (length (m_Receiving s))" using assms(4) by (intro to_int32_id) simp_all
  have "int (length (m_Receiving s)) \<le> Quota_down ?s1"
    using lim.request_quota [of "m_Id s" "m_Down s" "int (length (m_Receiving s))"] assms(2) i by (simp add: Quota_down_def down_free_def)
  then have "0 < Quota_down ?s1" using assms(3) by (cases "m_Receiving s") auto
  then have "recv_loop oc ifs ?s1 = (Thrown, ?s1)" using assms(1,3) by (subst recv_loop.simps) simp
  then show ?thesis using assms(2) by (simp add: Process_session_def Let_def down_free_def lim.free_request)
qed

text \<open>A packet as \<open>MakePacket\<close> writes it, with the flag and the value of a checksum.\<close>

definition with_checksum :: "bytes \<Rightarrow> variant \<Rightarrow> bytes \<Rightarrow> bytes" where
  "with_checksum Name v chk = (of_nat (length Name) OR 0x80) # tl (MakePacket Name v) @ chk"

lemma bad_checksum:
  assumes "wf_v v" and "fits v" and "length Name < 128" and "length chk = 4"
  shows "crc ((of_nat (length Name) OR 0x80) # tl (MakePacket Name v)) \<noteq> chk \<Longrightarrow>
    StreamPacket u crc (with_checksum Name v chk @ r) = Stream_throw"
proof -
  let ?d = "MkPayload v"
  obtain b h where s: "MakePacket Name v = of_nat (length Name) # Name @ b # h @ ?d"
    "\<And>r. read_size b (h @ r) = Some (of_nat (length ?d), r)"
    "length h = (if b AND ELen32 = ELen8 then 1 else if b AND ELen32 = ELen16 then 2 else 4)"
    by (rule MakePacket_shape [OF assms(1,2), of Name]) (rule that)
  have l: "unat (of_nat (length ?d) :: uint32) = length ?d" using assms(2) by (simp add: fits_def unat_of_nat)
  have "(of_nat (length Name) OR 0x80) AND 0x80 = (0x80 :: uint8)" "(of_nat (length Name) OR 0x80) AND 0x7F = (of_nat (length Name) AND 0x7F :: uint8)"
    by (simp_all add: bit.conj_disj_distrib2)
  then have nb: "(of_nat (length Name) OR 0x80) AND 0x80 \<noteq> (0 :: uint8)" "unat ((of_nat (length Name) OR 0x80) AND 0x7F :: uint8) = length Name"
    using name_len_byte [OF assms(3)] by simp_all
  let ?p = "(of_nat (length Name) OR 0x80) # Name @ b # h @ ?d"
  have t: "take (1 + length Name + (1 + length h + length ?d)) (?p @ chk @ r) = ?p" "take 4 (drop (1 + length Name + (1 + length h + length ?d)) (?p @ chk @ r)) = chk"
    using assms(4) by simp_all
  have sz: "(if b AND ELen32 = ELen8 then 1 else if b AND ELen32 = ELen16 then 2 else 4) = length h" using s(3) by simp
  show "crc ((of_nat (length Name) OR 0x80) # tl (MakePacket Name v)) \<noteq> chk \<Longrightarrow>
    StreamPacket u crc (with_checksum Name v chk @ r) = Stream_throw"
    using nb t assms(4) unfolding with_checksum_def s(1) StreamPacket_def
    by (simp add: Let_def s(2) l sz del: One_nat_def split del: if_split)
qed



end
