(* ===== verification/Spec2Isabelle.thy ===== *)
theory Spec2Isabelle
  imports PartMap TreeSetter HashSet LookupTable VariantSpec SessionSpec
begin

text \<open>
  NeoLoader: a verification library of its core data structures.

  NeoLoader (under \<open>src/NeoLoader\<close>) is a file sharing client for several networks, with a Kademlia
  node (\<open>src/NeoKad\<close>) and a small framework (\<open>src/Framework\<close>).  What a transfer knows about a file
  lives in range maps from file offsets to states, what it receives is checked against hash sets and
  hash trees, packets are built in byte buffers, and peers are found through a routing tree of 128
  bit identifiers.  The library models these parts.
\<close>

end
